(* ===== verification/Prelude.thy ===== *)
theory Prelude
  imports Main "HOL-Library.Word" "HOL-Library.Monad_Syntax"
begin

text \<open>
  What every component of the model shares: object pointers, the typed heap and its
  faulting accesses, the kernel's error numbers, the answers of the kernel allocator, and
  the theory of doubly linked chains over a heap.

  A kernel function that touches memory is a function into \<open>option\<close>: \<open>Some\<close> is a normal
  return, \<open>None\<close> is every way of not returning (a \<open>panic\<close> or failed \<open>assert\<close>, a fault on
  NULL or on freed memory, or a loop that never ends). Error returns are ordinary values:
  the function returns the negative error number, as the C does.
\<close>

section \<open>Pointers and heaps\<close>

type_synonym ptr = nat
type_synonym 'n heap = "ptr \<Rightarrow> 'n option"

abbreviation NULL :: ptr where "NULL \<equiv> 0"

type_synonym u8 = "8 word"
type_synonym u32 = "32 word"
type_synonym u64 = "64 word"

text \<open>Reading the object at \<open>p\<close> (\<open>*p\<close>, \<open>p->f\<close>) faults on NULL and on memory that is not
  allocated; \<open>p->f = v\<close> faults in the same cases.\<close>

definition hget :: "'n heap \<Rightarrow> ptr \<Rightarrow> 'n option" where
  "hget h p = (if p = NULL then None else h p)"

definition hupd :: "ptr \<Rightarrow> ('n \<Rightarrow> 'n) \<Rightarrow> 'n heap \<Rightarrow> 'n heap option" where
  "hupd p f h = (case hget h p of None \<Rightarrow> None | Some n \<Rightarrow> Some (h(p \<mapsto> f n)))"

text \<open>The guarded store \<open>if (p) p->f = v\<close>.\<close>

definition hupd_if :: "ptr \<Rightarrow> ('n \<Rightarrow> 'n) \<Rightarrow> 'n heap \<Rightarrow> 'n heap option" where
  "hupd_if p f h = (if p \<noteq> NULL then hupd p f h else Some h)"

text \<open>\<open>assert(c, msg)\<close> and \<open>assert_msg\<close>: panic unless the condition holds.\<close>

definition kassert :: "bool \<Rightarrow> unit option" where
  "kassert c = (if c then Some () else None)"

lemma kassert_True [simp]: "kassert True = Some ()"
  and kassert_False [simp]: "kassert False = None"
  by (simp_all add: kassert_def)

lemma kassert_Some [simp]: "kassert c = Some u \<longleftrightarrow> c"
  by (simp add: kassert_def)

lemma hget_NULL [simp]: "hget h NULL = None"
  by (simp add: hget_def)

lemma hget_nonNULL: "p \<noteq> NULL \<Longrightarrow> hget h p = h p"
  by (simp add: hget_def)

lemma hget_Some: "hget h p = Some n \<longleftrightarrow> p \<noteq> NULL \<and> h p = Some n"
  by (auto simp: hget_def)

lemma hupd_Some: "hupd p f h = Some h' \<longleftrightarrow> (\<exists>n. p \<noteq> NULL \<and> h p = Some n \<and> h' = h(p \<mapsto> f n))"
  by (auto simp: hupd_def hget_def split: option.splits)

lemma hupd_mapped: "p \<noteq> NULL \<Longrightarrow> h p = Some n \<Longrightarrow> hupd p f h = Some (h(p \<mapsto> f n))"
  by (simp add: hupd_def hget_def)

lemma hupd_if_NULL [simp]: "hupd_if NULL f h = Some h"
  by (simp add: hupd_if_def)

lemma hupd_if_nonNULL: "p \<noteq> NULL \<Longrightarrow> hupd_if p f h = hupd p f h"
  by (simp add: hupd_if_def)

lemma hupd_commute:
  assumes "p \<noteq> r \<or> (\<forall>n. f (g n) = g (f n))"
  shows "do { h \<leftarrow> hupd_if p f h; hupd_if r g h } = do { h \<leftarrow> hupd_if r g h; hupd_if p f h }"
  using assms
  by (cases "h p"; cases "h r"; cases "p = NULL"; cases "r = NULL"; cases "p = r")
     (auto simp: hupd_if_def hupd_def hget_def fun_upd_twist)

lemma unat_u64_lt: "unat (k :: u64) < 2 ^ 64"
  using unsigned_less [of k] by simp

section \<open>Error numbers\<close>

definition EPERM :: int where "EPERM = 1"
definition ENOENT :: int where "ENOENT = 2"
definition EINTR :: int where "EINTR = 4"
definition EAGAIN :: int where "EAGAIN = 11"
definition ENOMEM :: int where "ENOMEM = 12"
definition EACCES :: int where "EACCES = 13"
definition EEXIST :: int where "EEXIST = 17"
definition EINVAL :: int where "EINVAL = 22"
definition ENOTEMPTY :: int where "ENOTEMPTY = 39"

lemmas errno_defs = EPERM_def ENOENT_def EINTR_def EAGAIN_def ENOMEM_def EACCES_def
  EEXIST_def EINVAL_def ENOTEMPTY_def

section \<open>The kernel allocator as its clients see it\<close>

text \<open>
  A client of \<open>kmalloc\<close> sees a sequence of answers. The model keeps the answers still to
  come as a list: each call consumes one. The answer NULL is an allocation failure; an
  answer that is in use (for which \<open>used\<close> holds) is not one an allocator may give and
  counts as a failure too, so every list of answers is the behaviour of some allocator.
\<close>

definition kmalloc :: "(ptr \<Rightarrow> bool) \<Rightarrow> ptr list \<Rightarrow> ptr \<times> ptr list" where
  "kmalloc used ps = (case ps of [] \<Rightarrow> (NULL, [])
     | p # ps' \<Rightarrow> (if p = NULL \<or> used p then NULL else p, ps'))"

lemma kmalloc_fresh: "kmalloc used ps = (p, ps') \<Longrightarrow> p \<noteq> NULL \<Longrightarrow> \<not> used p"
  by (auto simp: kmalloc_def split: list.splits if_splits)

text \<open>\<open>kfree\<close> reads the header in front of the object: freeing NULL does nothing, freeing what is
  not allocated reads freed memory.\<close>

definition kfree :: "ptr \<Rightarrow> 'n heap \<Rightarrow> 'n heap option" where
  "kfree p h = (if p = NULL then Some h else case h p of None \<Rightarrow> None | Some _ \<Rightarrow> Some (h(p := None)))"

section \<open>Doubly linked chains\<close>

text \<open>\<open>first_of xs d\<close> and \<open>last_of xs d\<close>: the ends of a chain, or \<open>d\<close> when it is empty.\<close>

fun first_of :: "'a list \<Rightarrow> 'a \<Rightarrow> 'a" where
  "first_of [] d = d"
| "first_of (x # xs) d = x"

fun last_of :: "'a list \<Rightarrow> 'a \<Rightarrow> 'a" where
  "last_of [] d = d"
| "last_of (x # xs) d = last_of xs x"

lemma last_of_append [simp]: "last_of (xs @ ys) d = last_of ys (last_of xs d)"
  by (induction xs arbitrary: d) auto

lemma first_of_append [simp]: "first_of (xs @ ys) d = first_of xs (first_of ys d)"
  by (cases xs) auto

lemma last_of_in: "xs \<noteq> [] \<Longrightarrow> last_of xs d \<in> set xs"
proof (induction xs arbitrary: d)
  case Nil
  then show ?case by simp
next
  case (Cons x xs)
  then show ?case by (cases xs) auto
qed

lemma first_of_in: "xs \<noteq> [] \<Longrightarrow> first_of xs d \<in> set xs"
  by (cases xs) auto

lemma last_of_nonNULL: "xs \<noteq> [] \<Longrightarrow> NULL \<notin> set xs \<Longrightarrow> last_of xs d \<noteq> NULL"
  using last_of_in [of xs d] by metis

lemma first_of_nonNULL: "xs \<noteq> [] \<Longrightarrow> NULL \<notin> set xs \<Longrightarrow> first_of xs d \<noteq> NULL"
  using first_of_in [of xs d] by metis

text \<open>
  \<open>dchain nxt prv h pr xs nx\<close>: the objects at \<open>xs\<close> are allocated and linked in this order
  by the fields \<open>nxt\<close> and \<open>prv\<close>; the first one's \<open>prv\<close> is \<open>pr\<close>, the last one's \<open>nxt\<close> is \<open>nx\<close>.
\<close>

fun dchain :: "('n \<Rightarrow> ptr) \<Rightarrow> ('n \<Rightarrow> ptr) \<Rightarrow> 'n heap \<Rightarrow> ptr \<Rightarrow> ptr list \<Rightarrow> ptr \<Rightarrow> bool" where
  "dchain nxt prv h pr [] nx \<longleftrightarrow> True"
| "dchain nxt prv h pr (x # xs) nx \<longleftrightarrow>
     (\<exists>n. h x = Some n \<and> prv n = pr \<and> nxt n = first_of xs nx) \<and> dchain nxt prv h x xs nx"

text \<open>A whole list with its two end pointers, as every list head of the kernel keeps it.\<close>

definition dlist :: "('n \<Rightarrow> ptr) \<Rightarrow> ('n \<Rightarrow> ptr) \<Rightarrow> 'n heap \<Rightarrow> ptr \<Rightarrow> ptr \<Rightarrow> ptr list \<Rightarrow> bool" where
  "dlist nxt prv h hp tp xs \<longleftrightarrow>
     dchain nxt prv h NULL xs NULL \<and> distinct xs \<and> NULL \<notin> set xs \<and>
     hp = first_of xs NULL \<and> tp = last_of xs NULL"

lemma dchain_append:
  "dchain nxt prv h pr (xs @ ys) nx \<longleftrightarrow>
     dchain nxt prv h pr xs (first_of ys nx) \<and> dchain nxt prv h (last_of xs pr) ys nx"
  by (induction xs arbitrary: pr) auto

lemma dchain_cong:
  "(\<And>x. x \<in> set xs \<Longrightarrow> h' x = h x) \<Longrightarrow>
     dchain nxt prv h' pr xs nx = dchain nxt prv h pr xs nx"
  by (induction xs arbitrary: pr) auto

lemma dchain_frame [simp]:
  "p \<notin> set xs \<Longrightarrow> dchain nxt prv (h(p := v)) pr xs nx = dchain nxt prv h pr xs nx"
  by (rule dchain_cong) auto

lemma dchain_mapped: "dchain nxt prv h pr xs nx \<Longrightarrow> x \<in> set xs \<Longrightarrow> \<exists>n. h x = Some n"
  by (induction xs arbitrary: pr) auto

lemma dchain_dom: "dchain nxt prv h pr xs nx \<Longrightarrow> set xs \<subseteq> dom h"
  by (auto dest: dchain_mapped)

lemma dchain_at:
  "dchain nxt prv h pr (xs @ x # ys) nx \<Longrightarrow>
     \<exists>n. h x = Some n \<and> prv n = last_of xs pr \<and> nxt n = first_of ys nx"
  by (auto simp: dchain_append)

lemma dlist_Nil [simp]: "dlist nxt prv h hp tp [] \<longleftrightarrow> hp = NULL \<and> tp = NULL"
  by (auto simp: dlist_def)

lemma dlist_cong:
  assumes "\<And>x. x \<in> set xs \<Longrightarrow> h' x = h x"
  shows "dlist nxt prv h' hp tp xs = dlist nxt prv h hp tp xs"
  using dchain_cong [of xs h' h] assms by (simp add: dlist_def)

lemma dlist_frame [simp]:
  "p \<notin> set xs \<Longrightarrow> dlist nxt prv (h(p := v)) hp tp xs = dlist nxt prv h hp tp xs"
  by (rule dlist_cong) auto

lemma dlist_mapped: "dlist nxt prv h hp tp xs \<Longrightarrow> x \<in> set xs \<Longrightarrow> \<exists>n. h x = Some n"
  by (auto simp: dlist_def dest: dchain_mapped)

lemma dlist_at:
  "dlist nxt prv h hp tp (xs @ x # ys) \<Longrightarrow>
     \<exists>n. h x = Some n \<and> prv n = last_of xs NULL \<and> nxt n = first_of ys NULL"
  by (auto simp: dlist_def dest: dchain_at)

lemma dlist_head: "dlist nxt prv h hp tp xs \<Longrightarrow> hp = first_of xs NULL"
  and dlist_tail: "dlist nxt prv h hp tp xs \<Longrightarrow> tp = last_of xs NULL"
  by (simp_all add: dlist_def)

lemma dlist_empty_iff: "dlist nxt prv h hp tp xs \<Longrightarrow> hp = NULL \<longleftrightarrow> xs = []"
  by (cases xs) (auto simp: dlist_def)

lemma dlist_ends:
  assumes "dlist nxt prv h hp tp (as @ p # bs)"
  shows "p = hp \<longleftrightarrow> as = []" "p = tp \<longleftrightarrow> bs = []"
proof -
  from assms have d: "distinct (as @ p # bs)" "hp = first_of (as @ p # bs) NULL"
      "tp = last_of (as @ p # bs) NULL"
    by (simp_all add: dlist_def)
  from d show "p = hp \<longleftrightarrow> as = []" by (cases as) auto
  from d show "p = tp \<longleftrightarrow> bs = []" using last_of_in [of bs p] by auto
qed

text \<open>A chain determines its objects: the same head reaches the same list.\<close>

lemma dchain_unique:
  assumes "dchain nxt prv h pr xs NULL" "dchain nxt prv h pr' ys NULL"
    "first_of xs NULL = first_of ys NULL" "NULL \<notin> set xs" "NULL \<notin> set ys"
  shows "xs = ys"
  using assms
proof (induction xs arbitrary: ys pr pr')
  case Nil
  then show ?case by (cases ys) auto
next
  case (Cons x xs)
  then obtain zs where ys: "ys = x # zs" by (cases ys) auto
  with Cons.prems have "first_of xs NULL = first_of zs NULL" by auto
  with Cons ys show ?case by auto
qed

lemma dlist_unique:
  "dlist nxt prv h hp tp xs \<Longrightarrow> dlist nxt prv h hp tp' ys \<Longrightarrow> xs = ys"
  unfolding dlist_def using dchain_unique by fastforce

text \<open>
  The two stores every unlink in the kernel begins with:
  \<open>if (prev) prev->next = next; if (next) next->prev = prev;\<close>
  \<open>nu\<close> and \<open>pu\<close> are the updates of the two link fields.
\<close>

definition dll_unlink ::
  "((ptr \<Rightarrow> ptr) \<Rightarrow> 'n \<Rightarrow> 'n) \<Rightarrow> ((ptr \<Rightarrow> ptr) \<Rightarrow> 'n \<Rightarrow> 'n) \<Rightarrow> ptr \<Rightarrow> ptr \<Rightarrow> 'n heap \<Rightarrow> 'n heap option"
where
  "dll_unlink nu pu prev next h = do {
     h \<leftarrow> hupd_if prev (nu (\<lambda>_. next)) h;
     hupd_if next (pu (\<lambda>_. prev)) h
   }"

section \<open>The interface of a list node\<close>

text \<open>
  A struct with two link fields. The laws are those of two independent record fields; the
  lemmas say what the stores of the list routines do to a chain. Each node type of the
  kernel (queue nodes, heap regions, memory regions, hash nodes) interprets the locale.
\<close>

locale dll_node =
  fixes nxt prv :: "'n \<Rightarrow> ptr"
    and nu pu :: "(ptr \<Rightarrow> ptr) \<Rightarrow> 'n \<Rightarrow> 'n"
  assumes nxt_nu: "nxt (nu f n) = f (nxt n)"
    and nxt_pu: "nxt (pu f n) = nxt n"
    and prv_nu: "prv (nu f n) = prv n"
    and prv_pu: "prv (pu f n) = f (prv n)"
    and nu_nu: "nu f (nu g n) = nu (f \<circ> g) n"
    and pu_pu: "pu f (pu g n) = pu (f \<circ> g) n"
    and nu_pu: "nu f (pu g n) = pu g (nu f n)"
begin

text \<open>The node without its links: what no list surgery may change.\<close>

definition payload :: "'n \<Rightarrow> 'n" where
  "payload n = nu (\<lambda>_. NULL) (pu (\<lambda>_. NULL) n)"

lemma payload_nu [simp]: "payload (nu f n) = payload n"
  unfolding payload_def by (simp add: nu_nu nu_pu [symmetric] o_def)

lemma payload_pu [simp]: "payload (pu f n) = payload n"
  unfolding payload_def by (simp add: pu_pu o_def)

definition same_payload :: "'n heap \<Rightarrow> 'n heap \<Rightarrow> bool" where
  "same_payload h h' \<longleftrightarrow> (\<forall>x. map_option payload (h' x) = map_option payload (h x))"

lemma same_payload_refl [simp]: "same_payload h h"
  by (simp add: same_payload_def)

lemma same_payload_trans: "same_payload h h' \<Longrightarrow> same_payload h' h'' \<Longrightarrow> same_payload h h''"
  by (simp add: same_payload_def)

lemma same_payload_nu: "h p = Some n \<Longrightarrow> same_payload h (h(p \<mapsto> nu f n))"
  by (simp add: same_payload_def)

lemma same_payload_pu: "h p = Some n \<Longrightarrow> same_payload h (h(p \<mapsto> pu f n))"
  by (simp add: same_payload_def)

lemma set_next_of_last:
  assumes "dchain nxt prv h pr (xs @ [x]) nx" "x \<notin> set xs" "h x = Some n"
  shows "dchain nxt prv (h(x \<mapsto> nu (\<lambda>_. v) n)) pr (xs @ [x]) v"
  using assms by (auto simp: dchain_append nxt_nu prv_nu)

lemma set_prev_of_first:
  assumes "dchain nxt prv h pr (x # xs) nx" "x \<notin> set xs" "h x = Some n"
  shows "dchain nxt prv (h(x \<mapsto> pu (\<lambda>_. v) n)) v (x # xs) nx"
  using assms by (auto simp: nxt_pu prv_pu)

text \<open>Retargeting the last \<open>next\<close> of a (possibly empty) chain with \<open>if (last) last->next = v\<close>.\<close>

lemma retarget_last:
  assumes "dchain nxt prv h NULL xs nx" "distinct xs" "NULL \<notin> set xs"
  obtains h' where "hupd_if (last_of xs NULL) (nu (\<lambda>_. v)) h = Some h'"
    "dchain nxt prv h' NULL xs v" "same_payload h h'" "\<And>y. y \<notin> set xs \<Longrightarrow> h' y = h y"
proof (cases xs rule: rev_cases)
  case Nil
  show thesis by (rule that [of h]) (simp_all add: Nil)
next
  case (snoc ys y)
  with assms obtain n where n: "h y = Some n" "y \<noteq> NULL"
    by (auto simp: dchain_append)
  show thesis
  proof (rule that [of "h(y \<mapsto> nu (\<lambda>_. v) n)"])
    show "dchain nxt prv (h(y \<mapsto> nu (\<lambda>_. v) n)) NULL xs v"
      using set_next_of_last [of h NULL ys y nx n v] assms n snoc by simp
  qed (use n snoc in \<open>auto simp: hupd_if_nonNULL hupd_mapped same_payload_nu\<close>)
qed

text \<open>Retargeting the first \<open>prev\<close> of a (possibly empty) chain with \<open>if (first) first->prev = v\<close>.\<close>

lemma retarget_first:
  assumes "dchain nxt prv h pr xs NULL" "distinct xs" "NULL \<notin> set xs"
  obtains h' where "hupd_if (first_of xs NULL) (pu (\<lambda>_. v)) h = Some h'"
    "dchain nxt prv h' v xs NULL" "same_payload h h'" "\<And>y. y \<notin> set xs \<Longrightarrow> h' y = h y"
proof (cases xs)
  case Nil
  show thesis by (rule that [of h]) (simp_all add: Nil)
next
  case (Cons y ys)
  with assms obtain n where n: "h y = Some n" "y \<noteq> NULL"
    by auto
  show thesis
  proof (rule that [of "h(y \<mapsto> pu (\<lambda>_. v) n)"])
    show "dchain nxt prv (h(y \<mapsto> pu (\<lambda>_. v) n)) v xs NULL"
      using set_prev_of_first [of h pr y ys NULL n v] assms n Cons by simp
  qed (use n Cons in \<open>auto simp: hupd_if_nonNULL hupd_mapped same_payload_pu\<close>)
qed

text \<open>Unlinking the object \<open>p\<close> closes the gap and touches no other object.\<close>

lemma unlink_chain:
  assumes "dchain nxt prv h NULL (as @ p # bs) NULL" "distinct (as @ p # bs)"
    "NULL \<notin> set (as @ p # bs)"
  obtains h' where "dll_unlink nu pu (last_of as NULL) (first_of bs NULL) h = Some h'"
    "dchain nxt prv h' NULL (as @ bs) NULL" "same_payload h h'"
    "\<And>y. y \<notin> set as \<Longrightarrow> y \<notin> set bs \<Longrightarrow> h' y = h y"
proof -
  from assms have as: "dchain nxt prv h NULL as p" and bs: "dchain nxt prv h p bs NULL"
    and d: "distinct as" "distinct bs" "NULL \<notin> set as" "NULL \<notin> set bs" "set as \<inter> set bs = {}"
    by (auto simp: dchain_append)
  obtain h1 where h1: "hupd_if (last_of as NULL) (nu (\<lambda>_. first_of bs NULL)) h = Some h1"
      "dchain nxt prv h1 NULL as (first_of bs NULL)" "same_payload h h1"
      "\<And>y. y \<notin> set as \<Longrightarrow> h1 y = h y"
    using retarget_last [OF as d(1,3)] by blast
  have bs1: "dchain nxt prv h1 p bs NULL"
    using bs d(5) h1(4) dchain_cong [of bs h1 h] by blast
  obtain h2 where h2: "hupd_if (first_of bs NULL) (pu (\<lambda>_. last_of as NULL)) h1 = Some h2"
      "dchain nxt prv h2 (last_of as NULL) bs NULL" "same_payload h1 h2"
      "\<And>y. y \<notin> set bs \<Longrightarrow> h2 y = h1 y"
    using retarget_first [OF bs1 d(2,4)] by blast
  have "dchain nxt prv h2 NULL as (first_of bs NULL)"
    using h1(2) h2(4) d(5) dchain_cong [of as h2 h1] by blast
  then show thesis
    using h1 h2 by (intro that [of h2]) (auto simp: dll_unlink_def dchain_append
        intro: same_payload_trans)
qed

text \<open>Linking a detached object \<open>p\<close> behind the last one of a chain.\<close>

lemma append_chain:
  assumes "dchain nxt prv h NULL xs NULL" "distinct xs" "NULL \<notin> set xs"
    and p: "h p = Some n" "p \<notin> set xs" "p \<noteq> NULL" "prv n = last_of xs NULL" "nxt n = NULL"
  obtains h' where "hupd_if (last_of xs NULL) (nu (\<lambda>_. p)) h = Some h'"
    "dchain nxt prv h' NULL (xs @ [p]) NULL" "same_payload h h'"
    "\<And>y. y \<notin> set xs \<Longrightarrow> h' y = h y"
proof -
  obtain h' where h': "hupd_if (last_of xs NULL) (nu (\<lambda>_. p)) h = Some h'"
      "dchain nxt prv h' NULL xs p" "same_payload h h'" "\<And>y. y \<notin> set xs \<Longrightarrow> h' y = h y"
    using retarget_last [OF assms(1-3)] by blast
  with p show thesis
    by (intro that [of h']) (auto simp: dchain_append)
qed

text \<open>Linking a detached object \<open>p\<close> in front of the first one of a chain.\<close>

lemma push_chain:
  assumes "dchain nxt prv h NULL xs NULL" "distinct xs" "NULL \<notin> set xs"
    and p: "h p = Some n" "p \<notin> set xs" "p \<noteq> NULL" "prv n = NULL" "nxt n = first_of xs NULL"
  obtains h' where "hupd_if (first_of xs NULL) (pu (\<lambda>_. p)) h = Some h'"
    "dchain nxt prv h' NULL (p # xs) NULL" "same_payload h h'"
    "\<And>y. y \<notin> set xs \<Longrightarrow> h' y = h y"
proof -
  obtain h' where h': "hupd_if (first_of xs NULL) (pu (\<lambda>_. p)) h = Some h'"
      "dchain nxt prv h' p xs NULL" "same_payload h h'" "\<And>y. y \<notin> set xs \<Longrightarrow> h' y = h y"
    using retarget_first [OF assms(1-3)] by blast
  with p show thesis
    by (intro that [of h']) auto
qed

end

end
