(* ===== verification/Spinlock.thy ===== *)
theory Spinlock
  imports Prelude
begin

text \<open>
  Spin locks (\<open>include/sync/spinlock.h\<close>) and the interrupt nesting they keep
  (\<open>include/sync/preempt.h\<close>). The first part models the macros as one thread executes them,
  the second interleaves any number of threads, one memory access at a time.

  The debugging fields \<open>s_file\<close> and \<open>s_line\<close> are left out: they are only printed.
\<close>

unbundle bit_operations_syntax

section \<open>Interrupt nesting\<close>

record cpu =
  ncli :: int       \<comment> \<open>depth of \<open>pushcli\<close> nesting\<close>
  intena :: u64     \<comment> \<open>interrupt flag before the outermost \<open>pushcli\<close>\<close>
  rflags :: u64     \<comment> \<open>the flags register; bit 9 is the interrupt flag\<close>

definition is_intena :: "cpu \<Rightarrow> u64" where
  "is_intena c = rflags c AND 0x200"

definition cli :: "cpu \<Rightarrow> cpu" where
  "cli c = c\<lparr>rflags := rflags c AND NOT 0x200\<rparr>"

definition sti :: "cpu \<Rightarrow> cpu" where
  "sti c = c\<lparr>rflags := rflags c OR 0x200\<rparr>"

definition pushcli :: "cpu \<Rightarrow> cpu" where
  "pushcli c =
     (let i = is_intena c; c = cli c;
          c = (if i \<noteq> 0 then c\<lparr>intena := i\<rparr> else c)
      in c\<lparr>ncli := ncli c + 1\<rparr>)"

definition popcli :: "cpu \<Rightarrow> cpu option" where
  "popcli c = do {
     kassert (is_intena c = 0);
     kassert (ncli c \<ge> 1);
     let c = c\<lparr>ncli := ncli c - 1\<rparr>;
     Some (if ncli c = 0 \<and> intena c \<noteq> 0 then sti (c\<lparr>intena := 0\<rparr>) else c)
   }"

section \<open>The lock\<close>

record spinlock =
  s_guard :: u8     \<comment> \<open>protects the structure itself\<close>
  s_tid :: int      \<comment> \<open>thread holding the lock, 0 outside of any thread\<close>
  s_lock :: u8      \<comment> \<open>1 when the lock is held\<close>
  s_apicid :: u8    \<comment> \<open>CPU holding the lock\<close>

definition SPINLOCK_INIT :: spinlock where
  "SPINLOCK_INIT = \<lparr>s_guard = 0, s_tid = 0, s_lock = 0, s_apicid = -1\<rparr>"

text \<open>The executing context: \<open>thread_self()\<close> and \<open>getcpuid()\<close>.\<close>

record ctx =
  self_tid :: int
  self_cpu :: u8

text \<open>The test all three macros make: is the recorded holder the executing context?\<close>

definition spin_self :: "ctx \<Rightarrow> spinlock \<Rightarrow> bool" where
  "spin_self me lk =
     (if s_tid lk \<noteq> 0 then s_tid lk = self_tid me else s_apicid lk = self_cpu me)"

text \<open>\<open>while (atomic_test_and_set(&lk->s_guard))\<close>, executed alone: a guard that is already
  set is never cleared, so the loop does not end.\<close>

definition guard_lock :: "spinlock \<Rightarrow> spinlock option" where
  "guard_lock lk = (if s_guard lk \<noteq> 0 then None else Some (lk\<lparr>s_guard := 1\<rparr>))"

definition guard_clear :: "spinlock \<Rightarrow> spinlock" where
  "guard_clear lk = lk\<lparr>s_guard := 0\<rparr>"

definition spin_islocked :: "ctx \<Rightarrow> cpu \<times> spinlock \<Rightarrow> (bool \<times> cpu \<times> spinlock) option" where
  "spin_islocked me = (\<lambda>(c, lk). do {
     let c = pushcli c;
     lk \<leftarrow> guard_lock lk;
     let locked = spin_self me lk;
     let locked = (s_lock lk \<noteq> 0 \<and> locked);
     let lk = guard_clear lk;
     c \<leftarrow> popcli c;
     Some (locked, c, lk)
   })"

text \<open>\<open>spin_lock\<close>, executed alone: a lock held by the caller panics, and one held by another
  context is never released, so both are \<open>None\<close>.\<close>

definition spin_lock :: "ctx \<Rightarrow> cpu \<times> spinlock \<Rightarrow> (cpu \<times> spinlock) option" where
  "spin_lock me = (\<lambda>(c, lk). do {
     let c = pushcli c;
     lk \<leftarrow> guard_lock lk;
     if s_lock lk = 0 then do {
       let lk = lk\<lparr>s_lock := 1\<rparr>;
       let lk = lk\<lparr>s_apicid := self_cpu me\<rparr>;
       let lk = lk\<lparr>s_tid := self_tid me\<rparr>;
       Some (c, guard_clear lk)
     } else None
   })"

definition spin_unlock :: "ctx \<Rightarrow> cpu \<times> spinlock \<Rightarrow> (cpu \<times> spinlock) option" where
  "spin_unlock me = (\<lambda>(c, lk). do {
     let c = pushcli c;
     lk \<leftarrow> guard_lock lk;
     kassert (spin_self me lk \<and> s_lock lk \<noteq> 0);
     let lk = lk\<lparr>s_lock := 0\<rparr>;
     let lk = lk\<lparr>s_apicid := -1\<rparr>;
     let lk = lk\<lparr>s_tid := 0\<rparr>;
     let lk = guard_clear lk;
     c \<leftarrow> popcli c;
     c \<leftarrow> popcli c;
     Some (c, lk)
   })"

subsection \<open>The lock alone\<close>

text \<open>
  What the macros do to the lock. The data structures of the kernel take and release
  their locks in one routine, where the effect on the CPU cancels out; their models keep
  the lock only.
\<close>

definition lk_held :: "ctx \<Rightarrow> spinlock \<Rightarrow> bool" where
  "lk_held me lk \<longleftrightarrow> s_guard lk = 0 \<and> s_lock lk \<noteq> 0 \<and> spin_self me lk"

definition lk_free :: "spinlock \<Rightarrow> bool" where
  "lk_free lk \<longleftrightarrow> s_guard lk = 0 \<and> s_lock lk = 0"

definition lk_acquire :: "ctx \<Rightarrow> spinlock \<Rightarrow> spinlock option" where
  "lk_acquire me lk =
     (if lk_free lk then Some (lk\<lparr>s_lock := 1, s_apicid := self_cpu me, s_tid := self_tid me\<rparr>)
      else None)"

definition lk_release :: "ctx \<Rightarrow> spinlock \<Rightarrow> spinlock option" where
  "lk_release me lk =
     (if lk_held me lk then Some (lk\<lparr>s_lock := 0, s_apicid := -1, s_tid := 0\<rparr>) else None)"

text \<open>\<open>spin_assert_locked\<close> as the data structures use it.\<close>

definition lk_assert :: "ctx \<Rightarrow> spinlock \<Rightarrow> unit option" where
  "lk_assert me lk = kassert (lk_held me lk)"

lemma lk_assert_held [simp]: "lk_held me lk \<Longrightarrow> lk_assert me lk = Some ()"
  and lk_assert_not_held [simp]: "\<not> lk_held me lk \<Longrightarrow> lk_assert me lk = None"
  by (simp_all add: lk_assert_def)

lemma lk_free_INIT [simp]: "lk_free SPINLOCK_INIT"
  by (simp add: lk_free_def SPINLOCK_INIT_def)

lemma lk_free_not_held: "lk_free lk \<Longrightarrow> \<not> lk_held me lk"
  by (simp add: lk_free_def lk_held_def)

lemma lk_acquire_Some:
  "lk_acquire me lk = Some lk' \<Longrightarrow> lk_held me lk'"
  by (auto simp: lk_acquire_def lk_held_def lk_free_def spin_self_def split: if_splits)

lemma lk_acquire_free: "lk_free lk \<Longrightarrow> \<exists>lk'. lk_acquire me lk = Some lk' \<and> lk_held me lk'"
  by (auto simp: lk_acquire_def lk_held_def lk_free_def spin_self_def)

lemma lk_release_held: "lk_held me lk \<Longrightarrow> \<exists>lk'. lk_release me lk = Some lk' \<and> lk_free lk'"
  by (auto simp: lk_release_def lk_held_def lk_free_def)

lemma lk_acquire_release:
  assumes "lk_free lk"
  obtains lk1 lk2 where "lk_acquire me lk = Some lk1" "lk_held me lk1"
    "lk_release me lk1 = Some lk2" "lk_free lk2"
  using lk_acquire_free [OF assms] lk_release_held by blast

lemma and_not_idle:
  fixes x m :: "'a::len word"
  assumes "x AND m = 0"
  shows "x AND NOT m = x"
proof -
  have "x = x AND (m OR NOT m)" by simp
  also have "\<dots> = (x AND m) OR (x AND NOT m)" by (rule bit.conj_disj_distrib)
  finally show ?thesis using assms by simp
qed

lemma and_not_and:
  fixes x m :: "'a::len word"
  shows "(x AND NOT m) AND m = 0"
proof -
  have "(x AND NOT m) AND m = x AND (NOT m AND m)" by (rule and.assoc)
  then show ?thesis by simp
qed

lemma is_intena_pushcli [simp]: "is_intena (pushcli c) = 0"
  using and_not_and [of "rflags c" "0x200"]
  by (simp add: is_intena_def pushcli_def cli_def Let_def del: and_not_numerals)


text \<open>Between two instructions of kernel code: interrupts are off inside a nest, and the
  saved flag is only set there.\<close>

definition cpu_ok :: "cpu \<Rightarrow> bool" where
  "cpu_ok c \<longleftrightarrow> ncli c \<ge> 0 \<and> (ncli c > 0 \<longrightarrow> is_intena c = 0) \<and> (ncli c = 0 \<longrightarrow> intena c = 0)"

lemma and_power_of_two:
  fixes x :: "'a::len word"
  assumes "x AND 2 ^ k \<noteq> 0"
  shows "x AND 2 ^ k = 2 ^ k"
proof -
  have "bit x k"
  proof (rule ccontr)
    assume "\<not> bit x k"
    then have "x AND 2 ^ k = 0"
      by (intro bit_word_eqI) (auto simp: bit_and_iff bit_exp_iff)
    with assms show False by simp
  qed
  then show ?thesis
    by (intro bit_word_eqI) (auto simp: bit_and_iff bit_exp_iff)
qed

lemma and_single_bit: "(x :: u64) AND 0x200 \<noteq> 0 \<Longrightarrow> x AND 0x200 = 0x200"
  using and_power_of_two [of x 9] by simp

lemma clear_set_bit:
  fixes x m :: "'a::len word"
  assumes "x AND m = m"
  shows "(x AND NOT m) OR m = x"
proof -
  have "x = x AND (m OR NOT m)" by simp
  also have "\<dots> = (x AND m) OR (x AND NOT m)" by (rule bit.conj_disj_distrib)
  finally show ?thesis using assms by (simp add: or.commute)
qed

lemma ncli_pushcli: "ncli (pushcli c) = ncli c + 1"
  by (simp add: pushcli_def cli_def Let_def)

lemma pushcli_ok: "cpu_ok c \<Longrightarrow> cpu_ok (pushcli c)"
  by (simp add: cpu_ok_def ncli_pushcli)

lemma popcli_pushcli:
  assumes "cpu_ok c"
  shows "popcli (pushcli c) = Some c"
proof (cases "is_intena c = 0")
  case True
  then have "rflags c AND NOT 0x200 = rflags c"
    using and_not_idle is_intena_def by metis
  with True assms show ?thesis
    by (auto simp: popcli_def pushcli_def cpu_ok_def cli_def is_intena_def Let_def
        del: and_not_numerals)
next
  case False
  with assms have "ncli c = 0" "intena c = 0" by (auto simp: cpu_ok_def)
  moreover have "(rflags c AND NOT 0x200) OR 0x200 = rflags c"
    using False by (intro clear_set_bit and_single_bit) (simp add: is_intena_def)
  moreover have "(rflags c AND NOT 0x200) AND 0x200 = 0"
    by (rule and_not_and)
  ultimately show ?thesis
    using False by (simp add: popcli_def pushcli_def cli_def sti_def is_intena_def Let_def
        del: and_not_numerals)
qed

text \<open>The macros split into an effect on the CPU and one on the lock.\<close>

lemma spin_lock_split:
  "spin_lock me (c, lk) = map_option (\<lambda>lk'. (pushcli c, lk')) (lk_acquire me lk)"
  by (cases lk) (auto simp: spin_lock_def lk_acquire_def lk_free_def guard_lock_def guard_clear_def)

lemma spin_unlock_split:
  assumes "cpu_ok c"
  shows "spin_unlock me (c, lk) = (if lk_held me lk then
     (case popcli c of None \<Rightarrow> None | Some c' \<Rightarrow> map_option (\<lambda>lk'. (c', lk')) (lk_release me lk))
     else None)"
  using popcli_pushcli [OF assms]
  by (cases lk) (auto simp: spin_unlock_def lk_release_def lk_held_def guard_lock_def
      guard_clear_def spin_self_def Let_def split: option.splits)

lemma spin_islocked_split:
  assumes "cpu_ok c" "s_guard lk = 0"
  shows "spin_islocked me (c, lk) = Some (lk_held me lk, c, lk)"
  using popcli_pushcli [OF assms(1)] assms(2)
  by (cases lk) (auto simp: spin_islocked_def lk_held_def guard_lock_def guard_clear_def
      spin_self_def Let_def)

section \<open>Contention: any number of contexts, one access at a time\<close>

text \<open>
  Where a context is inside \<open>spin_lock\<close> (\<open>L_\<dots>\<close>) or \<open>spin_unlock\<close> (\<open>U_\<dots>\<close>): about to
  test-and-set the guard, to test the lock word, to store one of the three fields, or to
  clear the guard. \<open>Stopped\<close> is a failed assertion.
\<close>

datatype pc = Idle | L_guard | L_test | L_lock | L_apicid | L_tid | L_clear | L_retry
  | Held | U_guard | U_test | U_lock | U_apicid | U_tid | U_clear | Stopped

record spin_sys =
  lock :: spinlock
  pcs :: "nat \<Rightarrow> pc"

definition spin_init :: spin_sys where
  "spin_init = \<lparr>lock = SPINLOCK_INIT, pcs = (\<lambda>_. Idle)\<rparr>"

definition goto :: "spin_sys \<Rightarrow> nat \<Rightarrow> pc \<Rightarrow> spin_sys" where
  "goto s i p = s\<lparr>pcs := (pcs s)(i := p)\<rparr>"

text \<open>\<open>who\<close> gives the thread and CPU of each context; a failed test-and-set (the guard is
  set) leaves the state as it is and needs no rule.\<close>

inductive spin_step :: "(nat \<Rightarrow> ctx) \<Rightarrow> spin_sys \<Rightarrow> spin_sys \<Rightarrow> bool" for who where
  call_lock: "pcs s i = Idle \<Longrightarrow> spin_step who s (goto s i L_guard)"
| lock_guard: "pcs s i = L_guard \<Longrightarrow> s_guard (lock s) = 0 \<Longrightarrow>
    spin_step who s (goto (s\<lparr>lock := (lock s)\<lparr>s_guard := 1\<rparr>\<rparr>) i L_test)"
| lock_test_free: "pcs s i = L_test \<Longrightarrow> s_lock (lock s) = 0 \<Longrightarrow> spin_step who s (goto s i L_lock)"
| lock_test_self: "pcs s i = L_test \<Longrightarrow> s_lock (lock s) \<noteq> 0 \<Longrightarrow> spin_self (who i) (lock s) \<Longrightarrow>
    spin_step who s (goto s i Stopped)"
| lock_test_other: "pcs s i = L_test \<Longrightarrow> s_lock (lock s) \<noteq> 0 \<Longrightarrow> \<not> spin_self (who i) (lock s) \<Longrightarrow>
    spin_step who s (goto s i L_retry)"
| lock_retry: "pcs s i = L_retry \<Longrightarrow>
    spin_step who s (goto (s\<lparr>lock := (lock s)\<lparr>s_guard := 0\<rparr>\<rparr>) i L_guard)"
| lock_lock: "pcs s i = L_lock \<Longrightarrow>
    spin_step who s (goto (s\<lparr>lock := (lock s)\<lparr>s_lock := 1\<rparr>\<rparr>) i L_apicid)"
| lock_apicid: "pcs s i = L_apicid \<Longrightarrow>
    spin_step who s (goto (s\<lparr>lock := (lock s)\<lparr>s_apicid := self_cpu (who i)\<rparr>\<rparr>) i L_tid)"
| lock_tid: "pcs s i = L_tid \<Longrightarrow>
    spin_step who s (goto (s\<lparr>lock := (lock s)\<lparr>s_tid := self_tid (who i)\<rparr>\<rparr>) i L_clear)"
| lock_clear: "pcs s i = L_clear \<Longrightarrow>
    spin_step who s (goto (s\<lparr>lock := (lock s)\<lparr>s_guard := 0\<rparr>\<rparr>) i Held)"
| call_unlock: "pcs s i = Held \<Longrightarrow> spin_step who s (goto s i U_guard)"
| unlock_guard: "pcs s i = U_guard \<Longrightarrow> s_guard (lock s) = 0 \<Longrightarrow>
    spin_step who s (goto (s\<lparr>lock := (lock s)\<lparr>s_guard := 1\<rparr>\<rparr>) i U_test)"
| unlock_test_ok: "pcs s i = U_test \<Longrightarrow> spin_self (who i) (lock s) \<Longrightarrow> s_lock (lock s) \<noteq> 0 \<Longrightarrow>
    spin_step who s (goto s i U_lock)"
| unlock_test_bad: "pcs s i = U_test \<Longrightarrow> \<not> (spin_self (who i) (lock s) \<and> s_lock (lock s) \<noteq> 0) \<Longrightarrow>
    spin_step who s (goto s i Stopped)"
| unlock_lock: "pcs s i = U_lock \<Longrightarrow>
    spin_step who s (goto (s\<lparr>lock := (lock s)\<lparr>s_lock := 0\<rparr>\<rparr>) i U_apicid)"
| unlock_apicid: "pcs s i = U_apicid \<Longrightarrow>
    spin_step who s (goto (s\<lparr>lock := (lock s)\<lparr>s_apicid := -1\<rparr>\<rparr>) i U_tid)"
| unlock_tid: "pcs s i = U_tid \<Longrightarrow>
    spin_step who s (goto (s\<lparr>lock := (lock s)\<lparr>s_tid := 0\<rparr>\<rparr>) i U_clear)"
| unlock_clear: "pcs s i = U_clear \<Longrightarrow>
    spin_step who s (goto (s\<lparr>lock := (lock s)\<lparr>s_guard := 0\<rparr>\<rparr>) i Idle)"

inductive spin_reachable :: "(nat \<Rightarrow> ctx) \<Rightarrow> spin_sys \<Rightarrow> bool" for who where
  start: "spin_reachable who spin_init"
| step: "spin_reachable who s \<Longrightarrow> spin_step who s t \<Longrightarrow> spin_reachable who t"

text \<open>Inside the guarded section, and between the store that takes the lock and the one
  that gives it back.\<close>

definition in_guard :: "pc \<Rightarrow> bool" where
  "in_guard p \<longleftrightarrow> p \<in> {L_test, L_lock, L_apicid, L_tid, L_clear, L_retry,
     U_test, U_lock, U_apicid, U_tid, U_clear}"

definition owning :: "pc \<Rightarrow> bool" where
  "owning p \<longleftrightarrow> p \<in> {L_apicid, L_tid, L_clear, Held, U_guard, U_test, U_lock}"

definition recorded :: "pc \<Rightarrow> bool" where
  "recorded p \<longleftrightarrow> p \<in> {L_clear, Held, U_guard, U_test, U_lock}"

text \<open>No two contexts run as the same thread, or outside threads on the same CPU.\<close>

definition contexts_ok :: "(nat \<Rightarrow> ctx) \<Rightarrow> bool" where
  "contexts_ok who \<longleftrightarrow> (\<forall>i j. i \<noteq> j \<longrightarrow>
     (if self_tid (who j) \<noteq> 0 then self_tid (who i) \<noteq> self_tid (who j)
      else self_cpu (who i) \<noteq> self_cpu (who j)))"

text \<open>In the guarded section with the lock word known to be 0.\<close>

definition unlocked :: "pc \<Rightarrow> bool" where
  "unlocked p \<longleftrightarrow> p \<in> {L_lock, U_apicid, U_tid, U_clear}"

definition guard_inv :: "spin_sys \<Rightarrow> bool" where
  "guard_inv s \<longleftrightarrow>
     (\<forall>i. in_guard (pcs s i) \<longrightarrow> s_guard (lock s) \<noteq> 0) \<and>
     (\<forall>i j. in_guard (pcs s i) \<longrightarrow> in_guard (pcs s j) \<longrightarrow> i = j)"

definition owner_inv :: "spin_sys \<Rightarrow> bool" where
  "owner_inv s \<longleftrightarrow>
     (\<forall>i. owning (pcs s i) \<longrightarrow> s_lock (lock s) \<noteq> 0) \<and>
     (s_lock (lock s) \<noteq> 0 \<longrightarrow> (\<exists>i. owning (pcs s i))) \<and>
     (\<forall>i j. owning (pcs s i) \<longrightarrow> owning (pcs s j) \<longrightarrow> i = j) \<and>
     (\<forall>i. unlocked (pcs s i) \<longrightarrow> s_lock (lock s) = 0)"

definition record_inv :: "(nat \<Rightarrow> ctx) \<Rightarrow> spin_sys \<Rightarrow> bool" where
  "record_inv who s \<longleftrightarrow>
     (\<forall>i. pcs s i = L_tid \<longrightarrow> s_apicid (lock s) = self_cpu (who i)) \<and>
     (\<forall>i. recorded (pcs s i) \<longrightarrow>
        s_tid (lock s) = self_tid (who i) \<and> s_apicid (lock s) = self_cpu (who i)) \<and>
     (\<forall>i. pcs s i \<noteq> Stopped)"

definition spin_inv :: "(nat \<Rightarrow> ctx) \<Rightarrow> spin_sys \<Rightarrow> bool" where
  "spin_inv who s \<longleftrightarrow> guard_inv s \<and> owner_inv s \<and> record_inv who s"

lemma in_guard_simps [simp]:
  "\<not> in_guard Idle" "\<not> in_guard L_guard" "in_guard L_test" "in_guard L_lock" "in_guard L_apicid"
  "in_guard L_tid" "in_guard L_clear" "in_guard L_retry" "\<not> in_guard Held" "\<not> in_guard U_guard"
  "in_guard U_test" "in_guard U_lock" "in_guard U_apicid" "in_guard U_tid" "in_guard U_clear"
  "\<not> in_guard Stopped"
  by (simp_all add: in_guard_def)

lemma owning_simps [simp]:
  "\<not> owning Idle" "\<not> owning L_guard" "\<not> owning L_test" "\<not> owning L_lock" "owning L_apicid"
  "owning L_tid" "owning L_clear" "\<not> owning L_retry" "owning Held" "owning U_guard"
  "owning U_test" "owning U_lock" "\<not> owning U_apicid" "\<not> owning U_tid" "\<not> owning U_clear"
  "\<not> owning Stopped"
  by (simp_all add: owning_def)

lemma recorded_simps [simp]:
  "\<not> recorded Idle" "\<not> recorded L_guard" "\<not> recorded L_test" "\<not> recorded L_lock"
  "\<not> recorded L_apicid" "\<not> recorded L_tid" "recorded L_clear" "\<not> recorded L_retry"
  "recorded Held" "recorded U_guard" "recorded U_test" "recorded U_lock" "\<not> recorded U_apicid"
  "\<not> recorded U_tid" "\<not> recorded U_clear" "\<not> recorded Stopped"
  by (simp_all add: recorded_def)

lemma unlocked_simps [simp]:
  "\<not> unlocked Idle" "\<not> unlocked L_guard" "\<not> unlocked L_test" "unlocked L_lock"
  "\<not> unlocked L_apicid" "\<not> unlocked L_tid" "\<not> unlocked L_clear" "\<not> unlocked L_retry"
  "\<not> unlocked Held" "\<not> unlocked U_guard" "\<not> unlocked U_test" "\<not> unlocked U_lock"
  "unlocked U_apicid" "unlocked U_tid" "unlocked U_clear" "\<not> unlocked Stopped"
  by (simp_all add: unlocked_def)

lemma recorded_owning: "recorded p \<Longrightarrow> owning p"
  by (cases p) auto

lemma unlocked_in_guard: "unlocked p \<Longrightarrow> in_guard p"
  by (cases p) auto

lemma owning_recorded: "owning p \<Longrightarrow> \<not> in_guard p \<Longrightarrow> recorded p"
  by (cases p) auto

lemma goto_sel [simp]: "lock (goto s i p) = lock s" "pcs (goto s i p) = (pcs s)(i := p)"
  by (simp_all add: goto_def)

lemma spin_inv_init: "spin_inv who spin_init"
  by (simp add: spin_inv_def guard_inv_def owner_inv_def record_inv_def spin_init_def
      SPINLOCK_INIT_def)

text \<open>A step that keeps the context's class and the fields concerned keeps the invariant.\<close>

lemma owner_inv_lock:
  "owner_inv s \<Longrightarrow> s_lock l = s_lock (lock s) \<Longrightarrow> owner_inv (s\<lparr>lock := l\<rparr>)"
  by (simp add: owner_inv_def)

lemma owner_inv_goto:
  assumes "owner_inv s" "owning p = owning (pcs s i)" "unlocked p \<Longrightarrow> s_lock (lock s) = 0"
  shows "owner_inv (goto s i p)"
proof -
  have "(\<exists>j. owning (((pcs s)(i := p)) j)) \<longleftrightarrow> (\<exists>j. owning (pcs s j))"
    using assms(2) by (metis fun_upd_apply)
  with assms show ?thesis
    unfolding owner_inv_def by (simp split: if_split_asm) (metis (no_types))
qed

lemma record_inv_lock:
  "record_inv who s \<Longrightarrow> s_tid l = s_tid (lock s) \<Longrightarrow> s_apicid l = s_apicid (lock s) \<Longrightarrow>
     record_inv who (s\<lparr>lock := l\<rparr>)"
  by (simp add: record_inv_def)

lemma record_inv_goto:
  "record_inv who s \<Longrightarrow> (recorded p \<Longrightarrow> recorded (pcs s i)) \<Longrightarrow> p \<noteq> L_tid \<Longrightarrow> p \<noteq> Stopped \<Longrightarrow>
     record_inv who (goto s i p)"
  unfolding record_inv_def by (auto split: if_split_asm)

lemmas spin_inv_intros = owner_inv_lock owner_inv_goto record_inv_lock record_inv_goto

lemma guard_step: "spin_step who s t \<Longrightarrow> guard_inv s \<Longrightarrow> guard_inv t"
  by (induction rule: spin_step.induct) (simp_all add: guard_inv_def, (metis in_guard_simps)+)

text \<open>A context that finds the lock held is not the holder; one that holds it passes the
  test of \<open>spin_unlock\<close>: neither assertion fails.\<close>

lemma test_not_self:
  assumes "contexts_ok who" "spin_inv who s" "pcs s i = L_test" "s_lock (lock s) \<noteq> 0"
  shows "\<not> spin_self (who i) (lock s)"
proof -
  from assms(2,4) obtain j where j: "owning (pcs s j)"
    by (auto simp: spin_inv_def owner_inv_def)
  with assms(3) have "i \<noteq> j" by auto
  with assms(2,3) have "\<not> in_guard (pcs s j)"
    by (metis spin_inv_def guard_inv_def in_guard_simps(3))
  with j have "recorded (pcs s j)" by (rule owning_recorded)
  with assms(2) have "s_tid (lock s) = self_tid (who j)" "s_apicid (lock s) = self_cpu (who j)"
    by (auto simp: spin_inv_def record_inv_def)
  moreover have "if self_tid (who j) \<noteq> 0 then self_tid (who i) \<noteq> self_tid (who j)
      else self_cpu (who i) \<noteq> self_cpu (who j)"
    using assms(1) \<open>i \<noteq> j\<close> unfolding contexts_ok_def by blast
  ultimately show ?thesis
    by (auto simp: spin_self_def split: if_splits)
qed

lemma unlock_self:
  assumes "spin_inv who s" "pcs s i = U_test"
  shows "spin_self (who i) (lock s)" "s_lock (lock s) \<noteq> 0"
proof -
  from assms have "s_tid (lock s) = self_tid (who i)" "s_apicid (lock s) = self_cpu (who i)"
    by (auto simp: spin_inv_def record_inv_def)
  then show "spin_self (who i) (lock s)" by (simp add: spin_self_def)
  from assms show "s_lock (lock s) \<noteq> 0"
    unfolding spin_inv_def owner_inv_def by (metis owning_simps(11))
qed

lemma owner_unique: "spin_inv who s \<Longrightarrow> owning (pcs s i) \<Longrightarrow> owning (pcs s j) \<Longrightarrow> j = i"
  by (auto simp: spin_inv_def owner_inv_def)

lemma unlocked_zero: "spin_inv who s \<Longrightarrow> unlocked (pcs s i) \<Longrightarrow> s_lock (lock s) = 0"
  unfolding spin_inv_def owner_inv_def by blast

lemma unlocked_no_owner: "spin_inv who s \<Longrightarrow> unlocked (pcs s i) \<Longrightarrow> \<not> owning (pcs s j)"
  unfolding spin_inv_def owner_inv_def by blast

lemma in_guard_unique: "spin_inv who s \<Longrightarrow> in_guard (pcs s i) \<Longrightarrow> in_guard (pcs s j) \<Longrightarrow> j = i"
  by (auto simp: spin_inv_def guard_inv_def)

lemma owner_step:
  assumes "spin_step who s t" "contexts_ok who" "spin_inv who s"
  shows "owner_inv t"
  using assms
proof (induction rule: spin_step.induct)
  case (lock_lock s i)
  then have "\<not> owning (pcs s j)" "unlocked (pcs s j) \<Longrightarrow> j = i" for j
    using unlocked_no_owner [of who s i] in_guard_unique [of who s i] unlocked_in_guard by auto
  then show ?case
    unfolding owner_inv_def by auto
next
  case (unlock_lock s i)
  then have "owning (pcs s j) \<Longrightarrow> j = i" for j
    using owner_unique [of who s i] by auto
  then show ?case
    unfolding owner_inv_def by auto
next
  case (lock_test_self s i)
  then show ?case using test_not_self by blast
next
  case (unlock_test_bad s i)
  then show ?case using unlock_self by blast
next
  case (unlock_apicid s i)
  then show ?case
    using unlocked_zero [of who s i] by (auto simp: spin_inv_def intro!: spin_inv_intros)
next
  case (unlock_tid s i)
  then show ?case
    using unlocked_zero [of who s i] by (auto simp: spin_inv_def intro!: spin_inv_intros)
qed (auto simp: spin_inv_def intro!: spin_inv_intros)

lemma record_step:
  assumes "spin_step who s t" "contexts_ok who" "spin_inv who s"
  shows "record_inv who t"
  using assms
proof (induction rule: spin_step.induct)
  case (lock_apicid s i)
  then have "owning (pcs s j) \<Longrightarrow> j = i" for j
    using owner_unique [of who s i] by auto
  with lock_apicid show ?case
    unfolding spin_inv_def record_inv_def
    by (auto dest!: recorded_owning)
next
  case (lock_tid s i)
  then have "owning (pcs s j) \<Longrightarrow> j = i" for j
    using owner_unique [of who s i] by auto
  with lock_tid show ?case
    unfolding spin_inv_def record_inv_def
    by (auto dest!: recorded_owning)
next
  case (unlock_apicid s i)
  then have "\<not> recorded (pcs s j)" "pcs s j \<noteq> L_tid" for j
    using unlocked_no_owner [of who s i j] recorded_owning [of "pcs s j"] by auto
  with unlock_apicid show ?case
    unfolding spin_inv_def record_inv_def by auto
next
  case (unlock_tid s i)
  then have "\<not> recorded (pcs s j)" "pcs s j \<noteq> L_tid" for j
    using unlocked_no_owner [of who s i j] recorded_owning [of "pcs s j"] by auto
  with unlock_tid show ?case
    unfolding spin_inv_def record_inv_def by auto
next
  case (lock_test_self s i)
  then show ?case using test_not_self by blast
next
  case (unlock_test_bad s i)
  then show ?case using unlock_self by blast
qed (auto simp: spin_inv_def intro!: spin_inv_intros)

lemma spin_reachable_inv: "spin_reachable who s \<Longrightarrow> contexts_ok who \<Longrightarrow> spin_inv who s"
proof (induction rule: spin_reachable.induct)
  case start
  show ?case by (rule spin_inv_init)
next
  case (step s t)
  then show ?case
    using guard_step owner_step record_step by (auto simp: spin_inv_def)
qed

section \<open>Nesting\<close>

text \<open>A sequence of \<open>pushcli\<close> (\<open>True\<close>) and \<open>popcli\<close> (\<open>False\<close>) calls on one CPU, as nested and
  overlapping critical sections make them, and the depth they lead to; \<open>None\<close> is a \<open>popcli\<close>
  without its \<open>pushcli\<close>, which panics.\<close>

fun run_cli :: "bool list \<Rightarrow> cpu \<Rightarrow> cpu option" where
  "run_cli [] c = Some c"
| "run_cli (True # bs) c = run_cli bs (pushcli c)"
| "run_cli (False # bs) c = do { c \<leftarrow> popcli c; run_cli bs c }"

fun cli_depth :: "bool list \<Rightarrow> nat \<Rightarrow> nat option" where
  "cli_depth [] n = Some n"
| "cli_depth (True # bs) n = cli_depth bs (Suc n)"
| "cli_depth (False # bs) n = (case n of 0 \<Rightarrow> None | Suc m \<Rightarrow> cli_depth bs m)"

lemma cpu_ok_pushclis: "cpu_ok c \<Longrightarrow> cpu_ok ((pushcli ^^ n) c)"
  by (induction n) (simp_all add: pushcli_ok)

lemma ncli_pushclis: "ncli ((pushcli ^^ n) c) = ncli c + int n"
  by (induction n) (simp_all add: ncli_pushcli)

lemma run_cli_pushclis:
  assumes "cpu_ok c" "ncli c = 0"
  shows "run_cli bs ((pushcli ^^ n) c) = map_option (\<lambda>m. (pushcli ^^ m) c) (cli_depth bs n)"
proof (induction bs n rule: cli_depth.induct)
  case (1 n)
  show ?case by simp
next
  case (2 bs n)
  then show ?case by simp
next
  case (3 bs n)
  show ?case
  proof (cases n)
    case 0
    then show ?thesis using assms(2) by (auto simp: popcli_def kassert_def)
  next
    case (Suc m)
    then show ?thesis
      using 3 popcli_pushcli [OF cpu_ok_pushclis [OF assms(1)], of m] by simp
  qed
qed

section \<open>An uncontended lock is taken\<close>

lemma lock_uncontended:
  assumes "spin_reachable who s" "pcs s i = Idle" "s_guard (lock s) = 0" "s_lock (lock s) = 0"
  shows "spin_reachable who (goto (s\<lparr>lock := (lock s)\<lparr>s_lock := 1, s_apicid := self_cpu (who i),
    s_tid := self_tid (who i)\<rparr>\<rparr>) i Held)"
proof -
  let ?g = "\<lambda>l. s\<lparr>lock := l\<lparr>s_guard := 1\<rparr>\<rparr>"
  let ?l = "lock s"
  note step = spin_reachable.step
  have "spin_reachable who (goto s i L_guard)"
    using step [OF assms(1) call_lock [of _ i]] assms(2) by simp
  from step [OF this lock_guard [of _ i]] assms(3) have "spin_reachable who (goto (?g ?l) i L_test)"
    by (cases "lock s") (simp add: goto_def)
  from step [OF this lock_test_free [of _ i]] assms(4) have "spin_reachable who (goto (?g ?l) i L_lock)"
    by (cases "lock s") (simp add: goto_def)
  from step [OF this lock_lock [of _ i]] have "spin_reachable who (goto (?g (?l\<lparr>s_lock := 1\<rparr>)) i L_apicid)"
    by (cases "lock s") (simp add: goto_def)
  from step [OF this lock_apicid [of _ i]] have "spin_reachable who (goto (?g (?l\<lparr>s_lock := 1, s_apicid := self_cpu (who i)\<rparr>)) i L_tid)"
    by (cases "lock s") (simp add: goto_def)
  from step [OF this lock_tid [of _ i]] have "spin_reachable who (goto (?g (?l\<lparr>s_lock := 1, s_apicid := self_cpu (who i),
      s_tid := self_tid (who i)\<rparr>)) i L_clear)"
    by (cases "lock s") (simp add: goto_def)
  from step [OF this lock_clear [of _ i]] assms(3) show ?thesis
    by (cases "lock s") (simp add: goto_def)
qed

section \<open>Properties\<close>

definition ex_who :: "nat \<Rightarrow> ctx" where
  "ex_who i = \<lparr>self_tid = int i + 1, self_cpu = 0\<rparr>"

lemma ex_who_ok: "contexts_ok ex_who"
  by (simp add: contexts_ok_def ex_who_def)

text \<open>Context 0 has taken the lock and context 1 has started to wait for it.\<close>

definition ex_taken :: spin_sys where
  "ex_taken = \<lparr>lock = \<lparr>s_guard = 0, s_tid = 1, s_lock = 1, s_apicid = 0\<rparr>,
     pcs = (\<lambda>_. Idle)(0 := Held, 1 := L_guard)\<rparr>"

lemma ex_taken_reachable: "spin_reachable ex_who ex_taken"
proof -
  have "spin_reachable ex_who (goto (spin_init\<lparr>lock := \<lparr>s_guard = 0, s_tid = 1, s_lock = 1, s_apicid = 0\<rparr>\<rparr>) 0 Held)"
    using lock_uncontended [OF spin_reachable.start, of 0 ex_who]
    by (simp add: spin_init_def SPINLOCK_INIT_def ex_who_def)
  from spin_reachable.step [OF this call_lock [of _ 1]] show ?thesis
    by (simp add: spin_init_def goto_def ex_taken_def)
qed

text \<open>C1: A spin lock excludes. In every state that any number of contexts reach by locking and
  unlocking, interleaved one memory access at a time, at most one context is between its
  \<open>spin_lock\<close> and its \<open>spin_unlock\<close>, the lock names that context as the holder, and no context
  has hit one of the assertions of the two macros.\<close>

theorem spin_mutual_exclusion:
  assumes "contexts_ok who" "spin_reachable who s"
  shows "(\<forall>i j. pcs s i = Held \<longrightarrow> pcs s j = Held \<longrightarrow> i = j) \<and>
    (\<forall>i. pcs s i = Held \<longrightarrow> s_lock (lock s) \<noteq> 0 \<and> spin_self (who i) (lock s)) \<and>
    (\<forall>i. pcs s i \<noteq> Stopped)"
proof -
  have inv: "owner_inv s" "record_inv who s"
    using spin_reachable_inv [OF assms(2,1)] by (simp_all add: spin_inv_def)
  have held: "owning (pcs s i)" "recorded (pcs s i)" if "pcs s i = Held" for i
    using that by simp_all
  show ?thesis
  proof (intro conjI allI impI)
    show "i = j" if "pcs s i = Held" "pcs s j = Held" for i j
      using inv(1) held(1) that unfolding owner_inv_def by blast
    show "s_lock (lock s) \<noteq> 0" if "pcs s i = Held" for i
      using inv(1) held(1) [OF that] unfolding owner_inv_def by blast
    show "spin_self (who i) (lock s)" if "pcs s i = Held" for i
      using inv(2) held(2) [OF that] by (simp add: record_inv_def spin_self_def)
    show "pcs s i \<noteq> Stopped" for i
      using inv(2) by (simp add: record_inv_def)
  qed
qed

theorem spin_mutual_exclusion_witness:
  "pcs ex_taken 0 = Held \<and> s_lock (lock ex_taken) \<noteq> 0 \<and> spin_self (ex_who 0) (lock ex_taken) \<and>
   pcs ex_taken 1 \<noteq> Held \<and> (\<forall>i. pcs ex_taken i \<noteq> Stopped)"
proof -
  have "pcs ex_taken 0 = Held" by (simp add: ex_taken_def)
  with spin_mutual_exclusion [OF ex_who_ok ex_taken_reachable] show ?thesis by (metis zero_neq_one)
qed

text \<open>Taking and giving back a free lock. Inside, interrupts are off and \<open>spin_islocked\<close>
  answers yes to the holder; afterwards the CPU, its interrupt flag included, is exactly as
  before and the lock is free.\<close>

theorem spin_lock_unlock:
  assumes "cpu_ok c" "lk_free lk"
  shows "\<exists>c1 lk1 lk2. spin_lock me (c, lk) = Some (c1, lk1) \<and> is_intena c1 = 0 \<and>
    spin_islocked me (c1, lk1) = Some (True, c1, lk1) \<and>
    spin_unlock me (c1, lk1) = Some (c, lk2) \<and> lk_free lk2"
proof -
  obtain lk1 lk2 where lk: "lk_acquire me lk = Some lk1" "lk_held me lk1"
      "lk_release me lk1 = Some lk2" "lk_free lk2"
    using lk_acquire_release [OF assms(2)] by blast
  then have "s_guard lk1 = 0" by (simp add: lk_held_def)
  with lk show ?thesis
    using assms(1) pushcli_ok [OF assms(1)] popcli_pushcli [OF assms(1)]
    by (simp add: spin_lock_split spin_unlock_split spin_islocked_split)
qed

theorem spin_lock_unlock_witness:
  "\<exists>c1 lk1 lk2. spin_lock \<lparr>self_tid = 3, self_cpu = 1\<rparr> (\<lparr>ncli = 0, intena = 0, rflags = 0x202\<rparr>, SPINLOCK_INIT) =
      Some (c1, lk1) \<and> is_intena c1 = 0 \<and>
    spin_islocked \<lparr>self_tid = 3, self_cpu = 1\<rparr> (c1, lk1) = Some (True, c1, lk1) \<and>
    spin_unlock \<lparr>self_tid = 3, self_cpu = 1\<rparr> (c1, lk1) =
      Some (\<lparr>ncli = 0, intena = 0, rflags = 0x202\<rparr>, lk2) \<and> lk_free lk2"
  by (rule spin_lock_unlock) (simp_all add: cpu_ok_def)



end
