(* ===== verification/Containers.thy ===== *)
theory Containers
  imports Prelude
begin

text \<open>
  The contract of the kernel's sequential containers. A container accepts or refuses the
  values put into it and hands the stored ones out again; the contract says that it behaves
  as a list, with \<open>add\<close> saying where a new value goes. \<open>fifo\<close> and \<open>lifo\<close> are the two
  instances, and what a client may rely on over any sequence of operations is proved here
  once: the queues, the byte rings and the stacks interpret these locales.
\<close>

datatype 'a cop = Put 'a | Get

datatype 'a cev = Stored 'a | Refused 'a | Got 'a | Empty

text \<open>Running a sequence of operations: \<open>put\<close> reports whether the value was stored, \<open>get\<close>
  the value it hands out, if any.\<close>

fun run_cop :: "('a \<Rightarrow> 's \<Rightarrow> (bool \<times> 's) option) \<Rightarrow> ('s \<Rightarrow> ('a option \<times> 's) option) \<Rightarrow>
    'a cop \<Rightarrow> 's \<Rightarrow> ('a cev \<times> 's) option" where
  "run_cop put get (Put a) s = do { (b, s) \<leftarrow> put a s; Some (if b then Stored a else Refused a, s) }"
| "run_cop put get Get s = do {
     (v, s) \<leftarrow> get s;
     Some (case v of Some a \<Rightarrow> Got a | None \<Rightarrow> Empty, s)
   }"

fun run_cops :: "('a \<Rightarrow> 's \<Rightarrow> (bool \<times> 's) option) \<Rightarrow> ('s \<Rightarrow> ('a option \<times> 's) option) \<Rightarrow>
    'a cop list \<Rightarrow> 's \<Rightarrow> ('a cev list \<times> 's) option" where
  "run_cops put get [] s = Some ([], s)"
| "run_cops put get (c # cs) s = do {
     (e, s) \<leftarrow> run_cop put get c s;
     (es, s) \<leftarrow> run_cops put get cs s;
     Some (e # es, s)
   }"

text \<open>What the events say was stored and handed out, in order.\<close>

fun stored :: "'a cev list \<Rightarrow> 'a list" where
  "stored [] = []"
| "stored (Stored a # es) = a # stored es"
| "stored (_ # es) = stored es"

fun handed_out :: "'a cev list \<Rightarrow> 'a list" where
  "handed_out [] = []"
| "handed_out (Got a # es) = a # handed_out es"
| "handed_out (_ # es) = handed_out es"

text \<open>The contents a list has after an event, when the event is one it may show.\<close>

fun cev_step :: "('a \<Rightarrow> 'a list \<Rightarrow> 'a list) \<Rightarrow> 'a cev \<Rightarrow> 'a list \<Rightarrow> 'a list option" where
  "cev_step add (Stored a) xs = Some (add a xs)"
| "cev_step add (Refused a) xs = Some xs"
| "cev_step add (Got a) xs = (case xs of [] \<Rightarrow> None | x # xs' \<Rightarrow> if x = a then Some xs' else None)"
| "cev_step add Empty xs = (if xs = [] then Some [] else None)"

fun cev_steps :: "('a \<Rightarrow> 'a list \<Rightarrow> 'a list) \<Rightarrow> 'a cev list \<Rightarrow> 'a list \<Rightarrow> 'a list option" where
  "cev_steps add [] xs = Some xs"
| "cev_steps add (e # es) xs = do { ys \<leftarrow> cev_step add e xs; cev_steps add es ys }"

locale container =
  fixes add :: "'a \<Rightarrow> 'a list \<Rightarrow> 'a list"
    and rep :: "'s \<Rightarrow> 'a list \<Rightarrow> bool"
    and put :: "'a \<Rightarrow> 's \<Rightarrow> (bool \<times> 's) option"
    and get :: "'s \<Rightarrow> ('a option \<times> 's) option"
  assumes put_ok: "rep s xs \<Longrightarrow> \<exists>b s'. put a s = Some (b, s') \<and> rep s' (if b then add a xs else xs)"
    and get_Nil: "rep s [] \<Longrightarrow> \<exists>s'. get s = Some (None, s') \<and> rep s' []"
    and get_Cons: "rep s (x # xs) \<Longrightarrow> \<exists>s'. get s = Some (Some x, s') \<and> rep s' xs"
begin

lemma run_cop_refines:
  assumes "rep s xs"
  shows "\<exists>e s' ys. run_cop put get c s = Some (e, s') \<and> cev_step add e xs = Some ys \<and> rep s' ys"
proof (cases c)
  case (Put a)
  with put_ok [OF assms, of a] show ?thesis by (auto split: if_splits)
next
  case Get
  with get_Nil get_Cons assms show ?thesis by (cases xs) fastforce+
qed

text \<open>Any sequence of operations returns, and shows the events of a list.\<close>

lemma run_cops_refines:
  "rep s xs \<Longrightarrow> \<exists>es s' ys. run_cops put get cs s = Some (es, s') \<and>
     cev_steps add es xs = Some ys \<and> rep s' ys"
proof (induction cs arbitrary: s xs)
  case Nil
  then show ?case by simp
next
  case (Cons c cs)
  obtain e s1 ys where 1: "run_cop put get c s = Some (e, s1)" "cev_step add e xs = Some ys" "rep s1 ys"
    using run_cop_refines [OF Cons.prems] by blast
  obtain es s' zs where "run_cops put get cs s1 = Some (es, s')" "cev_steps add es ys = Some zs" "rep s' zs"
    using Cons.IH [OF 1(3)] by blast
  with 1 show ?case by simp
qed

end

section \<open>First in, first out\<close>

lemma fifo_events:
  "cev_steps (\<lambda>a xs. xs @ [a]) es xs = Some ys \<Longrightarrow> xs @ stored es = handed_out es @ ys"
proof (induction es arbitrary: xs)
  case Nil
  then show ?case by simp
next
  case (Cons e es)
  then show ?case
    by (cases e) (fastforce split: list.splits if_splits simp: Option.bind_eq_Some_conv)+
qed

locale fifo = container "\<lambda>a xs. xs @ [a]" rep put get
  for rep :: "'s \<Rightarrow> 'a list \<Rightarrow> bool" and put and get
begin

text \<open>Values come out in the order they went in: the initial contents followed by the stored
  values are the values handed out followed by the final contents.\<close>

lemma fifo_law:
  assumes "rep s xs"
  shows "\<exists>es s' ys. run_cops put get cs s = Some (es, s') \<and> rep s' ys \<and>
    xs @ stored es = handed_out es @ ys"
  using run_cops_refines [OF assms] fifo_events by blast

end

section \<open>Last in, first out\<close>

locale lifo = container "\<lambda>a xs. a # xs" rep put get
  for rep :: "'s \<Rightarrow> 'a list \<Rightarrow> bool" and put and get
begin

lemma get_put:
  assumes "rep s xs" "put a s = Some (True, s')"
  shows "\<exists>s''. get s' = Some (Some a, s'') \<and> rep s'' xs"
  using put_ok [OF assms(1), of a] assms(2) get_Cons by auto

text \<open>Pushing some values and popping as many hands them out in reverse and restores the contents.\<close>

lemma run_gets:
  "rep s (as @ xs) \<Longrightarrow> \<exists>s'. run_cops put get (replicate (length as) Get) s = Some (map Got as, s') \<and> rep s' xs"
proof (induction as arbitrary: s)
  case Nil
  then show ?case by simp
next
  case (Cons a as)
  from get_Cons [of s a "as @ xs"] Cons.prems obtain s1 where
    s1: "get s = Some (Some a, s1)" "rep s1 (as @ xs)" by auto
  with Cons.IH [OF s1(2)] show ?case by auto
qed

lemma run_puts:
  assumes "rep s xs" "run_cops put get (map Put as) s = Some (map Stored as, s')"
  shows "rep s' (rev as @ xs)"
proof -
  have "cev_steps (\<lambda>a xs. a # xs) (map Stored as) xs = Some (rev as @ xs)" for as :: "'a list" and xs
    by (induction as arbitrary: xs) auto
  with run_cops_refines [OF assms(1), of "map Put as"] assms(2) show ?thesis by auto
qed

lemma lifo_law:
  assumes "rep s xs" "run_cops put get (map Put as) s = Some (map Stored as, s')"
  shows "\<exists>s''. run_cops put get (replicate (length as) Get) s' = Some (map Got (rev as), s'') \<and> rep s'' xs"
  using run_gets [OF run_puts [OF assms]] by simp

end

section \<open>Finite maps\<close>

text \<open>The contract of a keyed store: \<open>ins\<close> reports whether the value was stored, and stores only
  under a key that is not there.\<close>

datatype ('k, 'v) kop = KSearch 'k | KInsert 'k 'v | KDelete 'k

datatype ('k, 'v) kev = KFound 'k 'v | KMissing 'k | KStored 'k 'v | KRefused 'k 'v | KDeleted 'k

fun run_kop :: "('k \<Rightarrow> 's \<Rightarrow> 'v option option) \<Rightarrow> ('k \<Rightarrow> 'v \<Rightarrow> 's \<Rightarrow> (bool \<times> 's) option) \<Rightarrow>
    ('k \<Rightarrow> 's \<Rightarrow> 's option) \<Rightarrow> ('k, 'v) kop \<Rightarrow> 's \<Rightarrow> (('k, 'v) kev \<times> 's) option" where
  "run_kop search ins del (KSearch k) s = do {
     r \<leftarrow> search k s;
     Some (case r of Some v \<Rightarrow> KFound k v | None \<Rightarrow> KMissing k, s)
   }"
| "run_kop search ins del (KInsert k v) s = do {
     (b, s) \<leftarrow> ins k v s;
     Some (if b then KStored k v else KRefused k v, s)
   }"
| "run_kop search ins del (KDelete k) s = do { s \<leftarrow> del k s; Some (KDeleted k, s) }"

fun run_kops :: "('k \<Rightarrow> 's \<Rightarrow> 'v option option) \<Rightarrow> ('k \<Rightarrow> 'v \<Rightarrow> 's \<Rightarrow> (bool \<times> 's) option) \<Rightarrow>
    ('k \<Rightarrow> 's \<Rightarrow> 's option) \<Rightarrow> ('k, 'v) kop list \<Rightarrow> 's \<Rightarrow> (('k, 'v) kev list \<times> 's) option" where
  "run_kops search ins del [] s = Some ([], s)"
| "run_kops search ins del (c # cs) s = do {
     (e, s) \<leftarrow> run_kop search ins del c s;
     (es, s) \<leftarrow> run_kops search ins del cs s;
     Some (e # es, s)
   }"

text \<open>The map after an event, when the event is one the map may show.\<close>

fun kev_step :: "('k, 'v) kev \<Rightarrow> ('k \<rightharpoonup> 'v) \<Rightarrow> ('k \<rightharpoonup> 'v) option" where
  "kev_step (KFound k v) m = (if m k = Some v then Some m else None)"
| "kev_step (KMissing k) m = (if m k = None then Some m else None)"
| "kev_step (KStored k v) m = (if m k = None then Some (m(k \<mapsto> v)) else None)"
| "kev_step (KRefused k v) m = Some m"
| "kev_step (KDeleted k) m = Some (m(k := None))"

fun kev_steps :: "('k, 'v) kev list \<Rightarrow> ('k \<rightharpoonup> 'v) \<Rightarrow> ('k \<rightharpoonup> 'v) option" where
  "kev_steps [] m = Some m"
| "kev_steps (e # es) m = do { m \<leftarrow> kev_step e m; kev_steps es m }"

locale key_map =
  fixes rep :: "'s \<Rightarrow> ('k \<rightharpoonup> 'v) \<Rightarrow> bool"
    and search :: "'k \<Rightarrow> 's \<Rightarrow> 'v option option"
    and ins :: "'k \<Rightarrow> 'v \<Rightarrow> 's \<Rightarrow> (bool \<times> 's) option"
    and del :: "'k \<Rightarrow> 's \<Rightarrow> 's option"
  assumes search_ok: "rep s m \<Longrightarrow> search k s = Some (m k)"
    and ins_ok: "rep s m \<Longrightarrow> \<exists>b s'. ins k v s = Some (b, s') \<and> rep s' (if b then m(k \<mapsto> v) else m) \<and>
      (b \<longrightarrow> m k = None)"
    and del_ok: "rep s m \<Longrightarrow> \<exists>s'. del k s = Some s' \<and> rep s' (m(k := None))"
begin

lemma run_kop_refines:
  assumes "rep s m"
  shows "\<exists>e s' m'. run_kop search ins del c s = Some (e, s') \<and> kev_step e m = Some m' \<and> rep s' m'"
proof (cases c)
  case (KSearch k)
  with search_ok [OF assms, of k] assms show ?thesis by (auto split: option.splits)
next
  case (KInsert k v)
  with ins_ok [OF assms, of k v] show ?thesis by (auto split: if_splits)
next
  case (KDelete k)
  with del_ok [OF assms, of k] show ?thesis by auto
qed

text \<open>Any sequence of operations returns, and shows the events of a finite map.\<close>

lemma run_kops_refines:
  "rep s m \<Longrightarrow> \<exists>es s' m'. run_kops search ins del cs s = Some (es, s') \<and>
     kev_steps es m = Some m' \<and> rep s' m'"
proof (induction cs arbitrary: s m)
  case Nil
  then show ?case by simp
next
  case (Cons c cs)
  obtain e s1 m1 where 1: "run_kop search ins del c s = Some (e, s1)" "kev_step e m = Some m1" "rep s1 m1"
    using run_kop_refines [OF Cons.prems] by blast
  obtain es s' m' where "run_kops search ins del cs s1 = Some (es, s')" "kev_steps es m1 = Some m'" "rep s' m'"
    using Cons.IH [OF 1(3)] by blast
  with 1 show ?case by simp
qed

end

end
