(* ===== verification/Queue.thy ===== *)
theory Queue
  imports Spinlock Containers
begin

text \<open>
  The kernel's queues (\<open>ds/queue.c\<close>): doubly linked lists of heap-allocated nodes behind a
  locked header. The model keeps the pointers: nodes and headers live in typed heaps, and
  every store of the C code is a store of the model. The lemmas relate a header to the
  list of its nodes and show that each routine is the list operation it implements.
\<close>

section \<open>State\<close>

record queue_node =
  qn_prev :: ptr
  qn_data :: ptr
  qn_next :: ptr
  qn_queue :: ptr

record queue =
  q_head :: ptr
  q_tail :: ptr
  q_count :: u64
  q_lock :: spinlock

record qstate =
  qnodes :: "queue_node heap"
  queues :: "queue heap"
  qmem :: "ptr list"     \<comment> \<open>the answers \<open>kmalloc\<close> is going to give\<close>

text \<open>\<open>QUEUE_INIT()\<close>: all zeros, the CPU of the lock included.\<close>

definition QUEUE_INIT :: queue where
  "QUEUE_INIT = \<lparr>q_head = NULL, q_tail = NULL, q_count = 0,
     q_lock = \<lparr>s_guard = 0, s_tid = 0, s_lock = 0, s_apicid = 0\<rparr>\<rparr>"

datatype queue_relloc = QUEUE_RELLOC_TAIL | QUEUE_RELLOC_HEAD

definition q_used :: "qstate \<Rightarrow> ptr \<Rightarrow> bool" where
  "q_used s p \<longleftrightarrow> qnodes s p \<noteq> None \<or> queues s p \<noteq> None"

text \<open>\<open>q->f = v\<close> on the header.\<close>

definition upd_queue :: "ptr \<Rightarrow> (queue \<Rightarrow> queue) \<Rightarrow> qstate \<Rightarrow> qstate option" where
  "upd_queue q f s = do { m \<leftarrow> hupd q f (queues s); Some (s\<lparr>queues := m\<rparr>) }"

definition queue_assert_locked :: "ctx \<Rightarrow> ptr \<Rightarrow> qstate \<Rightarrow> unit option" where
  "queue_assert_locked me q s = do {
     kassert (q \<noteq> NULL);
     qr \<leftarrow> hget (queues s) q;
     lk_assert me (q_lock qr)
   }"

definition queue_lock :: "ctx \<Rightarrow> ptr \<Rightarrow> qstate \<Rightarrow> qstate option" where
  "queue_lock me q s = do {
     kassert (q \<noteq> NULL);
     qr \<leftarrow> hget (queues s) q;
     lk \<leftarrow> lk_acquire me (q_lock qr);
     upd_queue q (q_lock_update (\<lambda>_. lk)) s
   }"

definition queue_unlock :: "ctx \<Rightarrow> ptr \<Rightarrow> qstate \<Rightarrow> qstate option" where
  "queue_unlock me q s = do {
     kassert (q \<noteq> NULL);
     qr \<leftarrow> hget (queues s) q;
     lk \<leftarrow> lk_release me (q_lock qr);
     upd_queue q (q_lock_update (\<lambda>_. lk)) s
   }"

definition queue_islocked :: "ctx \<Rightarrow> ptr \<Rightarrow> qstate \<Rightarrow> bool option" where
  "queue_islocked me q s = do {
     kassert (q \<noteq> NULL);
     qr \<leftarrow> hget (queues s) q;
     Some (lk_held me (q_lock qr))
   }"

section \<open>Operations\<close>

text \<open>Out-parameters: an argument such as \<open>pdp\<close> is \<open>True\<close> when the caller passes a non-NULL
  pointer; the result carries \<open>Some v\<close> exactly when \<open>v\<close> is stored through it.\<close>

definition queue_alloc :: "bool \<Rightarrow> qstate \<Rightarrow> (int \<times> ptr option) \<times> qstate" where
  "queue_alloc pqp s =
     (if \<not> pqp then ((- EINVAL, None), s)
      else let (q, ps) = kmalloc (q_used s) (qmem s); s = s\<lparr>qmem := ps\<rparr> in
        if q = NULL then ((- ENOMEM, None), s)
        else ((0, Some q), s\<lparr>queues := (queues s)(q \<mapsto> QUEUE_INIT\<lparr>q_lock := SPINLOCK_INIT\<rparr>)\<rparr>))"

text \<open>The two stores \<open>if (node == q->head) q->head = next; if (node == q->tail) q->tail = prev;\<close>
  of every removal.\<close>

definition queue_ends :: "ptr \<Rightarrow> ptr \<Rightarrow> ptr \<Rightarrow> queue \<Rightarrow> queue" where
  "queue_ends node prev next qr =
     (let qr = (if node = q_head qr then qr\<lparr>q_head := next\<rparr> else qr)
      in if node = q_tail qr then qr\<lparr>q_tail := prev\<rparr> else qr)"

text \<open>The block that takes \<open>node\<close> out of \<open>q\<close> and frees it; \<open>queue_flush\<close>, \<open>dequeue\<close>,
  \<open>dequeue_tail\<close>, \<open>queue_remove_node\<close> and \<open>queue_remove\<close> all contain it.\<close>

definition queue_unlink :: "ptr \<Rightarrow> ptr \<Rightarrow> qstate \<Rightarrow> qstate option" where
  "queue_unlink q node s = do {
     n \<leftarrow> hget (qnodes s) node;
     let next = qn_next n;
     let prev = qn_prev n;
     h \<leftarrow> dll_unlink qn_next_update qn_prev_update prev next (qnodes s);
     qr \<leftarrow> hget (queues s) q;
     let qr = queue_ends node prev next qr;
     let qr = qr\<lparr>q_count := q_count qr - 1\<rparr>;
     h \<leftarrow> hupd node (qn_queue_update (\<lambda>_. NULL)) h;
     Some (s\<lparr>qnodes := h(node := None), queues := (queues s)(q \<mapsto> qr)\<rparr>)
   }"

partial_function (option) queue_flush_loop :: "ptr \<Rightarrow> ptr \<Rightarrow> qstate \<Rightarrow> qstate option" where
  "queue_flush_loop q node s =
     (if node = NULL then Some s
      else do {
        n \<leftarrow> hget (qnodes s) node;
        let next = qn_next n;
        s \<leftarrow> queue_unlink q node s;
        queue_flush_loop q next s
      })"

definition queue_flush :: "ctx \<Rightarrow> ptr \<Rightarrow> qstate \<Rightarrow> qstate option" where
  "queue_flush me q s = do {
     queue_assert_locked me q s;
     qr \<leftarrow> hget (queues s) q;
     queue_flush_loop q (q_head qr) s
   }"

definition queue_free :: "ctx \<Rightarrow> ptr \<Rightarrow> qstate \<Rightarrow> qstate option" where
  "queue_free me q s = do {
     locked \<leftarrow> queue_islocked me q s;
     s \<leftarrow> (if \<not> locked then queue_lock me q s else Some s);
     s \<leftarrow> queue_flush me q s;
     s \<leftarrow> queue_unlock me q s;
     Some (s\<lparr>queues := (queues s)(q := None)\<rparr>)
   }"

definition queue_count :: "ctx \<Rightarrow> ptr \<Rightarrow> qstate \<Rightarrow> u64 option" where
  "queue_count me q s = do {
     queue_assert_locked me q s;
     qr \<leftarrow> hget (queues s) q;
     Some (q_count qr)
   }"

definition queue_peek :: "ctx \<Rightarrow> ptr \<Rightarrow> bool \<Rightarrow> bool \<Rightarrow> qstate \<Rightarrow> (int \<times> ptr option) option" where
  "queue_peek me q tail pdp s = do {
     queue_assert_locked me q s;
     if q = NULL \<or> \<not> pdp then Some (- EINVAL, None)
     else do {
       c \<leftarrow> queue_count me q s;
       if c = 0 then Some (- ENOENT, None)
       else do {
         qr \<leftarrow> hget (queues s) q;
         n \<leftarrow> hget (qnodes s) (if tail then q_tail qr else q_head qr);
         Some (0, Some (qn_data n))
       }
     }
   }"

partial_function (option) queue_contains_loop :: "ptr \<Rightarrow> ptr \<Rightarrow> qstate \<Rightarrow> (int \<times> ptr option) option" where
  "queue_contains_loop data node s =
     (if node = NULL then Some (- ENOENT, None)
      else do {
        n \<leftarrow> hget (qnodes s) node;
        if qn_data n = data then Some (0, Some node)
        else queue_contains_loop data (qn_next n) s
      })"

definition queue_contains :: "ctx \<Rightarrow> ptr \<Rightarrow> ptr \<Rightarrow> qstate \<Rightarrow> (int \<times> ptr option) option" where
  "queue_contains me q data s = do {
     queue_assert_locked me q s;
     if q = NULL then Some (- EINVAL, None)
     else do {
       qr \<leftarrow> hget (queues s) q;
       queue_contains_loop data (q_head qr) s
     }
   }"

text \<open>The blocks that link a detached node at either end; \<open>enqueue\<close>, \<open>enqueue_head\<close> and
  \<open>queue_rellocate_node\<close> contain them.\<close>

definition queue_link_tail ::
  "ptr \<Rightarrow> queue_node heap \<Rightarrow> queue \<Rightarrow> (queue_node heap \<times> queue) option" where
  "queue_link_tail node h qr = do {
     (h, qr) \<leftarrow> (if q_head qr = NULL then Some (h, qr\<lparr>q_head := node\<rparr>)
       else do {
         h \<leftarrow> hupd (q_tail qr) (qn_next_update (\<lambda>_. node)) h;
         h \<leftarrow> hupd node (qn_prev_update (\<lambda>_. q_tail qr)) h;
         Some (h, qr)
       });
     Some (h, qr\<lparr>q_tail := node\<rparr>)
   }"

definition queue_link_head ::
  "ptr \<Rightarrow> queue_node heap \<Rightarrow> queue \<Rightarrow> (queue_node heap \<times> queue) option" where
  "queue_link_head node h qr = do {
     (h, qr) \<leftarrow> (if q_head qr = NULL then Some (h, qr\<lparr>q_tail := node\<rparr>)
       else do {
         h \<leftarrow> hupd (q_head qr) (qn_prev_update (\<lambda>_. node)) h;
         h \<leftarrow> hupd node (qn_next_update (\<lambda>_. q_head qr)) h;
         Some (h, qr)
       });
     Some (h, qr\<lparr>q_head := node\<rparr>)
   }"

definition enqueue ::
  "ctx \<Rightarrow> ptr \<Rightarrow> ptr \<Rightarrow> bool \<Rightarrow> qstate \<Rightarrow> ((int \<times> ptr option) \<times> qstate) option" where
  "enqueue me q data unique s = do {
     queue_assert_locked me q s;
     if q = NULL then Some ((- EINVAL, None), s)
     else do {
       dup \<leftarrow> (if unique then do { (err, _) \<leftarrow> queue_contains me q data s; Some (err = 0) }
               else Some False);
       if dup then Some ((- EEXIST, None), s)
       else do {
         let (node, ps) = kmalloc (q_used s) (qmem s);
         let s = s\<lparr>qmem := ps\<rparr>;
         if node = NULL then Some ((- ENOMEM, None), s)
         else do {
           let h = (qnodes s)(node \<mapsto> \<lparr>qn_prev = NULL, qn_data = data, qn_next = NULL, qn_queue = NULL\<rparr>);
           qr \<leftarrow> hget (queues s) q;
           (h, qr) \<leftarrow> queue_link_tail node h qr;
           h \<leftarrow> hupd node (qn_queue_update (\<lambda>_. q)) h;
           let qr = qr\<lparr>q_count := q_count qr + 1\<rparr>;
           Some ((0, Some node), s\<lparr>qnodes := h, queues := (queues s)(q \<mapsto> qr)\<rparr>)
         }
       }
     }
   }"

definition enqueue_head ::
  "ctx \<Rightarrow> ptr \<Rightarrow> bool \<Rightarrow> ptr \<Rightarrow> qstate \<Rightarrow> ((int \<times> ptr option) \<times> qstate) option" where
  "enqueue_head me q unique data s = do {
     queue_assert_locked me q s;
     if q = NULL then Some ((- EINVAL, None), s)
     else do {
       dup \<leftarrow> (if unique then do { (err, _) \<leftarrow> queue_contains me q data s; Some (err = 0) }
               else Some False);
       if dup then Some ((- EEXIST, None), s)
       else do {
         let (node, ps) = kmalloc (q_used s) (qmem s);
         let s = s\<lparr>qmem := ps\<rparr>;
         if node = NULL then Some ((- ENOMEM, None), s)
         else do {
           let h = (qnodes s)(node \<mapsto> \<lparr>qn_prev = NULL, qn_data = data, qn_next = NULL, qn_queue = NULL\<rparr>);
           qr \<leftarrow> hget (queues s) q;
           (h, qr) \<leftarrow> queue_link_head node h qr;
           h \<leftarrow> hupd node (qn_queue_update (\<lambda>_. q)) h;
           let qr = qr\<lparr>q_count := q_count qr + 1\<rparr>;
           Some ((0, Some node), s\<lparr>qnodes := h, queues := (queues s)(q \<mapsto> qr)\<rparr>)
         }
       }
     }
   }"

definition dequeue :: "ctx \<Rightarrow> ptr \<Rightarrow> bool \<Rightarrow> qstate \<Rightarrow> ((int \<times> ptr option) \<times> qstate) option" where
  "dequeue me q pdp s = do {
     queue_assert_locked me q s;
     if q = NULL \<or> \<not> pdp then Some ((- EINVAL, None), s)
     else do {
       qr \<leftarrow> hget (queues s) q;
       let node = q_head qr;
       if node \<noteq> NULL then do {
         n \<leftarrow> hget (qnodes s) node;
         s \<leftarrow> queue_unlink q node s;
         Some ((0, Some (qn_data n)), s)
       } else Some ((- ENOENT, None), s)
     }
   }"

definition dequeue_tail :: "ctx \<Rightarrow> ptr \<Rightarrow> bool \<Rightarrow> qstate \<Rightarrow> ((int \<times> ptr option) \<times> qstate) option" where
  "dequeue_tail me q pdp s = do {
     queue_assert_locked me q s;
     if q = NULL \<or> \<not> pdp then Some ((- EINVAL, None), s)
     else do {
       qr \<leftarrow> hget (queues s) q;
       let node = q_tail qr;
       if node \<noteq> NULL then do {
         n \<leftarrow> hget (qnodes s) node;
         s \<leftarrow> queue_unlink q node s;
         Some ((0, Some (qn_data n)), s)
       } else Some ((- ENOENT, None), s)
     }
   }"

partial_function (option) queue_remove_node_loop ::
  "ptr \<Rightarrow> ptr \<Rightarrow> ptr \<Rightarrow> qstate \<Rightarrow> (int \<times> qstate) option" where
  "queue_remove_node_loop q target node s =
     (if node = NULL then Some (- ENOENT, s)
      else do {
        n \<leftarrow> hget (qnodes s) node;
        if target = node then do { s \<leftarrow> queue_unlink q node s; Some (0, s) }
        else queue_remove_node_loop q target (qn_next n) s
      })"

definition queue_remove_node :: "ctx \<Rightarrow> ptr \<Rightarrow> ptr \<Rightarrow> qstate \<Rightarrow> (int \<times> qstate) option" where
  "queue_remove_node me q target s = do {
     queue_assert_locked me q s;
     if q = NULL \<or> target = NULL then Some (- EINVAL, s)
     else do {
       qr \<leftarrow> hget (queues s) q;
       queue_remove_node_loop q target (q_head qr) s
     }
   }"

partial_function (option) queue_remove_loop ::
  "ptr \<Rightarrow> ptr \<Rightarrow> ptr \<Rightarrow> qstate \<Rightarrow> (int \<times> qstate) option" where
  "queue_remove_loop q data node s =
     (if node = NULL then Some (- ENOENT, s)
      else do {
        n \<leftarrow> hget (qnodes s) node;
        if qn_data n = data then do { s \<leftarrow> queue_unlink q node s; Some (0, s) }
        else queue_remove_loop q data (qn_next n) s
      })"

definition queue_remove :: "ctx \<Rightarrow> ptr \<Rightarrow> ptr \<Rightarrow> qstate \<Rightarrow> (int \<times> qstate) option" where
  "queue_remove me q data s = do {
     queue_assert_locked me q s;
     if q = NULL then Some (- EINVAL, s)
     else do {
       qr \<leftarrow> hget (queues s) q;
       queue_remove_loop q data (q_head qr) s
     }
   }"

definition queue_rellocate_node ::
  "ctx \<Rightarrow> ptr \<Rightarrow> ptr \<Rightarrow> queue_relloc \<Rightarrow> qstate \<Rightarrow> (int \<times> qstate) option" where
  "queue_rellocate_node me q node whence s =
     (if q = NULL \<or> node = NULL then Some (- EINVAL, s)
      else do {
        queue_assert_locked me q s;
        n \<leftarrow> hget (qnodes s) node;
        if qn_queue n \<noteq> q then Some (- EPERM, s)
        else do {
          let prev = qn_prev n;
          let next = qn_next n;
          h \<leftarrow> hupd_if next (qn_prev_update (\<lambda>_. prev)) (qnodes s);
          h \<leftarrow> hupd_if prev (qn_next_update (\<lambda>_. next)) h;
          qr \<leftarrow> hget (queues s) q;
          let qr = queue_ends node prev next qr;
          h \<leftarrow> hupd node (qn_prev_update (\<lambda>_. NULL)) h;
          h \<leftarrow> hupd node (qn_next_update (\<lambda>_. NULL)) h;
          (h, qr) \<leftarrow> (case whence of
            QUEUE_RELLOC_HEAD \<Rightarrow> queue_link_head node h qr
          | QUEUE_RELLOC_TAIL \<Rightarrow> queue_link_tail node h qr);
          Some (0, s\<lparr>qnodes := h, queues := (queues s)(q \<mapsto> qr)\<rparr>)
        }
      })"

definition queue_rellocate ::
  "ctx \<Rightarrow> ptr \<Rightarrow> ptr \<Rightarrow> queue_relloc \<Rightarrow> qstate \<Rightarrow> (int \<times> qstate) option" where
  "queue_rellocate me q data whence s =
     (if q = NULL then Some (- EINVAL, s)
      else do {
        queue_assert_locked me q s;
        (err, node) \<leftarrow> queue_contains me q data s;
        if err \<noteq> 0 then Some (err, s)
        else queue_rellocate_node me q (case node of Some p \<Rightarrow> p | None \<Rightarrow> NULL) whence s
      })"

section \<open>A queue and the list of its nodes\<close>

interpretation qn: dll_node qn_next qn_prev qn_next_update qn_prev_update
  by unfold_locales auto

lemma queue_payload:
  assumes "qn.payload n = qn.payload m"
  shows "qn_data n = qn_data m" "qn_queue n = qn_queue m"
  using assms by (cases n; cases m; simp add: qn.payload_def)+

text \<open>The header \<open>q\<close> heads the nodes \<open>xs\<close>, all of which record \<open>q\<close> as their queue.\<close>

definition queue_ok :: "qstate \<Rightarrow> ptr \<Rightarrow> ptr list \<Rightarrow> bool" where
  "queue_ok s q xs \<longleftrightarrow> q \<noteq> NULL \<and>
     (\<exists>qr. queues s q = Some qr \<and>
        dlist qn_next qn_prev (qnodes s) (q_head qr) (q_tail qr) xs \<and>
        q_count qr = of_nat (length xs)) \<and>
     (\<forall>x\<in>set xs. \<exists>n. qnodes s x = Some n \<and> qn_queue n = q)"

definition node_data :: "qstate \<Rightarrow> ptr \<Rightarrow> ptr" where
  "node_data s x = (case qnodes s x of Some n \<Rightarrow> qn_data n | None \<Rightarrow> NULL)"

definition qdata :: "qstate \<Rightarrow> ptr list \<Rightarrow> ptr list" where
  "qdata s xs = map (node_data s) xs"

definition qlocked :: "ctx \<Rightarrow> ptr \<Rightarrow> qstate \<Rightarrow> bool" where
  "qlocked me q s \<longleftrightarrow> q \<noteq> NULL \<and> (\<exists>qr. queues s q = Some qr \<and> lk_held me (q_lock qr))"

text \<open>What a routine on \<open>q\<close> with nodes \<open>xs\<close> leaves alone: other headers, all locks, and
  every node that is not one of \<open>xs\<close>.\<close>

definition only_queue :: "ptr \<Rightarrow> ptr list \<Rightarrow> qstate \<Rightarrow> qstate \<Rightarrow> bool" where
  "only_queue q xs s s' \<longleftrightarrow>
     (\<forall>q'. q' \<noteq> q \<longrightarrow> queues s' q' = queues s q') \<and>
     (\<forall>qr. queues s q = Some qr \<longrightarrow> (\<exists>qr'. queues s' q = Some qr' \<and> q_lock qr' = q_lock qr)) \<and>
     (\<forall>y n. y \<notin> set xs \<longrightarrow> qnodes s y = Some n \<longrightarrow> qnodes s' y = Some n)"

lemma queue_okE:
  assumes "queue_ok s q xs"
  obtains qr where "q \<noteq> NULL" "queues s q = Some qr"
    "dlist qn_next qn_prev (qnodes s) (q_head qr) (q_tail qr) xs"
    "q_count qr = of_nat (length xs)"
    "\<forall>x\<in>set xs. \<exists>n. qnodes s x = Some n \<and> qn_queue n = q"
  using assms unfolding queue_ok_def by blast

lemma queue_ok_unique: "queue_ok s q xs \<Longrightarrow> queue_ok s q ys \<Longrightarrow> xs = ys"
  by (auto elim!: queue_okE dest: dlist_unique)

lemma queue_ok_disjoint:
  assumes "queue_ok s q xs" "queue_ok s q' ys" "q \<noteq> q'"
  shows "set xs \<inter> set ys = {}"
  using assms by (fastforce elim!: queue_okE)

lemma queue_ok_frame:
  assumes "only_queue q xs s s'" "queue_ok s q xs" "q' \<noteq> q" "queue_ok s q' ys"
  shows "queue_ok s' q' ys" "qdata s' ys = qdata s ys"
proof -
  have eq: "qnodes s' y = qnodes s y" if "y \<in> set ys" for y
  proof -
    from assms(2-4) that have "y \<notin> set xs" using queue_ok_disjoint by fastforce
    moreover from assms(4) that obtain n where "qnodes s y = Some n"
      by (auto elim!: queue_okE)
    ultimately show ?thesis using assms(1) by (simp add: only_queue_def)
  qed
  then show "qdata s' ys = qdata s ys" by (simp add: qdata_def node_data_def)
  show "queue_ok s' q' ys"
    using assms(1,3,4) eq dlist_cong [of ys "qnodes s'" "qnodes s"]
    by (auto simp: queue_ok_def only_queue_def)
qed

lemma qlocked_frame: "only_queue q xs s s' \<Longrightarrow> qlocked me q' s \<Longrightarrow> qlocked me q' s'"
  unfolding only_queue_def qlocked_def by metis

lemma only_queue_refl: "only_queue q xs s s"
  by (simp add: only_queue_def)

lemma queue_assert_locked_ok [simp]: "qlocked me q s \<Longrightarrow> queue_assert_locked me q s = Some ()"
  by (auto simp: queue_assert_locked_def qlocked_def hget_nonNULL)

lemma queue_assert_locked_Some: "queue_assert_locked me q s = Some u \<longleftrightarrow> qlocked me q s"
  by (auto simp: queue_assert_locked_def qlocked_def hget_Some lk_assert_def Option.bind_eq_Some_conv)

lemma same_payloadD:
  assumes "qn.same_payload h h'" "h x = Some n"
  shows "\<exists>m. h' x = Some m \<and> qn_data m = qn_data n \<and> qn_queue m = qn_queue n"
proof -
  from assms have "map_option qn.payload (h' x) = Some (qn.payload n)"
    by (simp add: qn.same_payload_def)
  then obtain m where "h' x = Some m" "qn.payload m = qn.payload n" by auto
  then show ?thesis using queue_payload by blast
qed

lemma qdata_cong:
  "(\<And>x. x \<in> set xs \<Longrightarrow> map_option qn_data (qnodes s' x) = map_option qn_data (qnodes s x)) \<Longrightarrow>
     qdata s' xs = qdata s xs"
  unfolding qdata_def node_data_def
  by (auto split: option.splits) (metis map_option_is_None option.simps(3),
     metis map_option_is_None option.simps(3), metis option.inject option.map(2))

lemma queue_ends_ok:
  assumes "dlist qn_next qn_prev h (q_head qr) (q_tail qr) (as @ p # bs)"
  shows "queue_ends p (last_of as NULL) (first_of bs NULL) qr =
    qr\<lparr>q_head := first_of (as @ bs) NULL, q_tail := last_of (as @ bs) NULL\<rparr>"
proof -
  have "q_head qr = p \<longleftrightarrow> as = []" "q_tail qr = p \<longleftrightarrow> bs = []"
      "q_head qr = first_of (as @ p # bs) NULL" "q_tail qr = last_of (as @ p # bs) NULL"
    using dlist_ends [OF assms] assms by (auto simp: dlist_def)
  then show ?thesis
    unfolding queue_ends_def by (cases qr; cases as; cases bs) auto
qed

lemma queue_unlink_ok:
  assumes ok: "queue_ok s q (as @ p # bs)"
  obtains s' where "queue_unlink q p s = Some s'" "queue_ok s' q (as @ bs)"
    "qdata s' (as @ bs) = qdata s (as @ bs)" "only_queue q (as @ p # bs) s s'"
    "qmem s' = qmem s" "qnodes s' p = None"
proof -
  from ok obtain qr where qr: "q \<noteq> NULL" "queues s q = Some qr"
      "dlist qn_next qn_prev (qnodes s) (q_head qr) (q_tail qr) (as @ p # bs)"
      "q_count qr = of_nat (length (as @ p # bs))"
      "\<forall>x\<in>set (as @ p # bs). \<exists>n. qnodes s x = Some n \<and> qn_queue n = q"
    by (rule queue_okE)
  from qr(3) have dl: "dchain qn_next qn_prev (qnodes s) NULL (as @ p # bs) NULL"
      "distinct (as @ p # bs)" "NULL \<notin> set (as @ p # bs)"
    by (simp_all add: dlist_def)
  obtain n where n: "qnodes s p = Some n" "qn_prev n = last_of as NULL" "qn_next n = first_of bs NULL"
    using dchain_at [OF dl(1)] by blast
  obtain h where h: "dll_unlink qn_next_update qn_prev_update (last_of as NULL) (first_of bs NULL) (qnodes s) = Some h"
      "dchain qn_next qn_prev h NULL (as @ bs) NULL" "qn.same_payload (qnodes s) h"
      "\<And>y. y \<notin> set as \<Longrightarrow> y \<notin> set bs \<Longrightarrow> h y = qnodes s y"
    using qn.unlink_chain [OF dl] by blast
  have hp: "h p = Some n" using h(4) n(1) dl(2) by simp
  let ?qr = "qr\<lparr>q_head := first_of (as @ bs) NULL, q_tail := last_of (as @ bs) NULL,
      q_count := q_count qr - 1\<rparr>"
  let ?s = "s\<lparr>qnodes := h(p := None), queues := (queues s)(q \<mapsto> ?qr)\<rparr>"
  have pay: "\<exists>m. (h(p := None)) x = Some m \<and> qn_queue m = qn_queue k \<and> qn_data m = qn_data k"
    if "x \<noteq> p" "qnodes s x = Some k" for x k
    using same_payloadD [OF h(3) that(2)] that(1) by auto
  show thesis
  proof (rule that [of ?s])
    show "queue_unlink q p s = Some ?s"
      using n qr h(1) hp dl(3)
      by (simp add: queue_unlink_def queue_ends_ok hget_nonNULL hupd_mapped)
  next
    have "dchain qn_next qn_prev (h(p := None)) NULL (as @ bs) NULL"
      using h(2) dl(2) by simp
    moreover have "\<exists>m. (h(p := None)) x = Some m \<and> qn_queue m = q" if x: "x \<in> set (as @ bs)" for x
      using pay [of x] qr(5) x dl(2) by fastforce
    ultimately show "queue_ok ?s q (as @ bs)"
      using qr(1,4) dl by (simp add: queue_ok_def dlist_def)
  next
    show "qdata ?s (as @ bs) = qdata s (as @ bs)"
      using qr(5) dl(2) pay by (intro qdata_cong) fastforce
  next
    show "only_queue q (as @ p # bs) s ?s"
      using qr(2) h(4) by (simp add: only_queue_def)
  qed simp_all
qed

lemma qdata_simps [simp]: "qdata s [] = []" "qdata s (x # xs) = node_data s x # qdata s xs"
  "qdata s (xs @ ys) = qdata s xs @ qdata s ys" "length (qdata s xs) = length xs"
  by (simp_all add: qdata_def)

lemma queue_ok_node:
  assumes "queue_ok s q (as @ x # bs)"
  obtains n where "x \<noteq> NULL" "qnodes s x = Some n" "qn_data n = node_data s x"
    "qn_next n = first_of bs NULL" "qn_prev n = last_of as NULL" "qn_queue n = q"
proof -
  from assms obtain qr where qr: "dlist qn_next qn_prev (qnodes s) (q_head qr) (q_tail qr) (as @ x # bs)"
      "queues s q = Some qr" "\<forall>y\<in>set (as @ x # bs). \<exists>n. qnodes s y = Some n \<and> qn_queue n = q"
    unfolding queue_ok_def by blast
  from dlist_at [OF qr(1)] obtain n where
    "qnodes s x = Some n" "qn_prev n = last_of as NULL" "qn_next n = first_of bs NULL" by blast
  with qr show thesis
    by (intro that [of n]) (auto simp: dlist_def node_data_def)
qed

lemma queue_head_is:
  assumes "queue_ok s q xs"
  obtains qr where "hget (queues s) q = Some qr" "q_head qr = first_of xs NULL"
    "q_tail qr = last_of xs NULL" "q_count qr = of_nat (length xs)"
  using assms by (auto elim!: queue_okE simp: dlist_def hget_nonNULL)

lemma queue_loops_NULL [simp]:
  "queue_contains_loop data NULL s = Some (- ENOENT, None)"
  "queue_remove_loop q data NULL s = Some (- ENOENT, s)"
  "queue_remove_node_loop q x NULL s = Some (- ENOENT, s)"
  "queue_flush_loop q NULL s = Some s"
  by (simp_all add: queue_contains_loop.simps queue_remove_loop.simps
      queue_remove_node_loop.simps queue_flush_loop.simps)

text \<open>The search loops stop at the first node that holds the data.\<close>

lemma queue_walk_skip:
  assumes "queue_ok s q (as @ cs @ bs)"
    and step: "\<And>x n. x \<in> set cs \<Longrightarrow> x \<noteq> NULL \<Longrightarrow> qnodes s x = Some n \<Longrightarrow>
      qn_data n = node_data s x \<Longrightarrow> loop x = loop (qn_next n)"
  shows "loop (first_of (cs @ bs) NULL) = loop (first_of bs NULL)"
  using assms
proof (induction cs arbitrary: as)
  case Nil
  then show ?case by simp
next
  case (Cons x cs)
  from Cons.prems(1) have ok: "queue_ok s q ((as @ [x]) @ cs @ bs)" by simp
  from Cons.prems(1) obtain n where n: "x \<noteq> NULL" "qnodes s x = Some n" "qn_data n = node_data s x"
      "qn_next n = first_of (cs @ bs) NULL"
    by (auto elim: queue_ok_node)
  then have "loop x = loop (first_of (cs @ bs) NULL)"
    using Cons.prems(2) [of x n] by simp
  also have "\<dots> = loop (first_of bs NULL)"
    using Cons.IH [OF ok] Cons.prems(2) by simp
  finally show ?case by simp
qed

lemma queue_contains_loop_skip:
  assumes "queue_ok s q (cs @ bs)" "data \<notin> set (qdata s cs)"
  shows "queue_contains_loop data (first_of (cs @ bs) NULL) s = queue_contains_loop data (first_of bs NULL) s"
  using assms
  by (intro queue_walk_skip [where as = "[]" and q = q and s = s])
     (auto simp: queue_contains_loop.simps hget_nonNULL qdata_def)

lemma queue_remove_loop_skip:
  assumes "queue_ok s q (cs @ bs)" "data \<notin> set (qdata s cs)"
  shows "queue_remove_loop q data (first_of (cs @ bs) NULL) s = queue_remove_loop q data (first_of bs NULL) s"
  using assms
  by (intro queue_walk_skip [where as = "[]" and q = q and s = s])
     (auto simp: queue_remove_loop.simps hget_nonNULL qdata_def)

lemma queue_remove_node_loop_skip:
  assumes "queue_ok s q (cs @ bs)" "target \<notin> set cs"
  shows "queue_remove_node_loop q target (first_of (cs @ bs) NULL) s =
    queue_remove_node_loop q target (first_of bs NULL) s"
  using assms
  by (intro queue_walk_skip [where as = "[]" and q = q and s = s])
     (auto simp: queue_remove_node_loop.simps hget_nonNULL)

lemma queue_contains_loop_notin:
  assumes "queue_ok s q xs" "data \<notin> set (qdata s xs)"
  shows "queue_contains_loop data (first_of xs NULL) s = Some (- ENOENT, None)"
  using queue_contains_loop_skip [of s q xs "[]" data] assms by simp

lemma queue_contains_loop_in:
  assumes "queue_ok s q (cs @ x # bs)" "data \<notin> set (qdata s cs)" "node_data s x = data"
  shows "queue_contains_loop data (first_of (cs @ x # bs) NULL) s = Some (0, Some x)"
proof -
  from assms(1) obtain n where n: "x \<noteq> NULL" "qnodes s x = Some n" "qn_data n = node_data s x"
    by (rule queue_ok_node)
  have "queue_contains_loop data (first_of (cs @ x # bs) NULL) s = queue_contains_loop data x s"
    using queue_contains_loop_skip [of s q cs "x # bs" data] assms by simp
  with n assms(3) show ?thesis
    by (simp add: queue_contains_loop.simps [of data x] hget_nonNULL)
qed

lemma only_queue_trans:
  assumes "only_queue q xs s s'" "only_queue q ys s' s''" "set ys \<subseteq> set xs"
  shows "only_queue q xs s s''"
  using assms unfolding only_queue_def by (auto; metis subset_code(1))

text \<open>\<open>queue_flush\<close> frees every node, from the head on, and ends.\<close>

lemma queue_flush_loop_ok:
  assumes "queue_ok s q xs"
  obtains s' where "queue_flush_loop q (first_of xs NULL) s = Some s'" "queue_ok s' q []"
    "only_queue q xs s s'" "qmem s' = qmem s"
  using assms
proof (induction xs arbitrary: s thesis)
  case Nil
  show thesis
    by (rule Nil.prems(1) [of s]) (use Nil.prems(2) in \<open>simp_all add: queue_flush_loop.simps only_queue_refl\<close>)
next
  case (Cons x xs)
  then have ok: "queue_ok s q ([] @ x # xs)" by simp
  obtain n where n: "x \<noteq> NULL" "qnodes s x = Some n" "qn_next n = first_of xs NULL"
    using ok by (rule queue_ok_node)
  obtain s1 where s1: "queue_unlink q x s = Some s1" "queue_ok s1 q xs"
      "only_queue q (x # xs) s s1" "qmem s1 = qmem s"
    using queue_unlink_ok [OF ok] by auto
  obtain s2 where s2: "queue_flush_loop q (first_of xs NULL) s1 = Some s2" "queue_ok s2 q []"
      "only_queue q xs s1 s2" "qmem s2 = qmem s1"
    using Cons.IH [OF _ s1(2)] by blast
  have "only_queue q (x # xs) s s2"
    using s1(3) s2(3) by (rule only_queue_trans) auto
  moreover have "queue_flush_loop q x s = Some s2"
    using n s1 s2 by (subst queue_flush_loop.simps) (simp add: hget_nonNULL)
  ultimately show thesis
    using s1 s2 by (intro Cons.prems(1) [of s2]) auto
qed

lemma queue_flush_ok:
  assumes "queue_ok s q xs" "qlocked me q s"
  obtains s' where "queue_flush me q s = Some s'" "queue_ok s' q []"
    "only_queue q xs s s'" "qmem s' = qmem s"
proof -
  obtain qr where "hget (queues s) q = Some qr" "q_head qr = first_of xs NULL"
    using assms(1) by (rule queue_head_is)
  then have "queue_flush me q s = queue_flush_loop q (first_of xs NULL) s"
    using assms(2) by (simp add: queue_flush_def)
  with queue_flush_loop_ok [OF assms(1)] that show thesis by metis
qed

lemma queue_count_ok:
  assumes "queue_ok s q xs" "qlocked me q s"
  shows "queue_count me q s = Some (of_nat (length xs))"
proof -
  obtain qr where "hget (queues s) q = Some qr" "q_count qr = of_nat (length xs)"
    using assms(1) by (rule queue_head_is)
  with assms(2) show ?thesis by (simp add: queue_count_def)
qed

lemma queue_contains_ok:
  assumes "queue_ok s q xs" "qlocked me q s"
  shows "data \<notin> set (qdata s xs) \<Longrightarrow> queue_contains me q data s = Some (- ENOENT, None)"
    and "xs = cs @ x # bs \<Longrightarrow> data \<notin> set (qdata s cs) \<Longrightarrow> node_data s x = data \<Longrightarrow>
      queue_contains me q data s = Some (0, Some x)"
proof -
  obtain qr where qr: "hget (queues s) q = Some qr" "q_head qr = first_of xs NULL"
    using assms(1) by (rule queue_head_is)
  have "q \<noteq> NULL" using assms(2) by (simp add: qlocked_def)
  then have *: "queue_contains me q data s = queue_contains_loop data (first_of xs NULL) s"
    using qr assms(2) by (simp add: queue_contains_def)
  show "queue_contains me q data s = Some (- ENOENT, None)" if "data \<notin> set (qdata s xs)"
    using queue_contains_loop_notin [OF assms(1) that] * by simp
  show "queue_contains me q data s = Some (0, Some x)"
    if "xs = cs @ x # bs" "data \<notin> set (qdata s cs)" "node_data s x = data"
    using queue_contains_loop_in [of s q cs x bs data] assms(1) that * by simp
qed

text \<open>Every list of data has a first occurrence of each of its elements.\<close>

lemma qdata_split_first:
  assumes "data \<in> set (qdata s xs)"
  obtains cs x bs where "xs = cs @ x # bs" "data \<notin> set (qdata s cs)" "node_data s x = data"
proof -
  from assms obtain x where "x \<in> set xs" "node_data s x = data" by (auto simp: qdata_def)
  then have "\<exists>x\<in>set xs. node_data s x = data" by blast
  from split_list_first_prop [OF this] obtain cs y bs where
    "xs = cs @ y # bs" "node_data s y = data" "\<forall>z\<in>set cs. node_data s z \<noteq> data" by blast
  then show thesis by (intro that [of cs y bs]) (auto simp: qdata_def)
qed

lemma queue_contains_iff:
  assumes "queue_ok s q xs" "qlocked me q s"
  shows "\<exists>r. queue_contains me q data s = Some r \<and> (fst r = 0 \<longleftrightarrow> data \<in> set (qdata s xs))"
proof (cases "data \<in> set (qdata s xs)")
  case True
  then obtain cs x bs where "xs = cs @ x # bs" "data \<notin> set (qdata s cs)" "node_data s x = data"
    by (rule qdata_split_first)
  with queue_contains_ok(2) [OF assms] True show ?thesis by simp
next
  case False
  with queue_contains_ok(1) [OF assms] show ?thesis by (simp add: ENOENT_def)
qed

lemma dequeue_ok:
  assumes "queue_ok s q (x # xs)" "qlocked me q s"
  obtains s' where "dequeue me q True s = Some ((0, Some (node_data s x)), s')" "queue_ok s' q xs"
    "qdata s' xs = qdata s xs" "only_queue q (x # xs) s s'" "qmem s' = qmem s"
proof -
  obtain qr where qr: "hget (queues s) q = Some qr" "q_head qr = x"
    using queue_head_is [OF assms(1)] by auto
  have ok: "queue_ok s q ([] @ x # xs)" using assms(1) by simp
  obtain n where n: "x \<noteq> NULL" "qnodes s x = Some n" "qn_data n = node_data s x"
    using ok by (rule queue_ok_node)
  obtain s' where s': "queue_unlink q x s = Some s'" "queue_ok s' q ([] @ xs)"
      "qdata s' ([] @ xs) = qdata s ([] @ xs)" "only_queue q ([] @ x # xs) s s'" "qmem s' = qmem s"
    using queue_unlink_ok [OF ok] .
  have "q \<noteq> NULL" using assms(2) by (simp add: qlocked_def)
  then have "dequeue me q True s = Some ((0, Some (node_data s x)), s')"
    using qr n assms(2) s'(1) by (simp add: dequeue_def hget_nonNULL)
  with s' show thesis by (intro that [of s']) simp_all
qed

lemma dequeue_tail_ok:
  assumes "queue_ok s q (xs @ [x])" "qlocked me q s"
  obtains s' where "dequeue_tail me q True s = Some ((0, Some (node_data s x)), s')" "queue_ok s' q xs"
    "qdata s' xs = qdata s xs" "only_queue q (xs @ [x]) s s'" "qmem s' = qmem s"
proof -
  obtain qr where qr: "hget (queues s) q = Some qr" "q_tail qr = x"
    using queue_head_is [OF assms(1)] by auto
  obtain n where n: "x \<noteq> NULL" "qnodes s x = Some n" "qn_data n = node_data s x"
    using assms(1) by (rule queue_ok_node)
  obtain s' where s': "queue_unlink q x s = Some s'" "queue_ok s' q (xs @ [])"
      "qdata s' (xs @ []) = qdata s (xs @ [])" "only_queue q (xs @ [x]) s s'" "qmem s' = qmem s"
    using queue_unlink_ok [OF assms(1)] .
  have "q \<noteq> NULL" using assms(2) by (simp add: qlocked_def)
  then have "dequeue_tail me q True s = Some ((0, Some (node_data s x)), s')"
    using qr n assms(2) s'(1) by (simp add: dequeue_tail_def hget_nonNULL)
  with s' show thesis by (intro that [of s']) simp_all
qed

lemma dequeue_empty:
  assumes "queue_ok s q []" "qlocked me q s"
  shows "dequeue me q True s = Some ((- ENOENT, None), s)"
    "dequeue_tail me q True s = Some ((- ENOENT, None), s)"
proof -
  obtain qr where "hget (queues s) q = Some qr" "q_head qr = NULL" "q_tail qr = NULL"
    using queue_head_is [OF assms(1)] by auto
  with assms(2) show "dequeue me q True s = Some ((- ENOENT, None), s)"
    "dequeue_tail me q True s = Some ((- ENOENT, None), s)"
    by (auto simp: dequeue_def dequeue_tail_def qlocked_def)
qed

lemma queue_peek_ok:
  assumes "queue_ok s q (xs @ [x])" "qlocked me q s" "Suc (length xs) < 2 ^ 64"
  shows "queue_peek me q True True s = Some (0, Some (node_data s x))"
    "queue_peek me q False True s = Some (0, Some (node_data s (first_of xs x)))"
proof -
  obtain qr where qr: "hget (queues s) q = Some qr" "q_head qr = first_of xs x" "q_tail qr = x"
    using queue_head_is [OF assms(1)] by auto
  have cnt: "(of_nat (length (xs @ [x])) :: u64) \<noteq> 0"
    using assms(3) by (simp add: word_of_nat_eq_0_iff [of "Suc (length xs)"] nat_dvd_not_less
        flip: of_nat_Suc)
  obtain n where n: "x \<noteq> NULL" "qnodes s x = Some n" "qn_data n = node_data s x"
    using assms(1) by (rule queue_ok_node)
  have "\<exists>m. first_of xs x \<noteq> NULL \<and> qnodes s (first_of xs x) = Some m \<and>
      qn_data m = node_data s (first_of xs x)"
  proof (cases xs)
    case (Cons y ys)
    then have "queue_ok s q ([] @ y # ys @ [x])" using assms(1) by simp
    then obtain m where "y \<noteq> NULL" "qnodes s y = Some m" "qn_data m = node_data s y"
      by (rule queue_ok_node)
    then show ?thesis using Cons by simp
  qed (use n in simp)
  moreover have "q \<noteq> NULL" using assms(2) by (simp add: qlocked_def)
  ultimately show "queue_peek me q True True s = Some (0, Some (node_data s x))"
    "queue_peek me q False True s = Some (0, Some (node_data s (first_of xs x)))"
    using qr n cnt assms(2) queue_count_ok [OF assms(1,2)]
    by (auto simp: queue_peek_def hget_nonNULL)
qed

lemma queue_remove_ok:
  assumes "queue_ok s q (cs @ x # bs)" "qlocked me q s" "data \<notin> set (qdata s cs)" "node_data s x = data"
  obtains s' where "queue_remove me q data s = Some (0, s')" "queue_ok s' q (cs @ bs)"
    "qdata s' (cs @ bs) = qdata s (cs @ bs)" "only_queue q (cs @ x # bs) s s'" "qmem s' = qmem s"
proof -
  obtain qr where qr: "hget (queues s) q = Some qr" "q_head qr = first_of (cs @ x # bs) NULL"
    using queue_head_is [OF assms(1)] by auto
  obtain n where n: "x \<noteq> NULL" "qnodes s x = Some n" "qn_data n = node_data s x"
    using assms(1) by (rule queue_ok_node)
  obtain s' where s': "queue_unlink q x s = Some s'" "queue_ok s' q (cs @ bs)"
      "qdata s' (cs @ bs) = qdata s (cs @ bs)" "only_queue q (cs @ x # bs) s s'" "qmem s' = qmem s"
    using queue_unlink_ok [OF assms(1)] .
  have "q \<noteq> NULL" using assms(2) by (simp add: qlocked_def)
  then have "queue_remove me q data s = queue_remove_loop q data x s"
    using qr assms queue_remove_loop_skip [of s q cs "x # bs" data] by (simp add: queue_remove_def)
  also have "\<dots> = Some (0, s')"
    using n s' assms(4) by (simp add: queue_remove_loop.simps [of q data x] hget_nonNULL)
  finally show thesis using s' by (intro that)
qed

lemma queue_remove_absent:
  assumes "queue_ok s q xs" "qlocked me q s" "data \<notin> set (qdata s xs)"
  shows "queue_remove me q data s = Some (- ENOENT, s)"
proof -
  obtain qr where qr: "hget (queues s) q = Some qr" "q_head qr = first_of xs NULL"
    using queue_head_is [OF assms(1)] by auto
  have "q \<noteq> NULL" using assms(2) by (simp add: qlocked_def)
  then show ?thesis
    using qr assms queue_remove_loop_skip [of s q xs "[]" data]
    by (simp add: queue_remove_def)
qed

lemma queue_remove_node_ok:
  assumes "queue_ok s q (cs @ x # bs)" "qlocked me q s"
  obtains s' where "queue_remove_node me q x s = Some (0, s')" "queue_ok s' q (cs @ bs)"
    "qdata s' (cs @ bs) = qdata s (cs @ bs)" "only_queue q (cs @ x # bs) s s'" "qmem s' = qmem s"
proof -
  obtain qr where qr: "hget (queues s) q = Some qr" "q_head qr = first_of (cs @ x # bs) NULL"
    using queue_head_is [OF assms(1)] by auto
  obtain n where n: "x \<noteq> NULL" "qnodes s x = Some n"
    using assms(1) by (rule queue_ok_node)
  obtain s' where s': "queue_unlink q x s = Some s'" "queue_ok s' q (cs @ bs)"
      "qdata s' (cs @ bs) = qdata s (cs @ bs)" "only_queue q (cs @ x # bs) s s'" "qmem s' = qmem s"
    using queue_unlink_ok [OF assms(1)] .
  have "x \<notin> set cs" using assms(1) by (auto elim!: queue_okE simp: dlist_def)
  moreover have "q \<noteq> NULL" using assms(2) by (simp add: qlocked_def)
  ultimately have "queue_remove_node me q x s = queue_remove_node_loop q x x s"
    using qr assms n queue_remove_node_loop_skip [of s q cs "x # bs" x]
    by (simp add: queue_remove_node_def)
  also have "\<dots> = Some (0, s')"
    using n s' by (simp add: queue_remove_node_loop.simps [of q x x] hget_nonNULL)
  finally show thesis using s' by (intro that)
qed

lemma queue_remove_node_absent:
  assumes "queue_ok s q xs" "qlocked me q s" "x \<notin> set xs" "x \<noteq> NULL"
  shows "queue_remove_node me q x s = Some (- ENOENT, s)"
proof -
  obtain qr where qr: "hget (queues s) q = Some qr" "q_head qr = first_of xs NULL"
    using queue_head_is [OF assms(1)] by auto
  have "q \<noteq> NULL" using assms(2) by (simp add: qlocked_def)
  then show ?thesis
    using qr assms queue_remove_node_loop_skip [of s q xs "[]" x]
    by (simp add: queue_remove_node_def)
qed

text \<open>Appending and pushing a fresh node.\<close>

lemma queue_ok_fresh:
  assumes "queue_ok s q xs" "\<not> q_used s p"
  shows "p \<notin> set xs" "p \<noteq> q"
  using assms by (auto elim!: queue_okE simp: q_used_def)

lemma queue_link_tail_ok:
  assumes dl: "dlist qn_next qn_prev h (q_head qr) (q_tail qr) xs"
    and p: "p \<notin> set xs" "p \<noteq> NULL" "h p = Some n" "qn_next n = NULL" "qn_prev n = NULL"
  obtains h' qr' where "queue_link_tail p h qr = Some (h', qr')"
    "dlist qn_next qn_prev h' (q_head qr') (q_tail qr') (xs @ [p])" "qn.same_payload h h'"
    "\<And>y. y \<notin> set (xs @ [p]) \<Longrightarrow> h' y = h y" "q_lock qr' = q_lock qr" "q_count qr' = q_count qr"
proof (cases "xs = []")
  case True
  with dl p show thesis
    by (intro that [of h "qr\<lparr>q_head := p, q_tail := p\<rparr>"])
       (auto simp: queue_link_tail_def dlist_def)
next
  case False
  from dl have xs: "dchain qn_next qn_prev h NULL xs NULL" "distinct xs" "NULL \<notin> set xs"
      "q_head qr = first_of xs NULL" "q_tail qr = last_of xs NULL"
    by (simp_all add: dlist_def)
  obtain h1 where h1: "hupd_if (last_of xs NULL) (qn_next_update (\<lambda>_. p)) h = Some h1"
      "dchain qn_next qn_prev h1 NULL xs p" "qn.same_payload h h1" "\<And>y. y \<notin> set xs \<Longrightarrow> h1 y = h y"
    using qn.retarget_last [OF xs(1-3)] by blast
  let ?h = "h1(p \<mapsto> n\<lparr>qn_prev := last_of xs NULL\<rparr>)"
  have ne: "last_of xs NULL \<noteq> NULL" "first_of xs NULL \<noteq> NULL"
    using last_of_in [OF False] first_of_in [OF False] xs(3) by metis+
  have p1: "h1 p = Some n" using h1(4) p by simp
  show thesis
  proof (rule that [of ?h "qr\<lparr>q_tail := p\<rparr>"])
    show "queue_link_tail p h qr = Some (?h, qr\<lparr>q_tail := p\<rparr>)"
      using h1(1) ne xs p p1 by (simp add: queue_link_tail_def hupd_if_nonNULL hupd_mapped)
    show "dlist qn_next qn_prev ?h (q_head (qr\<lparr>q_tail := p\<rparr>)) (q_tail (qr\<lparr>q_tail := p\<rparr>)) (xs @ [p])"
      using h1(2) xs p ne False by (auto simp: dlist_def dchain_append neq_Nil_conv)
    show "qn.same_payload h ?h"
      using h1(3) p1 qn.same_payload_pu [of h1 p n "\<lambda>_. last_of xs NULL"]
      by (auto intro: qn.same_payload_trans)
  qed (use h1(4) in auto)
qed

lemma queue_link_head_ok:
  assumes dl: "dlist qn_next qn_prev h (q_head qr) (q_tail qr) xs"
    and p: "p \<notin> set xs" "p \<noteq> NULL" "h p = Some n" "qn_next n = NULL" "qn_prev n = NULL"
  obtains h' qr' where "queue_link_head p h qr = Some (h', qr')"
    "dlist qn_next qn_prev h' (q_head qr') (q_tail qr') (p # xs)" "qn.same_payload h h'"
    "\<And>y. y \<notin> set (p # xs) \<Longrightarrow> h' y = h y" "q_lock qr' = q_lock qr" "q_count qr' = q_count qr"
proof (cases "xs = []")
  case True
  with dl p show thesis
    by (intro that [of h "qr\<lparr>q_tail := p, q_head := p\<rparr>"])
       (auto simp: queue_link_head_def dlist_def)
next
  case False
  from dl have xs: "dchain qn_next qn_prev h NULL xs NULL" "distinct xs" "NULL \<notin> set xs"
      "q_head qr = first_of xs NULL" "q_tail qr = last_of xs NULL"
    by (simp_all add: dlist_def)
  obtain h1 where h1: "hupd_if (first_of xs NULL) (qn_prev_update (\<lambda>_. p)) h = Some h1"
      "dchain qn_next qn_prev h1 p xs NULL" "qn.same_payload h h1" "\<And>y. y \<notin> set xs \<Longrightarrow> h1 y = h y"
    using qn.retarget_first [OF xs(1-3)] by blast
  let ?h = "h1(p \<mapsto> n\<lparr>qn_next := first_of xs NULL\<rparr>)"
  have ne: "first_of xs NULL \<noteq> NULL"
    using first_of_in [OF False] xs(3) by metis
  have p1: "h1 p = Some n" using h1(4) p by simp
  show thesis
  proof (rule that [of ?h "qr\<lparr>q_head := p\<rparr>"])
    show "queue_link_head p h qr = Some (?h, qr\<lparr>q_head := p\<rparr>)"
      using h1(1) ne xs p p1 by (simp add: queue_link_head_def hupd_if_nonNULL hupd_mapped)
    show "dlist qn_next qn_prev ?h (q_head (qr\<lparr>q_head := p\<rparr>)) (q_tail (qr\<lparr>q_head := p\<rparr>)) (p # xs)"
      using h1(2) xs p ne False by (auto simp: dlist_def neq_Nil_conv)
    show "qn.same_payload h ?h"
      using h1(3) p1 qn.same_payload_nu [of h1 p n "\<lambda>_. first_of xs NULL"]
      by (auto intro: qn.same_payload_trans)
  qed (use h1(4) in auto)
qed

text \<open>A node linked into \<open>q\<close> and marked as its own makes a queue of the longer list.\<close>

lemma queue_ok_linked:
  assumes ok: "queue_ok s q xs" and p: "p \<notin> set xs" "p \<noteq> NULL"
    and h: "dlist qn_next qn_prev h (q_head qr) (q_tail qr) ys" "set ys = insert p (set xs)"
      "q_count qr = of_nat (length ys)"
    and pay: "\<And>x k. x \<in> set xs \<Longrightarrow> qnodes s x = Some k \<Longrightarrow>
      \<exists>m. h x = Some m \<and> qn_data m = qn_data k \<and> qn_queue m = qn_queue k"
    and hp: "h p = Some n" "qn_queue n = q"
    and s': "qnodes s' = h" "queues s' = (queues s)(q \<mapsto> qr)"
  shows "queue_ok s' q ys" "qdata s' xs = qdata s xs"
proof -
  from ok have q: "q \<noteq> NULL" "\<forall>x\<in>set xs. \<exists>n. qnodes s x = Some n \<and> qn_queue n = q"
    by (auto simp: queue_ok_def)
  have "\<exists>m. h x = Some m \<and> qn_queue m = q" if "x \<in> set ys" for x
    using that h(2) hp pay q(2) by (cases "x = p") fastforce+
  with q(1) h s' show "queue_ok s' q ys" by (auto simp: queue_ok_def)
  show "qdata s' xs = qdata s xs"
    using pay q(2) s' by (intro qdata_cong) fastforce
qed

lemma qn_queue_keeps_dchain:
  "h p = Some n \<Longrightarrow> dchain qn_next qn_prev (h(p \<mapsto> n\<lparr>qn_queue := q\<rparr>)) pr xs nx =
     dchain qn_next qn_prev h pr xs nx"
  by (induction xs arbitrary: pr) auto

lemma qn_queue_keeps_dlist:
  "dlist qn_next qn_prev h hp tp xs \<Longrightarrow> h p = Some n \<Longrightarrow>
     dlist qn_next qn_prev (h(p \<mapsto> n\<lparr>qn_queue := q\<rparr>)) hp tp xs"
  by (simp add: dlist_def qn_queue_keeps_dchain)

lemma enqueue_new:
  assumes ok: "queue_ok s q xs" and lk: "qlocked me q s"
    and uniq: "unique \<Longrightarrow> data \<notin> set (qdata s xs)"
    and mem: "kmalloc (q_used s) (qmem s) = (p, ps)" "p \<noteq> NULL"
  obtains s' where "enqueue me q data unique s = Some ((0, Some p), s')" "queue_ok s' q (xs @ [p])"
    "qdata s' (xs @ [p]) = qdata s xs @ [data]" "only_queue q xs s s'" "qmem s' = ps"
proof -
  have fresh: "\<not> q_used s p" using kmalloc_fresh [OF mem] .
  then have px: "p \<notin> set xs" using queue_ok_fresh [OF ok] by simp
  from ok obtain qr where qr: "q \<noteq> NULL" "queues s q = Some qr"
      "dlist qn_next qn_prev (qnodes s) (q_head qr) (q_tail qr) xs" "q_count qr = of_nat (length xs)"
    by (auto simp: queue_ok_def)
  let ?blank = "\<lparr>qn_prev = NULL, qn_data = data, qn_next = NULL, qn_queue = NULL\<rparr>"
  let ?ha = "(qnodes s)(p \<mapsto> ?blank)"
  have dla: "dlist qn_next qn_prev ?ha (q_head qr) (q_tail qr) xs" using qr(3) px by simp
  obtain h1 qr1 where h1: "queue_link_tail p ?ha qr = Some (h1, qr1)"
      "dlist qn_next qn_prev h1 (q_head qr1) (q_tail qr1) (xs @ [p])" "qn.same_payload ?ha h1"
      "\<And>y. y \<notin> set (xs @ [p]) \<Longrightarrow> h1 y = ?ha y" "q_lock qr1 = q_lock qr" "q_count qr1 = q_count qr"
    using queue_link_tail_ok [OF dla px mem(2), of ?blank] by auto
  obtain n1 where n1: "h1 p = Some n1" "qn_data n1 = data"
    using same_payloadD [OF h1(3), of p ?blank] by auto
  let ?h = "h1(p \<mapsto> n1\<lparr>qn_queue := q\<rparr>)"
  let ?qr = "qr1\<lparr>q_count := q_count qr1 + 1\<rparr>"
  let ?s = "s\<lparr>qmem := ps, qnodes := ?h, queues := (queues s)(q \<mapsto> ?qr)\<rparr>"
  have dup: "(if unique then do { (err, _) \<leftarrow> queue_contains me q data s; Some (err = 0) } else Some False) = Some False"
    using uniq queue_contains_ok(1) [OF ok lk, of data] by (auto simp: ENOENT_def)
  have "enqueue me q data unique s = Some ((0, Some p), ?s)"
    using dup mem qr lk h1(1) n1 by (simp add: enqueue_def hget_nonNULL hupd_mapped)
  moreover have pay: "\<exists>m. ?h x = Some m \<and> qn_data m = qn_data k \<and> qn_queue m = qn_queue k"
    if "x \<in> set xs" "qnodes s x = Some k" for x k
    using same_payloadD [OF h1(3), of x k] that px by auto
  moreover have dl: "dlist qn_next qn_prev ?h (q_head ?qr) (q_tail ?qr) (xs @ [p])"
    using qn_queue_keeps_dlist [OF h1(2) n1(1)] by simp
  moreover have "queue_ok ?s q (xs @ [p])"
    by (rule queue_ok_linked(1) [where h = ?h and n = "n1\<lparr>qn_queue := q\<rparr>", OF ok px mem(2) dl _ _ pay])
      (use qr(4) h1(6) in simp_all)
  moreover have "qdata ?s xs = qdata s xs"
    by (rule queue_ok_linked(2) [where h = ?h and n = "n1\<lparr>qn_queue := q\<rparr>", OF ok px mem(2) dl _ _ pay])
      (use qr(4) h1(6) in simp_all)
  moreover have "only_queue q xs s ?s"
    using qr(2) h1(4,5) fresh by (auto simp: only_queue_def q_used_def)
  ultimately show thesis using n1 by (intro that [of ?s]) (simp_all add: node_data_def)
qed

lemma enqueue_head_new:
  assumes ok: "queue_ok s q xs" and lk: "qlocked me q s"
    and uniq: "unique \<Longrightarrow> data \<notin> set (qdata s xs)"
    and mem: "kmalloc (q_used s) (qmem s) = (p, ps)" "p \<noteq> NULL"
  obtains s' where "enqueue_head me q unique data s = Some ((0, Some p), s')" "queue_ok s' q (p # xs)"
    "qdata s' (p # xs) = data # qdata s xs" "only_queue q xs s s'" "qmem s' = ps"
proof -
  have fresh: "\<not> q_used s p" using kmalloc_fresh [OF mem] .
  then have px: "p \<notin> set xs" using queue_ok_fresh [OF ok] by simp
  from ok obtain qr where qr: "q \<noteq> NULL" "queues s q = Some qr"
      "dlist qn_next qn_prev (qnodes s) (q_head qr) (q_tail qr) xs" "q_count qr = of_nat (length xs)"
    by (auto simp: queue_ok_def)
  let ?blank = "\<lparr>qn_prev = NULL, qn_data = data, qn_next = NULL, qn_queue = NULL\<rparr>"
  let ?ha = "(qnodes s)(p \<mapsto> ?blank)"
  have dla: "dlist qn_next qn_prev ?ha (q_head qr) (q_tail qr) xs" using qr(3) px by simp
  obtain h1 qr1 where h1: "queue_link_head p ?ha qr = Some (h1, qr1)"
      "dlist qn_next qn_prev h1 (q_head qr1) (q_tail qr1) (p # xs)" "qn.same_payload ?ha h1"
      "\<And>y. y \<notin> set (p # xs) \<Longrightarrow> h1 y = ?ha y" "q_lock qr1 = q_lock qr" "q_count qr1 = q_count qr"
    using queue_link_head_ok [OF dla px mem(2), of ?blank] by auto
  obtain n1 where n1: "h1 p = Some n1" "qn_data n1 = data"
    using same_payloadD [OF h1(3), of p ?blank] by auto
  let ?h = "h1(p \<mapsto> n1\<lparr>qn_queue := q\<rparr>)"
  let ?qr = "qr1\<lparr>q_count := q_count qr1 + 1\<rparr>"
  let ?s = "s\<lparr>qmem := ps, qnodes := ?h, queues := (queues s)(q \<mapsto> ?qr)\<rparr>"
  have dup: "(if unique then do { (err, _) \<leftarrow> queue_contains me q data s; Some (err = 0) } else Some False) = Some False"
    using uniq queue_contains_ok(1) [OF ok lk, of data] by (auto simp: ENOENT_def)
  have "enqueue_head me q unique data s = Some ((0, Some p), ?s)"
    using dup mem qr lk h1(1) n1 by (simp add: enqueue_head_def hget_nonNULL hupd_mapped)
  moreover have pay: "\<exists>m. ?h x = Some m \<and> qn_data m = qn_data k \<and> qn_queue m = qn_queue k"
    if "x \<in> set xs" "qnodes s x = Some k" for x k
    using same_payloadD [OF h1(3), of x k] that px by auto
  moreover have dl: "dlist qn_next qn_prev ?h (q_head ?qr) (q_tail ?qr) (p # xs)"
    using qn_queue_keeps_dlist [OF h1(2) n1(1)] by simp
  moreover have "queue_ok ?s q (p # xs)"
    by (rule queue_ok_linked(1) [where h = ?h and n = "n1\<lparr>qn_queue := q\<rparr>", OF ok px mem(2) dl _ _ pay])
      (use qr(4) h1(6) in simp_all)
  moreover have "qdata ?s xs = qdata s xs"
    by (rule queue_ok_linked(2) [where h = ?h and n = "n1\<lparr>qn_queue := q\<rparr>", OF ok px mem(2) dl _ _ pay])
      (use qr(4) h1(6) in simp_all)
  moreover have "only_queue q xs s ?s"
    using qr(2) h1(4,5) fresh by (auto simp: only_queue_def q_used_def)
  ultimately show thesis using n1 by (intro that [of ?s]) (simp_all add: node_data_def)
qed

lemma enqueue_dup:
  assumes "queue_ok s q xs" "qlocked me q s" "data \<in> set (qdata s xs)"
  shows "enqueue me q data True s = Some ((- EEXIST, None), s)"
    "enqueue_head me q True data s = Some ((- EEXIST, None), s)"
proof -
  obtain r where "queue_contains me q data s = Some r" "fst r = 0"
    using queue_contains_iff [OF assms(1,2)] assms(3) by blast
  moreover have "q \<noteq> NULL" using assms(2) by (simp add: qlocked_def)
  ultimately show "enqueue me q data True s = Some ((- EEXIST, None), s)"
    "enqueue_head me q True data s = Some ((- EEXIST, None), s)"
    using assms(2) by (simp_all add: enqueue_def enqueue_head_def split_beta)
qed

lemma enqueue_nomem:
  assumes "queue_ok s q xs" "qlocked me q s" "unique \<Longrightarrow> data \<notin> set (qdata s xs)"
    "kmalloc (q_used s) (qmem s) = (NULL, ps)"
  shows "enqueue me q data unique s = Some ((- ENOMEM, None), s\<lparr>qmem := ps\<rparr>)"
    "enqueue_head me q unique data s = Some ((- ENOMEM, None), s\<lparr>qmem := ps\<rparr>)"
proof -
  have "(if unique then do { (err, _) \<leftarrow> queue_contains me q data s; Some (err = 0) } else Some False) = Some False"
    using assms(3) queue_contains_ok(1) [OF assms(1,2), of data] by (auto simp: ENOENT_def)
  moreover have "q \<noteq> NULL" using assms(2) by (simp add: qlocked_def)
  ultimately show "enqueue me q data unique s = Some ((- ENOMEM, None), s\<lparr>qmem := ps\<rparr>)"
    "enqueue_head me q unique data s = Some ((- ENOMEM, None), s\<lparr>qmem := ps\<rparr>)"
    using assms by (simp_all add: enqueue_def enqueue_head_def)
qed

lemma queue_link_ok:
  assumes dl: "dlist qn_next qn_prev h (q_head qr) (q_tail qr) xs"
    and p: "p \<notin> set xs" "p \<noteq> NULL" "h p = Some n" "qn_next n = NULL" "qn_prev n = NULL"
  obtains h' qr' where "(case whence of QUEUE_RELLOC_HEAD \<Rightarrow> queue_link_head p h qr
        | QUEUE_RELLOC_TAIL \<Rightarrow> queue_link_tail p h qr) = Some (h', qr')"
    "dlist qn_next qn_prev h' (q_head qr') (q_tail qr')
       (case whence of QUEUE_RELLOC_HEAD \<Rightarrow> p # xs | QUEUE_RELLOC_TAIL \<Rightarrow> xs @ [p])"
    "qn.same_payload h h'" "\<And>y. y \<notin> insert p (set xs) \<Longrightarrow> h' y = h y"
    "q_lock qr' = q_lock qr" "q_count qr' = q_count qr"
proof (cases whence)
  case QUEUE_RELLOC_HEAD
  show thesis
    by (rule queue_link_head_ok [OF dl p], rule that, unfold QUEUE_RELLOC_HEAD queue_relloc.case,
        assumption+) simp_all
next
  case QUEUE_RELLOC_TAIL
  show thesis
    by (rule queue_link_tail_ok [OF dl p], rule that, unfold QUEUE_RELLOC_TAIL queue_relloc.case,
        assumption+) simp_all
qed

lemma queue_rellocate_node_ok:
  assumes ok: "queue_ok s q (as @ p # bs)" and lk: "qlocked me q s"
  obtains s' where "queue_rellocate_node me q p whence s = Some (0, s')"
    "queue_ok s' q (case whence of QUEUE_RELLOC_HEAD \<Rightarrow> p # as @ bs | QUEUE_RELLOC_TAIL \<Rightarrow> as @ bs @ [p])"
    "qdata s' (as @ p # bs) = qdata s (as @ p # bs)" "only_queue q (as @ p # bs) s s'" "qmem s' = qmem s"
proof -
  from ok obtain qr where qr: "q \<noteq> NULL" "queues s q = Some qr"
      "dlist qn_next qn_prev (qnodes s) (q_head qr) (q_tail qr) (as @ p # bs)"
      "q_count qr = of_nat (length (as @ p # bs))"
      "\<forall>x\<in>set (as @ p # bs). \<exists>n. qnodes s x = Some n \<and> qn_queue n = q"
    by (rule queue_okE)
  from qr(3) have dl: "dchain qn_next qn_prev (qnodes s) NULL (as @ p # bs) NULL"
      "distinct (as @ p # bs)" "NULL \<notin> set (as @ p # bs)"
    by (simp_all add: dlist_def)
  obtain n where n: "p \<noteq> NULL" "qnodes s p = Some n" "qn_prev n = last_of as NULL"
      "qn_next n = first_of bs NULL" "qn_queue n = q"
    using ok by (rule queue_ok_node)
  obtain h where h: "dll_unlink qn_next_update qn_prev_update (last_of as NULL) (first_of bs NULL) (qnodes s) = Some h"
      "dchain qn_next qn_prev h NULL (as @ bs) NULL" "qn.same_payload (qnodes s) h"
      "\<And>y. y \<notin> set as \<Longrightarrow> y \<notin> set bs \<Longrightarrow> h y = qnodes s y"
    using qn.unlink_chain [OF dl] by blast
  have un: "do { h \<leftarrow> hupd_if (first_of bs NULL) (qn_prev_update (\<lambda>_. last_of as NULL)) (qnodes s);
      hupd_if (last_of as NULL) (qn_next_update (\<lambda>_. first_of bs NULL)) h } = Some h"
    using h(1) by (subst hupd_commute) (simp_all add: dll_unlink_def)
  have hp: "h p = Some n" using h(4) dl(2) n(2) by simp
  let ?n = "n\<lparr>qn_prev := NULL, qn_next := NULL\<rparr>"
  let ?h = "h(p \<mapsto> ?n)"
  let ?qr = "qr\<lparr>q_head := first_of (as @ bs) NULL, q_tail := last_of (as @ bs) NULL\<rparr>"
  have px: "p \<notin> set (as @ bs)" using dl(2) by simp
  have dla: "dlist qn_next qn_prev ?h (q_head ?qr) (q_tail ?qr) (as @ bs)"
    using h(2) dl px by (simp add: dlist_def)
  let ?ys = "case whence of QUEUE_RELLOC_HEAD \<Rightarrow> p # (as @ bs) | QUEUE_RELLOC_TAIL \<Rightarrow> (as @ bs) @ [p]"
  obtain h1 qr1 where h1: "(case whence of QUEUE_RELLOC_HEAD \<Rightarrow> queue_link_head p ?h ?qr
        | QUEUE_RELLOC_TAIL \<Rightarrow> queue_link_tail p ?h ?qr) = Some (h1, qr1)"
      "dlist qn_next qn_prev h1 (q_head qr1) (q_tail qr1) ?ys" "qn.same_payload ?h h1"
      "\<And>y. y \<notin> insert p (set (as @ bs)) \<Longrightarrow> h1 y = ?h y" "q_lock qr1 = q_lock qr" "q_count qr1 = q_count qr"
    by (rule queue_link_ok [OF dla px n(1), of ?n whence]) simp_all
  let ?s = "s\<lparr>qnodes := h1, queues := (queues s)(q \<mapsto> qr1)\<rparr>"
  have "qn.same_payload h ?h" using hp by (simp add: qn.same_payload_def qn.payload_def)
  then have sp: "qn.same_payload (qnodes s) h1"
    using h(3) h1(3) by (blast intro: qn.same_payload_trans)
  have "queue_rellocate_node me q p whence s = Some (0, ?s)"
    using n lk qr(1,2) un hp h1(1) queue_ends_ok [OF qr(3)]
    by (simp add: queue_rellocate_node_def hget_nonNULL hupd_mapped Let_def bind_assoc [symmetric]
        cong: queue_relloc.case_cong del: bind_assoc)
  moreover have "queue_ok ?s q ?ys"
    using qr h1(2,6) same_payloadD [OF sp]
    by (cases whence) (fastforce simp: queue_ok_def)+
  moreover have "qdata ?s (as @ p # bs) = qdata s (as @ p # bs)"
    using qr(5) same_payloadD [OF sp] by (intro qdata_cong) fastforce
  moreover have "only_queue q (as @ p # bs) s ?s"
    using qr(2) h(4) h1(4,5) by (auto simp: only_queue_def)
  ultimately show thesis by (intro that [of ?s]) (simp_all cong: queue_relloc.case_cong)
qed

lemma hupd_if_None: "hupd_if p f h = Some h' \<Longrightarrow> h y = None \<Longrightarrow> h' y = None"
  by (auto simp: hupd_if_def hupd_Some split: if_splits)

lemma queue_unlink_None: "queue_unlink q p s = Some s' \<Longrightarrow> qnodes s y = None \<Longrightarrow> qnodes s' y = None"
  unfolding queue_unlink_def dll_unlink_def
  by (auto simp: Option.bind_eq_Some_conv hupd_Some Let_def dest: hupd_if_None)

lemma queue_flush_loop_frees:
  assumes "queue_ok s q xs" "queue_flush_loop q (first_of xs NULL) s = Some s'"
  shows "\<forall>y. y \<in> set xs \<or> qnodes s y = None \<longrightarrow> qnodes s' y = None"
  using assms
proof (induction xs arbitrary: s)
  case Nil
  then show ?case by auto
next
  case (Cons x xs)
  then have ok: "queue_ok s q ([] @ x # xs)" by simp
  obtain n where n: "x \<noteq> NULL" "qnodes s x = Some n" "qn_next n = first_of xs NULL"
    using ok by (rule queue_ok_node)
  obtain s1 where s1: "queue_unlink q x s = Some s1" "queue_ok s1 q xs" "qnodes s1 x = None"
    using queue_unlink_ok [OF ok] by auto
  have "qnodes s1 y = None" if "qnodes s y = None" for y
    using queue_unlink_None [OF s1(1) that] .
  moreover have "queue_flush_loop q (first_of xs NULL) s1 = Some s'"
    using Cons.prems(2) n s1(1) by (simp add: queue_flush_loop.simps [of q x] hget_nonNULL)
  ultimately show ?case using Cons.IH [OF s1(2)] s1(3) by auto
qed


lemma queue_flush_frees:
  assumes "queue_ok s q xs" "qlocked me q s" "queue_flush me q s = Some s'"
  shows "\<forall>y. y \<in> set xs \<or> qnodes s y = None \<longrightarrow> qnodes s' y = None"
proof -
  obtain qr where "hget (queues s) q = Some qr" "q_head qr = first_of xs NULL"
    using assms(1) by (rule queue_head_is)
  then have "queue_flush_loop q (first_of xs NULL) s = Some s'"
    using assms(2,3) by (simp add: queue_flush_def)
  with assms(1) show ?thesis by (rule queue_flush_loop_frees)
qed

lemma queue_lock_ok:
  assumes "queue_ok s q xs" "\<exists>qr. queues s q = Some qr \<and> lk_free (q_lock qr)"
  obtains s' where "queue_lock me q s = Some s'" "queue_ok s' q xs" "qlocked me q s'"
    "qnodes s' = qnodes s" "(queues s')(q := None) = (queues s)(q := None)"
proof -
  from assms obtain qr where qr: "q \<noteq> NULL" "queues s q = Some qr" "lk_free (q_lock qr)"
    by (auto simp: queue_ok_def)
  obtain lk where lk: "lk_acquire me (q_lock qr) = Some lk" "lk_held me lk"
    using lk_acquire_free [OF qr(3)] by blast
  with qr assms(1) show thesis
    by (intro that [of "s\<lparr>queues := (queues s)(q \<mapsto> qr\<lparr>q_lock := lk\<rparr>)\<rparr>"])
       (auto simp: queue_lock_def upd_queue_def hget_nonNULL hupd_mapped qlocked_def queue_ok_def)
qed

lemma queue_unlock_ok:
  assumes "qlocked me q s"
  obtains s' where "queue_unlock me q s = Some s'" "qnodes s' = qnodes s"
    "(queues s')(q := None) = (queues s)(q := None)"
proof -
  from assms obtain qr where qr: "q \<noteq> NULL" "queues s q = Some qr" "lk_held me (q_lock qr)"
    by (auto simp: qlocked_def)
  obtain lk where lk: "lk_release me (q_lock qr) = Some lk"
    using lk_release_held [OF qr(3)] by blast
  with qr show thesis
    by (intro that [of "s\<lparr>queues := (queues s)(q \<mapsto> qr\<lparr>q_lock := lk\<rparr>)\<rparr>"])
       (auto simp: queue_unlock_def upd_queue_def hget_nonNULL hupd_mapped)
qed

lemma queue_unlock_free:
  assumes "queue_ok s q xs" "qlocked me q s"
  obtains s' where "queue_unlock me q s = Some s'" "qnodes s' = qnodes s" "queue_ok s' q xs"
    "\<exists>qr. queues s' q = Some qr \<and> lk_free (q_lock qr)"
proof -
  from assms obtain qr where qr: "q \<noteq> NULL" "queues s q = Some qr" "lk_held me (q_lock qr)"
    by (auto simp: qlocked_def)
  obtain lk where lk: "lk_release me (q_lock qr) = Some lk" "lk_free lk"
    using lk_release_held [OF qr(3)] by blast
  with qr assms(1) show thesis
    by (intro that [of "s\<lparr>queues := (queues s)(q \<mapsto> qr\<lparr>q_lock := lk\<rparr>)\<rparr>"])
       (auto simp: queue_unlock_def upd_queue_def hget_nonNULL hupd_mapped queue_ok_def)
qed

lemma queue_free_ok:
  assumes "queue_ok s q xs" "\<exists>qr. queues s q = Some qr \<and> lk_free (q_lock qr)"
  obtains s' where "queue_free me q s = Some s'" "queues s' = (queues s)(q := None)"
    "\<forall>y. qnodes s' y = (if y \<in> set xs then None else qnodes s y)"
proof -
  obtain s1 where s1: "queue_lock me q s = Some s1" "queue_ok s1 q xs" "qlocked me q s1"
      "qnodes s1 = qnodes s" "(queues s1)(q := None) = (queues s)(q := None)"
    using queue_lock_ok [OF assms] .
  obtain s2 where s2: "queue_flush me q s1 = Some s2" "queue_ok s2 q []" "only_queue q xs s1 s2"
    using queue_flush_ok [OF s1(2,3)] by blast
  have "qlocked me q s2" using qlocked_frame [OF s2(3) s1(3)] .
  then obtain s3 where s3: "queue_unlock me q s2 = Some s3" "qnodes s3 = qnodes s2"
      "(queues s3)(q := None) = (queues s2)(q := None)"
    by (rule queue_unlock_ok)
  have "queue_islocked me q s = Some False"
    using assms by (auto simp: queue_islocked_def queue_ok_def hget_nonNULL lk_free_not_held)
  then have "queue_free me q s = Some (s3\<lparr>queues := (queues s3)(q := None)\<rparr>)"
    using s1 s2 s3 by (simp add: queue_free_def)
  moreover have "(queues s2)(q := None) = (queues s1)(q := None)"
    using s2(3) by (auto simp: only_queue_def)
  moreover have "qnodes s2 y = (if y \<in> set xs then None else qnodes s y)" for y
  proof (cases "qnodes s y")
    case None
    with queue_flush_frees [OF s1(2,3) s2(1)] s1(4) show ?thesis by auto
  next
    case (Some n)
    with queue_flush_frees [OF s1(2,3) s2(1)] s1(4) s2(3) show ?thesis by (simp add: only_queue_def)
  qed
  ultimately show thesis using s1 s3 by (intro that) auto
qed

lemma queue_rellocate_ok:
  assumes "queue_ok s q xs" "qlocked me q s" "data \<in> set (qdata s xs)"
  obtains s' ys where "queue_rellocate me q data whence s = Some (0, s')" "queue_ok s' q ys"
    "qdata s' ys = (case whence of QUEUE_RELLOC_HEAD \<Rightarrow> data # remove1 data (qdata s xs)
       | QUEUE_RELLOC_TAIL \<Rightarrow> remove1 data (qdata s xs) @ [data])"
    "only_queue q xs s s'" "qmem s' = qmem s"
proof -
  obtain cs x bs where x: "xs = cs @ x # bs" "data \<notin> set (qdata s cs)" "node_data s x = data"
    using assms(3) by (rule qdata_split_first)
  have ok: "queue_ok s q (cs @ x # bs)" using assms(1) x by simp
  obtain s' where s': "queue_rellocate_node me q x whence s = Some (0, s')"
      "queue_ok s' q (case whence of QUEUE_RELLOC_HEAD \<Rightarrow> x # cs @ bs | QUEUE_RELLOC_TAIL \<Rightarrow> cs @ bs @ [x])"
      "qdata s' (cs @ x # bs) = qdata s (cs @ x # bs)" "only_queue q (cs @ x # bs) s s'" "qmem s' = qmem s"
    using queue_rellocate_node_ok [OF ok assms(2)] .
  have d: "qdata s' cs = qdata s cs" "qdata s' bs = qdata s bs" "node_data s' x = data"
    using s'(3) x(3) by simp_all
  have "q \<noteq> NULL" using assms(2) by (simp add: qlocked_def)
  with s'(1) have "queue_rellocate me q data whence s = Some (0, s')"
    using assms(2) queue_contains_ok(2) [OF assms(1,2) x] by (simp add: queue_rellocate_def)
  then show thesis
    using s' d x
    by (intro that [of s' "case whence of QUEUE_RELLOC_HEAD \<Rightarrow> x # cs @ bs | QUEUE_RELLOC_TAIL \<Rightarrow> cs @ bs @ [x]"])
       (auto simp: remove1_append split: queue_relloc.split)
qed

text \<open>\<open>enqueue\<close> allocates nothing but the object the allocator answered with.\<close>

lemma queue_link_tail_None: "queue_link_tail p h qr = Some (h', qr') \<Longrightarrow> h y = None \<Longrightarrow> h' y = None"
  by (auto simp: queue_link_tail_def Option.bind_eq_Some_conv hupd_Some split: if_splits)

lemma enqueue_used:
  assumes "enqueue me q data unique s = Some (r, s')" "q_used s' y"
  shows "q_used s y \<or> y = fst (kmalloc (q_used s) (qmem s))"
proof (rule ccontr)
  assume not: "\<not> ?thesis"
  then have "qnodes s y = None" "queues s y = None" "y \<noteq> fst (kmalloc (q_used s) (qmem s))"
    by (auto simp: q_used_def)
  with assms show False
    by (auto simp: enqueue_def Option.bind_eq_Some_conv hupd_Some hget_Some q_used_def Let_def
        split: if_splits prod.splits dest!: queue_link_tail_None)
qed

section \<open>The queue as a first-in first-out container\<close>

text \<open>A client's view: a value goes in at the tail with \<open>enqueue\<close> and comes out at the head with
  \<open>dequeue\<close>, the queue being locked by the caller.\<close>

definition queue_rep :: "ctx \<Rightarrow> ptr \<Rightarrow> qstate \<Rightarrow> ptr list \<Rightarrow> bool" where
  "queue_rep me q s ds \<longleftrightarrow> qlocked me q s \<and> (\<exists>xs. queue_ok s q xs \<and> qdata s xs = ds)"

definition queue_put :: "ctx \<Rightarrow> ptr \<Rightarrow> ptr \<Rightarrow> qstate \<Rightarrow> (bool \<times> qstate) option" where
  "queue_put me q a s = do { ((err, _), s) \<leftarrow> enqueue me q a False s; Some (err = 0, s) }"

definition queue_get :: "ctx \<Rightarrow> ptr \<Rightarrow> qstate \<Rightarrow> (ptr option \<times> qstate) option" where
  "queue_get me q s = do { ((err, v), s) \<leftarrow> dequeue me q True s; Some (if err = 0 then v else None, s) }"

lemma queue_rep_qmem [simp]: "queue_rep me q (s\<lparr>qmem := ps\<rparr>) ds = queue_rep me q s ds"
  by (simp add: queue_rep_def qlocked_def queue_ok_def qdata_def node_data_def [abs_def])

lemma enqueue_mem_cases:
  obtains (nomem) ps where "kmalloc (q_used s) (qmem s) = (NULL, ps)"
  | (mem) p ps where "kmalloc (q_used s) (qmem s) = (p, ps)" "p \<noteq> NULL"
  by (cases "kmalloc (q_used s) (qmem s)") auto

interpretation queue_fifo: fifo "queue_rep me q" "queue_put me q" "queue_get me q" for me q
proof
  fix s ds a
  assume "queue_rep me q s ds"
  then obtain xs where xs: "queue_ok s q xs" "qlocked me q s" "qdata s xs = ds"
    by (auto simp: queue_rep_def)
  show "\<exists>b s'. queue_put me q a s = Some (b, s') \<and> queue_rep me q s' (if b then ds @ [a] else ds)"
  proof (cases s rule: enqueue_mem_cases)
    case (nomem ps)
    then have "queue_put me q a s = Some (False, s\<lparr>qmem := ps\<rparr>)"
      using enqueue_nomem [OF xs(1,2)] by (simp add: queue_put_def errno_defs)
    then show ?thesis using \<open>queue_rep me q s ds\<close> by (intro exI [of _ False]) simp
  next
    case (mem p ps)
    obtain s' where "enqueue me q a False s = Some ((0, Some p), s')" "queue_ok s' q (xs @ [p])"
        "qdata s' (xs @ [p]) = ds @ [a]" "only_queue q xs s s'"
      using enqueue_new [OF xs(1,2) _ mem, of False a] xs(3) by auto
    then show ?thesis
      using qlocked_frame xs(2)
      by (intro exI [of _ True] exI [of _ s']) (auto simp: queue_put_def queue_rep_def)
  qed
next
  fix s
  assume "queue_rep me q s []"
  then have "queue_ok s q []" "qlocked me q s"
    by (auto simp: queue_rep_def qdata_def)
  then show "\<exists>s'. queue_get me q s = Some (None, s') \<and> queue_rep me q s' []"
    by (auto simp: queue_get_def dequeue_empty queue_rep_def errno_defs)
next
  fix s d ds
  assume "queue_rep me q s (d # ds)"
  then obtain x xs where xs: "queue_ok s q (x # xs)" "qlocked me q s" "node_data s x = d" "qdata s xs = ds"
    by (auto simp: queue_rep_def qdata_def map_eq_Cons_conv)
  obtain s' where "dequeue me q True s = Some ((0, Some d), s')" "queue_ok s' q xs"
      "qdata s' xs = ds" "only_queue q (x # xs) s s'"
    using dequeue_ok [OF xs(1,2)] xs(3,4) by blast
  then show "\<exists>s'. queue_get me q s = Some (Some d, s') \<and> queue_rep me q s' ds"
    using qlocked_frame xs(2) by (intro exI [of _ s']) (auto simp: queue_get_def queue_rep_def)
qed

section \<open>Properties\<close>

text \<open>A queue for the witnesses: locked by thread 7 on CPU 0, holding the nodes 10 and 20
  with data 5 and 6; the allocator has two more addresses to give.\<close>

definition ex_me :: ctx where
  "ex_me = \<lparr>self_tid = 7, self_cpu = 0\<rparr>"

definition ex_queue :: qstate where
  "ex_queue = \<lparr>
     qnodes = [10 \<mapsto> \<lparr>qn_prev = 0, qn_data = 5, qn_next = 20, qn_queue = 1\<rparr>,
               20 \<mapsto> \<lparr>qn_prev = 10, qn_data = 6, qn_next = 0, qn_queue = 1\<rparr>],
     queues = [1 \<mapsto> \<lparr>q_head = 10, q_tail = 20, q_count = 2,
                    q_lock = \<lparr>s_guard = 0, s_tid = 7, s_lock = 1, s_apicid = 0\<rparr>\<rparr>],
     qmem = [30, 40]\<rparr>"

lemma ex_queue_ok: "queue_ok ex_queue 1 [10, 20]" "qlocked ex_me 1 ex_queue"
  "qdata ex_queue [10, 20] = [5, 6]"
  by (simp_all add: queue_ok_def dlist_def ex_queue_def ex_me_def qlocked_def lk_held_def
      spin_self_def qdata_def node_data_def)



text \<open>C14: \<open>enqueue\<close> on every branch. A duplicate under \<open>QUEUE_ENFORCE_UNIQUE\<close> is refused with
  \<open>-EEXIST\<close> and nothing changes; a failed allocation is \<open>-ENOMEM\<close> and only the allocator moved
  on; otherwise the new node is the fresh object, last in the queue, and holds the data.
  Nodes of other queues, other headers and the lock are untouched.\<close>

theorem enqueue_spec:
  assumes "queue_ok s q xs" "qlocked me q s"
  shows "\<exists>r s'. enqueue me q data unique s = Some (r, s') \<and> only_queue q xs s s' \<and>
    (case kmalloc (q_used s) (qmem s) of (p, ps) \<Rightarrow>
       if unique \<and> data \<in> set (qdata s xs) then r = (- EEXIST, None) \<and> s' = s
       else if p = NULL then r = (- ENOMEM, None) \<and> s' = s\<lparr>qmem := ps\<rparr>
       else r = (0, Some p) \<and> queue_ok s' q (xs @ [p]) \<and> qdata s' (xs @ [p]) = qdata s xs @ [data])"
proof (cases "unique \<and> data \<in> set (qdata s xs)")
  case True
  then show ?thesis using enqueue_dup(1) [OF assms, of data] by (auto simp: only_queue_refl)
next
  case new: False
  show ?thesis
  proof (cases s rule: enqueue_mem_cases)
    case (nomem ps)
    then show ?thesis
      using new enqueue_nomem [OF assms] by (auto simp: only_queue_def)
  next
    case (mem p ps)
    obtain s' where "enqueue me q data unique s = Some ((0, Some p), s')" "queue_ok s' q (xs @ [p])"
        "qdata s' (xs @ [p]) = qdata s xs @ [data]" "only_queue q xs s s'"
      by (rule enqueue_new [OF assms _ mem, of unique data]) (use new in auto)
    with new mem show ?thesis by (intro exI [of _ "(0, Some p)"] exI [of _ s']) simp
  qed
qed

theorem enqueue_spec_witness:
  "\<exists>r s'. enqueue ex_me 1 9 True ex_queue = Some (r, s') \<and> only_queue 1 [10, 20] ex_queue s' \<and>
    (case kmalloc (q_used ex_queue) (qmem ex_queue) of (p, ps) \<Rightarrow>
       if True \<and> 9 \<in> set (qdata ex_queue [10, 20]) then r = (- EEXIST, None) \<and> s' = ex_queue
       else if p = NULL then r = (- ENOMEM, None) \<and> s' = ex_queue\<lparr>qmem := ps\<rparr>
       else r = (0, Some p) \<and> queue_ok s' 1 ([10, 20] @ [p]) \<and>
         qdata s' ([10, 20] @ [p]) = qdata ex_queue [10, 20] @ [9])"
  using enqueue_spec [OF ex_queue_ok(1,2)] .

text \<open>C15: \<open>queue_remove\<close> takes out the first node holding the data and nothing else, or reports
  \<open>-ENOENT\<close> and changes nothing when no node holds it; it always returns.\<close>

theorem queue_remove_spec:
  assumes "queue_ok s q xs" "qlocked me q s"
  shows "\<exists>s' ys. queue_remove me q data s = Some (if data \<in> set (qdata s xs) then 0 else - ENOENT, s') \<and>
    queue_ok s' q ys \<and> qdata s' ys = remove1 data (qdata s xs) \<and> only_queue q xs s s'"
proof (cases "data \<in> set (qdata s xs)")
  case True
  then obtain cs x bs where x: "xs = cs @ x # bs" "data \<notin> set (qdata s cs)" "node_data s x = data"
    by (rule qdata_split_first)
  with assms obtain s' where "queue_remove me q data s = Some (0, s')" "queue_ok s' q (cs @ bs)"
      "qdata s' (cs @ bs) = qdata s (cs @ bs)" "only_queue q (cs @ x # bs) s s'"
    using queue_remove_ok by blast
  with x True show ?thesis by (auto simp: remove1_append)
next
  case False
  then show ?thesis
    using queue_remove_absent [OF assms False] assms by (auto simp: remove1_idem only_queue_refl)
qed

theorem queue_remove_spec_witness:
  "\<exists>s' ys. queue_remove ex_me 1 6 ex_queue =
      Some (if 6 \<in> set (qdata ex_queue [10, 20]) then 0 else - ENOENT, s') \<and>
    queue_ok s' 1 ys \<and> qdata s' ys = remove1 6 (qdata ex_queue [10, 20]) \<and>
    only_queue 1 [10, 20] ex_queue s'"
  using queue_remove_spec [OF ex_queue_ok(1,2)] .

text \<open>\<open>queue_rellocate\<close> moves the first node holding the data to the asked end and keeps the
  order of all the others; when no node holds it the queue is left as it is.\<close>

theorem queue_rellocate_spec:
  assumes "queue_ok s q xs" "qlocked me q s"
  shows "\<exists>e s' ys. queue_rellocate me q data whence s = Some (e, s') \<and> queue_ok s' q ys \<and>
    only_queue q xs s s' \<and>
    (if data \<in> set (qdata s xs)
     then e = 0 \<and> qdata s' ys = (case whence of
       QUEUE_RELLOC_HEAD \<Rightarrow> data # remove1 data (qdata s xs)
     | QUEUE_RELLOC_TAIL \<Rightarrow> remove1 data (qdata s xs) @ [data])
     else e = - ENOENT \<and> s' = s)"
proof (cases "data \<in> set (qdata s xs)")
  case True
  from queue_rellocate_ok [OF assms True] show ?thesis using True by metis
next
  case False
  have "q \<noteq> NULL" using assms(2) by (simp add: qlocked_def)
  then have "queue_rellocate me q data whence s = Some (- ENOENT, s)"
    using queue_contains_ok(1) [OF assms False] assms(2)
    by (simp add: queue_rellocate_def errno_defs)
  with assms False show ?thesis by (auto simp: only_queue_refl)
qed

theorem queue_rellocate_spec_witness:
  "\<exists>e s' ys. queue_rellocate ex_me 1 6 QUEUE_RELLOC_HEAD ex_queue = Some (e, s') \<and> queue_ok s' 1 ys \<and>
    only_queue 1 [10, 20] ex_queue s' \<and>
    (if 6 \<in> set (qdata ex_queue [10, 20])
     then e = 0 \<and> qdata s' ys = (case QUEUE_RELLOC_HEAD of
       QUEUE_RELLOC_HEAD \<Rightarrow> 6 # remove1 6 (qdata ex_queue [10, 20])
     | QUEUE_RELLOC_TAIL \<Rightarrow> remove1 6 (qdata ex_queue [10, 20]) @ [6])
     else e = - ENOENT \<and> s' = ex_queue)"
  using queue_rellocate_spec [OF ex_queue_ok(1,2)] .

text \<open>\<open>queue_free\<close> of an unlocked queue frees the header and exactly the nodes of the queue:
  nothing leaks and nothing else is freed or changed.\<close>

theorem queue_free_frees_exactly:
  assumes "queue_ok s q xs" "queues s q = Some qr" "lk_free (q_lock qr)"
  shows "\<exists>s'. queue_free me q s = Some s' \<and> queues s' = (queues s)(q := None) \<and>
    qnodes s' = (\<lambda>y. if y \<in> set xs then None else qnodes s y)"
proof -
  obtain s' where "queue_free me q s = Some s'" "queues s' = (queues s)(q := None)"
      "\<forall>y. qnodes s' y = (if y \<in> set xs then None else qnodes s y)"
    by (rule queue_free_ok [OF assms(1)]) (use assms(2,3) in auto)
  then show ?thesis by (intro exI [of _ s']) auto
qed

definition ex_idle :: qstate where
  "ex_idle = ex_queue\<lparr>queues := [1 \<mapsto> \<lparr>q_head = 10, q_tail = 20, q_count = 2, q_lock = SPINLOCK_INIT\<rparr>]\<rparr>"

theorem queue_free_frees_exactly_witness:
  "\<exists>s'. queue_free ex_me 1 ex_idle = Some s' \<and> queues s' = (queues ex_idle)(1 := None) \<and>
    qnodes s' = (\<lambda>y. if y \<in> set [10, 20] then None else qnodes ex_idle y)"
  by (rule queue_free_frees_exactly [where qr = "\<lparr>q_head = 10, q_tail = 20, q_count = 2, q_lock = SPINLOCK_INIT\<rparr>"])
     (simp_all add: ex_idle_def queue_ok_def dlist_def ex_queue_def)

end
