(* ===== verification/Stack.thy ===== *)
theory Stack
  imports Queue
begin

text \<open>
  The kernel's stacks (\<open>ds/stack.c\<close>): a queue used from its tail, behind a lock of its own.
  The queue is the first field of the structure, so the two share their address: the stack
  at \<open>s\<close> is the queue header at \<open>s\<close> together with the lock that \<open>slocks\<close> holds at \<open>s\<close>.
\<close>

record sstate =
  sq :: qstate
  slocks :: "spinlock heap"

definition stack_assert_locked :: "ctx \<Rightarrow> ptr \<Rightarrow> sstate \<Rightarrow> unit option" where
  "stack_assert_locked me s st = do {
     kassert (s \<noteq> NULL);
     lk \<leftarrow> hget (slocks st) s;
     lk_assert me lk
   }"

definition stack_lock :: "ctx \<Rightarrow> ptr \<Rightarrow> sstate \<Rightarrow> sstate option" where
  "stack_lock me s st = do {
     kassert (s \<noteq> NULL);
     lk \<leftarrow> hget (slocks st) s;
     lk \<leftarrow> lk_acquire me lk;
     Some (st\<lparr>slocks := (slocks st)(s \<mapsto> lk)\<rparr>)
   }"

definition stack_unlock :: "ctx \<Rightarrow> ptr \<Rightarrow> sstate \<Rightarrow> sstate option" where
  "stack_unlock me s st = do {
     kassert (s \<noteq> NULL);
     lk \<leftarrow> hget (slocks st) s;
     lk \<leftarrow> lk_release me lk;
     Some (st\<lparr>slocks := (slocks st)(s \<mapsto> lk)\<rparr>)
   }"

definition stack_islocked :: "ctx \<Rightarrow> ptr \<Rightarrow> sstate \<Rightarrow> bool option" where
  "stack_islocked me s st = do {
     kassert (s \<noteq> NULL);
     lk \<leftarrow> hget (slocks st) s;
     Some (lk_held me lk)
   }"

text \<open>The bracket every operation has: \<open>queue_lock\<close>, one queue routine, \<open>queue_unlock\<close>.\<close>

definition with_queue ::
  "ctx \<Rightarrow> ptr \<Rightarrow> (qstate \<Rightarrow> ('r \<times> qstate) option) \<Rightarrow> sstate \<Rightarrow> ('r \<times> sstate) option" where
  "with_queue me s f st = do {
     q \<leftarrow> queue_lock me s (sq st);
     (r, q) \<leftarrow> f q;
     q \<leftarrow> queue_unlock me s q;
     Some (r, st\<lparr>sq := q\<rparr>)
   }"

definition stack_init :: "ptr \<Rightarrow> sstate \<Rightarrow> (int \<times> sstate) option" where
  "stack_init s st =
     (if s = NULL then Some (- EINVAL, st)
      else Some (0, st\<lparr>sq := (sq st)\<lparr>queues := (queues (sq st))(s \<mapsto> QUEUE_INIT)\<rparr>,
                       slocks := (slocks st)(s \<mapsto> SPINLOCK_INIT)\<rparr>))"

definition stack_push :: "ctx \<Rightarrow> ptr \<Rightarrow> ptr \<Rightarrow> sstate \<Rightarrow> (int \<times> sstate) option" where
  "stack_push me s pd st =
     (if s = NULL then Some (- EINVAL, st)
      else do {
        stack_assert_locked me s st;
        with_queue me s (\<lambda>q. do { ((err, _), q) \<leftarrow> enqueue me s pd False q; Some (err, q) }) st
      })"

definition stack_pop :: "ctx \<Rightarrow> ptr \<Rightarrow> bool \<Rightarrow> sstate \<Rightarrow> ((int \<times> ptr option) \<times> sstate) option" where
  "stack_pop me s pdp st =
     (if s = NULL then Some ((- EINVAL, None), st)
      else do {
        stack_assert_locked me s st;
        with_queue me s (dequeue_tail me s pdp) st
      })"

definition stack_remove :: "ctx \<Rightarrow> ptr \<Rightarrow> ptr \<Rightarrow> sstate \<Rightarrow> (int \<times> sstate) option" where
  "stack_remove me s data st =
     (if s = NULL then Some (- EINVAL, st)
      else do {
        stack_assert_locked me s st;
        with_queue me s (queue_remove me s data) st
      })"

definition stack_contains :: "ctx \<Rightarrow> ptr \<Rightarrow> ptr \<Rightarrow> sstate \<Rightarrow> (int \<times> sstate) option" where
  "stack_contains me s data st =
     (if s = NULL then Some (- EINVAL, st)
      else do {
        stack_assert_locked me s st;
        with_queue me s (\<lambda>q. do { (err, _) \<leftarrow> queue_contains me s data q; Some (err, q) }) st
      })"

definition stack_size :: "ctx \<Rightarrow> ptr \<Rightarrow> sstate \<Rightarrow> (u64 \<times> sstate) option" where
  "stack_size me s st = do {
     stack_assert_locked me s st;
     with_queue me s (\<lambda>q. do { n \<leftarrow> queue_count me s q; Some (n, q) }) st
   }"

definition stack_flush :: "ctx \<Rightarrow> ptr \<Rightarrow> sstate \<Rightarrow> (int \<times> sstate) option" where
  "stack_flush me s st =
     (if s = NULL then Some (- EINVAL, st)
      else do {
        stack_assert_locked me s st;
        with_queue me s (\<lambda>q. do { q \<leftarrow> queue_flush me s q; Some (0, q) }) st
      })"

definition stack_alloc :: "bool \<Rightarrow> sstate \<Rightarrow> ((int \<times> ptr option) \<times> sstate) option" where
  "stack_alloc psp st =
     (if \<not> psp then Some ((- EINVAL, None), st)
      else do {
        let (s, ps) = kmalloc (\<lambda>p. q_used (sq st) p \<or> slocks st p \<noteq> None) (qmem (sq st));
        let st = st\<lparr>sq := (sq st)\<lparr>qmem := ps\<rparr>\<rparr>;
        if s = NULL then Some ((- ENOMEM, None), st)
        else do {
          (err, st) \<leftarrow> stack_init s st;
          if err \<noteq> 0 then Some ((err, None), st) else Some ((0, Some s), st)
        }
      })"

definition stack_free :: "ctx \<Rightarrow> ptr \<Rightarrow> sstate \<Rightarrow> sstate option" where
  "stack_free me s st =
     (if s = NULL then Some st
      else do {
        locked \<leftarrow> stack_islocked me s st;
        st \<leftarrow> (if \<not> locked then stack_lock me s st else Some st);
        (_, st) \<leftarrow> stack_flush me s st;
        st \<leftarrow> stack_unlock me s st;
        Some (st\<lparr>sq := (sq st)\<lparr>queues := (queues (sq st))(s := None)\<rparr>,
                 slocks := (slocks st)(s := None)\<rparr>)
      })"

definition stack_peek :: "ctx \<Rightarrow> ptr \<Rightarrow> bool \<Rightarrow> bool \<Rightarrow> sstate \<Rightarrow> ((int \<times> ptr option) \<times> sstate) option" where
  "stack_peek me s from_top pdp st =
     (if s = NULL \<or> \<not> pdp then Some ((- EINVAL, None), st)
      else do {
        stack_assert_locked me s st;
        with_queue me s (\<lambda>q. do { r \<leftarrow> queue_peek me s from_top pdp q; Some (r, q) }) st
      })"

section \<open>A stack and its contents, the top first\<close>

definition stack_ok :: "sstate \<Rightarrow> ptr \<Rightarrow> ptr list \<Rightarrow> bool" where
  "stack_ok st s ds \<longleftrightarrow>
     (\<exists>xs qr. queue_ok (sq st) s xs \<and> rev (qdata (sq st) xs) = ds \<and>
        queues (sq st) s = Some qr \<and> lk_free (q_lock qr))"

definition slocked :: "ctx \<Rightarrow> ptr \<Rightarrow> sstate \<Rightarrow> bool" where
  "slocked me s st \<longleftrightarrow> s \<noteq> NULL \<and> (\<exists>lk. slocks st s = Some lk \<and> lk_held me lk)"

lemma stack_assert_locked_ok [simp]: "slocked me s st \<Longrightarrow> stack_assert_locked me s st = Some ()"
  by (auto simp: stack_assert_locked_def slocked_def hget_nonNULL)

lemma slocked_sq [simp]: "slocked me s (st\<lparr>sq := q\<rparr>) = slocked me s st"
  by (simp add: slocked_def)

lemma slocked_nonNULL: "slocked me s st \<Longrightarrow> s \<noteq> NULL"
  by (simp add: slocked_def)

text \<open>Inside the bracket the queue is locked by the caller; a routine that keeps it a queue, locked,
  gives back an unlocked stack.\<close>

lemma with_queue_ok:
  assumes "stack_ok st s ds"
    and f: "\<And>q xs. queue_ok q s xs \<Longrightarrow> rev (qdata q xs) = ds \<Longrightarrow> qlocked me s q \<Longrightarrow>
      \<exists>r q' ys. f q = Some (r, q') \<and> queue_ok q' s ys \<and> qlocked me s q' \<and> R r (rev (qdata q' ys))"
  shows "\<exists>r st'. with_queue me s f st = Some (r, st') \<and> slocks st' = slocks st \<and>
    (\<exists>es. stack_ok st' s es \<and> R r es)"
proof -
  from assms(1) obtain xs qr where xs: "queue_ok (sq st) s xs" "rev (qdata (sq st) xs) = ds"
      "\<exists>qr. queues (sq st) s = Some qr \<and> lk_free (q_lock qr)"
    by (auto simp: stack_ok_def)
  obtain q1 where q1: "queue_lock me s (sq st) = Some q1" "queue_ok q1 s xs" "qlocked me s q1"
      "qnodes q1 = qnodes (sq st)"
    using queue_lock_ok [OF xs(1,3)] by blast
  have "qdata q1 xs = qdata (sq st) xs" using q1(4) by (simp add: qdata_def node_data_def)
  with f [OF q1(2) _ q1(3)] xs(2) obtain r q2 ys where q2: "f q1 = Some (r, q2)" "queue_ok q2 s ys"
      "qlocked me s q2" "R r (rev (qdata q2 ys))"
    by auto
  obtain q3 where q3: "queue_unlock me s q2 = Some q3" "qnodes q3 = qnodes q2" "queue_ok q3 s ys"
      "\<exists>qr. queues q3 s = Some qr \<and> lk_free (q_lock qr)"
    using queue_unlock_free [OF q2(2,3)] .
  have "qdata q3 ys = qdata q2 ys" using q3(2) by (simp add: qdata_def node_data_def)
  then have "stack_ok (st\<lparr>sq := q3\<rparr>) s (rev (qdata q2 ys))"
    using q3 by (auto simp: stack_ok_def)
  with q1(1) q2 q3(1) show ?thesis by (auto simp: with_queue_def)
qed


lemma stack_push_ok:
  assumes "stack_ok st s ds" "slocked me s st"
  shows "\<exists>e st'. stack_push me s a st = Some (e, st') \<and> slocks st' = slocks st \<and>
    stack_ok st' s (if e = 0 then a # ds else ds) \<and> (e = 0 \<or> e = - ENOMEM)"
proof -
  let ?f = "\<lambda>q. do { ((err, _), q) \<leftarrow> enqueue me s a False q; Some (err, q) }"
  let ?R = "\<lambda>e es. es = (if e = 0 then a # ds else ds) \<and> (e = 0 \<or> e = - ENOMEM)"
  have "\<exists>r q' ys. ?f q = Some (r, q') \<and> queue_ok q' s ys \<and> qlocked me s q' \<and> ?R r (rev (qdata q' ys))"
    if q: "queue_ok q s xs" "rev (qdata q xs) = ds" "qlocked me s q" for q xs
  proof (cases q rule: enqueue_mem_cases)
    case (nomem ps)
    then have "?f q = Some (- ENOMEM, q\<lparr>qmem := ps\<rparr>)"
      using enqueue_nomem [OF q(1,3)] by simp
    moreover have "queue_ok (q\<lparr>qmem := ps\<rparr>) s xs" "qlocked me s (q\<lparr>qmem := ps\<rparr>)"
        "qdata (q\<lparr>qmem := ps\<rparr>) xs = qdata q xs"
      using q by (simp_all add: queue_ok_def qlocked_def qdata_def node_data_def)
    ultimately show ?thesis
      using q(2) by (intro exI [of _ "- ENOMEM"] exI [of _ "q\<lparr>qmem := ps\<rparr>"] exI [of _ xs])
        (simp add: errno_defs)
  next
    case (mem p ps)
    obtain q' where "enqueue me s a False q = Some ((0, Some p), q')" "queue_ok q' s (xs @ [p])"
        "qdata q' (xs @ [p]) = qdata q xs @ [a]" "only_queue s xs q q'"
      using enqueue_new [OF q(1,3) _ mem, of False a] by auto
    then show ?thesis
      using q qlocked_frame
      by (intro exI [of _ 0] exI [of _ q'] exI [of _ "xs @ [p]"]) (simp del: qdata_simps)
  qed
  then have "\<exists>r st'. with_queue me s ?f st = Some (r, st') \<and>
      slocks st' = slocks st \<and> (\<exists>es. stack_ok st' s es \<and> ?R r es)"
    by (rule with_queue_ok [OF assms(1)])
  then show ?thesis
    using slocked_nonNULL [OF assms(2)] assms(2) by (auto simp: stack_push_def)
qed

lemma stack_pop_ok:
  assumes "stack_ok st s ds" "slocked me s st"
  shows "\<exists>st'. stack_pop me s True st = Some (case ds of [] \<Rightarrow> (- ENOENT, None) | d # _ \<Rightarrow> (0, Some d), st') \<and>
    slocks st' = slocks st \<and> stack_ok st' s (tl ds)"
proof -
  let ?R = "\<lambda>r es. r = (case ds of [] \<Rightarrow> (- ENOENT, None) | d # _ \<Rightarrow> (0, Some d)) \<and> es = tl ds"
  have "\<exists>r q' ys. dequeue_tail me s True q = Some (r, q') \<and> queue_ok q' s ys \<and> qlocked me s q' \<and>
      ?R r (rev (qdata q' ys))"
    if q: "queue_ok q s xs" "rev (qdata q xs) = ds" "qlocked me s q" for q xs
  proof (cases xs rule: rev_cases)
    case Nil
    then show ?thesis using q dequeue_empty [of q s me] by auto
  next
    case (snoc zs x)
    with q(1) have "queue_ok q s (zs @ [x])" by simp
    then obtain q' where "dequeue_tail me s True q = Some ((0, Some (node_data q x)), q')" "queue_ok q' s zs"
        "qdata q' zs = qdata q zs" "only_queue s (zs @ [x]) q q'"
      using dequeue_tail_ok [OF _ q(3)] by blast
    then show ?thesis
      using snoc q qlocked_frame by (intro exI [of _ "(0, Some (node_data q x))"] exI [of _ q'] exI [of _ zs]) auto
  qed
  then have "\<exists>r st'. with_queue me s (dequeue_tail me s True) st = Some (r, st') \<and>
      slocks st' = slocks st \<and> (\<exists>es. stack_ok st' s es \<and> ?R r es)"
    by (rule with_queue_ok [OF assms(1)])
  then show ?thesis
    using slocked_nonNULL [OF assms(2)] assms(2)
    by (cases ds) (auto simp: stack_pop_def)
qed

text \<open>The client's view: \<open>stack_push\<close> and \<open>stack_pop\<close> on a stack locked by the caller.\<close>

definition stack_rep :: "ctx \<Rightarrow> ptr \<Rightarrow> sstate \<Rightarrow> ptr list \<Rightarrow> bool" where
  "stack_rep me s st ds \<longleftrightarrow> slocked me s st \<and> stack_ok st s ds"

definition stack_put :: "ctx \<Rightarrow> ptr \<Rightarrow> ptr \<Rightarrow> sstate \<Rightarrow> (bool \<times> sstate) option" where
  "stack_put me s a st = do { (err, st) \<leftarrow> stack_push me s a st; Some (err = 0, st) }"

definition stack_get :: "ctx \<Rightarrow> ptr \<Rightarrow> sstate \<Rightarrow> (ptr option \<times> sstate) option" where
  "stack_get me s st = do { ((_, v), st) \<leftarrow> stack_pop me s True st; Some (v, st) }"

lemma stack_rep_slocks: "stack_rep me s st ds \<Longrightarrow> slocks st' = slocks st \<Longrightarrow> stack_ok st' s es \<Longrightarrow> stack_rep me s st' es"
  by (simp add: stack_rep_def slocked_def)

interpretation stack_lifo: lifo "stack_rep me s" "stack_put me s" "stack_get me s" for me s
proof
  fix st ds a
  assume rep: "stack_rep me s st ds"
  then obtain e st' where "stack_push me s a st = Some (e, st')" "slocks st' = slocks st"
      "stack_ok st' s (if e = 0 then a # ds else ds)"
    using stack_push_ok [of st s ds me a] by (auto simp: stack_rep_def)
  with rep show "\<exists>b st'. stack_put me s a st = Some (b, st') \<and> stack_rep me s st' (if b then a # ds else ds)"
    by (intro exI [of _ "e = 0"] exI [of _ st']) (auto simp: stack_put_def intro: stack_rep_slocks)
next
  fix st
  assume rep: "stack_rep me s st []"
  then show "\<exists>st'. stack_get me s st = Some (None, st') \<and> stack_rep me s st' []"
    using stack_pop_ok [of st s "[]" me] stack_rep_slocks [OF rep]
    by (auto simp: stack_rep_def stack_get_def)
next
  fix st d ds
  assume rep: "stack_rep me s st (d # ds)"
  then show "\<exists>st'. stack_get me s st = Some (Some d, st') \<and> stack_rep me s st' ds"
    using stack_pop_ok [of st s "d # ds" me] stack_rep_slocks [OF rep]
    by (auto simp: stack_rep_def stack_get_def)
qed

section \<open>Properties\<close>

text \<open>C17: A locked stack is last in, first out: when a client's pushes are all accepted, popping
  as many times returns the pushed data in reverse order, every call returns, and the stack
  is left with its former contents.\<close>

theorem stack_is_lifo:
  assumes "slocked me s st" "stack_ok st s ds"
    and "run_cops (stack_put me s) (stack_get me s) (map Put as) st = Some (map Stored as, st')"
  shows "\<exists>st''. run_cops (stack_put me s) (stack_get me s) (replicate (length as) Get) st' =
      Some (map Got (rev as), st'') \<and> slocked me s st'' \<and> stack_ok st'' s ds"
  using stack_lifo.lifo_law [of me s st ds as st'] assms by (simp add: stack_rep_def)

text \<open>The stack for the witnesses: empty, locked by \<open>ex_me\<close>.\<close>

definition ex_stack :: sstate where
  "ex_stack = \<lparr>sq = \<lparr>qnodes = Map.empty, queues = [1 \<mapsto> QUEUE_INIT], qmem = [30, 40]\<rparr>,
     slocks = [1 \<mapsto> \<lparr>s_guard = 0, s_tid = 7, s_lock = 1, s_apicid = 0\<rparr>]\<rparr>"

lemma ex_stack_ok: "slocked ex_me 1 ex_stack" "stack_ok ex_stack 1 []"
  by (simp_all add: slocked_def stack_ok_def queue_ok_def ex_stack_def ex_me_def lk_held_def
      lk_free_def spin_self_def QUEUE_INIT_def exI [of _ "[]"])

lemma ex_stack_pushes:
  "map_option fst (run_cops (stack_put ex_me 1) (stack_get ex_me 1) (map Put [5, 6]) ex_stack) =
     Some (map Stored [5, 6])"
  by code_simp

theorem stack_is_lifo_witness:
  "\<exists>st' st''. run_cops (stack_put ex_me 1) (stack_get ex_me 1) (map Put [5, 6]) ex_stack =
      Some (map Stored [5, 6], st') \<and>
    run_cops (stack_put ex_me 1) (stack_get ex_me 1) (replicate (length [5, 6 :: ptr]) Get) st' =
      Some (map Got (rev [5, 6]), st'') \<and> slocked ex_me 1 st'' \<and> stack_ok st'' 1 []"
proof -
  obtain st' where st': "run_cops (stack_put ex_me 1) (stack_get ex_me 1) (map Put [5, 6]) ex_stack =
      Some (map Stored [5, 6], st')"
    using ex_stack_pushes by auto
  from stack_is_lifo [OF ex_stack_ok st'] st' show ?thesis by blast
qed

end
