(* ===== verification/Ringbuf.thy ===== *)
theory Ringbuf
  imports Spinlock Containers
begin

text \<open>
  The byte rings (\<open>ds/ringbuf.c\<close>) behind pipes. The head and tail counters are free-running
  64-bit words reduced modulo the size on every access, so they wrap around; the invariant
  says what makes the ring survive the wrap.
\<close>

record ringbuf =
  rb_buf :: ptr
  rb_size :: u64
  rb_head :: u64
  rb_tail :: u64
  rb_count :: u64
  rb_lock :: spinlock

record rstate =
  rings :: "ringbuf heap"
  rbufs :: "u8 list heap"    \<comment> \<open>the byte buffers\<close>
  rmem :: "ptr list"

definition r_used :: "rstate \<Rightarrow> ptr \<Rightarrow> bool" where
  "r_used s p \<longleftrightarrow> rings s p \<noteq> None \<or> rbufs s p \<noteq> None"

definition RINGBUF_INDEX :: "ringbuf \<Rightarrow> u64 \<Rightarrow> u64" where
  "RINGBUF_INDEX rb i = i mod rb_size rb"

definition ringbuf_assert_locked :: "ctx \<Rightarrow> ptr \<Rightarrow> rstate \<Rightarrow> unit option" where
  "ringbuf_assert_locked me r s = do {
     kassert (r \<noteq> NULL);
     rb \<leftarrow> hget (rings s) r;
     lk_assert me (rb_lock rb)
   }"

section \<open>Operations\<close>

text \<open>\<open>junk\<close> is what the allocated memory holds before it is written.\<close>

definition ringbuf_init :: "(nat \<Rightarrow> u8) \<Rightarrow> u64 \<Rightarrow> ptr \<Rightarrow> rstate \<Rightarrow> (int \<times> rstate) option" where
  "ringbuf_init junk sz ring s =
     (if ring = NULL then Some (- EINVAL, s)
      else do {
        let (buf, ps) = kmalloc (r_used s) (rmem s);
        let s = s\<lparr>rmem := ps\<rparr>;
        if buf = NULL then do {
          h \<leftarrow> kfree ring (rings s);
          Some (- ENOMEM, s\<lparr>rings := h\<rparr>)
        } else do {
          let s = s\<lparr>rbufs := (rbufs s)(buf \<mapsto> map junk [0..<unat sz])\<rparr>;
          h \<leftarrow> hupd ring (\<lambda>_. \<lparr>rb_buf = buf, rb_size = sz, rb_head = 0, rb_tail = 0,
                 rb_count = 0, rb_lock = SPINLOCK_INIT\<rparr>) (rings s);
          Some (0, s\<lparr>rings := h\<rparr>)
        }
      })"

text \<open>\<open>blank\<close> is what the memory of the structure holds before it is written.\<close>

definition ringbuf_new :: "(nat \<Rightarrow> u8) \<Rightarrow> ringbuf \<Rightarrow> u64 \<Rightarrow> rstate \<Rightarrow> ((int \<times> ptr option) \<times> rstate) option" where
  "ringbuf_new junk blank sz s = do {
     let (ring, ps) = kmalloc (r_used s) (rmem s);
     let s = s\<lparr>rmem := ps\<rparr>;
     if ring = NULL then Some ((- ENOMEM, None), s)
     else do {
       (err, s) \<leftarrow> ringbuf_init junk sz ring (s\<lparr>rings := (rings s)(ring \<mapsto> blank)\<rparr>);
       if err \<noteq> 0 then do {
         h \<leftarrow> kfree ring (rings s);
         Some ((err, None), s\<lparr>rings := h\<rparr>)
       } else Some ((0, Some ring), s)
     }
   }"

definition ringbuf_free :: "ptr \<Rightarrow> rstate \<Rightarrow> rstate option" where
  "ringbuf_free r s = do {
     kassert (r \<noteq> NULL);
     rb \<leftarrow> hget (rings s) r;
     b \<leftarrow> kfree (rb_buf rb) (rbufs s);
     h \<leftarrow> kfree r (rings s);
     Some (s\<lparr>rbufs := b, rings := h\<rparr>)
   }"

definition ringbuf_isempty :: "ctx \<Rightarrow> ptr \<Rightarrow> rstate \<Rightarrow> bool option" where
  "ringbuf_isempty me r s = do {
     ringbuf_assert_locked me r s;
     rb \<leftarrow> hget (rings s) r;
     Some (rb_count rb = 0)
   }"

definition ringbuf_isfull :: "ctx \<Rightarrow> ptr \<Rightarrow> rstate \<Rightarrow> bool option" where
  "ringbuf_isfull me r s = do {
     ringbuf_assert_locked me r s;
     rb \<leftarrow> hget (rings s) r;
     Some (rb_count rb = rb_size rb)
   }"

text \<open>The body of the loop of \<open>ringbuf_read\<close>: fetch the byte at the head. An index outside the
  buffer is a fault.\<close>

definition ringbuf_fetch :: "ptr \<Rightarrow> rstate \<Rightarrow> (u8 \<times> rstate) option" where
  "ringbuf_fetch r s = do {
     rb \<leftarrow> hget (rings s) r;
     bytes \<leftarrow> hget (rbufs s) (rb_buf rb);
     let i = unat (RINGBUF_INDEX rb (rb_head rb));
     kassert (i < length bytes);
     Some (bytes ! i, s\<lparr>rings := (rings s)(r \<mapsto> rb\<lparr>rb_head := rb_head rb + 1, rb_count := rb_count rb - 1\<rparr>)\<rparr>)
   }"

definition ringbuf_store :: "ptr \<Rightarrow> u8 \<Rightarrow> rstate \<Rightarrow> rstate option" where
  "ringbuf_store r b s = do {
     rb \<leftarrow> hget (rings s) r;
     bytes \<leftarrow> hget (rbufs s) (rb_buf rb);
     let i = unat (RINGBUF_INDEX rb (rb_tail rb));
     kassert (i < length bytes);
     Some (s\<lparr>rbufs := (rbufs s)(rb_buf rb \<mapsto> bytes[i := b]),
             rings := (rings s)(r \<mapsto> rb\<lparr>rb_tail := rb_tail rb + 1, rb_count := rb_count rb + 1\<rparr>)\<rparr>)
   }"

text \<open>The loop with \<open>n\<close> bytes to go: it returns how many were not read and the bytes stored through
  \<open>buf\<close>, in order.\<close>

fun ringbuf_read_loop :: "ctx \<Rightarrow> ptr \<Rightarrow> nat \<Rightarrow> rstate \<Rightarrow> ((nat \<times> u8 list) \<times> rstate) option" where
  "ringbuf_read_loop me r 0 s = Some ((0, []), s)"
| "ringbuf_read_loop me r (Suc n) s = do {
     empty \<leftarrow> ringbuf_isempty me r s;
     if empty then Some ((Suc n, []), s)
     else do {
       (b, s) \<leftarrow> ringbuf_fetch r s;
       ((n', bs), s) \<leftarrow> ringbuf_read_loop me r n s;
       Some ((n', b # bs), s)
     }
   }"

definition ringbuf_read :: "ctx \<Rightarrow> ptr \<Rightarrow> bool \<Rightarrow> u64 \<Rightarrow> rstate \<Rightarrow> ((u64 \<times> u8 list) \<times> rstate) option" where
  "ringbuf_read me r buf n s = do {
     let sz = n;
     ringbuf_assert_locked me r s;
     kassert buf;
     ((rest, bs), s) \<leftarrow> ringbuf_read_loop me r (unat n) s;
     Some ((sz - of_nat rest, bs), s)
   }"

text \<open>The caller's buffer is the list of its bytes; reading behind its end is a fault.\<close>

fun ringbuf_write_loop :: "ctx \<Rightarrow> ptr \<Rightarrow> u8 list \<Rightarrow> nat \<Rightarrow> rstate \<Rightarrow> (nat \<times> rstate) option" where
  "ringbuf_write_loop me r buf 0 s = Some (0, s)"
| "ringbuf_write_loop me r buf (Suc n) s = do {
     full \<leftarrow> ringbuf_isfull me r s;
     if full then Some (Suc n, s)
     else do {
       b \<leftarrow> (case buf of [] \<Rightarrow> None | b # _ \<Rightarrow> Some b);
       s \<leftarrow> ringbuf_store r b s;
       ringbuf_write_loop me r (tl buf) n s
     }
   }"

definition ringbuf_write :: "ctx \<Rightarrow> ptr \<Rightarrow> u8 list option \<Rightarrow> u64 \<Rightarrow> rstate \<Rightarrow> (u64 \<times> rstate) option" where
  "ringbuf_write me r buf n s = do {
     let sz = n;
     ringbuf_assert_locked me r s;
     bytes \<leftarrow> buf;
     (rest, s) \<leftarrow> ringbuf_write_loop me r bytes (unat n) s;
     Some (sz - of_nat rest, s)
   }"

definition ringbuf_available :: "ctx \<Rightarrow> ptr \<Rightarrow> rstate \<Rightarrow> u64 option" where
  "ringbuf_available me r s = do {
     ringbuf_assert_locked me r s;
     rb \<leftarrow> hget (rings s) r;
     if rb_tail rb \<ge> rb_head rb then Some (rb_tail rb - rb_head rb)
     else Some (rb_tail rb + rb_size rb - rb_head rb)
   }"

section \<open>A ring and the bytes in it\<close>

text \<open>The size divides \<open>2 ^ 64\<close>, as every power of two does (\<open>PIPESZ\<close> is one): then the index of a
  counter does not jump when the counter wraps.\<close>

definition ring_ok :: "rstate \<Rightarrow> ptr \<Rightarrow> u8 list \<Rightarrow> bool" where
  "ring_ok s r ds \<longleftrightarrow> r \<noteq> NULL \<and> (\<exists>rb bytes. rings s r = Some rb \<and> rb_buf rb \<noteq> NULL \<and>
     rbufs s (rb_buf rb) = Some bytes \<and> length bytes = unat (rb_size rb) \<and>
     unat (rb_size rb) dvd 2 ^ 64 \<and> length ds \<le> unat (rb_size rb) \<and>
     rb_count rb = of_nat (length ds) \<and> rb_tail rb = rb_head rb + rb_count rb \<and>
     (\<forall>i < length ds. bytes ! ((unat (rb_head rb) + i) mod unat (rb_size rb)) = ds ! i))"

definition rlocked :: "ctx \<Rightarrow> ptr \<Rightarrow> rstate \<Rightarrow> bool" where
  "rlocked me r s \<longleftrightarrow> r \<noteq> NULL \<and> (\<exists>rb. rings s r = Some rb \<and> lk_held me (rb_lock rb))"

lemma ringbuf_assert_locked_ok [simp]: "rlocked me r s \<Longrightarrow> ringbuf_assert_locked me r s = Some ()"
  by (auto simp: ringbuf_assert_locked_def rlocked_def hget_nonNULL)

text \<open>The index of the byte \<open>i\<close> places behind a counter.\<close>

lemma ring_index:
  assumes "unat (rb_size rb) dvd 2 ^ 64"
  shows "unat (RINGBUF_INDEX rb (h + of_nat i)) = (unat h + i) mod unat (rb_size rb)"
proof -
  have "unat (h + of_nat i) = (unat h + i) mod 2 ^ 64"
    by (simp add: unat_word_ariths unat_of_nat mod_add_right_eq)
  then show ?thesis
    using assms by (simp add: RINGBUF_INDEX_def unat_mod_distrib mod_mod_cancel)
qed

lemma size_nat_lt: "n \<le> unat (k :: u64) \<Longrightarrow> unat (of_nat n :: u64) = n"
  using unat_u64_lt [of k] by (simp add: unat_of_nat)

lemma ring_count_eq:
  assumes "n \<le> unat (k :: u64)"
  shows "(of_nat n :: u64) = k \<longleftrightarrow> n = unat k" "(of_nat n :: u64) = 0 \<longleftrightarrow> n = 0"
  by (simp_all add: word_unat_eq_iff size_nat_lt [OF assms])


lemma mod_add_neq:
  fixes i j n h :: nat
  assumes "i < j" "j < n"
  shows "(h + i) mod n \<noteq> (h + j) mod n"
proof
  assume "(h + i) mod n = (h + j) mod n"
  then have "n dvd (h + j) - (h + i)"
    using assms(1) by (intro mod_eq_dvd_iff_nat [THEN iffD1]) simp_all
  with assms show False by (simp add: nat_dvd_not_less)
qed

lemma ring_okE:
  assumes "ring_ok s r ds"
  obtains rb bytes where "r \<noteq> NULL" "rings s r = Some rb" "rb_buf rb \<noteq> NULL"
    "rbufs s (rb_buf rb) = Some bytes" "length bytes = unat (rb_size rb)" "unat (rb_size rb) dvd 2 ^ 64"
    "length ds \<le> unat (rb_size rb)" "rb_count rb = of_nat (length ds)" "rb_tail rb = rb_head rb + rb_count rb"
    "\<forall>i < length ds. bytes ! ((unat (rb_head rb) + i) mod unat (rb_size rb)) = ds ! i"
  using assms unfolding ring_ok_def by blast

text \<open>The size of the ring at \<open>r\<close>.\<close>

definition ring_size :: "rstate \<Rightarrow> ptr \<Rightarrow> nat" where
  "ring_size s r = (case rings s r of Some rb \<Rightarrow> unat (rb_size rb) | None \<Rightarrow> 0)"

lemma ringbuf_empty_full:
  assumes "ring_ok s r ds" "rlocked me r s"
  shows "ringbuf_isempty me r s = Some (ds = [])"
    "ringbuf_isfull me r s = Some (length ds = ring_size s r)"
proof -
  obtain rb where "r \<noteq> NULL" "rings s r = Some rb" "length ds \<le> unat (rb_size rb)"
      "rb_count rb = of_nat (length ds)"
    using assms(1) by (rule ring_okE)
  then show "ringbuf_isempty me r s = Some (ds = [])"
    "ringbuf_isfull me r s = Some (length ds = ring_size s r)"
    using assms(2) ring_count_eq [of "length ds" "rb_size rb"]
    by (simp_all add: ringbuf_isempty_def ringbuf_isfull_def hget_nonNULL ring_size_def)
qed

lemma ringbuf_fetch_ok:
  assumes "ring_ok s r (d # ds)" "rlocked me r s"
  obtains s' where "ringbuf_fetch r s = Some (d, s')" "ring_ok s' r ds" "rlocked me r s'"
    "ring_size s' r = ring_size s r"
proof -
  obtain rb bytes where rb: "r \<noteq> NULL" "rings s r = Some rb" "rb_buf rb \<noteq> NULL"
      "rbufs s (rb_buf rb) = Some bytes" "length bytes = unat (rb_size rb)" "unat (rb_size rb) dvd 2 ^ 64"
      "length (d # ds) \<le> unat (rb_size rb)" "rb_count rb = of_nat (length (d # ds))"
      "rb_tail rb = rb_head rb + rb_count rb"
      "\<forall>i < length (d # ds). bytes ! ((unat (rb_head rb) + i) mod unat (rb_size rb)) = (d # ds) ! i"
    using assms(1) by (rule ring_okE)
  let ?rb = "rb\<lparr>rb_head := rb_head rb + 1, rb_count := rb_count rb - 1\<rparr>"
  let ?s = "s\<lparr>rings := (rings s)(r \<mapsto> ?rb)\<rparr>"
  have idx: "unat (RINGBUF_INDEX rb (rb_head rb)) = unat (rb_head rb) mod unat (rb_size rb)"
    using ring_index [OF rb(6), of "rb_head rb" 0] by simp
  have d: "bytes ! (unat (rb_head rb) mod unat (rb_size rb)) = d"
    using rb(10) by (metis add_0_right length_greater_0_conv list.distinct(1) nth_Cons_0)
  have "unat (rb_head rb) mod unat (rb_size rb) < length bytes"
    using rb(5,7) by (metis length_greater_0_conv list.distinct(1) mod_less_divisor order_less_le_trans)
  with idx d rb have "ringbuf_fetch r s = Some (d, ?s)"
    by (simp add: ringbuf_fetch_def hget_nonNULL)
  moreover have "bytes ! ((unat (rb_head rb + 1) + i) mod unat (rb_size rb)) = ds ! i" if "i < length ds" for i
  proof -
    have "(unat (rb_head rb + 1) + i) mod unat (rb_size rb) = (unat (rb_head rb) + Suc i) mod unat (rb_size rb)"
      using ring_index [OF rb(6), of "rb_head rb + 1" i] ring_index [OF rb(6), of "rb_head rb" "Suc i"]
      by (simp add: algebra_simps)
    then show ?thesis using rb(10) that by (metis Suc_less_eq length_Cons nth_Cons_Suc)
  qed
  then have "ring_ok ?s r ds"
    using rb by (auto simp: ring_ok_def algebra_simps)
  moreover have "rlocked me r ?s" "ring_size ?s r = ring_size s r"
    using assms(2) rb(2) by (auto simp: rlocked_def ring_size_def)
  ultimately show thesis by (rule that)
qed

lemma ringbuf_store_ok:
  assumes "ring_ok s r ds" "rlocked me r s" "length ds < ring_size s r"
  obtains s' where "ringbuf_store r b s = Some s'" "ring_ok s' r (ds @ [b])" "rlocked me r s'"
    "ring_size s' r = ring_size s r"
proof -
  obtain rb bytes where rb: "r \<noteq> NULL" "rings s r = Some rb" "rb_buf rb \<noteq> NULL"
      "rbufs s (rb_buf rb) = Some bytes" "length bytes = unat (rb_size rb)" "unat (rb_size rb) dvd 2 ^ 64"
      "length ds \<le> unat (rb_size rb)" "rb_count rb = of_nat (length ds)"
      "rb_tail rb = rb_head rb + rb_count rb"
      "\<forall>i < length ds. bytes ! ((unat (rb_head rb) + i) mod unat (rb_size rb)) = ds ! i"
    using assms(1) by (rule ring_okE)
  have len: "length ds < unat (rb_size rb)" using assms(3) rb(2) by (simp add: ring_size_def)
  let ?k = "(unat (rb_head rb) + length ds) mod unat (rb_size rb)"
  let ?rb = "rb\<lparr>rb_tail := rb_tail rb + 1, rb_count := rb_count rb + 1\<rparr>"
  let ?s = "s\<lparr>rbufs := (rbufs s)(rb_buf rb \<mapsto> bytes[?k := b]), rings := (rings s)(r \<mapsto> ?rb)\<rparr>"
  have idx: "unat (RINGBUF_INDEX rb (rb_tail rb)) = ?k"
    using ring_index [OF rb(6), of "rb_head rb" "length ds"] rb(8,9) by simp
  have k: "?k < length bytes" using rb(5) len by simp
  have "ringbuf_store r b s = Some ?s"
    using idx k rb by (simp add: ringbuf_store_def hget_nonNULL)
  moreover have "bytes[?k := b] ! ((unat (rb_head rb) + i) mod unat (rb_size rb)) = (ds @ [b]) ! i"
    if "i < length (ds @ [b])" for i
  proof (cases "i = length ds")
    case True
    then show ?thesis using k by simp
  next
    case False
    with that have i: "i < length ds" by simp
    with len have "(unat (rb_head rb) + i) mod unat (rb_size rb) \<noteq> ?k"
      by (simp add: mod_add_neq)
    with i rb(10) show ?thesis by (simp add: nth_append)
  qed
  then have "ring_ok ?s r (ds @ [b])"
    using rb len by (auto simp: ring_ok_def algebra_simps)
  moreover have "rlocked me r ?s" "ring_size ?s r = ring_size s r"
    using assms(2) rb(2) by (auto simp: rlocked_def ring_size_def)
  ultimately show thesis by (rule that)
qed


lemma ringbuf_read_loop_ok:
  assumes "ring_ok s r ds" "rlocked me r s"
  shows "\<exists>s'. ringbuf_read_loop me r n s = Some ((n - length ds, take n ds), s') \<and>
    ring_ok s' r (drop n ds) \<and> rlocked me r s' \<and> ring_size s' r = ring_size s r"
  using assms
proof (induction n arbitrary: s ds)
  case 0
  then show ?case by simp
next
  case (Suc n)
  show ?case
  proof (cases ds)
    case Nil
    then show ?thesis using ringbuf_empty_full(1) [OF Suc.prems] Suc.prems by simp
  next
    case (Cons d es)
    then obtain s1 where s1: "ringbuf_fetch r s = Some (d, s1)" "ring_ok s1 r es" "rlocked me r s1"
        "ring_size s1 r = ring_size s r"
      using ringbuf_fetch_ok Suc.prems by metis
    from Suc.IH [OF s1(2,3)] show ?thesis
      using s1 Cons ringbuf_empty_full(1) [OF Suc.prems] by auto
  qed
qed

lemma ringbuf_write_loop_ok:
  assumes "ring_ok s r ds" "rlocked me r s" "n \<le> length bs"
  shows "\<exists>s'. ringbuf_write_loop me r bs n s = Some (n - (ring_size s r - length ds), s') \<and>
    ring_ok s' r (ds @ take (min n (ring_size s r - length ds)) bs) \<and> rlocked me r s' \<and>
    ring_size s' r = ring_size s r"
  using assms
proof (induction n arbitrary: s ds bs)
  case 0
  then show ?case by simp
next
  case (Suc n)
  have le: "length ds \<le> ring_size s r"
    using Suc.prems(1) by (auto elim!: ring_okE simp: ring_size_def)
  from Suc.prems(3) obtain b bs' where bs: "bs = b # bs'" by (cases bs) auto
  show ?case
  proof (cases "length ds = ring_size s r")
    case True
    then show ?thesis using ringbuf_empty_full(2) [OF Suc.prems(1,2)] Suc.prems by simp
  next
    case False
    with le have lt: "length ds < ring_size s r" by simp
    obtain s1 where s1: "ringbuf_store r b s = Some s1" "ring_ok s1 r (ds @ [b])" "rlocked me r s1"
        "ring_size s1 r = ring_size s r"
      using ringbuf_store_ok [OF Suc.prems(1,2) lt] by blast
    have "take (min (Suc n) (ring_size s r - length ds)) bs =
        b # take (min n (ring_size s r - Suc (length ds))) bs'"
      using lt bs by (simp add: min_def take_Cons' flip: Suc_diff_Suc)
    with Suc.IH [OF s1(2,3), of bs'] show ?thesis
      using s1 bs False Suc.prems(3) ringbuf_empty_full(2) [OF Suc.prems(1,2)] lt
      by (auto simp flip: Suc_diff_Suc)
  qed
qed

lemma transferred: "(n :: u64) - of_nat (unat n - k) = of_nat (min (unat n) k)"
proof (cases "unat n \<le> k")
  case False
  then have "(of_nat (unat n - k) :: u64) = of_nat (unat n) - of_nat k"
    by (intro of_nat_diff) simp
  with False show ?thesis by simp
qed simp

lemma ringbuf_read_ok:
  assumes "ring_ok s r ds" "rlocked me r s"
  shows "\<exists>s'. ringbuf_read me r True n s = Some ((of_nat (min (unat n) (length ds)), take (unat n) ds), s') \<and>
    ring_ok s' r (drop (unat n) ds) \<and> rlocked me r s' \<and> ring_size s' r = ring_size s r"
proof -
  show ?thesis
    using ringbuf_read_loop_ok [OF assms, of "unat n"] assms(2) transferred [of n "length ds"]
    by (auto simp: ringbuf_read_def)
qed

lemma ringbuf_write_ok:
  assumes "ring_ok s r ds" "rlocked me r s" "unat n \<le> length bs"
  shows "\<exists>s'. ringbuf_write me r (Some bs) n s = Some (of_nat (min (unat n) (ring_size s r - length ds)), s') \<and>
    ring_ok s' r (ds @ take (min (unat n) (ring_size s r - length ds)) bs) \<and> rlocked me r s' \<and>
    ring_size s' r = ring_size s r"
proof -
  show ?thesis
    using ringbuf_write_loop_ok [OF assms] assms(2) transferred [of n "ring_size s r - length ds"]
    by (auto simp: ringbuf_write_def)
qed


section \<open>The ring as a first-in first-out container of bytes\<close>

definition ring_rep :: "ctx \<Rightarrow> ptr \<Rightarrow> rstate \<Rightarrow> u8 list \<Rightarrow> bool" where
  "ring_rep me r s ds \<longleftrightarrow> rlocked me r s \<and> ring_ok s r ds"

definition ring_put :: "ctx \<Rightarrow> ptr \<Rightarrow> u8 \<Rightarrow> rstate \<Rightarrow> (bool \<times> rstate) option" where
  "ring_put me r b s = do { (k, s) \<leftarrow> ringbuf_write me r (Some [b]) 1 s; Some (k = 1, s) }"

definition ring_get :: "ctx \<Rightarrow> ptr \<Rightarrow> rstate \<Rightarrow> (u8 option \<times> rstate) option" where
  "ring_get me r s = do {
     ((k, bs), s) \<leftarrow> ringbuf_read me r True 1 s;
     Some (if k = 1 then Some (hd bs) else None, s)
   }"

interpretation ring_fifo: fifo "ring_rep me r" "ring_put me r" "ring_get me r" for me r
proof
  fix s ds b
  assume "ring_rep me r s ds"
  then have *: "ring_ok s r ds" "rlocked me r s" by (simp_all add: ring_rep_def)
  then have "ring_size s r - length ds = 0 \<or> ring_size s r - length ds \<ge> 1" by linarith
  then show "\<exists>st s'. ring_put me r b s = Some (st, s') \<and> ring_rep me r s' (if st then ds @ [b] else ds)"
    using ringbuf_write_ok [OF *, of 1 "[b]"]
    by (auto simp: ring_put_def ring_rep_def min_def split: if_splits)
next
  fix s
  assume "ring_rep me r s []"
  then show "\<exists>s'. ring_get me r s = Some (None, s') \<and> ring_rep me r s' []"
    using ringbuf_read_ok [of s r "[]" me 1] by (auto simp: ring_get_def ring_rep_def)
next
  fix s d ds
  assume "ring_rep me r s (d # ds)"
  then show "\<exists>s'. ring_get me r s = Some (Some d, s') \<and> ring_rep me r s' ds"
    using ringbuf_read_ok [of s r "d # ds" me 1] by (auto simp: ring_get_def ring_rep_def)
qed

section \<open>Properties\<close>

text \<open>The ring of the witnesses: four bytes, its counters about to wrap around, holding 11 and 22,
  locked by thread 7.\<close>

definition ex_ring_me :: ctx where
  "ex_ring_me = \<lparr>self_tid = 7, self_cpu = 0\<rparr>"

definition ex_ring :: rstate where
  "ex_ring = \<lparr>rings = [1 \<mapsto> \<lparr>rb_buf = 9, rb_size = 4, rb_head = 0xFFFFFFFFFFFFFFFF, rb_tail = 1, rb_count = 2,
       rb_lock = \<lparr>s_guard = 0, s_tid = 7, s_lock = 1, s_apicid = 0\<rparr>\<rparr>],
     rbufs = [9 \<mapsto> [22, 0, 0, 11]], rmem = [50]\<rparr>"

lemma ex_ring_ok: "ring_ok ex_ring 1 [11, 22]" "rlocked ex_ring_me 1 ex_ring"
proof -
  show "ring_ok ex_ring 1 [11, 22]"
    by (auto simp: ring_ok_def ex_ring_def less_2_cases_iff less_Suc_eq)
  show "rlocked ex_ring_me 1 ex_ring"
    by (simp add: rlocked_def ex_ring_def ex_ring_me_def lk_held_def spin_self_def)
qed




text \<open>C16: \<open>ringbuf_write\<close> of \<open>n\<close> bytes stores as many as there is room for, in order, behind what
  the ring holds, and returns their number; \<open>ringbuf_read\<close> of \<open>n\<close> bytes takes out that many from
  the front, or all there are, and returns their number.\<close>

theorem ringbuf_transfer:
  assumes "ring_ok s r ds" "rlocked me r s" "unat n \<le> length bs"
  shows "(\<exists>s'. ringbuf_write me r (Some bs) n s = Some (of_nat (min (unat n) (ring_size s r - length ds)), s') \<and>
      ring_ok s' r (ds @ take (min (unat n) (ring_size s r - length ds)) bs) \<and> rlocked me r s') \<and>
    (\<exists>s'. ringbuf_read me r True n s = Some ((of_nat (min (unat n) (length ds)), take (unat n) ds), s') \<and>
      ring_ok s' r (drop (unat n) ds) \<and> rlocked me r s')"
  using ringbuf_write_ok [OF assms] ringbuf_read_ok [OF assms(1,2), of n] by blast

theorem ringbuf_transfer_witness:
  "(\<exists>s'. ringbuf_write ex_ring_me 1 (Some [1, 2, 3]) 3 ex_ring =
        Some (of_nat (min (unat (3 :: u64)) (ring_size ex_ring 1 - length [11, 22 :: u8])), s') \<and>
      ring_ok s' 1 ([11, 22] @ take (min (unat (3 :: u64)) (ring_size ex_ring 1 - length [11, 22 :: u8])) [1, 2, 3]) \<and>
      rlocked ex_ring_me 1 s') \<and>
    (\<exists>s'. ringbuf_read ex_ring_me 1 True 3 ex_ring =
        Some ((of_nat (min (unat (3 :: u64)) (length [11, 22 :: u8])), take (unat (3 :: u64)) [11, 22]), s') \<and>
      ring_ok s' 1 (drop (unat (3 :: u64)) [11, 22]) \<and> rlocked ex_ring_me 1 s')"
  by (rule ringbuf_transfer [OF ex_ring_ok]) simp

text \<open>When the second allocation of \<open>ringbuf_new\<close> fails, \<open>ringbuf_init\<close> has already freed the
  structure that \<open>ringbuf_new\<close> frees again.\<close>

lemma ringbuf_new_double_free:
  assumes "kmalloc (r_used s) (rmem s) = (ring, NULL # ps)" "ring \<noteq> NULL"
  shows "ringbuf_new junk blank sz s = None"
  using assms
  by (simp add: ringbuf_new_def ringbuf_init_def kfree_def kmalloc_def [of _ "NULL # ps"] errno_defs)

text \<open>With a size that does not divide \<open>2 ^ 64\<close> the wrap-around of the tail corrupts the ring: two
  bytes written to a ring of three at the wrap land in the same place.\<close>

lemma ring_wrap_corrupts:
  "let lk = \<lparr>s_guard = 0, s_tid = 7, s_lock = 1, s_apicid = 0\<rparr>;
       s = \<lparr>rings = [1 \<mapsto> \<lparr>rb_buf = 9, rb_size = 3, rb_head = 0xFFFFFFFFFFFFFFFF,
             rb_tail = 0xFFFFFFFFFFFFFFFF, rb_count = 0, rb_lock = lk\<rparr>],
           rbufs = [9 \<mapsto> [0, 0, 0]], rmem = []\<rparr>
   in do {
        (_, s) \<leftarrow> ringbuf_write ex_ring_me 1 (Some [5, 6]) 2 s;
        (r, _) \<leftarrow> ringbuf_read ex_ring_me 1 True 2 s;
        Some r
      } = Some (2, [6, 6])"
  by code_simp

end
