(* ===== verification/Btree.thy ===== *)
theory Btree
  imports Queue "HOL-Library.Tree"
begin

text \<open>
  The kernel's binary search trees (\<open>ds/btree.c\<close>): nodes with parent pointers, keyed by machine
  words, behind a locked header. The inode cache and the hash tables are built on them. The
  model keeps the pointers; the lemmas relate a header to the tree of its node addresses and
  through it to the sorted list of keys and data it stores.
\<close>

section \<open>State\<close>

record btree_node =
  bn_key :: u64
  bn_data :: ptr
  bn_left :: ptr
  bn_parent :: ptr
  bn_right :: ptr
  bn_btree :: ptr

record btree =
  bt_root :: ptr
  bt_nr_nodes :: u64
  bt_lock :: spinlock

record bstate =
  bnodes :: "btree_node heap"
  btrees :: "btree heap"
  bmem :: "ptr list"

definition b_used :: "bstate \<Rightarrow> ptr \<Rightarrow> bool" where
  "b_used s p \<longleftrightarrow> bnodes s p \<noteq> None \<or> btrees s p \<noteq> None"

text \<open>A structure after \<open>memset\<close> to zero.\<close>

definition zero_lock :: spinlock where
  "zero_lock = \<lparr>s_guard = 0, s_tid = 0, s_lock = 0, s_apicid = 0\<rparr>"

definition BTREE_INIT :: btree where
  "BTREE_INIT = \<lparr>bt_root = NULL, bt_nr_nodes = 0, bt_lock = zero_lock\<rparr>"

definition btree_assert_locked :: "ctx \<Rightarrow> ptr \<Rightarrow> bstate \<Rightarrow> unit option" where
  "btree_assert_locked me b s = do {
     kassert (b \<noteq> NULL);
     bt \<leftarrow> hget (btrees s) b;
     lk_assert me (bt_lock bt)
   }"

definition btree_lock :: "ctx \<Rightarrow> ptr \<Rightarrow> bstate \<Rightarrow> bstate option" where
  "btree_lock me b s = do {
     kassert (b \<noteq> NULL);
     bt \<leftarrow> hget (btrees s) b;
     lk \<leftarrow> lk_acquire me (bt_lock bt);
     Some (s\<lparr>btrees := (btrees s)(b \<mapsto> bt\<lparr>bt_lock := lk\<rparr>)\<rparr>)
   }"

definition btree_unlock :: "ctx \<Rightarrow> ptr \<Rightarrow> bstate \<Rightarrow> bstate option" where
  "btree_unlock me b s = do {
     kassert (b \<noteq> NULL);
     bt \<leftarrow> hget (btrees s) b;
     lk \<leftarrow> lk_release me (bt_lock bt);
     Some (s\<lparr>btrees := (btrees s)(b \<mapsto> bt\<lparr>bt_lock := lk\<rparr>)\<rparr>)
   }"

definition btree_isempty :: "ctx \<Rightarrow> ptr \<Rightarrow> bstate \<Rightarrow> bool option" where
  "btree_isempty me b s = do {
     btree_assert_locked me b s;
     bt \<leftarrow> hget (btrees s) b;
     Some (bt_root bt = NULL)
   }"

definition btree_nr_nodes :: "ctx \<Rightarrow> ptr \<Rightarrow> bstate \<Rightarrow> u64 option" where
  "btree_nr_nodes me b s = do {
     btree_assert_locked me b s;
     bt \<leftarrow> hget (btrees s) b;
     Some (bt_nr_nodes bt)
   }"

definition btree_node_isleft :: "ptr \<Rightarrow> btree_node heap \<Rightarrow> bool option" where
  "btree_node_isleft node h = do {
     n \<leftarrow> hget h node;
     if bn_parent n \<noteq> NULL then do { p \<leftarrow> hget h (bn_parent n); Some (bn_left p = node) }
     else Some False
   }"

definition btree_node_isright :: "ptr \<Rightarrow> btree_node heap \<Rightarrow> bool option" where
  "btree_node_isright node h = do {
     n \<leftarrow> hget h node;
     if bn_parent n \<noteq> NULL then do { p \<leftarrow> hget h (bn_parent n); Some (bn_right p = node) }
     else Some False
   }"

section \<open>Operations\<close>

definition btree_alloc :: "bool \<Rightarrow> bstate \<Rightarrow> (int \<times> ptr option) \<times> bstate" where
  "btree_alloc pbtree s =
     (if \<not> pbtree then ((- EINVAL, None), s)
      else let (b, ps) = kmalloc (b_used s) (bmem s); s = s\<lparr>bmem := ps\<rparr> in
        if b = NULL then ((- ENOMEM, None), s)
        else ((0, Some b), s\<lparr>btrees := (btrees s)(b \<mapsto> BTREE_INIT\<lparr>bt_lock := SPINLOCK_INIT\<rparr>)\<rparr>))"

definition btree_free :: "ptr \<Rightarrow> bstate \<Rightarrow> bstate option" where
  "btree_free b s =
     (if b = NULL then Some s
      else do { m \<leftarrow> kfree b (btrees s); Some (s\<lparr>btrees := m\<rparr>) })"

definition btree_alloc_node :: "bstate \<Rightarrow> ptr \<times> bstate" where
  "btree_alloc_node s =
     (let (p, ps) = kmalloc (b_used s) (bmem s); s = s\<lparr>bmem := ps\<rparr> in
      if p = NULL then (NULL, s)
      else (p, s\<lparr>bnodes := (bnodes s)(p \<mapsto> \<lparr>bn_key = 0, bn_data = NULL, bn_left = NULL,
        bn_parent = NULL, bn_right = NULL, bn_btree = NULL\<rparr>)\<rparr>))"

definition btree_free_node :: "ptr \<Rightarrow> bstate \<Rightarrow> bstate option" where
  "btree_free_node node s =
     (if node = NULL then Some s
      else do { h \<leftarrow> kfree node (bnodes s); Some (s\<lparr>bnodes := h\<rparr>) })"

text \<open>The walk of \<open>btree_insert_node\<close> from \<open>parent\<close> down: it links \<open>node\<close> at the empty place its
  key leads to, unless a node with the same key is on the way.\<close>

partial_function (option) btree_insert_loop ::
  "ptr \<Rightarrow> ptr \<Rightarrow> btree_node heap \<Rightarrow> (int \<times> btree_node heap) option" where
  "btree_insert_loop node parent h =
     (if parent = NULL then Some (0, h)
      else do {
        n \<leftarrow> hget h node;
        p \<leftarrow> hget h parent;
        if bn_key n = bn_key p then Some (- EEXIST, h)
        else do {
          let iter = (if bn_key n < bn_key p then bn_left p else bn_right p);
          h \<leftarrow> (if iter = NULL then do {
                 h \<leftarrow> hupd node (bn_parent_update (\<lambda>_. parent)) h;
                 if bn_key n < bn_key p then hupd parent (bn_left_update (\<lambda>_. node)) h
                 else hupd parent (bn_right_update (\<lambda>_. node)) h
               } else Some h);
          btree_insert_loop node iter h
        }
      })"

definition btree_insert_node :: "ctx \<Rightarrow> ptr \<Rightarrow> ptr \<Rightarrow> bstate \<Rightarrow> (int \<times> bstate) option" where
  "btree_insert_node me b node s =
     (if b = NULL \<or> node = NULL then Some (- EINVAL, s)
      else do {
        btree_assert_locked me b s;
        h \<leftarrow> hupd node (bn_parent_update (\<lambda>_. NULL)) (bnodes s);
        empty \<leftarrow> btree_isempty me b s;
        bt \<leftarrow> hget (btrees s) b;
        (err, bt, h) \<leftarrow> (if empty then Some (0, bt\<lparr>bt_root := node\<rparr>, h)
          else do { (err, h) \<leftarrow> btree_insert_loop node (bt_root bt) h; Some (err, bt, h) });
        if err \<noteq> 0 then Some (err, s\<lparr>bnodes := h\<rparr>)
        else do {
          let bt = bt\<lparr>bt_nr_nodes := bt_nr_nodes bt + 1\<rparr>;
          h \<leftarrow> hupd node (bn_btree_update (\<lambda>_. b)) h;
          Some (0, s\<lparr>bnodes := h, btrees := (btrees s)(b \<mapsto> bt)\<rparr>)
        }
      })"

text \<open>\<open>btree->nr_nodes--; btree_insert_node(btree, child)\<close> for a child that is there.\<close>

definition btree_reinsert :: "ctx \<Rightarrow> ptr \<Rightarrow> ptr \<Rightarrow> bstate \<Rightarrow> bstate option" where
  "btree_reinsert me b child s =
     (if child = NULL then Some s
      else do {
        m \<leftarrow> hupd b (bt_nr_nodes_update (\<lambda>n. n - 1)) (btrees s);
        (_, s) \<leftarrow> btree_insert_node me b child (s\<lparr>btrees := m\<rparr>);
        Some s
      })"

text \<open>The block of \<open>btree_delete_node\<close> that clears the link to \<open>node\<close>.\<close>

definition btree_cut_node :: "ptr \<Rightarrow> ptr \<Rightarrow> ptr \<Rightarrow> bstate \<Rightarrow> bstate option" where
  "btree_cut_node b node parent s = do {
     bt \<leftarrow> hget (btrees s) b;
     if node = bt_root bt then Some (s\<lparr>btrees := (btrees s)(b \<mapsto> bt\<lparr>bt_root := NULL\<rparr>)\<rparr>)
     else do {
       isright \<leftarrow> btree_node_isright node (bnodes s);
       if isright then do {
         h \<leftarrow> hupd parent (bn_right_update (\<lambda>_. NULL)) (bnodes s);
         Some (s\<lparr>bnodes := h\<rparr>)
       } else do {
         isleft \<leftarrow> btree_node_isleft node (bnodes s);
         if isleft then do {
           h \<leftarrow> hupd parent (bn_left_update (\<lambda>_. NULL)) (bnodes s);
           Some (s\<lparr>bnodes := h\<rparr>)
         } else Some s
       }
     }
   }"

definition btree_delete_node :: "ctx \<Rightarrow> ptr \<Rightarrow> ptr \<Rightarrow> bstate \<Rightarrow> bstate option" where
  "btree_delete_node me b node s =
     (if b = NULL then Some s
      else do {
        btree_assert_locked me b s;
        if node = NULL then Some s
        else do {
          n \<leftarrow> hget (bnodes s) node;
          let left = bn_left n;
          let right = bn_right n;
          s \<leftarrow> btree_cut_node b node (bn_parent n) s;
          s \<leftarrow> btree_free_node node s;
          m \<leftarrow> hupd b (bt_nr_nodes_update (\<lambda>n. n - 1)) (btrees s);
          s \<leftarrow> btree_reinsert me b right (s\<lparr>btrees := m\<rparr>);
          btree_reinsert me b left s
        }
      })"

partial_function (option) btree_least_loop :: "ptr \<Rightarrow> ptr \<Rightarrow> btree_node heap \<Rightarrow> ptr option" where
  "btree_least_loop node tmp h =
     (if tmp = NULL then Some node
      else do { t \<leftarrow> hget h tmp; btree_least_loop tmp (bn_left t) h })"

definition btree_least_node :: "ctx \<Rightarrow> ptr \<Rightarrow> bstate \<Rightarrow> ptr option" where
  "btree_least_node me b s =
     (if b = NULL then Some NULL
      else do {
        btree_assert_locked me b s;
        bt \<leftarrow> hget (btrees s) b;
        btree_least_loop NULL (bt_root bt) (bnodes s)
      })"

partial_function (option) btree_largest_loop :: "ptr \<Rightarrow> ptr \<Rightarrow> btree_node heap \<Rightarrow> ptr option" where
  "btree_largest_loop node tmp h =
     (if tmp = NULL then Some node
      else do { t \<leftarrow> hget h tmp; btree_largest_loop tmp (bn_right t) h })"

definition btree_largest_node :: "ctx \<Rightarrow> ptr \<Rightarrow> bstate \<Rightarrow> ptr option" where
  "btree_largest_node me b s =
     (if b = NULL then Some NULL
      else do {
        btree_assert_locked me b s;
        bt \<leftarrow> hget (btrees s) b;
        btree_largest_loop NULL (bt_root bt) (bnodes s)
      })"

partial_function (option) btree_lookup_loop :: "u64 \<Rightarrow> ptr \<Rightarrow> btree_node heap \<Rightarrow> ptr option" where
  "btree_lookup_loop key node h =
     (if node = NULL then Some NULL
      else do {
        n \<leftarrow> hget h node;
        if bn_key n = key then Some node
        else if key < bn_key n then btree_lookup_loop key (bn_left n) h
        else btree_lookup_loop key (bn_right n) h
      })"

definition btree_lookup :: "ctx \<Rightarrow> ptr \<Rightarrow> u64 \<Rightarrow> bstate \<Rightarrow> ptr option" where
  "btree_lookup me b key s =
     (if b = NULL then Some NULL
      else do {
        btree_assert_locked me b s;
        bt \<leftarrow> hget (btrees s) b;
        btree_lookup_loop key (bt_root bt) (bnodes s)
      })"

definition btree_delete :: "ctx \<Rightarrow> ptr \<Rightarrow> u64 \<Rightarrow> bstate \<Rightarrow> bstate option" where
  "btree_delete me b key s = do {
     btree_assert_locked me b s;
     node \<leftarrow> btree_lookup me b key s;
     btree_delete_node me b node s
   }"

definition btree_search :: "ctx \<Rightarrow> ptr \<Rightarrow> u64 \<Rightarrow> bstate \<Rightarrow> (int \<times> ptr option) option" where
  "btree_search me b key s = do {
     btree_assert_locked me b s;
     node \<leftarrow> btree_lookup me b key s;
     if node = NULL then Some (- ENOENT, None)
     else do { n \<leftarrow> hget (bnodes s) node; Some (0, Some (bn_data n)) }
   }"

definition btree_insert :: "ctx \<Rightarrow> ptr \<Rightarrow> u64 \<Rightarrow> ptr \<Rightarrow> bstate \<Rightarrow> (int \<times> bstate) option" where
  "btree_insert me b key data s =
     (if b = NULL then Some (- EINVAL, s)
      else do {
        btree_assert_locked me b s;
        let (node, s) = btree_alloc_node s;
        if node = NULL then Some (- ENOMEM, s)
        else do {
          h \<leftarrow> hupd node (bn_key_update (\<lambda>_. key)) (bnodes s);
          h \<leftarrow> hupd node (bn_data_update (\<lambda>_. data)) h;
          (err, s) \<leftarrow> btree_insert_node me b node (s\<lparr>bnodes := h\<rparr>);
          if err \<noteq> 0 then do { s \<leftarrow> btree_free_node node s; Some (err, s) }
          else Some (0, s)
        }
      })"

definition btree_least :: "ctx \<Rightarrow> ptr \<Rightarrow> bstate \<Rightarrow> ptr option" where
  "btree_least me b s =
     (if b = NULL then Some NULL
      else do {
        node \<leftarrow> btree_least_node me b s;
        if node = NULL then Some NULL else do { n \<leftarrow> hget (bnodes s) node; Some (bn_data n) }
      })"

definition btree_largest :: "ctx \<Rightarrow> ptr \<Rightarrow> bstate \<Rightarrow> ptr option" where
  "btree_largest me b s =
     (if b = NULL then Some NULL
      else do {
        node \<leftarrow> btree_largest_node me b s;
        if node = NULL then Some NULL else do { n \<leftarrow> hget (bnodes s) node; Some (bn_data n) }
      })"

partial_function (option) btree_flush_node :: "ctx \<Rightarrow> ptr \<Rightarrow> bstate \<Rightarrow> bstate option" where
  "btree_flush_node me node s =
     (if node = NULL then Some s
      else do {
        n \<leftarrow> hget (bnodes s) node;
        btree_assert_locked me (bn_btree n) s;
        s \<leftarrow> btree_flush_node me (bn_left n) s;
        n \<leftarrow> hget (bnodes s) node;
        s \<leftarrow> btree_delete_node me (bn_btree n) node s;
        btree_flush_node me (bn_right n) s
      })"

definition btree_flush :: "ctx \<Rightarrow> ptr \<Rightarrow> bstate \<Rightarrow> (int \<times> bstate) option" where
  "btree_flush me b s = do {
     btree_assert_locked me b s;
     if b = NULL then Some (- EINVAL, s)
     else do {
       bt \<leftarrow> hget (btrees s) b;
       s \<leftarrow> btree_flush_node me (bt_root bt) s;
       Some (0, s)
     }
   }"

text \<open>The traversal puts the data of a subtree into a queue; the results of the two recursive calls
  are not looked at.\<close>

partial_function (option) btree_node_traverse ::
  "ctx \<Rightarrow> ptr \<Rightarrow> ptr \<Rightarrow> bstate \<Rightarrow> qstate \<Rightarrow> (int \<times> qstate) option" where
  "btree_node_traverse me node q s t = do {
     queue_assert_locked me q t;
     if q = NULL then Some (- EINVAL, t)
     else if node = NULL then Some (0, t)
     else do {
       n \<leftarrow> hget (bnodes s) node;
       btree_assert_locked me (bn_btree n) s;
       (_, t) \<leftarrow> btree_node_traverse me (bn_left n) q s t;
       ((err, _), t) \<leftarrow> enqueue me q (bn_data n) True t;
       if err \<noteq> 0 then Some (err, t)
       else do {
         (_, t) \<leftarrow> btree_node_traverse me (bn_right n) q s t;
         Some (0, t)
       }
     }
   }"

definition btree_traverse :: "ctx \<Rightarrow> ptr \<Rightarrow> ptr \<Rightarrow> bstate \<Rightarrow> qstate \<Rightarrow> (int \<times> qstate) option" where
  "btree_traverse me b q s t = do {
     btree_assert_locked me b s;
     queue_assert_locked me q t;
     if b = NULL \<or> q = NULL then Some (- EINVAL, t)
     else do {
       bt \<leftarrow> hget (btrees s) b;
       btree_node_traverse me (bt_root bt) q s t
     }
   }"

section \<open>A header and the tree of its nodes\<close>

definition bkey :: "btree_node heap \<Rightarrow> ptr \<Rightarrow> u64" where
  "bkey h x = (case h x of Some n \<Rightarrow> bn_key n | None \<Rightarrow> 0)"

definition bdata :: "btree_node heap \<Rightarrow> ptr \<Rightarrow> ptr" where
  "bdata h x = (case h x of Some n \<Rightarrow> bn_data n | None \<Rightarrow> NULL)"

text \<open>\<open>tree_at h par p t\<close>: the pointer \<open>p\<close>, stored in the node \<open>par\<close>, leads to the nodes of \<open>t\<close>.\<close>

fun tree_at :: "btree_node heap \<Rightarrow> ptr \<Rightarrow> ptr \<Rightarrow> ptr tree \<Rightarrow> bool" where
  "tree_at h par p Leaf \<longleftrightarrow> p = NULL"
| "tree_at h par p (Node l x r) \<longleftrightarrow> p = x \<and> x \<noteq> NULL \<and>
     (\<exists>n. h x = Some n \<and> bn_parent n = par \<and> tree_at h x (bn_left n) l \<and> tree_at h x (bn_right n) r)"

definition key_order :: "(ptr \<Rightarrow> u64) \<Rightarrow> ptr tree \<Rightarrow> bool" where
  "key_order f t \<longleftrightarrow> sorted_wrt (<) (map f (inorder t))"

text \<open>The header at \<open>b\<close> counts \<open>c\<close> nodes and heads the tree \<open>t\<close>; it is well-formed when the count
  is the number of nodes.\<close>

definition btree_shape :: "bstate \<Rightarrow> ptr \<Rightarrow> u64 \<Rightarrow> ptr tree \<Rightarrow> bool" where
  "btree_shape s b c t \<longleftrightarrow> b \<noteq> NULL \<and> (\<exists>bt. btrees s b = Some bt \<and> tree_at (bnodes s) NULL (bt_root bt) t \<and>
     bt_nr_nodes bt = c) \<and> key_order (bkey (bnodes s)) t \<and>
     (\<forall>x\<in>set_tree t. map_option bn_btree (bnodes s x) = Some b)"

definition btree_ok :: "bstate \<Rightarrow> ptr \<Rightarrow> ptr tree \<Rightarrow> bool" where
  "btree_ok s b t \<longleftrightarrow> btree_shape s b (of_nat (size t)) t"

definition blocked :: "ctx \<Rightarrow> ptr \<Rightarrow> bstate \<Rightarrow> bool" where
  "blocked me b s \<longleftrightarrow> b \<noteq> NULL \<and> (\<exists>bt. btrees s b = Some bt \<and> lk_held me (bt_lock bt))"

text \<open>The contents: keys and data in key order.\<close>

definition bitems :: "btree_node heap \<Rightarrow> ptr tree \<Rightarrow> (u64 \<times> ptr) list" where
  "bitems h t = map (\<lambda>x. (bkey h x, bdata h x)) (inorder t)"

text \<open>Two heaps that differ in links only.\<close>

definition same_vals :: "btree_node heap \<Rightarrow> btree_node heap \<Rightarrow> bool" where
  "same_vals h h' \<longleftrightarrow> (\<forall>y. map_option (\<lambda>n. (bn_key n, bn_data n)) (h' y) = map_option (\<lambda>n. (bn_key n, bn_data n)) (h y))"

lemma tree_at_cong:
  "(\<And>x. x \<in> set_tree t \<Longrightarrow> h' x = h x) \<Longrightarrow> tree_at h' par p t = tree_at h par p t"
  by (induction t arbitrary: par p) auto

lemma tree_at_frame [simp]: "q \<notin> set_tree t \<Longrightarrow> tree_at (h(q := v)) par p t = tree_at h par p t"
  by (rule tree_at_cong) auto

lemma tree_at_NULL: "tree_at h par p t \<Longrightarrow> p = NULL \<longleftrightarrow> t = Leaf"
  by (cases t) auto

lemma tree_at_mapped: "tree_at h par p t \<Longrightarrow> x \<in> set_tree t \<Longrightarrow> x \<noteq> NULL \<and> (\<exists>n. h x = Some n)"
  by (induction t arbitrary: par p) auto

lemma key_order_Node [simp]:
  "key_order f (Node l x r) \<longleftrightarrow> key_order f l \<and> key_order f r \<and>
     (\<forall>y\<in>set_tree l. f y < f x) \<and> (\<forall>y\<in>set_tree r. f x < f y) \<and> (\<forall>y\<in>set_tree l. \<forall>z\<in>set_tree r. f y < f z)"
  by (auto simp: key_order_def sorted_wrt_append)

lemma key_order_Leaf [simp]: "key_order f Leaf"
  by (simp add: key_order_def)

lemma key_order_cong: "(\<And>x. x \<in> set_tree t \<Longrightarrow> f x = g x) \<Longrightarrow> key_order f t = key_order g t"
proof -
  assume "\<And>x. x \<in> set_tree t \<Longrightarrow> f x = g x"
  then have "map f (inorder t) = map g (inorder t)" by simp
  then show ?thesis unfolding key_order_def by (rule arg_cong)
qed

lemma key_order_distinct: "key_order f t \<Longrightarrow> distinct (inorder t)"
proof -
  assume "key_order f t"
  then have "distinct (map f (inorder t))"
    unfolding key_order_def by (simp add: strict_sorted_iff)
  then show ?thesis by (simp add: distinct_map)
qed

lemma same_vals_refl [simp]: "same_vals h h"
  by (simp add: same_vals_def)

lemma same_vals_trans: "same_vals h h' \<Longrightarrow> same_vals h' h'' \<Longrightarrow> same_vals h h''"
  by (simp add: same_vals_def)

lemma same_vals_upd:
  "h p = Some n \<Longrightarrow> bn_key n' = bn_key n \<Longrightarrow> bn_data n' = bn_data n \<Longrightarrow> same_vals h (h(p \<mapsto> n'))"
  by (simp add: same_vals_def)

lemma same_vals_key: "same_vals h h' \<Longrightarrow> bkey h' = bkey h" "same_vals h h' \<Longrightarrow> bdata h' = bdata h"
proof -
  assume "same_vals h h'"
  then have *: "map_option (\<lambda>n. (bn_key n, bn_data n)) (h' y) = map_option (\<lambda>n. (bn_key n, bn_data n)) (h y)" for y
    by (simp add: same_vals_def)
  show "bkey h' = bkey h" "bdata h' = bdata h"
    using * by (auto simp: fun_eq_iff bkey_def bdata_def split: option.splits) (metis (no_types, lifting) map_option_is_None option.simps(3) option.map(2) prod.inject option.inject)+
qed

section \<open>Insertion\<close>

text \<open>Hanging the tree \<open>u\<close> into the place the key \<open>k\<close> leads to.\<close>

fun graft :: "(ptr \<Rightarrow> u64) \<Rightarrow> u64 \<Rightarrow> ptr tree \<Rightarrow> ptr tree \<Rightarrow> ptr tree" where
  "graft f k u Leaf = u"
| "graft f k u (Node l x r) = (if k < f x then Node (graft f k u l) x r else Node l x (graft f k u r))"

lemma btree_insert_loop_NULL [simp]: "btree_insert_loop node NULL h = Some (0, h)"
  by (simp add: btree_insert_loop.simps)

lemma btree_insert_loop_ok:
  assumes "tree_at h par p t" "t \<noteq> Leaf" "distinct (inorder t)"
    and u: "h node = Some n0" "node \<noteq> NULL" "tree_at h node (bn_left n0) ul" "tree_at h node (bn_right n0) ur"
      "distinct (inorder (Node ul node ur))"
    and "set_tree t \<inter> set_tree (Node ul node ur) = {}" "bn_key n0 \<notin> bkey h ` set_tree t"
  shows "\<exists>h'. btree_insert_loop node p h = Some (0, h') \<and>
    tree_at h' par p (graft (bkey h) (bn_key n0) (Node ul node ur) t) \<and> same_vals h h' \<and>
    (\<forall>y. y \<notin> insert node (set_tree t) \<longrightarrow> h' y = h y) \<and>
    (\<forall>y. map_option bn_btree (h' y) = map_option bn_btree (h y))"
  using assms
proof (induction t arbitrary: par p)
  case Leaf
  then show ?case by simp
next
  case (Node l x r)
  let ?u = "Node ul node ur"
  from Node.prems(1) obtain m where m: "p = x" "x \<noteq> NULL" "h x = Some m" "bn_parent m = par"
      "tree_at h x (bn_left m) l" "tree_at h x (bn_right m) r"
    by auto
  have neq: "x \<noteq> node" "x \<notin> set_tree ul" "x \<notin> set_tree ur" "x \<notin> set_tree l" "x \<notin> set_tree r"
      "node \<notin> set_tree ul" "node \<notin> set_tree ur" "node \<notin> set_tree l" "node \<notin> set_tree r"
    using Node.prems(3,8,9) by auto
  have k: "bkey h x = bn_key m" "bn_key n0 \<noteq> bn_key m"
    using m(3) Node.prems(10) by (auto simp: bkey_def)
  show ?case
  proof (cases "bn_key n0 < bn_key m")
    case left: True
    show ?thesis
    proof (cases "l = Leaf")
      case True
      let ?h = "h(node \<mapsto> n0\<lparr>bn_parent := x\<rparr>, x \<mapsto> m\<lparr>bn_left := node\<rparr>)"
      have "btree_insert_loop node p h = Some (0, ?h)"
        using m u left k neq(1) True
        by (simp add: btree_insert_loop.simps [of node x] hget_nonNULL hupd_mapped)
      moreover have "tree_at ?h par p (Node ?u x r)"
        using m u neq by simp
      moreover have "same_vals h ?h"
        using m(3) u(1) neq(1) by (intro same_vals_trans [OF same_vals_upd same_vals_upd]) auto
      moreover have "graft (bkey h) (bn_key n0) ?u (Node l x r) = Node ?u x r"
        using True left k by simp
      moreover have "\<forall>y. y \<notin> insert node (set_tree (Node l x r)) \<longrightarrow> ?h y = h y"
          "\<forall>y. map_option bn_btree (?h y) = map_option bn_btree (h y)"
        using m(3) u(1) by simp_all
      ultimately show ?thesis by metis
    next
      case False
      obtain h' where h': "btree_insert_loop node (bn_left m) h = Some (0, h')"
          "tree_at h' x (bn_left m) (graft (bkey h) (bn_key n0) ?u l)" "same_vals h h'"
          "\<forall>y. y \<notin> insert node (set_tree l) \<longrightarrow> h' y = h y"
          "\<forall>y. map_option bn_btree (h' y) = map_option bn_btree (h y)"
        using Node.IH(1) [OF m(5) False _ u] Node.prems(3,9,10) by auto
      have "btree_insert_loop node p h = Some (0, h')"
        using m u left k h'(1) tree_at_NULL [OF m(5)] False
        by (simp add: btree_insert_loop.simps [of node x] hget_nonNULL)
      moreover have "h' x = Some m" using m(3) h'(4) neq by simp
      moreover have "h' y = h y" if "y \<in> set_tree r" for y
        using that h'(4) neq Node.prems(3) by auto
      then have "tree_at h' x (bn_right m) r" using m(6) tree_at_cong by metis
      ultimately show ?thesis
        using h' m left k by (intro exI [of _ h']) auto
    qed
  next
    case right: False
    show ?thesis
    proof (cases "r = Leaf")
      case True
      let ?h = "h(node \<mapsto> n0\<lparr>bn_parent := x\<rparr>, x \<mapsto> m\<lparr>bn_right := node\<rparr>)"
      have "btree_insert_loop node p h = Some (0, ?h)"
        using m u right k neq(1) True
        by (simp add: btree_insert_loop.simps [of node x] hget_nonNULL hupd_mapped)
      moreover have "tree_at ?h par p (Node l x ?u)"
        using m u neq by simp
      moreover have "same_vals h ?h"
        using m(3) u(1) neq(1) by (intro same_vals_trans [OF same_vals_upd same_vals_upd]) auto
      moreover have "graft (bkey h) (bn_key n0) ?u (Node l x r) = Node l x ?u"
        using True right k by simp
      moreover have "\<forall>y. y \<notin> insert node (set_tree (Node l x r)) \<longrightarrow> ?h y = h y"
          "\<forall>y. map_option bn_btree (?h y) = map_option bn_btree (h y)"
        using m(3) u(1) by simp_all
      ultimately show ?thesis by metis
    next
      case False
      obtain h' where h': "btree_insert_loop node (bn_right m) h = Some (0, h')"
          "tree_at h' x (bn_right m) (graft (bkey h) (bn_key n0) ?u r)" "same_vals h h'"
          "\<forall>y. y \<notin> insert node (set_tree r) \<longrightarrow> h' y = h y"
          "\<forall>y. map_option bn_btree (h' y) = map_option bn_btree (h y)"
        using Node.IH(2) [OF m(6) False _ u] Node.prems(3,9,10) by auto
      have "btree_insert_loop node p h = Some (0, h')"
        using m u right k h'(1) tree_at_NULL [OF m(6)] False
        by (simp add: btree_insert_loop.simps [of node x] hget_nonNULL)
      moreover have "h' x = Some m" using m(3) h'(4) neq by simp
      moreover have "h' y = h y" if "y \<in> set_tree l" for y
        using that h'(4) neq Node.prems(3) by auto
      then have "tree_at h' x (bn_left m) l" using m(5) tree_at_cong by metis
      ultimately show ?thesis
        using h' m right k by (intro exI [of _ h']) auto
    qed
  qed
qed


lemma btree_insert_loop_dup:
  assumes "tree_at h par p t" "key_order (bkey h) t" "h node = Some n0" "node \<noteq> NULL"
    "bn_key n0 \<in> bkey h ` set_tree t"
  shows "btree_insert_loop node p h = Some (- EEXIST, h)"
  using assms
proof (induction t arbitrary: par p)
  case Leaf
  then show ?case by simp
next
  case (Node l x r)
  from Node.prems(1) obtain m where m: "p = x" "x \<noteq> NULL" "h x = Some m"
      "tree_at h x (bn_left m) l" "tree_at h x (bn_right m) r"
    by auto
  have key: "bkey h x = bn_key m" using m(3) by (simp add: bkey_def)
  have step: "btree_insert_loop node x h = (if bn_key n0 = bn_key m then Some (- EEXIST, h)
      else if bn_key n0 < bn_key m then btree_insert_loop node (bn_left m) h
      else btree_insert_loop node (bn_right m) h)"
    if "bn_key n0 < bn_key m \<Longrightarrow> bn_left m \<noteq> NULL" "bn_key m < bn_key n0 \<Longrightarrow> bn_right m \<noteq> NULL"
    using m Node.prems(3,4) that
    by (auto simp: btree_insert_loop.simps [of node x] hget_nonNULL Let_def not_less_iff_gr_or_eq)
  have in_l: "bn_key n0 \<in> bkey h ` set_tree l" if "bn_key n0 < bn_key m"
    using Node.prems(2,5) key that by (auto simp: not_less_iff_gr_or_eq)
  have in_r: "bn_key n0 \<in> bkey h ` set_tree r" if "bn_key m < bn_key n0"
    using Node.prems(2,5) key that by (auto simp: not_less_iff_gr_or_eq)
  have "bn_left m \<noteq> NULL" if "bn_key n0 < bn_key m"
    using in_l [OF that] tree_at_NULL [OF m(4)] by auto
  moreover have "bn_right m \<noteq> NULL" if "bn_key m < bn_key n0"
    using in_r [OF that] tree_at_NULL [OF m(5)] by auto
  ultimately show ?case
    using step Node.IH(1) [OF m(4) _ Node.prems(3,4) in_l] Node.IH(2) [OF m(5) _ Node.prems(3,4) in_r]
      Node.prems(2) m(1) by (auto simp: not_less_iff_gr_or_eq)
qed

lemma inorder_graft:
  assumes "inorder t = as @ bs" "\<And>x. x \<in> set as \<Longrightarrow> f x < k" "\<And>x. x \<in> set bs \<Longrightarrow> k < f x"
  shows "inorder (graft f k u t) = as @ inorder u @ bs"
  using assms
proof (induction t arbitrary: as bs)
  case Leaf
  then show ?case by simp
next
  case (Node l x r)
  from Node.prems(1) have eq: "inorder l @ x # inorder r = as @ bs" by simp
  show ?case
  proof (cases "k < f x")
    case True
    then have "x \<notin> set as" using Node.prems(2) by force
    with eq obtain cs where cs: "inorder l = as @ cs" "bs = cs @ x # inorder r"
      by (auto simp: append_eq_append_conv2 Cons_eq_append_conv)
    with Node.IH(1) [OF cs(1)] Node.prems(2,3) True show ?thesis by simp
  next
    case False
    then have "x \<notin> set bs" using Node.prems(3) by force
    with eq obtain cs where cs: "inorder r = cs @ bs" "as = inorder l @ x # cs"
      by (auto simp: append_eq_append_conv2 Cons_eq_append_conv)
    with Node.IH(2) [OF cs(1)] Node.prems(2,3) False show ?thesis by simp
  qed
qed

text \<open>What a routine on the tree \<open>b\<close> that works on the nodes \<open>X\<close> leaves alone.\<close>

definition only_btree :: "ptr \<Rightarrow> ptr set \<Rightarrow> bstate \<Rightarrow> bstate \<Rightarrow> bool" where
  "only_btree b X s s' \<longleftrightarrow>
     (\<forall>b'. b' \<noteq> b \<longrightarrow> btrees s' b' = btrees s b') \<and>
     (\<forall>bt. btrees s b = Some bt \<longrightarrow> (\<exists>bt'. btrees s' b = Some bt' \<and> bt_lock bt' = bt_lock bt)) \<and>
     (\<forall>y n. y \<notin> X \<longrightarrow> bnodes s y = Some n \<longrightarrow> bnodes s' y = Some n)"

lemma only_btree_refl: "only_btree b X s s"
  by (simp add: only_btree_def)

lemma only_btree_trans: "only_btree b X s s' \<Longrightarrow> only_btree b X s' s'' \<Longrightarrow> only_btree b X s s''"
  unfolding only_btree_def by metis

lemma only_btree_mono: "only_btree b X s s' \<Longrightarrow> X \<subseteq> Y \<Longrightarrow> only_btree b Y s s'"
  unfolding only_btree_def by blast

lemma blocked_frame: "only_btree b X s s' \<Longrightarrow> blocked me b' s \<Longrightarrow> blocked me b' s'"
  unfolding only_btree_def blocked_def by metis

lemma btree_assert_locked_ok [simp]: "blocked me b s \<Longrightarrow> btree_assert_locked me b s = Some ()"
  by (auto simp: btree_assert_locked_def blocked_def hget_nonNULL)


lemma tree_at_set_btree:
  "h q = Some n \<Longrightarrow> tree_at (h(q \<mapsto> n\<lparr>bn_btree := b\<rparr>)) par p t = tree_at h par p t"
  by (induction t arbitrary: par p) auto

lemma tree_at_new_parent:
  assumes "h x = Some n" "x \<notin> set_tree l" "x \<notin> set_tree r" "x \<noteq> NULL"
    "tree_at h x (bn_left n) l" "tree_at h x (bn_right n) r"
  shows "tree_at (h(x \<mapsto> n\<lparr>bn_parent := q\<rparr>)) q x (Node l x r)"
  using assms by simp

lemma key_order_graft:
  assumes "key_order f t" "key_order f u" "inorder t = as @ bs" "k \<in> f ` set_tree u"
    "\<And>x y. x \<in> set as \<Longrightarrow> y \<in> set_tree u \<Longrightarrow> f x < f y"
    "\<And>x y. x \<in> set bs \<Longrightarrow> y \<in> set_tree u \<Longrightarrow> f y < f x"
  shows "key_order f (graft f k u t)" "inorder (graft f k u t) = as @ inorder u @ bs"
proof -
  show *: "inorder (graft f k u t) = as @ inorder u @ bs"
    using assms(4-6) by (intro inorder_graft [OF assms(3)]) auto
  have "sorted_wrt (<) (map f (as @ inorder u @ bs))"
    using assms(1,2,3,5,6) by (auto simp: key_order_def sorted_wrt_append)
  with * show "key_order f (graft f k u t)" by (simp add: key_order_def)
qed

lemma btree_insert_node_ok:
  assumes sh: "btree_shape s b c t" "blocked me b s"
    and u: "bnodes s node = Some n0" "node \<noteq> NULL" "tree_at (bnodes s) node (bn_left n0) ul"
      "tree_at (bnodes s) node (bn_right n0) ur" "key_order (bkey (bnodes s)) (Node ul node ur)"
    and own: "\<forall>x\<in>set_tree ul \<union> set_tree ur. map_option bn_btree (bnodes s x) = Some b"
    and dis: "set_tree t \<inter> set_tree (Node ul node ur) = {}"
    and gap: "inorder t = as @ bs"
      "\<And>x y. x \<in> set as \<Longrightarrow> y \<in> set_tree (Node ul node ur) \<Longrightarrow> bkey (bnodes s) x < bkey (bnodes s) y"
      "\<And>x y. x \<in> set bs \<Longrightarrow> y \<in> set_tree (Node ul node ur) \<Longrightarrow> bkey (bnodes s) y < bkey (bnodes s) x"
  obtains s' where "btree_insert_node me b node s = Some (0, s')"
    "btree_shape s' b (c + 1) (graft (bkey (bnodes s)) (bn_key n0) (Node ul node ur) t)"
    "same_vals (bnodes s) (bnodes s')" "only_btree b (insert node (set_tree t)) s s'" "bmem s' = bmem s"
proof -
  let ?u = "Node ul node ur"
  let ?f = "bkey (bnodes s)"
  from sh(1) obtain bt where bt: "b \<noteq> NULL" "btrees s b = Some bt"
      "tree_at (bnodes s) NULL (bt_root bt) t" "bt_nr_nodes bt = c" "key_order ?f t"
      "\<forall>x\<in>set_tree t. map_option bn_btree (bnodes s x) = Some b"
    by (auto simp: btree_shape_def)
  have du: "distinct (inorder ?u)" "distinct (inorder t)" using key_order_distinct u(5) bt(5) by blast+
  let ?n1 = "n0\<lparr>bn_parent := NULL\<rparr>"
  let ?h1 = "(bnodes s)(node \<mapsto> ?n1)"
  have nt: "node \<notin> set_tree t" "node \<notin> set_tree ul" "node \<notin> set_tree ur" using dis du(1) by auto
  have sv1: "same_vals (bnodes s) ?h1" using u(1) by (simp add: same_vals_upd)
  have f1: "bkey ?h1 = ?f" using same_vals_key(1) [OF sv1] .
  have keyn: "?f node = bn_key n0" using u(1) by (simp add: bkey_def)
  have "set_tree t = set as \<union> set bs" unfolding set_inorder [symmetric] gap(1) by simp
  then have kt: "bn_key n0 \<notin> ?f ` set_tree t"
    using gap(2) [of _ node] gap(3) [of _ node] keyn by force
  obtain bt' h2 where h2: "(if t = Leaf then Some (0, bt\<lparr>bt_root := node\<rparr>, ?h1)
        else do { (err, h) \<leftarrow> btree_insert_loop node (bt_root bt) ?h1; Some (err, bt, h) }) = Some (0, bt', h2)"
      "tree_at h2 NULL (bt_root bt') (graft ?f (bn_key n0) ?u t)" "same_vals ?h1 h2"
      "\<forall>y. y \<notin> insert node (set_tree t) \<longrightarrow> h2 y = ?h1 y"
      "\<forall>y. map_option bn_btree (h2 y) = map_option bn_btree (?h1 y)"
      "bt_nr_nodes bt' = c" "bt_lock bt' = bt_lock bt"
  proof (cases "t = Leaf")
    case True
    then show thesis
      using u nt bt(4) by (intro that [of "bt\<lparr>bt_root := node\<rparr>" ?h1]) auto
  next
    case False
    have "tree_at ?h1 NULL (bt_root bt) t" using bt(3) nt(1) by simp
    with False have "\<exists>h'. btree_insert_loop node (bt_root bt) ?h1 = Some (0, h') \<and>
        tree_at h' NULL (bt_root bt) (graft (bkey ?h1) (bn_key ?n1) ?u t) \<and> same_vals ?h1 h' \<and>
        (\<forall>y. y \<notin> insert node (set_tree t) \<longrightarrow> h' y = ?h1 y) \<and>
        (\<forall>y. map_option bn_btree (h' y) = map_option bn_btree (?h1 y))"
      using du u nt dis kt f1 by (intro btree_insert_loop_ok) auto
    with False f1 bt(4) that show thesis by force
  qed
  obtain n2 where n2: "h2 node = Some n2"
    using h2(5) by (metis fun_upd_same map_option_is_None not_None_eq)
  let ?s = "s\<lparr>bnodes := h2(node \<mapsto> n2\<lparr>bn_btree := b\<rparr>), btrees := (btrees s)(b \<mapsto> bt'\<lparr>bt_nr_nodes := c + 1\<rparr>)\<rparr>"
  have "btree_isempty me b s = Some (t = Leaf)"
    using sh(2) bt(1,2) tree_at_NULL [OF bt(3)] by (simp add: btree_isempty_def hget_nonNULL)
  then have run: "btree_insert_node me b node s = Some (0, ?s)"
    using bt(1,2) u(1,2) sh(2) h2(1,6) n2
    by (auto simp: btree_insert_node_def hupd_mapped hget_nonNULL)
  have "same_vals h2 (bnodes ?s)" using n2 by (simp add: same_vals_upd [of h2 node n2])
  then have sv: "same_vals (bnodes s) (bnodes ?s)"
    using sv1 h2(3) same_vals_trans by blast
  have ord: "key_order ?f (graft ?f (bn_key n0) ?u t)"
    and inord: "inorder (graft ?f (bn_key n0) ?u t) = as @ inorder ?u @ bs"
    using key_order_graft [OF bt(5) u(5) gap(1) _ gap(2,3), of "bn_key n0"] keyn by force+
  have "set_tree (graft ?f (bn_key n0) ?u t) = set_tree t \<union> set_tree ?u"
    unfolding set_inorder [symmetric] inord gap(1) by auto
  moreover have "map_option bn_btree (bnodes ?s x) = (if x = node then Some b else map_option bn_btree (bnodes s x))" for x
    using h2(5) by simp
  ultimately have "map_option bn_btree (bnodes ?s x) = Some b" if "x \<in> set_tree (graft ?f (bn_key n0) ?u t)" for x
    using that bt(6) own by (auto simp del: map_option_eq_Some)
  moreover have "tree_at (bnodes ?s) NULL (bt_root bt') (graft ?f (bn_key n0) ?u t)"
    using h2(2) n2 by (simp add: tree_at_set_btree)
  ultimately have "btree_shape ?s b (c + 1) (graft ?f (bn_key n0) ?u t)"
    using bt(1) ord same_vals_key(1) [OF sv] by (simp add: btree_shape_def)
  moreover have "only_btree b (insert node (set_tree t)) s ?s"
    using bt(2) h2(4,7) by (simp add: only_btree_def)
  ultimately show thesis using that [OF run _ sv] by simp
qed


section \<open>Lookup\<close>

lemma btree_lookup_loop_ok:
  assumes "tree_at h par p t" "key_order (bkey h) t"
  shows "x \<in> set_tree t \<Longrightarrow> btree_lookup_loop (bkey h x) p h = Some x"
    and "k \<notin> bkey h ` set_tree t \<Longrightarrow> btree_lookup_loop k p h = Some NULL"
  using assms
proof (induction t arbitrary: par p)
  case Leaf
  { case 1 then show ?case by simp }
  { case 2 then show ?case by (simp add: btree_lookup_loop.simps) }
next
  case (Node l y r)
  have step: "btree_lookup_loop k y h = (if bkey h y = k then Some y
      else if k < bkey h y then btree_lookup_loop k (bn_left m) h else btree_lookup_loop k (bn_right m) h)"
    if "h y = Some m" "y \<noteq> NULL" for m k
    using that by (simp add: btree_lookup_loop.simps [of k y] hget_nonNULL bkey_def)
  {
    case 1
    then obtain m where m: "p = y" "y \<noteq> NULL" "h y = Some m" "tree_at h y (bn_left m) l"
        "tree_at h y (bn_right m) r"
      by auto
    have ord: "key_order (bkey h) l" "key_order (bkey h) r" using 1 by auto
    consider "x = y" | "x \<in> set_tree l" "bkey h x < bkey h y" | "x \<in> set_tree r" "bkey h y < bkey h x"
      using 1 by auto
    then show ?case
      using Node.IH(1) [OF _ m(4) ord(1)] Node.IH(3) [OF _ m(5) ord(2)] step [OF m(3,2)] m(1)
      by cases auto
  }
  {
    case 2
    then obtain m where m: "p = y" "y \<noteq> NULL" "h y = Some m" "tree_at h y (bn_left m) l"
        "tree_at h y (bn_right m) r"
      by auto
    then show ?case
      using Node.IH(2) [OF _ m(4)] Node.IH(4) [OF _ m(5)] step [OF m(3,2)] 2 by auto
  }
qed

lemma btree_lookup_ok:
  assumes "btree_shape s b c t" "blocked me b s"
  shows "x \<in> set_tree t \<Longrightarrow> btree_lookup me b (bkey (bnodes s) x) s = Some x"
    and "k \<notin> bkey (bnodes s) ` set_tree t \<Longrightarrow> btree_lookup me b k s = Some NULL"
proof -
  from assms(1) obtain bt where bt: "b \<noteq> NULL" "btrees s b = Some bt"
      "tree_at (bnodes s) NULL (bt_root bt) t" "key_order (bkey (bnodes s)) t"
    by (auto simp: btree_shape_def)
  show "btree_lookup me b (bkey (bnodes s) x) s = Some x" if "x \<in> set_tree t"
    using btree_lookup_loop_ok(1) [OF bt(3,4) that] bt(1,2) assms(2)
    by (simp add: btree_lookup_def hget_nonNULL)
  show "btree_lookup me b k s = Some NULL" if "k \<notin> bkey (bnodes s) ` set_tree t"
    using btree_lookup_loop_ok(2) [OF bt(3,4) that] bt(1,2) assms(2)
    by (simp add: btree_lookup_def hget_nonNULL)
qed

definition bmap :: "btree_node heap \<Rightarrow> ptr tree \<Rightarrow> u64 \<rightharpoonup> ptr" where
  "bmap h t = map_of (bitems h t)"

lemma key_order_inj: "key_order f t \<Longrightarrow> inj_on f (set_tree t)"
  unfolding key_order_def by (simp add: strict_sorted_iff distinct_map)

lemma bmap_in:
  assumes "key_order (bkey h) t" "x \<in> set_tree t"
  shows "bmap h t (bkey h x) = Some (bdata h x)"
proof -
  have "distinct (map fst (bitems h t))"
    using assms(1) by (simp add: bitems_def key_order_def strict_sorted_iff o_def)
  moreover have "(bkey h x, bdata h x) \<in> set (bitems h t)"
    using assms(2) by (auto simp: bitems_def)
  ultimately show ?thesis unfolding bmap_def by (rule map_of_is_SomeI)
qed

lemma bmap_notin: "k \<notin> bkey h ` set_tree t \<longleftrightarrow> bmap h t k = None"
  by (force simp: bmap_def bitems_def map_of_eq_None_iff)

lemma btree_search_ok:
  assumes "btree_shape s b c t" "blocked me b s"
  shows "btree_search me b k s = Some (case bmap (bnodes s) t k of
    None \<Rightarrow> (- ENOENT, None) | Some v \<Rightarrow> (0, Some v))"
proof -
  let ?h = "bnodes s"
  from assms(1) obtain bt where bt: "tree_at ?h NULL (bt_root bt) t" "key_order (bkey ?h) t" "btrees s b = Some bt"
    by (auto simp: btree_shape_def)
  show ?thesis
  proof (cases "k \<in> bkey ?h ` set_tree t")
    case True
    then obtain x where x: "x \<in> set_tree t" "k = bkey ?h x" by blast
    obtain n where "x \<noteq> NULL" "?h x = Some n" using tree_at_mapped [OF bt(1) x(1)] by blast
    then show ?thesis
      using x btree_lookup_ok(1) [OF assms x(1)] bmap_in [OF bt(2) x(1)] assms(2)
      by (simp add: btree_search_def hget_nonNULL bdata_def)
  next
    case False
    then show ?thesis
      using btree_lookup_ok(2) [OF assms False] bmap_notin assms(2) by (simp add: btree_search_def)
  qed
qed


section \<open>Insertion of a key\<close>

lemma key_split:
  assumes "key_order f t" "k \<notin> f ` set_tree t"
  obtains as bs where "inorder t = as @ bs" "\<And>x. x \<in> set as \<Longrightarrow> f x < k" "\<And>x. x \<in> set bs \<Longrightarrow> k < f x"
proof -
  let ?as = "takeWhile (\<lambda>x. f x < k) (inorder t)" and ?bs = "dropWhile (\<lambda>x. f x < k) (inorder t)"
  have s: "sorted_wrt (<) (map f (?as @ ?bs))"
    using assms(1) by (simp add: key_order_def del: map_append)
  have "k < f x" if x: "x \<in> set ?bs" for x
  proof -
    obtain y ys where bs: "?bs = y # ys" using x by (cases ?bs) auto
    then have "\<not> f y < k" using hd_dropWhile [of "\<lambda>x. f x < k" "inorder t"] by auto
    moreover have "y \<in> set_tree t" using bs by (metis set_inorder list.set_intros(1) set_dropWhileD)
    ultimately have "k < f y" using assms(2) by (metis image_eqI not_less_iff_gr_or_eq)
    moreover have "x = y \<or> f y < f x" using s x bs by (auto simp: sorted_wrt_append)
    ultimately show ?thesis by auto
  qed
  then show thesis
    by (intro that [of ?as ?bs]) (auto dest: set_takeWhileD)
qed

lemma bitems_same_vals: "same_vals h h' \<Longrightarrow> bitems h' t = bitems h t"
  by (simp add: bitems_def same_vals_key)

lemma btree_shape_bmem [simp]: "btree_shape (s\<lparr>bmem := ps\<rparr>) b c t = btree_shape s b c t"
  by (simp add: btree_shape_def)

lemma blocked_bmem [simp]: "blocked me b (s\<lparr>bmem := ps\<rparr>) = blocked me b s"
  by (simp add: blocked_def)

lemma blocked_bnodes [simp]: "blocked me b (s\<lparr>bnodes := h\<rparr>) = blocked me b s"
  by (simp add: blocked_def)

text \<open>The tree of a fresh object: it is not one of the nodes, and a value put there is not seen.\<close>

lemma btree_shape_fresh:
  assumes "btree_shape s b c t" "bnodes s p = None"
  shows "p \<notin> set_tree t" "btree_shape (s\<lparr>bnodes := (bnodes s)(p := v)\<rparr>) b c t"
    "bitems ((bnodes s)(p := v)) t = bitems (bnodes s) t"
proof -
  show p: "p \<notin> set_tree t"
    using assms by (auto simp: btree_shape_def)
  then have k: "bkey ((bnodes s)(p := v)) x = bkey (bnodes s) x" "bdata ((bnodes s)(p := v)) x = bdata (bnodes s) x"
    if "x \<in> set_tree t" for x
    using that by (auto simp: bkey_def bdata_def)
  then have "key_order (bkey ((bnodes s)(p := v))) t = key_order (bkey (bnodes s)) t"
    by (intro key_order_cong)
  then show "btree_shape (s\<lparr>bnodes := (bnodes s)(p := v)\<rparr>) b c t"
    using assms(1) p by (auto simp: btree_shape_def)
  show "bitems ((bnodes s)(p := v)) t = bitems (bnodes s) t"
    using k by (simp add: bitems_def)
qed

lemma map_of_insert_between:
  assumes "f p \<notin> f ` set as"
  shows "map_of (map (\<lambda>x. (f x, g x)) (as @ [p] @ bs)) = (map_of (map (\<lambda>x. (f x, g x)) (as @ bs)))(f p \<mapsto> g p)"
  using assms by (induction as) (auto simp: fun_eq_iff)

lemma btree_insert_new:
  assumes ok: "btree_ok s b t" "blocked me b s" and new: "bmap (bnodes s) t k = None"
    and mem: "kmalloc (b_used s) (bmem s) = (p, ps)" "p \<noteq> NULL"
  obtains s' t' where "btree_insert me b k v s = Some (0, s')" "btree_ok s' b t'"
    "bmap (bnodes s') t' = (bmap (bnodes s) t)(k \<mapsto> v)" "only_btree b (set_tree t) s s'" "bmem s' = ps"
proof -
  let ?n = "\<lparr>bn_key = k, bn_data = v, bn_left = NULL, bn_parent = NULL, bn_right = NULL, bn_btree = NULL\<rparr>"
  let ?h = "(bnodes s)(p \<mapsto> ?n)"
  let ?s1 = "s\<lparr>bmem := ps, bnodes := ?h\<rparr>"
  have fresh: "bnodes s p = None" using kmalloc_fresh [OF mem] by (simp add: b_used_def)
  have sh: "btree_shape ?s1 b (of_nat (size t)) t" "p \<notin> set_tree t" "bitems ?h t = bitems (bnodes s) t"
    using btree_shape_fresh(1) [of s b _ t p] btree_shape_fresh(2,3) [of "s\<lparr>bmem := ps\<rparr>" b _ t p "Some ?n"]
      ok(1) fresh by (simp_all add: btree_ok_def)
  have ord: "key_order (bkey ?h) t" using sh(1) by (simp add: btree_shape_def)
  have "bmap ?h t k = None" using new sh(3) by (simp add: bmap_def)
  then have "k \<notin> bkey ?h ` set_tree t" by (simp add: bmap_notin)
  with ord obtain as bs where ab: "inorder t = as @ bs" "\<And>x. x \<in> set as \<Longrightarrow> bkey ?h x < k"
      "\<And>x. x \<in> set bs \<Longrightarrow> k < bkey ?h x"
    by (rule key_split) blast
  have kp: "bkey ?h p = k" by (simp add: bkey_def)
  obtain s' where s': "btree_insert_node me b p ?s1 = Some (0, s')"
      "btree_shape s' b (of_nat (size t) + 1) (graft (bkey ?h) k (Node Leaf p Leaf) t)"
      "same_vals ?h (bnodes s')" "only_btree b (insert p (set_tree t)) ?s1 s'" "bmem s' = ps"
    using btree_insert_node_ok [OF sh(1), of me p ?n Leaf Leaf as bs] ok(2) mem(2) sh(2) ab kp by auto
  let ?t = "graft (bkey ?h) k (Node Leaf p Leaf) t"
  have inord: "inorder ?t = as @ [p] @ bs"
    using inorder_graft [OF ab] by simp
  then have "length (inorder ?t) = Suc (length (inorder t))" using ab(1) by simp
  then have "size ?t = Suc (size t)" by simp
  with s'(2) have "btree_ok s' b ?t" by (simp add: btree_ok_def add.commute)
  moreover have "btree_insert me b k v s = Some (0, s')"
    using mem ok s'(1) by (simp add: btree_insert_def btree_alloc_node_def blocked_def [of _ b s] hupd_mapped)
  moreover have "bmap (bnodes s') ?t = (bmap (bnodes s) t)(k \<mapsto> v)"
  proof -
    have "bmap (bnodes s') ?t = map_of (map (\<lambda>x. (bkey ?h x, bdata ?h x)) (as @ [p] @ bs))"
      by (simp only: bmap_def bitems_def inord same_vals_key [OF s'(3)])
    also have "\<dots> = (map_of (map (\<lambda>x. (bkey ?h x, bdata ?h x)) (as @ bs)))(k \<mapsto> v)"
    proof -
      have "bkey ?h p \<notin> bkey ?h ` set as" using ab(2) kp by (metis image_iff order_less_irrefl)
      moreover have "bdata ?h p = v" by (simp add: bdata_def)
      ultimately show ?thesis using map_of_insert_between [of "bkey ?h" p as "bdata ?h" bs] kp by simp
    qed
    also have "\<dots> = (bmap (bnodes s) t)(k \<mapsto> v)"
      by (simp only: bmap_def bitems_def ab(1) [symmetric] sh(3) [unfolded bitems_def])
    finally show ?thesis .
  qed
  moreover have "only_btree b (set_tree t) s s'"
    using s'(4) fresh by (auto simp: only_btree_def) (metis option.distinct(1))
  ultimately show thesis using s'(5) by (intro that)
qed


lemma btree_insert_dup:
  assumes ok: "btree_ok s b t" "blocked me b s" and dup: "bmap (bnodes s) t k \<noteq> None"
    and mem: "kmalloc (b_used s) (bmem s) = (p, ps)" "p \<noteq> NULL"
  shows "btree_insert me b k v s = Some (- EEXIST, s\<lparr>bmem := ps\<rparr>)"
proof -
  let ?n = "\<lparr>bn_key = k, bn_data = v, bn_left = NULL, bn_parent = NULL, bn_right = NULL, bn_btree = NULL\<rparr>"
  let ?h = "(bnodes s)(p \<mapsto> ?n)"
  let ?s1 = "s\<lparr>bmem := ps, bnodes := ?h\<rparr>"
  have fresh: "bnodes s p = None" using kmalloc_fresh [OF mem] by (simp add: b_used_def)
  have sh: "btree_shape ?s1 b (of_nat (size t)) t" "p \<notin> set_tree t" "bitems ?h t = bitems (bnodes s) t"
    using btree_shape_fresh(1) [of s b _ t p] btree_shape_fresh(2,3) [of "s\<lparr>bmem := ps\<rparr>" b _ t p "Some ?n"]
      ok(1) fresh by (simp_all add: btree_ok_def)
  then obtain bt where bt: "b \<noteq> NULL" "btrees s b = Some bt" "tree_at ?h NULL (bt_root bt) t" "key_order (bkey ?h) t"
    by (auto simp: btree_shape_def)
  have "bmap ?h t k \<noteq> None" using dup sh(3) by (simp add: bmap_def)
  then have k: "k \<in> bkey ?h ` set_tree t" using bmap_notin by metis
  then have "t \<noteq> Leaf" by auto
  then have ne: "btree_isempty me b ?s1 = Some False"
    using ok(2) bt tree_at_NULL [OF bt(3)] by (simp add: btree_isempty_def hget_nonNULL)
  have "btree_insert_loop p (bt_root bt) ?h = Some (- EEXIST, ?h)"
    using btree_insert_loop_dup [OF bt(3,4), of p ?n] mem(2) k by simp
  then have "btree_insert_node me b p ?s1 = Some (- EEXIST, ?s1)"
    using bt ok(2) ne mem(2)
    by (simp add: btree_insert_node_def hupd_mapped hget_nonNULL errno_defs)
  then show ?thesis
    using mem ok fresh bt(1)
    by (simp add: btree_insert_def btree_alloc_node_def hupd_mapped btree_free_node_def kfree_def
        errno_defs fun_upd_idem)
qed

lemma btree_insert_nomem:
  assumes "blocked me b s" "kmalloc (b_used s) (bmem s) = (NULL, ps)"
  shows "btree_insert me b k v s = Some (- ENOMEM, s\<lparr>bmem := ps\<rparr>)"
  using assms by (auto simp: btree_insert_def btree_alloc_node_def blocked_def)

section \<open>Deletion\<close>

text \<open>The subtree with root \<open>x\<close>, and the tree with that subtree replaced.\<close>

fun subt :: "ptr \<Rightarrow> ptr tree \<Rightarrow> ptr tree" where
  "subt x Leaf = Leaf"
| "subt x (Node l y r) = (if y = x then Node l y r else if x \<in> set_tree l then subt x l else subt x r)"

fun repl :: "ptr \<Rightarrow> ptr tree \<Rightarrow> ptr tree \<Rightarrow> ptr tree" where
  "repl x u Leaf = Leaf"
| "repl x u (Node l y r) = (if y = x then u else Node (repl x u l) y (repl x u r))"

lemma repl_notin [simp]: "x \<notin> set_tree t \<Longrightarrow> repl x u t = t"
  by (induction t) auto

lemma inorder_repl:
  assumes "distinct (inorder t)" "x \<in> set_tree t"
  obtains as bs where "inorder t = as @ inorder (subt x t) @ bs"
    "\<And>u. inorder (repl x u t) = as @ inorder u @ bs"
  using assms
proof (induction t arbitrary: thesis)
  case Leaf
  then show ?case by simp
next
  case (Node l y r)
  consider "x = y" | "x \<in> set_tree l" "x \<noteq> y" "x \<notin> set_tree r" | "x \<in> set_tree r" "x \<noteq> y" "x \<notin> set_tree l"
    using Node.prems(2,3) by auto
  then show ?case
  proof cases
    case 1
    then show ?thesis by (intro Node.prems(1) [of "[]" "[]"]) auto
  next
    case 2
    then obtain as bs where "inorder l = as @ inorder (subt x l) @ bs"
        "\<And>u. inorder (repl x u l) = as @ inorder u @ bs"
      using Node.IH(1) Node.prems(2) by auto
    with 2 show ?thesis by (intro Node.prems(1) [of as "bs @ y # inorder r"]) auto
  next
    case 3
    then obtain as bs where "inorder r = as @ inorder (subt x r) @ bs"
        "\<And>u. inorder (repl x u r) = as @ inorder u @ bs"
      using Node.IH(2) Node.prems(2) by auto
    with 3 show ?thesis by (intro Node.prems(1) [of "inorder l @ y # as" bs]) auto
  qed
qed

lemma tree_at_subt:
  assumes "tree_at h par p t" "x \<in> set_tree t"
  obtains l r n where "subt x t = Node l x r" "h x = Some n" "x \<noteq> NULL" "tree_at h x (bn_left n) l"
    "tree_at h x (bn_right n) r"
  using assms
proof (induction t arbitrary: par p thesis)
  case Leaf
  then show ?case by simp
next
  case (Node l y r)
  from Node.prems(2) obtain m where m: "h y = Some m" "y \<noteq> NULL" "tree_at h y (bn_left m) l"
      "tree_at h y (bn_right m) r" by auto
  consider "x = y" | "x \<in> set_tree l" "x \<noteq> y" | "x \<notin> set_tree l" "x \<in> set_tree r" "x \<noteq> y"
    using Node.prems(3) by auto
  then show ?case
  proof cases
    case 1
    with m show ?thesis by (intro Node.prems(1) [of l r m]) auto
  next
    case 2
    obtain l' r' n where "subt x l = Node l' x r'" "h x = Some n" "x \<noteq> NULL" "tree_at h x (bn_left n) l'"
        "tree_at h x (bn_right n) r'"
      by (rule Node.IH(1) [OF _ m(3) 2(1)])
    with 2 show ?thesis by (intro Node.prems(1) [of l' r' n]) simp_all
  next
    case 3
    obtain l' r' n where "subt x r = Node l' x r'" "h x = Some n" "x \<noteq> NULL" "tree_at h x (bn_left n) l'"
        "tree_at h x (bn_right n) r'"
      by (rule Node.IH(2) [OF _ m(4) 3(2)])
    with 3 show ?thesis by (intro Node.prems(1) [of l' r' n]) simp_all
  qed
qed

text \<open>Clearing the link that leads to \<open>x\<close>, in the node \<open>x\<close> names as its parent, cuts its subtree off.\<close>

definition cut_link :: "ptr \<Rightarrow> btree_node \<Rightarrow> btree_node" where
  "cut_link x m = (if bn_right m = x then m\<lparr>bn_right := NULL\<rparr> else m\<lparr>bn_left := NULL\<rparr>)"

lemma tree_at_cut:
  assumes "tree_at h par p t" "distinct (inorder t)" "x \<in> set_tree t" "x \<noteq> p"
  obtains n q m where "h x = Some n" "bn_parent n = q" "q \<in> set_tree t" "h q = Some m"
    "bn_right m = x \<or> bn_left m = x" "q \<notin> set_tree (subt x t)"
    "tree_at (h(q \<mapsto> cut_link x m)) par p (repl x Leaf t)"
  using assms
proof (induction t arbitrary: par p thesis)
  case Leaf
  then show ?case by simp
next
  case (Node l y r)
  from Node.prems(2) obtain m where m: "p = y" "h y = Some m" "bn_parent m = par" "y \<noteq> NULL" "tree_at h y (bn_left m) l"
      "tree_at h y (bn_right m) r" by auto
  have d: "y \<notin> set_tree l" "y \<notin> set_tree r" "set_tree l \<inter> set_tree r = {}" "distinct (inorder l)" "distinct (inorder r)"
    using Node.prems(3) by auto
  have xy: "x \<noteq> y" using Node.prems(5) m(1) by simp
  consider (root_l) "x \<in> set_tree l" "bn_left m = x" | (in_l) "x \<in> set_tree l" "x \<noteq> bn_left m"
    | (root_r) "x \<in> set_tree r" "bn_right m = x" | (in_r) "x \<in> set_tree r" "x \<noteq> bn_right m"
    by (cases "x \<in> set_tree l"; cases "bn_left m = x"; cases "bn_right m = x") (use Node.prems(4) xy in auto)
  then show ?case
  proof cases
    case root_l
    have "tree_at h y x l" using m(5) root_l(2) by simp
    with root_l(1) obtain l1 l2 where l: "l = Node l1 x l2" by (cases l) auto
    from l m(5) obtain n where n: "h x = Some n" "bn_parent n = y" "x \<noteq> NULL" by auto
    have rx: "x \<notin> set_tree r" using root_l(1) d(3) by blast
    have rm: "bn_right m \<noteq> x"
    proof
      assume "bn_right m = x"
      with m(6) have "tree_at h y x r" by simp
      with rx n(3) show False by (cases r) auto
    qed
    have cut: "tree_at (h(y \<mapsto> cut_link x m)) par p (repl x Leaf (Node l y r))"
      using m d rx rm xy l by (simp add: cut_link_def)
    show ?thesis
      by (rule Node.prems(1) [OF n(1,2) _ m(2) _ _ cut]) (use m d n rx root_l xy l in auto)
  next
    case in_l
    obtain n q k where q: "h x = Some n" "bn_parent n = q" "q \<in> set_tree l" "h q = Some k"
        "bn_right k = x \<or> bn_left k = x" "q \<notin> set_tree (subt x l)"
        "tree_at (h(q \<mapsto> cut_link x k)) y (bn_left m) (repl x Leaf l)"
      by (rule Node.IH(1) [OF _ m(5) d(4) in_l])
    have "q \<noteq> y" "q \<notin> set_tree r" "x \<notin> set_tree r" using q(3) d in_l(1) by auto
    then have cut: "tree_at (h(q \<mapsto> cut_link x k)) par p (repl x Leaf (Node l y r))"
      using q(7) m xy by simp
    show ?thesis
      by (rule Node.prems(1) [OF q(1,2) _ q(4,5) _ cut]) (use q in_l xy d in auto)
  next
    case root_r
    have "tree_at h y x r" using m(6) root_r(2) by simp
    with root_r(1) obtain r1 r2 where r: "r = Node r1 x r2" by (cases r) auto
    have lx: "x \<notin> set_tree l" using root_r d(3) by auto
    from r m(6) obtain n where n: "h x = Some n" "bn_parent n = y" by auto
    have cut: "tree_at (h(y \<mapsto> cut_link x m)) par p (repl x Leaf (Node l y r))"
      using m d lx xy r root_r(2) by (simp add: cut_link_def)
    show ?thesis
      by (rule Node.prems(1) [OF n(1,2) _ m(2) _ _ cut]) (use m d n lx root_r xy r in auto)
  next
    case in_r
    obtain n q k where q: "h x = Some n" "bn_parent n = q" "q \<in> set_tree r" "h q = Some k"
        "bn_right k = x \<or> bn_left k = x" "q \<notin> set_tree (subt x r)"
        "tree_at (h(q \<mapsto> cut_link x k)) y (bn_right m) (repl x Leaf r)"
      by (rule Node.IH(2) [OF _ m(6) d(5) in_r])
    have "q \<noteq> y" "q \<notin> set_tree l" "x \<notin> set_tree l" using q(3) d in_r(1) by auto
    then have cut: "tree_at (h(q \<mapsto> cut_link x k)) par p (repl x Leaf (Node l y r))"
      using q(7) m xy by simp
    show ?thesis
      by (rule Node.prems(1) [OF q(1,2) _ q(4,5) _ cut]) (use q in_r xy d in auto)
  qed
qed


lemma btree_shapeE:
  assumes "btree_shape s b c t"
  obtains bt where "b \<noteq> NULL" "btrees s b = Some bt" "tree_at (bnodes s) NULL (bt_root bt) t"
    "bt_nr_nodes bt = c" "key_order (bkey (bnodes s)) t"
    "\<forall>x\<in>set_tree t. map_option bn_btree (bnodes s x) = Some b"
  using assms unfolding btree_shape_def by blast

lemma key_order_repl:
  assumes "key_order f t" "x \<in> set_tree t" "key_order f u" "set_tree u \<subseteq> set_tree (subt x t)"
  shows "key_order f (repl x u t)"
proof -
  obtain as bs where ab: "inorder t = as @ inorder (subt x t) @ bs"
      "\<And>u. inorder (repl x u t) = as @ inorder u @ bs"
    using inorder_repl [OF key_order_distinct [OF assms(1)] assms(2)] by blast
  have "sorted_wrt (<) (map f (as @ inorder (subt x t) @ bs))"
    using assms(1) ab(1) by (simp add: key_order_def)
  then have "sorted_wrt (<) (map f (as @ inorder u @ bs))"
    using assms(3,4) by (auto simp: sorted_wrt_append key_order_def)
  then show ?thesis using ab(2) by (simp add: key_order_def)
qed

lemma set_repl_Leaf:
  assumes "distinct (inorder t)" "x \<in> set_tree t"
  shows "set_tree (repl x Leaf t) \<inter> set_tree (subt x t) = {}"
    "set_tree (repl x Leaf t) \<union> set_tree (subt x t) = set_tree t"
proof -
  obtain as bs where ab: "inorder t = as @ inorder (subt x t) @ bs"
      "\<And>u. inorder (repl x u t) = as @ inorder u @ bs"
    using inorder_repl [OF assms] by blast
  show "set_tree (repl x Leaf t) \<inter> set_tree (subt x t) = {}"
    using assms(1) unfolding ab(1) set_inorder [symmetric, of "repl x Leaf t"] ab(2) by auto
  show "set_tree (repl x Leaf t) \<union> set_tree (subt x t) = set_tree t"
    unfolding set_inorder [symmetric, of "repl x Leaf t"] set_inorder [symmetric, of t] ab by auto
qed

lemma btree_cut_node_ok:
  assumes "btree_shape s b c t" "x \<in> set_tree t" "bnodes s x = Some n"
  obtains s' where "btree_cut_node b x (bn_parent n) s = Some s'" "btree_shape s' b c (repl x Leaf t)"
    "same_vals (bnodes s) (bnodes s')" "only_btree b (set_tree t - set_tree (subt x t)) s s'" "bmem s' = bmem s"
proof -
  let ?h = "bnodes s"
  obtain bt where bt: "b \<noteq> NULL" "btrees s b = Some bt" "tree_at ?h NULL (bt_root bt) t"
      "bt_nr_nodes bt = c" "key_order (bkey ?h) t"
      "\<forall>x\<in>set_tree t. map_option bn_btree (?h x) = Some b"
    using assms(1) by (rule btree_shapeE)
  have dist: "distinct (inorder t)" using bt(5) by (rule key_order_distinct)
  have ord: "key_order (bkey ?h) (repl x Leaf t)" using key_order_repl [OF bt(5) assms(2)] by simp
  have sub: "set_tree (repl x Leaf t) \<subseteq> set_tree t" using set_repl_Leaf [OF dist assms(2)] by blast
  show thesis
  proof (cases "x = bt_root bt")
    case True
    then obtain l r where t: "t = Node l x r" using bt(3) assms(2) by (cases t) auto
    then show thesis
      using True bt by (intro that [of "s\<lparr>btrees := (btrees s)(b \<mapsto> bt\<lparr>bt_root := NULL\<rparr>)\<rparr>"])
        (simp_all add: btree_cut_node_def hget_nonNULL btree_shape_def only_btree_def)
  next
    case False
    obtain n' q m where q: "?h x = Some n'" "bn_parent n' = q" "q \<in> set_tree t" "?h q = Some m"
        "bn_right m = x \<or> bn_left m = x" "q \<notin> set_tree (subt x t)"
        "tree_at (?h(q \<mapsto> cut_link x m)) NULL (bt_root bt) (repl x Leaf t)"
      by (rule tree_at_cut [OF bt(3) dist assms(2) False])
    have nn: "q \<noteq> NULL" "x \<noteq> NULL" using tree_at_mapped [OF bt(3)] q(3) assms(2) by auto
    let ?s = "s\<lparr>bnodes := ?h(q \<mapsto> cut_link x m)\<rparr>"
    have run: "btree_cut_node b x (bn_parent n) s = Some ?s"
      using bt(1,2) False q nn assms(3)
      by (auto simp: btree_cut_node_def btree_node_isright_def btree_node_isleft_def hget_nonNULL
          hupd_mapped cut_link_def)
    have sv: "same_vals ?h (bnodes ?s)" using q(4) by (simp add: same_vals_def cut_link_def)
    have "map_option bn_btree (bnodes ?s y) = Some b" if "y \<in> set_tree (repl x Leaf t)" for y
      using bspec [OF bt(6), of y] that sub q(4) by (auto simp: cut_link_def)
    then have "btree_shape ?s b c (repl x Leaf t)"
      using bt(1,2,4) q(7) ord same_vals_key(1) [OF sv] by (simp add: btree_shape_def)
    moreover have "only_btree b (set_tree t - set_tree (subt x t)) s ?s"
      using q(3,6) bt(2) by (auto simp: only_btree_def)
    ultimately show thesis using run sv by (intro that [of ?s]) simp_all
  qed
qed

lemma btree_reinsert_ok:
  assumes sh: "btree_shape s b c t" "blocked me b s"
    and u: "tree_at (bnodes s) q child u" "key_order (bkey (bnodes s)) u"
    and own: "\<And>x. x \<in> set_tree u \<Longrightarrow> map_option bn_btree (bnodes s x) = Some b"
    and dis: "set_tree t \<inter> set_tree u = {}"
    and gap: "inorder t = as @ bs"
      "\<And>x y. x \<in> set as \<Longrightarrow> y \<in> set_tree u \<Longrightarrow> bkey (bnodes s) x < bkey (bnodes s) y"
      "\<And>x y. x \<in> set bs \<Longrightarrow> y \<in> set_tree u \<Longrightarrow> bkey (bnodes s) y < bkey (bnodes s) x"
  obtains s' t' where "btree_reinsert me b child s = Some s'" "btree_shape s' b c t'"
    "t' = (if u = Leaf then t else graft (bkey (bnodes s)) (bkey (bnodes s) child) u t)"
    "inorder t' = as @ inorder u @ bs" "same_vals (bnodes s) (bnodes s')"
    "only_btree b (set_tree t \<union> set_tree u) s s'" "bmem s' = bmem s"
proof (cases u)
  case Leaf
  then show thesis
    using u sh gap(1) by (intro that [of s t]) (simp_all add: btree_reinsert_def only_btree_refl)
next
  case (Node ul y ur)
  from u(1) Node obtain n where n: "child = y" "y \<noteq> NULL" "bnodes s y = Some n"
      "tree_at (bnodes s) y (bn_left n) ul" "tree_at (bnodes s) y (bn_right n) ur"
    by auto
  obtain bt where bt: "b \<noteq> NULL" "btrees s b = Some bt" "bt_nr_nodes bt = c"
    using sh(1) by (rule btree_shapeE) blast
  let ?s = "s\<lparr>btrees := (btrees s)(b \<mapsto> bt\<lparr>bt_nr_nodes := c - 1\<rparr>)\<rparr>"
  have sh': "btree_shape ?s b (c - 1) t" "blocked me b ?s"
    using sh bt by (auto simp: btree_shape_def blocked_def)
  obtain s' where s': "btree_insert_node me b y ?s = Some (0, s')"
      "btree_shape s' b (c - 1 + 1) (graft (bkey (bnodes ?s)) (bn_key n) (Node ul y ur) t)"
      "same_vals (bnodes ?s) (bnodes s')" "only_btree b (insert y (set_tree t)) ?s s'" "bmem s' = bmem ?s"
    by (rule btree_insert_node_ok [OF sh', of y n ul ur as bs])
       (use n u(2) own dis gap Node in simp_all)
  have key: "bkey (bnodes s) child = bn_key n" using n by (simp add: bkey_def)
  have "inorder (graft (bkey (bnodes s)) (bn_key n) u t) = as @ inorder u @ bs"
    using gap(2) [of _ y] gap(3) [of _ y] key n(1) Node by (intro inorder_graft [OF gap(1)]) simp_all
  moreover have upd: "bt_nr_nodes_update (\<lambda>n. n - 1) bt = bt\<lparr>bt_nr_nodes := c - 1\<rparr>"
    using bt(3) by (cases bt) simp
  have "btree_reinsert me b child s = Some s'"
    using n bt s'(1) by (simp add: btree_reinsert_def hupd_mapped upd)
  moreover have "only_btree b (set_tree t \<union> set_tree u) s s'"
    using s'(4) bt(2) Node by (auto simp: only_btree_def)
  ultimately show thesis
    using s' Node key by (intro that [of s' "graft (bkey (bnodes s)) (bn_key n) u t"]) simp_all
qed


lemma key_order_subt:
  assumes "key_order f t" "x \<in> set_tree t"
  obtains as bs where "inorder t = as @ inorder (subt x t) @ bs" "\<And>u. inorder (repl x u t) = as @ inorder u @ bs"
    "key_order f (subt x t)"
    "\<And>y z. y \<in> set as \<Longrightarrow> z \<in> set_tree (subt x t) \<Longrightarrow> f y < f z"
    "\<And>y z. y \<in> set bs \<Longrightarrow> z \<in> set_tree (subt x t) \<Longrightarrow> f z < f y"
proof -
  obtain as bs where ab: "inorder t = as @ inorder (subt x t) @ bs"
      "\<And>u. inorder (repl x u t) = as @ inorder u @ bs"
    using inorder_repl [OF key_order_distinct [OF assms(1)] assms(2)] by blast
  have "sorted_wrt (<) (map f (as @ inorder (subt x t) @ bs))"
    using assms(1) ab(1) by (simp add: key_order_def)
  then show thesis
    using ab by (intro that [of as bs]) (auto simp: sorted_wrt_append key_order_def)
qed

lemma btree_shape_drop:
  assumes "btree_shape s b c t" "p \<notin> set_tree t"
  shows "btree_shape (s\<lparr>bnodes := (bnodes s)(p := v)\<rparr>) b c t"
proof -
  have "key_order (bkey ((bnodes s)(p := v))) t = key_order (bkey (bnodes s)) t"
    using assms(2) by (intro key_order_cong) (auto simp: bkey_def)
  then show ?thesis using assms by (auto simp: btree_shape_def)
qed

lemma btree_shape_count:
  assumes "btree_shape s b c t" "btrees s b = Some bt"
  shows "btree_shape (s\<lparr>btrees := (btrees s)(b \<mapsto> bt_nr_nodes_update (\<lambda>n. n - 1) bt)\<rparr>) b (c - 1) t"
  using assms by (auto simp: btree_shape_def)


text \<open>The two subtrees of a deleted node, put back right before left.\<close>

definition rejoin :: "(ptr \<Rightarrow> u64) \<Rightarrow> ptr tree \<Rightarrow> ptr tree \<Rightarrow> ptr tree \<Rightarrow> ptr tree" where
  "rejoin f l r t = (let t = (if r = Leaf then t else graft f (f (value r)) r t)
                     in if l = Leaf then t else graft f (f (value l)) l t)"

lemma tree_at_value: "tree_at h par p t \<Longrightarrow> t \<noteq> Leaf \<Longrightarrow> value t = p"
  by (cases t) auto

lemma graft_cong: "(\<And>y. y \<in> set_tree t \<Longrightarrow> f y = g y) \<Longrightarrow> graft f k u t = graft g k u t"
  by (induction t) auto

lemma set_graft: "set_tree (graft f k u t) = set_tree t \<union> set_tree u"
  by (induction t) auto

lemma rejoin_cong:
  assumes "\<And>y. y \<in> set_tree t \<union> set_tree l \<union> set_tree r \<Longrightarrow> f y = g y"
  shows "rejoin f l r t = rejoin g l r t"
proof -
  have v: "value u \<in> set_tree u" if "u \<noteq> Leaf" for u :: "ptr tree" using that by (cases u) auto
  have "(if r = Leaf then t else graft f (f (value r)) r t) = (if r = Leaf then t else graft g (g (value r)) r t)"
    using assms v [of r] graft_cong [of t f g] by auto
  then show ?thesis
    unfolding rejoin_def Let_def using assms v [of l] by (auto simp: set_graft intro!: graft_cong)
qed

lemma btree_rejoin_ok:
  assumes sh: "btree_shape s b c t" "blocked me b s"
    and l: "tree_at (bnodes s) q lp l" and r: "tree_at (bnodes s) q rp r"
    and ord: "key_order (bkey (bnodes s)) l" "key_order (bkey (bnodes s)) r"
      "\<And>y z. y \<in> set_tree l \<Longrightarrow> z \<in> set_tree r \<Longrightarrow> bkey (bnodes s) y < bkey (bnodes s) z"
    and own: "\<And>y. y \<in> set_tree l \<union> set_tree r \<Longrightarrow> map_option bn_btree (bnodes s y) = Some b"
    and dis: "set_tree t \<inter> (set_tree l \<union> set_tree r) = {}"
    and gap: "inorder t = as @ bs"
      "\<And>y z. y \<in> set as \<Longrightarrow> z \<in> set_tree l \<union> set_tree r \<Longrightarrow> bkey (bnodes s) y < bkey (bnodes s) z"
      "\<And>y z. y \<in> set bs \<Longrightarrow> z \<in> set_tree l \<union> set_tree r \<Longrightarrow> bkey (bnodes s) z < bkey (bnodes s) y"
  obtains s' where "do { s \<leftarrow> btree_reinsert me b rp s; btree_reinsert me b lp s } = Some s'"
    "btree_shape s' b c (rejoin (bkey (bnodes s)) l r t)"
    "inorder (rejoin (bkey (bnodes s)) l r t) = as @ inorder l @ inorder r @ bs"
    "same_vals (bnodes s) (bnodes s')" "only_btree b (set_tree t \<union> set_tree l \<union> set_tree r) s s'"
    "bmem s' = bmem s"
proof -
  let ?f = "bkey (bnodes s)"
  obtain s1 t1 where 1: "btree_reinsert me b rp s = Some s1" "btree_shape s1 b c t1"
      "t1 = (if r = Leaf then t else graft ?f (?f rp) r t)" "inorder t1 = as @ inorder r @ bs"
      "same_vals (bnodes s) (bnodes s1)" "only_btree b (set_tree t \<union> set_tree r) s s1" "bmem s1 = bmem s"
    by (rule btree_reinsert_ok [OF sh r, of as bs]) (use ord own dis gap in auto)
  have f1: "bkey (bnodes s1) = ?f" using same_vals_key(1) [OF 1(5)] .
  have lr: "set_tree l \<inter> set_tree r = {}" using ord(3) by fastforce
  have mapped: "\<exists>n. bnodes s y = Some n" if "y \<in> set_tree l" for y
    using tree_at_mapped [OF l that] by blast
  have same: "bnodes s1 y = bnodes s y" if y: "y \<in> set_tree l" for y
    using 1(6) mapped [OF y] y lr dis unfolding only_btree_def by (metis Un_iff disjoint_iff)
  have l1: "tree_at (bnodes s1) q lp l" using l same tree_at_cong by metis
  have set1: "set_tree t1 = set_tree t \<union> set_tree r"
    unfolding set_inorder [symmetric] 1(4) gap(1) by auto
  obtain s2 t2 where 2: "btree_reinsert me b lp s1 = Some s2" "btree_shape s2 b c t2"
      "t2 = (if l = Leaf then t1 else graft (bkey (bnodes s1)) (bkey (bnodes s1) lp) l t1)"
      "inorder t2 = as @ inorder l @ inorder r @ bs"
      "same_vals (bnodes s1) (bnodes s2)" "only_btree b (set_tree t1 \<union> set_tree l) s1 s2" "bmem s2 = bmem s1"
    by (rule btree_reinsert_ok [OF 1(2) blocked_frame [OF 1(6) sh(2)] l1, of as "inorder r @ bs"])
       (use ord own dis gap lr f1 same set1 1(4) in auto)
  note roots = tree_at_value [OF l] tree_at_value [OF r]
  have t2: "t2 = rejoin ?f l r t"
    using 1(3) 2(3) roots f1 by (auto simp: rejoin_def Let_def)
  have "only_btree b (set_tree t \<union> set_tree l \<union> set_tree r) s s1"
    by (rule only_btree_mono [OF 1(6)]) auto
  moreover have "only_btree b (set_tree t \<union> set_tree l \<union> set_tree r) s1 s2"
    by (rule only_btree_mono [OF 2(6)]) (auto simp: set1)
  ultimately have "only_btree b (set_tree t \<union> set_tree l \<union> set_tree r) s s2"
    by (rule only_btree_trans)
  with 1 2 t2 show thesis
    by (intro that [of s2]) (auto intro: same_vals_trans)
qed

lemma btree_delete_node_ok:
  assumes ok: "btree_ok s b t" "blocked me b s" and x: "x \<in> set_tree t"
  obtains s' l r where "btree_delete_node me b x s = Some s'" "subt x t = Node l x r"
    "btree_ok s' b (rejoin (bkey (bnodes s)) l r (repl x Leaf t))"
    "inorder (rejoin (bkey (bnodes s)) l r (repl x Leaf t)) = remove1 x (inorder t)"
    "\<forall>y. y \<noteq> x \<longrightarrow> map_option (\<lambda>n. (bn_key n, bn_data n)) (bnodes s' y) = map_option (\<lambda>n. (bn_key n, bn_data n)) (bnodes s y)"
    "bnodes s' x = None" "only_btree b (set_tree t) s s'" "bmem s' = bmem s"
proof -
  let ?h = "bnodes s"
  obtain bt where bt: "b \<noteq> NULL" "btrees s b = Some bt" "tree_at ?h NULL (bt_root bt) t"
      "bt_nr_nodes bt = of_nat (size t)" "key_order (bkey ?h) t"
      "\<forall>x\<in>set_tree t. map_option bn_btree (?h x) = Some b"
    using ok(1) unfolding btree_ok_def by (rule btree_shapeE)
  obtain l r n where sub: "subt x t = Node l x r" "?h x = Some n" "x \<noteq> NULL"
      "tree_at ?h x (bn_left n) l" "tree_at ?h x (bn_right n) r"
    by (rule tree_at_subt [OF bt(3) x])
  obtain as bs where ab: "inorder t = as @ inorder (subt x t) @ bs" "\<And>u. inorder (repl x u t) = as @ inorder u @ bs"
      "key_order (bkey ?h) (subt x t)"
      "\<And>y z. y \<in> set as \<Longrightarrow> z \<in> set_tree (subt x t) \<Longrightarrow> bkey ?h y < bkey ?h z"
      "\<And>y z. y \<in> set bs \<Longrightarrow> z \<in> set_tree (subt x t) \<Longrightarrow> bkey ?h z < bkey ?h y"
    using key_order_subt [OF bt(5) x] by blast
  have dist: "distinct (inorder t)" using bt(5) by (rule key_order_distinct)
  note cutset = set_repl_Leaf [OF dist x]
  let ?t = "repl x Leaf t"
  obtain s1 where s1: "btree_cut_node b x (bn_parent n) s = Some s1" "btree_shape s1 b (of_nat (size t)) ?t"
      "same_vals ?h (bnodes s1)" "only_btree b (set_tree t - set_tree (subt x t)) s s1" "bmem s1 = bmem s"
    using btree_cut_node_ok [OF ok(1) [unfolded btree_ok_def] x sub(2)] .
  have same: "bnodes s1 y = ?h y" if "y \<in> set_tree (subt x t)" for y
    using s1(4) that bt(6) cutset(2) unfolding only_btree_def by (metis DiffE Un_iff map_option_eq_Some)
  obtain bt1 where bt1: "btrees s1 b = Some bt1" using s1(2) by (auto simp: btree_shape_def)
  let ?h2 = "(bnodes s1)(x := None)"
  let ?s2 = "s1\<lparr>bnodes := ?h2, btrees := (btrees s1)(b \<mapsto> bt_nr_nodes_update (\<lambda>n. n - 1) bt1)\<rparr>"
  have xt: "x \<notin> set_tree ?t" "x \<notin> set_tree l" "x \<notin> set_tree r"
    using cutset(1) sub(1) ab(3) by (auto dest: key_order_distinct)
  have sh2: "btree_shape ?s2 b (of_nat (size t) - 1) ?t"
    using btree_shape_count [OF btree_shape_drop [OF s1(2) xt(1), of None], of bt1] bt1 by simp
  have lk2: "blocked me b ?s2"
    using blocked_frame [OF s1(4) ok(2)] bt1 by (auto simp: blocked_def)
  have key2: "bkey ?h2 y = bkey ?h y" if "y \<noteq> x" for y
    using that fun_cong [OF same_vals_key(1) [OF s1(3)], of y] by (simp add: bkey_def)
  have l2: "tree_at ?h2 x (bn_left n) l" "tree_at ?h2 x (bn_right n) r"
    using sub(1,4,5) same xt tree_at_cong [of l "bnodes s1" ?h] tree_at_cong [of r "bnodes s1" ?h] by auto
  have keyl: "bkey ?h2 y = bkey ?h y" if "y \<in> set_tree l" for y using that key2 xt(2) by metis
  have keyr: "bkey ?h2 y = bkey ?h y" if "y \<in> set_tree r" for y using that key2 xt(3) by metis
  have ord2: "key_order (bkey ?h2) l" "key_order (bkey ?h2) r"
      "\<And>y z. y \<in> set_tree l \<Longrightarrow> z \<in> set_tree r \<Longrightarrow> bkey ?h2 y < bkey ?h2 z"
    using ab(3) keyl keyr key_order_cong [OF keyl, of l] key_order_cong [OF keyr, of r]
    unfolding sub(1) by simp_all
  have own2: "map_option bn_btree (?h2 y) = Some b" if "y \<in> set_tree l \<union> set_tree r" for y
    using that xt same [of y] bt(6) cutset(2) sub(1) by (auto simp del: map_option_eq_Some)
  have dis2: "set_tree ?t \<inter> (set_tree l \<union> set_tree r) = {}" using cutset(1) sub(1) by auto
  have abx: "y \<noteq> x" if "y \<in> set as \<or> y \<in> set bs" for y
    using that dist ab(1) sub(1) by auto
  have gap2: "bkey ?h2 y < bkey ?h2 z" if "y \<in> set as" "z \<in> set_tree l \<union> set_tree r" for y z
  proof -
    have "y \<noteq> x" "z \<noteq> x" using that abx [of y] xt by auto
    then show ?thesis using that ab(4) [of y z] sub(1) by (simp add: key2)
  qed
  have gap3: "bkey ?h2 z < bkey ?h2 y" if "y \<in> set bs" "z \<in> set_tree l \<union> set_tree r" for y z
  proof -
    have "y \<noteq> x" "z \<noteq> x" using that abx [of y] xt by auto
    then show ?thesis using that ab(5) [of y z] sub(1) by (simp add: key2)
  qed
  have inl: "inorder ?t = as @ bs" using ab(2) [of Leaf] by simp
  have h2: "bnodes ?s2 = ?h2" by simp
  obtain s3 where s3: "do { s \<leftarrow> btree_reinsert me b (bn_right n) ?s2; btree_reinsert me b (bn_left n) s } = Some s3"
      "btree_shape s3 b (of_nat (size t) - 1) (rejoin (bkey (bnodes ?s2)) l r ?t)"
      "inorder (rejoin (bkey (bnodes ?s2)) l r ?t) = as @ inorder l @ inorder r @ bs"
      "same_vals (bnodes ?s2) (bnodes s3)" "only_btree b (set_tree ?t \<union> set_tree l \<union> set_tree r) ?s2 s3"
      "bmem s3 = bmem ?s2"
    by (rule btree_rejoin_ok [OF sh2 lk2, unfolded h2, OF l2 ord2 own2 dis2 inl gap2 gap3])
       (simp_all only: h2)
  have rj: "rejoin (bkey (bnodes ?s2)) l r ?t = rejoin (bkey ?h) l r ?t"
    unfolding h2 by (rule rejoin_cong, rule key2) (use xt in auto)
  have "inorder t = as @ inorder l @ x # inorder r @ bs" using ab(1) sub(1) by simp
  then have rm: "as @ inorder l @ inorder r @ bs = remove1 x (inorder t)"
    using dist by (simp add: remove1_append)
  have "length (inorder (rejoin (bkey ?h) l r ?t)) = length (inorder t) - 1"
    using s3(3) rj rm x by (simp add: length_remove1)
  then have "size (rejoin (bkey ?h) l r ?t) = size t - 1" by simp
  moreover have "(of_nat (size t - 1) :: u64) = of_nat (size t) - 1"
    using x by (cases t) auto
  ultimately have "btree_ok s3 b (rejoin (bkey ?h) l r ?t)"
    using s3(2) rj by (simp add: btree_ok_def)
  moreover have "btree_delete_node me b x s = Some s3"
    using bt(1) ok(2) sub(2,3) s1(1) s3(1) bt1 same [of x] sub(1)
    by (simp add: btree_delete_node_def hget_nonNULL btree_free_node_def kfree_def hupd_mapped)
  moreover have vals: "map_option (\<lambda>n. (bn_key n, bn_data n)) (bnodes s3 y) =
      (if y = x then None else map_option (\<lambda>n. (bn_key n, bn_data n)) (?h y))" for y
    using s3(4) s1(3) by (simp add: same_vals_def)
  moreover have "bnodes s3 x = None" using vals [of x] by simp
  moreover have "only_btree b (set_tree t) s s3"
  proof -
    have "only_btree b (set_tree t) s s1" by (rule only_btree_mono [OF s1(4)]) auto
    moreover have "only_btree b (set_tree t) s1 ?s2" using bt1 x by (auto simp: only_btree_def)
    moreover have "only_btree b (set_tree t) ?s2 s3"
      by (rule only_btree_mono [OF s3(5)]) (use cutset(2) sub(1) in auto)
    ultimately show ?thesis by (blast intro: only_btree_trans)
  qed
  ultimately show thesis
    using s3(3,6) rj rm sub(1) s1(5) by (intro that [of s3 l r]) simp_all
qed

lemma map_of_remove1:
  assumes "distinct (map f xs)" "x \<in> set xs"
  shows "map_of (map (\<lambda>y. (f y, g y)) (remove1 x xs)) = (map_of (map (\<lambda>y. (f y, g y)) xs))(f x := None)"
  using assms
proof (induction xs)
  case Nil
  then show ?case by simp
next
  case (Cons y ys)
  show ?case
  proof (cases "x = y")
    case True
    with Cons.prems(1) have "map_of (map (\<lambda>y. (f y, g y)) ys) (f x) = None"
      by (force simp: map_of_eq_None_iff)
    with True show ?thesis by (auto simp: fun_eq_iff)
  next
    case False
    with Cons.prems have "f x \<noteq> f y" by (auto simp: image_iff)
    with Cons False show ?thesis by (auto simp: fun_eq_iff)
  qed
qed

lemma btree_delete_ok:
  assumes "btree_ok s b t" "blocked me b s"
  obtains s' t' where "btree_delete me b k s = Some s'" "btree_ok s' b t'"
    "bmap (bnodes s') t' = (bmap (bnodes s) t)(k := None)" "only_btree b (set_tree t) s s'" "bmem s' = bmem s"
proof (cases "k \<in> bkey (bnodes s) ` set_tree t")
  case False
  have "btree_lookup me b k s = Some NULL"
    using btree_lookup_ok(2) [OF assms(1) [unfolded btree_ok_def] assms(2) False] .
  then have "btree_delete me b k s = Some s"
    using assms(2) by (simp add: btree_delete_def btree_delete_node_def)
  moreover have "bmap (bnodes s) t = (bmap (bnodes s) t)(k := None)"
    using False by (simp add: bmap_notin fun_upd_idem)
  ultimately show thesis using assms(1) by (intro that [of s t]) (simp_all add: only_btree_refl)
next
  case True
  let ?h = "bnodes s"
  from True obtain x where x: "x \<in> set_tree t" "k = bkey ?h x" by blast
  obtain s' l r where s': "btree_delete_node me b x s = Some s'" "subt x t = Node l x r"
      "btree_ok s' b (rejoin (bkey ?h) l r (repl x Leaf t))"
      "inorder (rejoin (bkey ?h) l r (repl x Leaf t)) = remove1 x (inorder t)"
      "\<forall>y. y \<noteq> x \<longrightarrow> map_option (\<lambda>n. (bn_key n, bn_data n)) (bnodes s' y) = map_option (\<lambda>n. (bn_key n, bn_data n)) (?h y)"
      "bnodes s' x = None" "only_btree b (set_tree t) s s'" "bmem s' = bmem s"
    using btree_delete_node_ok [OF assms x(1)] .
  have ord: "key_order (bkey ?h) t" using assms(1) by (simp add: btree_ok_def btree_shape_def)
  then have dist: "distinct (inorder t)" "distinct (map (bkey ?h) (inorder t))"
    by (auto simp: key_order_distinct key_order_def strict_sorted_iff)
  have vals: "(bkey (bnodes s') y, bdata (bnodes s') y) = (bkey ?h y, bdata ?h y)" if "y \<noteq> x" for y
    using s'(5) that by (cases "bnodes s' y"; cases "?h y") (auto simp: bkey_def bdata_def)
  have "bitems (bnodes s') (rejoin (bkey ?h) l r (repl x Leaf t)) =
      map (\<lambda>y. (bkey ?h y, bdata ?h y)) (remove1 x (inorder t))"
    unfolding bitems_def s'(4) using dist(1) vals by (intro map_cong) auto
  then have "bmap (bnodes s') (rejoin (bkey ?h) l r (repl x Leaf t)) = (bmap ?h t)(k := None)"
    using map_of_remove1 [OF dist(2), of x "bdata ?h"] x by (simp add: bmap_def bitems_def)
  moreover have "btree_delete me b k s = Some s'"
    using btree_lookup_ok(1) [OF assms(1) [unfolded btree_ok_def] assms(2) x(1)] x(2) s'(1) assms(2)
    by (simp add: btree_delete_def)
  ultimately show thesis
    using s'(3,7,8) by (intro that [of s' "rejoin (bkey ?h) l r (repl x Leaf t)"])
qed

section \<open>The tree as a finite map\<close>

definition btree_rep :: "ctx \<Rightarrow> ptr \<Rightarrow> bstate \<Rightarrow> (u64 \<rightharpoonup> ptr) \<Rightarrow> bool" where
  "btree_rep me b s m \<longleftrightarrow> blocked me b s \<and> (\<exists>t. btree_ok s b t \<and> bmap (bnodes s) t = m)"

definition btree_get :: "ctx \<Rightarrow> ptr \<Rightarrow> u64 \<Rightarrow> bstate \<Rightarrow> ptr option option" where
  "btree_get me b k s = do { (err, v) \<leftarrow> btree_search me b k s; Some (if err = 0 then v else None) }"

definition btree_put :: "ctx \<Rightarrow> ptr \<Rightarrow> u64 \<Rightarrow> ptr \<Rightarrow> bstate \<Rightarrow> (bool \<times> bstate) option" where
  "btree_put me b k v s = do { (err, s) \<leftarrow> btree_insert me b k v s; Some (err = 0, s) }"

lemma bmem_cases:
  obtains (nomem) ps where "kmalloc (b_used s) (bmem s) = (NULL, ps)"
  | (mem) p ps where "kmalloc (b_used s) (bmem s) = (p, ps)" "p \<noteq> NULL"
  by (cases "kmalloc (b_used s) (bmem s)") auto

lemma btree_rep_bmem [simp]: "btree_rep me b (s\<lparr>bmem := ps\<rparr>) m = btree_rep me b s m"
  by (simp add: btree_rep_def btree_ok_def)

text \<open>\<open>btree_insert\<close> on every branch.\<close>

lemma btree_insert_cases:
  assumes "btree_rep me b s m"
  shows "\<exists>e s'. btree_insert me b k v s = Some (e, s') \<and>
    (case kmalloc (b_used s) (bmem s) of (p, ps) \<Rightarrow>
       if p = NULL then e = - ENOMEM \<and> s' = s\<lparr>bmem := ps\<rparr>
       else if m k \<noteq> None then e = - EEXIST \<and> s' = s\<lparr>bmem := ps\<rparr>
       else e = 0 \<and> btree_rep me b s' (m(k \<mapsto> v)) \<and> bmem s' = ps)"
proof -
  from assms obtain t where t: "blocked me b s" "btree_ok s b t" "bmap (bnodes s) t = m"
    by (auto simp: btree_rep_def)
  show ?thesis
  proof (cases s rule: bmem_cases)
    case (nomem ps)
    with btree_insert_nomem [OF t(1)] show ?thesis by simp
  next
    case (mem p ps)
    show ?thesis
    proof (cases "m k")
      case None
      obtain s' t' where "btree_insert me b k v s = Some (0, s')" "btree_ok s' b t'"
          "bmap (bnodes s') t' = (bmap (bnodes s) t)(k \<mapsto> v)" "only_btree b (set_tree t) s s'" "bmem s' = ps"
        by (rule btree_insert_new [OF t(2,1) _ mem]) (use None t(3) in auto)
      with None mem t blocked_frame show ?thesis by (auto simp: btree_rep_def)
    next
      case (Some w)
      with btree_insert_dup [OF t(2,1) _ mem] t(3) mem show ?thesis by auto
    qed
  qed
qed

interpretation btree_map: key_map "btree_rep me b" "btree_get me b" "btree_put me b" "btree_delete me b" for me b
proof
  fix s m k
  assume "btree_rep me b s m"
  then show "btree_get me b k s = Some (m k)"
    by (auto simp: btree_rep_def btree_get_def btree_ok_def btree_search_ok errno_defs split: option.splits)
next
  fix s m k v
  assume rep: "btree_rep me b s m"
  obtain e s' where "btree_insert me b k v s = Some (e, s')"
      "case kmalloc (b_used s) (bmem s) of (p, ps) \<Rightarrow>
         if p = NULL then e = - ENOMEM \<and> s' = s\<lparr>bmem := ps\<rparr>
         else if m k \<noteq> None then e = - EEXIST \<and> s' = s\<lparr>bmem := ps\<rparr>
         else e = 0 \<and> btree_rep me b s' (m(k \<mapsto> v)) \<and> bmem s' = ps"
    using btree_insert_cases [OF rep, of k v] by (elim exE conjE)
  then show "\<exists>st s'. btree_put me b k v s = Some (st, s') \<and> btree_rep me b s' (if st then m(k \<mapsto> v) else m) \<and>
      (st \<longrightarrow> m k = None)"
    using rep by (intro exI [of _ "e = 0"] exI [of _ s'])
      (auto simp: btree_put_def errno_defs split: prod.splits if_splits)
next
  fix s m k
  assume "btree_rep me b s m"
  then obtain t where t: "blocked me b s" "btree_ok s b t" "bmap (bnodes s) t = m"
    by (auto simp: btree_rep_def)
  obtain s' t' where "btree_delete me b k s = Some s'" "btree_ok s' b t'"
      "bmap (bnodes s') t' = m(k := None)" "only_btree b (set_tree t) s s'"
    using btree_delete_ok [OF t(2,1)] t(3) by blast
  then show "\<exists>s'. btree_delete me b k s = Some s' \<and> btree_rep me b s' (m(k := None))"
    using blocked_frame t(1) by (auto simp: btree_rep_def)
qed

section \<open>Flushing\<close>

lemma set_subt: "set_tree (subt x t) \<subseteq> set_tree t"
  by (induction t) auto

lemma subt_subt:
  assumes "distinct (inorder t)" "x \<in> set_tree t" "y \<in> set_tree (subt x t)"
  shows "subt y t = subt y (subt x t)"
  using assms
proof (induction t)
  case (Node l z r)
  consider "x = z" | "x \<in> set_tree l" "x \<noteq> z" | "x \<in> set_tree r" "x \<notin> set_tree l" "x \<noteq> z"
    using Node.prems(1,2) by auto
  then show ?case
  proof cases
    case 2
    then have "y \<in> set_tree l" using Node.prems(3) set_subt [of x l] by auto
    with 2 Node show ?thesis by auto
  next
    case 3
    then have "y \<in> set_tree r" using Node.prems(3) set_subt [of x r] by auto
    with 3 Node show ?thesis by auto
  qed simp
qed simp

lemma subt_root: "t \<noteq> Leaf \<Longrightarrow> subt (value t) t = t"
  by (cases t) auto

text \<open>Cutting below \<open>x\<close> and then at \<open>x\<close> is cutting at \<open>x\<close>.\<close>

lemma repl_below:
  assumes "distinct (inorder t)" "x \<in> set_tree t" "y \<in> set_tree (subt x t)" "y \<noteq> x"
  shows "x \<in> set_tree (repl y Leaf t)" "subt x (repl y Leaf t) = repl y Leaf (subt x t)"
    "repl x u (repl y Leaf t) = repl x u t"
proof -
  have "x \<in> set_tree (repl y Leaf t) \<and> subt x (repl y Leaf t) = repl y Leaf (subt x t) \<and>
      repl x u (repl y Leaf t) = repl x u t"
    using assms
  proof (induction t)
    case (Node l z r)
    consider "x = z" | "x \<in> set_tree l" "x \<noteq> z" "x \<notin> set_tree r" | "x \<in> set_tree r" "x \<notin> set_tree l" "x \<noteq> z"
      using Node.prems(1,2) by auto
    then show ?case
    proof cases
      case 2
      then have y: "y \<in> set_tree l" using Node.prems(3) set_subt [of x l] by auto
      then have "y \<noteq> z" "y \<notin> set_tree r" using Node.prems(1) by auto
      with 2 y Node show ?thesis by auto
    next
      case 3
      then have y: "y \<in> set_tree r" using Node.prems(3) set_subt [of x r] by auto
      then have "y \<noteq> z" "y \<notin> set_tree l" using Node.prems(1) by auto
      with 3 y Node show ?thesis by auto
    qed (use Node.prems in auto)
  qed simp
  then show "x \<in> set_tree (repl y Leaf t)" "subt x (repl y Leaf t) = repl y Leaf (subt x t)"
    "repl x u (repl y Leaf t) = repl x u t" by auto
qed

lemma repl_at_root:
  assumes "distinct (inorder (repl x r t))" "x \<in> set_tree t" "distinct (inorder t)" "r \<noteq> Leaf"
  shows "value r \<in> set_tree (repl x r t)" "subt (value r) (repl x r t) = r"
    "repl (value r) Leaf (repl x r t) = repl x Leaf t"
proof -
  have v: "value r \<in> set_tree r" using assms(4) by (cases r) auto
  have "value r \<in> set_tree (repl x r t) \<and> subt (value r) (repl x r t) = r \<and>
      repl (value r) Leaf (repl x r t) = repl x Leaf t"
    using assms
  proof (induction t)
    case (Node a z c)
    consider "x = z" | "x \<in> set_tree a" "x \<noteq> z" "x \<notin> set_tree c" | "x \<in> set_tree c" "x \<notin> set_tree a" "x \<noteq> z"
      using Node.prems(2,3) by auto
    then show ?case
    proof cases
      case 1
      then show ?thesis using v assms(4) subt_root by (cases r) auto
    next
      case 2
      then have IH: "value r \<in> set_tree (repl x r a)" "subt (value r) (repl x r a) = r"
          "repl (value r) Leaf (repl x r a) = repl x Leaf a"
        using Node.IH(1) Node.prems by auto
      have "value r \<noteq> z" "value r \<notin> set_tree c" using IH(1) Node.prems(1) 2 by auto
      with 2 IH show ?thesis by auto
    next
      case 3
      then have IH: "value r \<in> set_tree (repl x r c)" "subt (value r) (repl x r c) = r"
          "repl (value r) Leaf (repl x r c) = repl x Leaf c"
        using Node.IH(2) Node.prems by auto
      have "value r \<noteq> z" "value r \<notin> set_tree a" using IH(1) Node.prems(1) 3 by auto
      with 3 IH show ?thesis by auto
    qed
  qed simp
  then show "value r \<in> set_tree (repl x r t)" "subt (value r) (repl x r t) = r"
    "repl (value r) Leaf (repl x r t) = repl x Leaf t" by auto
qed

lemma set_repl: "set_tree (repl x u t) \<subseteq> set_tree t \<union> set_tree u"
  by (induction t) auto

lemma graft_repl:
  assumes "key_order f t" "x \<in> set_tree t"
    "\<And>y. y \<in> set_tree t \<Longrightarrow> y \<notin> set_tree (subt x t) \<Longrightarrow> k < f y \<longleftrightarrow> f x < f y"
  shows "graft f k u (repl x Leaf t) = repl x u t"
  using assms
proof (induction t)
  case (Node l z r)
  have d: "distinct (inorder (Node l z r))" using Node.prems(1) by (rule key_order_distinct)
  consider "x = z" | "x \<in> set_tree l" "x \<noteq> z" "x \<notin> set_tree r" | "x \<in> set_tree r" "x \<notin> set_tree l" "x \<noteq> z"
    using d Node.prems(2) by auto
  then show ?case
  proof cases
    case 2
    then have "z \<notin> set_tree (subt x l)" using set_subt [of x l] d by auto
    then have "k < f z" using Node.prems(1) Node.prems(3) [of z] 2 by auto
    then show ?thesis using Node.IH(1) Node.prems 2 by auto
  next
    case 3
    then have "z \<notin> set_tree (subt x r)" using set_subt [of x r] d by auto
    moreover have "\<not> f x < f z" using Node.prems(1) 3 by (auto simp: not_less_iff_gr_or_eq)
    ultimately have "\<not> k < f z" using Node.prems(3) [of z] 3 by auto
    then show ?thesis using Node.IH(2) Node.prems 3 by auto
  qed simp
qed simp


lemma graft_subt:
  assumes "key_order f t" "x \<in> set_tree t" "r \<noteq> Leaf" "set_tree r \<subseteq> set_tree (subt x t)"
  shows "graft f (f (value r)) r (repl x Leaf t) = repl x r t"
proof (rule graft_repl [OF assms(1,2)])
  fix y
  assume y: "y \<in> set_tree t" "y \<notin> set_tree (subt x t)"
  obtain as bs where ab: "inorder t = as @ inorder (subt x t) @ bs"
      "\<And>y z. y \<in> set as \<Longrightarrow> z \<in> set_tree (subt x t) \<Longrightarrow> f y < f z"
      "\<And>y z. y \<in> set bs \<Longrightarrow> z \<in> set_tree (subt x t) \<Longrightarrow> f z < f y"
    using key_order_subt [OF assms(1,2)] by metis
  have "y \<in> set as \<or> y \<in> set bs"
    using y unfolding set_inorder [symmetric, of t] ab(1) by auto
  moreover have "value r \<in> set_tree (subt x t)" using assms(3,4) by (cases r) auto
  moreover have "x \<in> set_tree (subt x t)" using assms(2) by (induction t) auto
  ultimately show "f (value r) < f y \<longleftrightarrow> f x < f y"
    using ab(2,3) by (meson order_less_asym)
qed

lemma flush_NULL [simp]: "btree_flush_node me NULL s = Some s"
  by (simp add: btree_flush_node.simps)

definition node_vals :: "bstate \<Rightarrow> ptr \<Rightarrow> (u64 \<times> ptr) option" where
  "node_vals s y = map_option (\<lambda>n. (bn_key n, bn_data n)) (bnodes s y)"

text \<open>Flushing the subtree at \<open>x\<close> frees its nodes, keeps the values of all others, and leaves the
  tree without the subtree.\<close>

lemma btree_flush_node_ok:
  assumes "btree_ok s b t" "blocked me b s" "u \<noteq> Leaf" "value u \<in> set_tree t" "subt (value u) t = u"
  shows "\<exists>s'. btree_flush_node me (value u) s = Some s' \<and> btree_ok s' b (repl (value u) Leaf t) \<and>
    only_btree b (set_tree t) s s' \<and> (\<forall>y. node_vals s' y = (if y \<in> set_tree u then None else node_vals s y))"
  using assms
proof (induction u arbitrary: s t)
  case Leaf
  then show ?case by simp
next
  case (Node l x r)
  have okT: "btree_ok s b t" and lk: "blocked me b s" and xt: "x \<in> set_tree t" and sub: "subt x t = Node l x r"
    using Node.prems by auto
  obtain bt where bt: "b \<noteq> NULL" "btrees s b = Some bt" "tree_at (bnodes s) NULL (bt_root bt) t"
      "bt_nr_nodes bt = of_nat (size t)" "key_order (bkey (bnodes s)) t"
      "\<forall>x\<in>set_tree t. map_option bn_btree (bnodes s x) = Some b"
    using okT unfolding btree_ok_def by (rule btree_shapeE)
  have d: "distinct (inorder t)" using bt(5) by (rule key_order_distinct)
  obtain l' r' n where n': "subt x t = Node l' x r'" "bnodes s x = Some n" "x \<noteq> NULL"
      "tree_at (bnodes s) x (bn_left n) l'" "tree_at (bnodes s) x (bn_right n) r'"
    by (rule tree_at_subt [OF bt(3) xt])
  have n: "bnodes s x = Some n" "x \<noteq> NULL" "tree_at (bnodes s) x (bn_left n) l" "bn_btree n = b"
    using n' sub bspec [OF bt(6) xt] by simp_all
  obtain as bs where "inorder t = as @ inorder (subt x t) @ bs" using inorder_repl [OF d xt] by blast
  with d sub have du: "distinct (inorder (Node l x r))" by auto
  text \<open>the left subtree\<close>
  obtain s1 t1 where s1: "btree_flush_node me (bn_left n) s = Some s1" "btree_ok s1 b t1"
      "only_btree b (set_tree t) s s1" "\<forall>y. node_vals s1 y = (if y \<in> set_tree l then None else node_vals s y)"
      "x \<in> set_tree t1" "subt x t1 = Node Leaf x r" "\<And>v. repl x v t1 = repl x v t" "set_tree t1 \<subseteq> set_tree t"
  proof (cases "l = Leaf")
    case True
    then show thesis using n(3) okT sub xt by (intro that [of s t]) (simp_all add: only_btree_refl)
  next
    case False
    have y: "value l = bn_left n" "value l \<in> set_tree (subt x t)" "value l \<noteq> x"
      using tree_at_value [OF n(3) False] sub False du by (cases l; auto)+
    have "subt (value l) t = l"
      using subt_subt [OF d xt y(2)] sub y(3) False subt_root [OF False] by (cases l) auto
    moreover have "value l \<in> set_tree t" using y(2) set_subt by blast
    ultimately obtain s1 where s1: "btree_flush_node me (value l) s = Some s1" "btree_ok s1 b (repl (value l) Leaf t)"
        "only_btree b (set_tree t) s s1" "\<forall>y. node_vals s1 y = (if y \<in> set_tree l then None else node_vals s y)"
      using Node.IH(1) [OF okT lk False] by blast
    have "repl (value l) Leaf (Node l x r) = Node Leaf x r"
      using False du y(3) by (cases l) auto
    with s1 y repl_below [OF d xt y(2,3)] sub set_repl_Leaf(2) [OF d, of "value l"] \<open>value l \<in> set_tree t\<close>
    show thesis by (intro that [of s1 "repl (value l) Leaf t"]) auto
  qed
  have lk1: "blocked me b s1" using blocked_frame [OF s1(3) lk] .
  obtain bt1 where bt1: "b \<noteq> NULL" "btrees s1 b = Some bt1" "tree_at (bnodes s1) NULL (bt_root bt1) t1"
      "bt_nr_nodes bt1 = of_nat (size t1)" "key_order (bkey (bnodes s1)) t1" "\<forall>x\<in>set_tree t1. map_option bn_btree (bnodes s1 x) = Some b"
    using s1(2) unfolding btree_ok_def by (rule btree_shapeE)
  have d1: "distinct (inorder t1)" using bt1(5) by (rule key_order_distinct)
  obtain l2 r2 n1 where n1: "subt x t1 = Node l2 x r2" "bnodes s1 x = Some n1" "x \<noteq> NULL"
      "tree_at (bnodes s1) x (bn_left n1) l2" "tree_at (bnodes s1) x (bn_right n1) r2"
    by (rule tree_at_subt [OF bt1(3) s1(5)])
  have r: "tree_at (bnodes s1) x (bn_right n1) r" "bn_btree n1 = b"
    using n1 s1(6) bspec [OF bt1(6) s1(5)] by simp_all
  text \<open>the node itself\<close>
  obtain s2 l3 r3 where s2: "btree_delete_node me b x s1 = Some s2" "subt x t1 = Node l3 x r3"
      "btree_ok s2 b (rejoin (bkey (bnodes s1)) l3 r3 (repl x Leaf t1))"
      "inorder (rejoin (bkey (bnodes s1)) l3 r3 (repl x Leaf t1)) = remove1 x (inorder t1)"
      "\<forall>y. y \<noteq> x \<longrightarrow> map_option (\<lambda>n. (bn_key n, bn_data n)) (bnodes s2 y) = map_option (\<lambda>n. (bn_key n, bn_data n)) (bnodes s1 y)"
      "bnodes s2 x = None" "only_btree b (set_tree t1) s1 s2" "bmem s2 = bmem s1"
    using btree_delete_node_ok [OF s1(2) lk1 s1(5)] .
  let ?t2 = "if r = Leaf then repl x Leaf t1 else repl x r t1"
  have "rejoin (bkey (bnodes s1)) l3 r3 (repl x Leaf t1) = ?t2"
    using s2(2) s1(6) graft_subt [OF bt1(5) s1(5), of r] by (auto simp: rejoin_def)
  with s2(3) have ok2: "btree_ok s2 b ?t2" by simp
  have lk2: "blocked me b s2" using blocked_frame [OF s2(7) lk1] .
  have vals2: "node_vals s2 y = (if y = x then None else node_vals s1 y)" for y
    using s2(5,6) by (simp add: node_vals_def)
  have run: "btree_flush_node me x s = btree_flush_node me (bn_right n1) s2"
    using n s1(1) n1(2) r(2) s2(1) lk by (simp add: btree_flush_node.simps [of me x] hget_nonNULL)
  have frame2: "only_btree b (set_tree t) s s2"
    using only_btree_trans [OF s1(3) only_btree_mono [OF s2(7) s1(8)]] .
  text \<open>the right subtree\<close>
  show ?case
  proof (cases "r = Leaf")
    case True
    then have "bn_right n1 = NULL" using r(1) by simp
    with run ok2 True frame2 s1(4,7) vals2 show ?thesis by auto
  next
    case False
    have z: "value r = bn_right n1" using tree_at_value [OF r(1) False] .
    have ok2': "btree_ok s2 b (repl x r t1)" using ok2 False by simp
    then have d2: "distinct (inorder (repl x r t1))"
      by (auto simp: btree_ok_def btree_shape_def key_order_distinct)
    note root = repl_at_root [OF d2 s1(5) d1 False]
    obtain s3 where s3: "btree_flush_node me (value r) s2 = Some s3" "btree_ok s3 b (repl (value r) Leaf (repl x r t1))"
        "only_btree b (set_tree (repl x r t1)) s2 s3" "\<forall>y. node_vals s3 y = (if y \<in> set_tree r then None else node_vals s2 y)"
      using Node.IH(2) [OF ok2' lk2 False root(1,2)] by blast
    have "set_tree (repl x r t1) \<subseteq> set_tree t"
      using set_repl [of x r t1] set_subt [of x t1] s1(6,8) by auto
    then have "only_btree b (set_tree t) s s3"
      using only_btree_trans [OF frame2 only_btree_mono [OF s3(3)]] by simp
    with s3 run z root(3) s1(4,7) vals2 show ?thesis by auto
  qed
qed


lemma btree_flush_ok:
  assumes "btree_ok s b t" "blocked me b s"
  obtains s' where "btree_flush me b s = Some (0, s')" "btree_ok s' b Leaf" "only_btree b (set_tree t) s s'"
    "\<forall>y. node_vals s' y = (if y \<in> set_tree t then None else node_vals s y)"
proof -
  obtain bt where bt: "b \<noteq> NULL" "btrees s b = Some bt" "tree_at (bnodes s) NULL (bt_root bt) t"
      "bt_nr_nodes bt = of_nat (size t)" "key_order (bkey (bnodes s)) t"
      "\<forall>x\<in>set_tree t. map_option bn_btree (bnodes s x) = Some b"
    using assms(1) unfolding btree_ok_def by (rule btree_shapeE)
  have run: "btree_flush me b s = map_option (\<lambda>s. (0, s)) (btree_flush_node me (bt_root bt) s)"
    using bt(1,2) assms(2) by (cases "btree_flush_node me (bt_root bt) s") (simp_all add: btree_flush_def hget_nonNULL)
  show thesis
  proof (cases "t = Leaf")
    case True
    then show thesis using run bt(3) assms(1) by (intro that [of s]) (simp_all add: only_btree_refl)
  next
    case False
    have v: "value t = bt_root bt" "value t \<in> set_tree t"
      using tree_at_value [OF bt(3) False] False by (cases t; simp)+
    obtain s' where "btree_flush_node me (value t) s = Some s'" "btree_ok s' b (repl (value t) Leaf t)"
        "only_btree b (set_tree t) s s'" "\<forall>y. node_vals s' y = (if y \<in> set_tree t then None else node_vals s y)"
      using btree_flush_node_ok [OF assms False v(2) subt_root [OF False]] by blast
    moreover have "repl (value t) Leaf t = Leaf" using False by (cases t) auto
    ultimately show thesis using run v(1) by (intro that [of s']) simp_all
  qed
qed

section \<open>Traversal\<close>

text \<open>The next \<open>n\<close> allocations succeed.\<close>

definition fresh_mem :: "nat \<Rightarrow> qstate \<Rightarrow> bool" where
  "fresh_mem n t \<longleftrightarrow> n \<le> length (qmem t) \<and> distinct (take n (qmem t)) \<and>
     (\<forall>p\<in>set (take n (qmem t)). p \<noteq> NULL \<and> \<not> q_used t p)"

lemma fresh_mem_kmalloc:
  assumes "fresh_mem (Suc n) t"
  obtains p ps where "qmem t = p # ps" "kmalloc (q_used t) (qmem t) = (p, ps)" "p \<noteq> NULL"
    "n \<le> length ps" "distinct (take n ps)" "p \<notin> set (take n ps)" "\<forall>p\<in>set (take n ps). p \<noteq> NULL \<and> \<not> q_used t p"
  using assms by (cases "qmem t") (auto simp: fresh_mem_def kmalloc_def)

lemma enqueue_unique_fresh:
  assumes "queue_ok t q xs" "qlocked me q t" "data \<notin> set (qdata t xs)" "fresh_mem (Suc n) t"
  obtains p t' ys where "enqueue me q data True t = Some ((0, Some p), t')" "queue_ok t' q ys"
    "qlocked me q t'" "qdata t' ys = qdata t xs @ [data]" "fresh_mem n t'"
proof -
  obtain p ps where p: "qmem t = p # ps" "kmalloc (q_used t) (qmem t) = (p, ps)" "p \<noteq> NULL"
      "n \<le> length ps" "distinct (take n ps)" "p \<notin> set (take n ps)" "\<forall>p\<in>set (take n ps). p \<noteq> NULL \<and> \<not> q_used t p"
    using assms(4) by (rule fresh_mem_kmalloc)
  obtain t' where t': "enqueue me q data True t = Some ((0, Some p), t')" "queue_ok t' q (xs @ [p])"
      "qdata t' (xs @ [p]) = qdata t xs @ [data]" "only_queue q xs t t'" "qmem t' = ps"
    by (rule enqueue_new [OF assms(1,2) _ p(2,3), of True data]) (use assms(3) in auto)
  have "\<not> q_used t' y" if "y \<in> set (take n ps)" for y
    using enqueue_used [OF t'(1), of y] p(2,6,7) that by auto
  then have "fresh_mem n t'" using t'(5) p by (simp add: fresh_mem_def)
  then show thesis using t' qlocked_frame [OF t'(4) assms(2)] by (intro that)
qed

lemma btree_node_traverse_ok:
  assumes "tree_at (bnodes s) par p T" "\<forall>x\<in>set_tree T. map_option bn_btree (bnodes s x) = Some b"
    "blocked me b s" "queue_ok t q xs" "qlocked me q t" "distinct (qdata t xs @ map (bdata (bnodes s)) (inorder T))"
    "fresh_mem (size T + m) t"
  shows "\<exists>t' ys. btree_node_traverse me p q s t = Some (0, t') \<and> queue_ok t' q ys \<and> qlocked me q t' \<and>
    qdata t' ys = qdata t xs @ map (bdata (bnodes s)) (inorder T) \<and> fresh_mem m t'"
  using assms
proof (induction T arbitrary: par p t xs m)
  case Leaf
  then have "btree_node_traverse me p q s t = Some (0, t)"
    by (subst btree_node_traverse.simps) (auto simp: qlocked_def)
  with Leaf show ?case by auto
next
  case (Node l x r)
  let ?d = "bdata (bnodes s)"
  from Node.prems(1) obtain n where n: "p = x" "x \<noteq> NULL" "bnodes s x = Some n"
      "tree_at (bnodes s) x (bn_left n) l" "tree_at (bnodes s) x (bn_right n) r"
    by auto
  have own: "bn_btree n = b" using bspec [OF Node.prems(2), of x] n(3) by simp
  have q: "q \<noteq> NULL" using Node.prems(5) by (simp add: qlocked_def)
  have sub: "\<forall>y\<in>set_tree l. map_option bn_btree (bnodes s y) = Some b"
      "\<forall>y\<in>set_tree r. map_option bn_btree (bnodes s y) = Some b"
      "distinct (qdata t xs @ map ?d (inorder l))" "fresh_mem (size l + Suc (size r + m)) t"
    using Node.prems(2,6,7) by (auto simp: ac_simps simp del: map_option_eq_Some)
  obtain t1 ys1 where t1: "btree_node_traverse me (bn_left n) q s t = Some (0, t1)" "queue_ok t1 q ys1"
      "qlocked me q t1" "qdata t1 ys1 = qdata t xs @ map ?d (inorder l)" "fresh_mem (Suc (size r + m)) t1"
    using Node.IH(1) [OF n(4) sub(1) Node.prems(3-5) sub(3,4)] by blast
  obtain y t2 ys2 where t2: "enqueue me q (?d x) True t1 = Some ((0, Some y), t2)" "queue_ok t2 q ys2"
      "qlocked me q t2" "qdata t2 ys2 = qdata t1 ys1 @ [?d x]" "fresh_mem (size r + m) t2"
    by (rule enqueue_unique_fresh [OF t1(2,3) _ t1(5), of "?d x"]) (use Node.prems(6) t1(4) in auto)
  obtain t3 ys3 where t3: "btree_node_traverse me (bn_right n) q s t2 = Some (0, t3)" "queue_ok t3 q ys3"
      "qlocked me q t3" "qdata t3 ys3 = qdata t2 ys2 @ map ?d (inorder r)" "fresh_mem m t3"
    using Node.IH(2) [OF n(5) sub(2) Node.prems(3) t2(2,3) _ t2(5)] Node.prems(6) t2(4) t1(4) by auto
  have "?d x = bn_data n" using n(3) by (simp add: bdata_def)
  then have "btree_node_traverse me p q s t = Some (0, t3)"
    using n q own Node.prems(3,5) t1(1) t2(1) t3(1)
    by (subst btree_node_traverse.simps) (simp add: hget_nonNULL)
  with t1 t2 t3 show ?case by auto
qed

section \<open>Smallest and largest\<close>

lemma btree_least_loop_ok:
  "tree_at h par p t \<Longrightarrow> btree_least_loop d p h = Some (case inorder t of [] \<Rightarrow> d | x # _ \<Rightarrow> x)"
proof (induction t arbitrary: par p d)
  case Leaf
  then show ?case by (simp add: btree_least_loop.simps)
next
  case (Node l x r)
  then obtain n where n: "p = x" "x \<noteq> NULL" "h x = Some n" "tree_at h x (bn_left n) l" by auto
  then show ?case
    using Node.IH(1) [OF n(4), of x]
    by (simp add: btree_least_loop.simps [of d x] hget_nonNULL split: list.splits)
qed

lemma btree_largest_loop_ok:
  "tree_at h par p t \<Longrightarrow> btree_largest_loop d p h = Some (last (d # inorder t))"
proof (induction t arbitrary: par p d)
  case Leaf
  then show ?case by (simp add: btree_largest_loop.simps)
next
  case (Node l x r)
  then obtain n where n: "p = x" "x \<noteq> NULL" "h x = Some n" "tree_at h x (bn_right n) r" by auto
  then show ?case
    using Node.IH(2) [OF n(4), of x]
    by (simp add: btree_largest_loop.simps [of d x] hget_nonNULL)
qed

lemma btree_ends_ok:
  assumes "btree_ok s b t" "blocked me b s"
  shows "btree_least me b s = Some (case bitems (bnodes s) t of [] \<Rightarrow> NULL | (k, v) # _ \<Rightarrow> v)"
    "btree_largest me b s = Some (if t = Leaf then NULL else snd (last (bitems (bnodes s) t)))"
proof -
  obtain bt where bt: "b \<noteq> NULL" "btrees s b = Some bt" "tree_at (bnodes s) NULL (bt_root bt) t"
      "bt_nr_nodes bt = of_nat (size t)" "key_order (bkey (bnodes s)) t"
      "\<forall>x\<in>set_tree t. map_option bn_btree (bnodes s x) = Some b"
    using assms(1) unfolding btree_ok_def by (rule btree_shapeE)
  have node: "x \<noteq> NULL \<and> (\<exists>n. bnodes s x = Some n \<and> bn_data n = bdata (bnodes s) x)" if "x \<in> set_tree t" for x
    using tree_at_mapped [OF bt(3) that] by (auto simp: bdata_def)
  have "btree_least_node me b s = Some (case inorder t of [] \<Rightarrow> NULL | x # _ \<Rightarrow> x)"
    using btree_least_loop_ok [OF bt(3)] bt(1,2) assms(2) by (simp add: btree_least_node_def hget_nonNULL)
  moreover have "x \<in> set_tree t" if "inorder t = x # xs" for x xs
    using that by (metis list.set_intros(1) set_inorder)
  ultimately show "btree_least me b s = Some (case bitems (bnodes s) t of [] \<Rightarrow> NULL | (k, v) # _ \<Rightarrow> v)"
    using bt(1) node by (fastforce simp: btree_least_def bitems_def hget_nonNULL split: list.splits)
  have "btree_largest_node me b s = Some (last (NULL # inorder t))"
    using btree_largest_loop_ok [OF bt(3)] bt(1,2) assms(2) by (simp add: btree_largest_node_def hget_nonNULL)
  moreover have "last (inorder t) \<in> set_tree t" if "t \<noteq> Leaf"
    using that last_in_set [of "inorder t"] by (cases t) auto
  ultimately show "btree_largest me b s = Some (if t = Leaf then NULL else snd (last (bitems (bnodes s) t)))"
    using bt(1) node [of "last (inorder t)"]
    by (cases "t = Leaf") (auto simp: btree_largest_def bitems_def hget_nonNULL last_map)
qed

section \<open>Properties\<close>

text \<open>The tree of the witnesses: keys 3, 5 and 8 with data 103, 105 and 108, the root in the middle.\<close>

definition ex_tree_lock :: spinlock where
  "ex_tree_lock = \<lparr>s_guard = 0, s_tid = 7, s_lock = 1, s_apicid = 0\<rparr>"

definition ex_btree :: bstate where
  "ex_btree = \<lparr>
     bnodes = [10 \<mapsto> \<lparr>bn_key = 5, bn_data = 105, bn_left = 20, bn_parent = 0, bn_right = 30, bn_btree = 1\<rparr>,
               20 \<mapsto> \<lparr>bn_key = 3, bn_data = 103, bn_left = 0, bn_parent = 10, bn_right = 0, bn_btree = 1\<rparr>,
               30 \<mapsto> \<lparr>bn_key = 8, bn_data = 108, bn_left = 0, bn_parent = 10, bn_right = 0, bn_btree = 1\<rparr>],
     btrees = [1 \<mapsto> \<lparr>bt_root = 10, bt_nr_nodes = 3, bt_lock = ex_tree_lock\<rparr>],
     bmem = [40, 50]\<rparr>"

definition ex_shape :: "ptr tree" where
  "ex_shape = Node (Node Leaf 20 Leaf) 10 (Node Leaf 30 Leaf)"

lemma ex_btree_ok: "btree_ok ex_btree 1 ex_shape" "blocked ex_me 1 ex_btree"
  by (simp_all add: btree_ok_def btree_shape_def ex_btree_def ex_shape_def bkey_def blocked_def ex_me_def
      ex_tree_lock_def lk_held_def spin_self_def)

text \<open>C5: A locked tree is a finite map. Any sequence of searches, insertions and deletions
  returns; a search finds exactly what the insertions and deletions before it leave under
  the key; an insertion succeeds only under a new key; and the result is again a well-formed
  tree: ordered by key, with its parent links, owner links and node count right.\<close>

theorem btree_is_map:
  assumes "btree_ok s b t" "blocked me b s"
  shows "\<exists>es s' t' m'. run_kops (btree_get me b) (btree_put me b) (btree_delete me b) cs s = Some (es, s') \<and>
    kev_steps es (bmap (bnodes s) t) = Some m' \<and> btree_ok s' b t' \<and> blocked me b s' \<and> bmap (bnodes s') t' = m'"
  using btree_map.run_kops_refines [of me b s "bmap (bnodes s) t" cs] assms unfolding btree_rep_def by blast

theorem btree_is_map_witness:
  "\<exists>es s' t' m'. run_kops (btree_get ex_me 1) (btree_put ex_me 1) (btree_delete ex_me 1)
      [KInsert 4 104, KDelete 5, KSearch 4, KSearch 5] ex_btree = Some (es, s') \<and>
    kev_steps es (bmap (bnodes ex_btree) ex_shape) = Some m' \<and> btree_ok s' 1 t' \<and> blocked ex_me 1 s' \<and>
    bmap (bnodes s') t' = m'"
  using btree_is_map [OF ex_btree_ok] .

text \<open>\<open>btree_insert\<close> on every branch: without memory it reports \<open>-ENOMEM\<close>; under a key that is
  there it reports \<open>-EEXIST\<close>, frees the node it allocated and leaves the tree as it was;
  otherwise the tree maps the key to the data and everything else as before.\<close>

theorem btree_insert_spec:
  assumes "btree_ok s b t" "blocked me b s"
  shows "\<exists>e s'. btree_insert me b k v s = Some (e, s') \<and>
    (case kmalloc (b_used s) (bmem s) of (p, ps) \<Rightarrow>
       if p = NULL then e = - ENOMEM \<and> s' = s\<lparr>bmem := ps\<rparr>
       else if bmap (bnodes s) t k \<noteq> None then e = - EEXIST \<and> s' = s\<lparr>bmem := ps\<rparr>
       else e = 0 \<and> (\<exists>t'. btree_ok s' b t' \<and> bmap (bnodes s') t' = (bmap (bnodes s) t)(k \<mapsto> v)))"
proof -
  have rep: "btree_rep me b s (bmap (bnodes s) t)" using assms by (auto simp: btree_rep_def)
  obtain e s' where "btree_insert me b k v s = Some (e, s')"
      "case kmalloc (b_used s) (bmem s) of (p, ps) \<Rightarrow>
         if p = NULL then e = - ENOMEM \<and> s' = s\<lparr>bmem := ps\<rparr>
         else if bmap (bnodes s) t k \<noteq> None then e = - EEXIST \<and> s' = s\<lparr>bmem := ps\<rparr>
         else e = 0 \<and> btree_rep me b s' ((bmap (bnodes s) t)(k \<mapsto> v)) \<and> bmem s' = ps"
    using btree_insert_cases [OF rep, of k v] by (elim exE conjE)
  then show ?thesis
    by (intro exI [of _ e] exI [of _ s']) (auto simp: btree_rep_def split: prod.splits if_splits)
qed

theorem btree_insert_spec_witness:
  "\<exists>e s'. btree_insert ex_me 1 4 104 ex_btree = Some (e, s') \<and>
    (case kmalloc (b_used ex_btree) (bmem ex_btree) of (p, ps) \<Rightarrow>
       if p = NULL then e = - ENOMEM \<and> s' = ex_btree\<lparr>bmem := ps\<rparr>
       else if bmap (bnodes ex_btree) ex_shape 4 \<noteq> None then e = - EEXIST \<and> s' = ex_btree\<lparr>bmem := ps\<rparr>
       else e = 0 \<and> (\<exists>t'. btree_ok s' 1 t' \<and> bmap (bnodes s') t' = (bmap (bnodes ex_btree) ex_shape)(4 \<mapsto> 104)))"
  using btree_insert_spec [OF ex_btree_ok] .

text \<open>\<open>btree_delete\<close> takes exactly the key out: hanging the two orphaned subtrees back into the
  tree keeps every other key and its data, the order and the node count; nodes of other
  trees are untouched.\<close>

theorem btree_delete_spec:
  assumes "btree_ok s b t" "blocked me b s"
  shows "\<exists>s' t'. btree_delete me b k s = Some s' \<and> btree_ok s' b t' \<and>
    bmap (bnodes s') t' = (bmap (bnodes s) t)(k := None) \<and> only_btree b (set_tree t) s s'"
  using btree_delete_ok [OF assms] by metis

theorem btree_delete_spec_witness:
  "\<exists>s' t'. btree_delete ex_me 1 5 ex_btree = Some s' \<and> btree_ok s' 1 t' \<and>
    bmap (bnodes s') t' = (bmap (bnodes ex_btree) ex_shape)(5 := None) \<and>
    only_btree 1 (set_tree ex_shape) ex_btree s'"
  using btree_delete_spec [OF ex_btree_ok] .

text \<open>C19: \<open>btree_flush\<close> ends, frees exactly the nodes of the tree, and leaves it empty, although
  every deletion on the way rearranges the tree it is walking.\<close>

theorem btree_flush_empties:
  assumes "btree_ok s b t" "blocked me b s"
  shows "\<exists>s'. btree_flush me b s = Some (0, s') \<and> btree_ok s' b Leaf \<and>
    (\<forall>y. node_vals s' y = (if y \<in> set_tree t then None else node_vals s y))"
  using btree_flush_ok [OF assms] by metis

theorem btree_flush_empties_witness:
  "\<exists>s'. btree_flush ex_me 1 ex_btree = Some (0, s') \<and> btree_ok s' 1 Leaf \<and>
    (\<forall>y. node_vals s' y = (if y \<in> set_tree ex_shape then None else node_vals ex_btree y))"
  using btree_flush_empties [OF ex_btree_ok] .


definition ex_queue3 :: qstate where
  "ex_queue3 = ex_queue\<lparr>qmem := [30, 40, 50]\<rparr>"


end
