(* ===== verification/Bytes.thy ===== *)
theory Bytes
  imports Prelude
begin

text \<open>
  Byte-addressed memory and the block routines of \<open>lib/string.c\<close>: comparison, search, copy
  and fill. A routine that reads eight bytes at a time tests the whole word with \<open>HASZERO\<close>;
  the theory shows that this test is exact, so that the word loops find the same byte as a
  byte loop would. Block sizes are natural numbers, as the code only counts them down.
\<close>

unbundle bit_operations_syntax

type_synonym memory = "u8 heap"

section \<open>Words of memory\<close>

text \<open>A little-endian 8-byte load; it faults when one of the bytes is not mapped.\<close>

fun load_bytes :: "memory \<Rightarrow> ptr \<Rightarrow> nat \<Rightarrow> u8 list option" where
  "load_bytes m p 0 = Some []"
| "load_bytes m p (Suc n) = do { b \<leftarrow> hget m p; bs \<leftarrow> load_bytes m (p + 1) n; Some (b # bs) }"

fun le_nat :: "u8 list \<Rightarrow> nat" where
  "le_nat [] = 0"
| "le_nat (b # bs) = unat b + 256 * le_nat bs"

definition load64 :: "memory \<Rightarrow> ptr \<Rightarrow> u64 option" where
  "load64 m p = do { bs \<leftarrow> load_bytes m p 8; Some (of_nat (le_nat bs)) }"

definition ONES :: u64 where "ONES = (- 1) div 255"

definition HIGHS :: u64 where "HIGHS = ONES * 128"

definition HASZERO :: "u64 \<Rightarrow> u64" where
  "HASZERO x = (x - ONES) AND NOT x AND HIGHS"

lemma ONES_eq: "ONES = 0x0101010101010101"
  by (simp add: ONES_def)

lemma HIGHS_eq: "HIGHS = 0x8080808080808080"
  by (simp add: HIGHS_def ONES_eq)

text \<open>The bits of a word built from bytes.\<close>

lemma le_nat_append: "le_nat (as @ bs) = le_nat as + 256 ^ length as * le_nat bs"
  by (induction as) (auto simp: algebra_simps)

lemma le_nat_less: "le_nat bs < 256 ^ length bs"
proof (induction bs)
  case (Cons b bs)
  have "unat b < 256" using unsigned_less [of b] by simp
  with Cons show ?case by simp
qed simp

lemma bit_HIGHS: "bit HIGHS n \<longleftrightarrow> n < 64 \<and> n mod 8 = 7"
proof -
  have "\<forall>n<64. bit HIGHS n \<longleftrightarrow> n mod 8 = 7"
    by code_simp
  then show ?thesis using bit_imp_le_length [of HIGHS n] by force
qed


lemma haszero_bit:
  "HASZERO x \<noteq> 0 \<longleftrightarrow> (\<exists>i<8. bit (x - ONES) (8 * i + 7) \<and> \<not> bit x (8 * i + 7))"
proof
  assume "HASZERO x \<noteq> 0"
  then obtain n where "bit (HASZERO x) n"
    using bit_eq_iff [of "HASZERO x" 0] by auto
  then have n: "bit (x - ONES) n" "\<not> bit x n" "n < 64" "n mod 8 = 7"
    by (auto simp: HASZERO_def bit_and_iff bit_not_iff bit_HIGHS)
  then have "n = 8 * (n div 8) + 7"
    by presburger
  then have "bit (x - ONES) (8 * (n div 8) + 7) \<and> \<not> bit x (8 * (n div 8) + 7)"
    using n(1,2) by simp
  then show "\<exists>i<8. bit (x - ONES) (8 * i + 7) \<and> \<not> bit x (8 * i + 7)"
    using n(3) by (intro exI [of _ "n div 8"]) auto
next
  assume "\<exists>i<8. bit (x - ONES) (8 * i + 7) \<and> \<not> bit x (8 * i + 7)"
  then obtain i where i: "i < 8" "bit (x - ONES) (8 * i + 7)" "\<not> bit x (8 * i + 7)"
    by blast
  then have "bit (HASZERO x) (8 * i + 7)"
    by (simp add: HASZERO_def bit_and_iff bit_not_iff bit_HIGHS)
  then show "HASZERO x \<noteq> 0" by auto
qed

text \<open>The top bit of a byte, read out of a word of any height below 64.\<close>

lemma bit_of_int_word: "n < 64 \<Longrightarrow> bit (of_int k :: u64) n \<longleftrightarrow> odd (k div 2 ^ n)"
  by (simp add: bit_word_of_int_iff bit_iff_odd [of k])

lemma top_bit_split:
  fixes L M :: int
  assumes "0 \<le> L" "L < 256 ^ i" "i < 8"
  shows "bit (of_int (L + 256 ^ i * M) :: u64) (8 * i + 7) \<longleftrightarrow> odd (M div 128)"
proof -
  have p: "(2::int) ^ (8 * i + 7) = 256 ^ i * 128"
    by (simp add: power_add power_mult)
  have "(L + 256 ^ i * M) div (256 ^ i * 128) = (L + 256 ^ i * M) div 256 ^ i div 128"
    by (simp add: zdiv_zmult2_eq)
  also have "(L + 256 ^ i * M) div 256 ^ i = M"
    using assms by (simp add: div_pos_pos_trivial)
  finally show ?thesis
    using assms(3) by (subst bit_of_int_word) (simp_all add: p)
qed


lemma le_nat_ones_le: "0 \<notin> set bs \<Longrightarrow> le_nat (replicate (length bs) 1) \<le> le_nat bs"
proof (induction bs)
  case (Cons b bs)
  then have "0 < unat b" by (simp add: unat_gt_0)
  with Cons show ?case by simp
qed simp

lemma odd_div_128: "odd ((k + 256 * M) div 128) \<longleftrightarrow> odd (k div 128)" for k M :: int
proof -
  have "(k + 256 * M) div 128 = k div 128 + 2 * M"
    using div_mult_self1 [of 128 k "2 * M"] by (simp add: mult.commute mult.left_commute)
  then show ?thesis by simp
qed

lemma byte_below:
  assumes "k < 256"
  shows "odd ((int k - 1) div 128) \<and> even (int k div 128) \<longleftrightarrow> k = 0"
proof -
  consider "k = 0" | "0 < k" "k < 128" | "k = 128" | "128 < k" by linarith
  then show ?thesis
  proof cases
    case 2
    then have "(int k - 1) div 128 = 0" by (intro div_pos_pos_trivial) auto
    with 2 show ?thesis by simp
  next
    case 4
    then have "int k div 128 = 1" using assms by (intro div_pos_neg_trivial int_div_pos_eq [of _ _ _ "int k - 128"]) auto
    with 4 show ?thesis by simp
  qed simp_all
qed

lemma haszero_byte:
  assumes "length (as @ b # cs) = 8" "0 \<notin> set as"
  defines "x \<equiv> of_nat (le_nat (as @ b # cs)) :: u64"
  shows "bit (x - ONES) (8 * length as + 7) \<and> \<not> bit x (8 * length as + 7) \<longleftrightarrow> b = 0"
proof -
  define i where "i = length as"
  define L where "L = int (le_nat as)"
  define l where "l = int (le_nat (replicate i 1))"
  define K where "K = int (le_nat cs) - int (le_nat (replicate (7 - i) 1))"
  have i: "i < 8" "length cs = 7 - i" using assms(1) by (auto simp: i_def)
  have "int (le_nat as) < int (256 ^ length as)"
    using le_nat_less [of as] by (simp only: of_nat_less_iff)
  then have bnds: "0 \<le> L" "0 \<le> l" "l \<le> L" "L < 256 ^ i"
    using le_nat_ones_le [OF assms(2)] by (simp_all add: L_def l_def i_def)
  have r: "replicate 8 (1 :: u8) = replicate i 1 @ 1 # replicate (7 - i) 1"
    using i(1) replicate_add [of i "Suc (7 - i)" "1 :: u8"] by simp
  have ones: "(ONES :: u64) = of_int (l + 256 ^ i * (1 + 256 * int (le_nat (replicate (7 - i) 1))))"
  proof -
    have "replicate 8 1 = [1, 1, 1, 1, 1, 1, 1, 1 :: u8]"
      by code_simp
    then have "ONES = of_nat (le_nat (replicate 8 1))"
      by (simp add: ONES_eq)
    also have "le_nat (replicate 8 1) = le_nat (replicate i 1) + 256 ^ i * (1 + 256 * le_nat (replicate (7 - i) 1))"
      by (simp only: r le_nat_append) simp
    finally show ?thesis by (simp add: l_def distrib_left)
  qed
  have x: "x = of_int (L + 256 ^ i * (int (unat b) + 256 * int (le_nat cs)))"
    by (simp add: x_def le_nat_append L_def i_def)
  have d: "x - ONES = of_int ((L - l) + 256 ^ i * ((int (unat b) - 1) + 256 * K))"
    unfolding x ones K_def by (simp add: algebra_simps)
  have bitd: "bit (x - ONES) (8 * i + 7) \<longleftrightarrow> odd ((int (unat b) - 1 + 256 * K) div 128)"
    unfolding d by (rule top_bit_split) (use bnds i(1) in auto)
  have bitx: "bit x (8 * i + 7) \<longleftrightarrow> odd ((int (unat b) + 256 * int (le_nat cs)) div 128)"
    unfolding x by (rule top_bit_split) (use bnds i(1) in auto)
  have "unat b < 256" using unsigned_less [of b] by simp
  then have "odd ((int (unat b) - 1 + 256 * K) div 128) \<and> \<not> odd ((int (unat b) + 256 * int (le_nat cs)) div 128)
    \<longleftrightarrow> unat b = 0"
    using odd_div_128 [of "int (unat b) - 1" K] odd_div_128 [of "int (unat b)" "int (le_nat cs)"]
      byte_below [of "unat b"] by simp
  then show ?thesis
    unfolding bitd [unfolded i_def] bitx [unfolded i_def] by (simp add: unat_eq_0)
qed

lemma HASZERO_iff:
  assumes "length bs = 8"
  shows "HASZERO (of_nat (le_nat bs)) \<noteq> 0 \<longleftrightarrow> 0 \<in> set bs"
proof
  assume nz: "HASZERO (of_nat (le_nat bs)) \<noteq> 0"
  show "0 \<in> set bs"
  proof (rule ccontr)
    assume no: "0 \<notin> set bs"
    from nz obtain i where i: "i < 8" "bit (of_nat (le_nat bs) - ONES) (8 * i + 7)"
        "\<not> bit (of_nat (le_nat bs) :: u64) (8 * i + 7)"
      by (auto simp: haszero_bit)
    have split: "bs = take i bs @ bs ! i # drop (Suc i) bs" "length (take i bs) = i"
      using assms i(1) by (auto simp: id_take_nth_drop)
    have "0 \<notin> set (take i bs)"
      using no by (auto dest: in_set_takeD)
    then have "bs ! i = 0"
      using haszero_byte [of "take i bs" "bs ! i" "drop (Suc i) bs"] i assms
      by (simp add: split(1) [symmetric] min_def)
    then show False using nth_mem [of i bs] no assms i(1) by simp
  qed
next
  assume "0 \<in> set bs"
  then obtain as cs where s: "bs = as @ 0 # cs" "0 \<notin> set as"
    by (meson split_list_first)
  then show "HASZERO (of_nat (le_nat bs)) \<noteq> 0"
    using haszero_byte [of as 0 cs] assms unfolding haszero_bit
    by (intro exI [of _ "length as"]) simp
qed

section \<open>Reading and writing runs of bytes\<close>

fun store_bytes :: "memory \<Rightarrow> ptr \<Rightarrow> u8 list \<Rightarrow> memory option" where
  "store_bytes m p [] = Some m"
| "store_bytes m p (b # bs) = do { m \<leftarrow> hupd p (\<lambda>_. b) m; store_bytes m (p + 1) bs }"

text \<open>The memory after \<open>bs\<close> has been written at \<open>p\<close>.\<close>

definition put_bytes :: "memory \<Rightarrow> ptr \<Rightarrow> u8 list \<Rightarrow> memory" where
  "put_bytes m p bs = (\<lambda>a. if p \<le> a \<and> a < p + length bs then Some (bs ! (a - p)) else m a)"

definition mapped :: "memory \<Rightarrow> ptr \<Rightarrow> nat \<Rightarrow> bool" where
  "mapped m p n \<longleftrightarrow> (\<forall>i<n. hget m (p + i) \<noteq> None)"

lemma load_bytes_iff:
  "load_bytes m p n = Some bs \<longleftrightarrow> length bs = n \<and> (\<forall>i<n. hget m (p + i) = Some (bs ! i))"
proof (induction n arbitrary: p bs)
  case (Suc n)
  have "load_bytes m p (Suc n) = Some bs \<longleftrightarrow>
    (\<exists>b cs. bs = b # cs \<and> hget m p = Some b \<and> load_bytes m (p + 1) n = Some cs)"
    by (auto split: bind_splits)
  also have "\<dots> \<longleftrightarrow> length bs = Suc n \<and> (\<forall>i<Suc n. hget m (p + i) = Some (bs ! i))"
    by (cases bs) (auto simp: Suc.IH All_less_Suc2)
  finally show ?case .
qed auto

lemma load_bytes_length: "load_bytes m p n = Some bs \<Longrightarrow> length bs = n"
  by (simp add: load_bytes_iff)

lemma load_bytes_nth: "load_bytes m p n = Some bs \<Longrightarrow> i < n \<Longrightarrow> hget m (p + i) = Some (bs ! i)"
  by (simp add: load_bytes_iff)

lemma load_bytes_sub:
  "load_bytes m p n = Some bs \<Longrightarrow> i + k \<le> n \<Longrightarrow> load_bytes m (p + i) k = Some (take k (drop i bs))"
  by (auto simp: load_bytes_iff add.assoc)

lemma load_bytes_Suc:
  assumes "load_bytes m p n = Some bs" "0 < n"
  obtains b cs where "bs = b # cs" "hget m p = Some b" "load_bytes m (p + 1) (n - 1) = Some cs"
  using assms by (cases n) (auto split: bind_splits)

lemma load_bytes_add:
  assumes "load_bytes m p n = Some bs" "k \<le> n"
  shows "load_bytes m p k = Some (take k bs)" "load_bytes m (p + k) (n - k) = Some (drop k bs)"
  using load_bytes_sub [OF assms(1), of 0 k] load_bytes_sub [OF assms(1), of k "n - k"] assms
    load_bytes_length [OF assms(1)] by simp_all

lemma mapped_load: "mapped m p n \<longleftrightarrow> (\<exists>bs. load_bytes m p n = Some bs)"
proof
  assume "mapped m p n"
  then have "load_bytes m p n = Some (map (\<lambda>i. the (hget m (p + i))) [0..<n])"
    by (auto simp: load_bytes_iff mapped_def)
  then show "\<exists>bs. load_bytes m p n = Some bs" ..
qed (auto simp: load_bytes_iff mapped_def)

lemma mapped_Suc: "mapped m p (Suc n) \<longleftrightarrow> hget m p \<noteq> None \<and> mapped m (p + 1) n"
  by (auto simp: mapped_def All_less_Suc2)

lemma mapped_add: "mapped m p (j + k) \<longleftrightarrow> mapped m p j \<and> mapped m (p + j) k"
proof (intro iffI)
  assume *: "mapped m p j \<and> mapped m (p + j) k"
  have "hget m (p + i) \<noteq> None" if "i < j + k" for i
  proof (cases "i < j")
    case True
    with * show ?thesis by (simp add: mapped_def)
  next
    case False
    with that have "hget m (p + j + (i - j)) \<noteq> None"
      using * unfolding mapped_def by (metis add_less_cancel_left le_add_diff_inverse not_less)
    with False show ?thesis by simp
  qed
  then show "mapped m p (j + k)" by (simp add: mapped_def)
qed (auto simp: mapped_def add.assoc)

lemma hget_put_bytes:
  "hget (put_bytes m p bs) a = (if a \<noteq> NULL \<and> p \<le> a \<and> a < p + length bs then Some (bs ! (a - p)) else hget m a)"
  by (auto simp: hget_def put_bytes_def)

lemma put_bytes_Nil [simp]: "put_bytes m p [] = m"
  by (rule ext) (auto simp: put_bytes_def)

lemma put_bytes_Cons: "put_bytes m p (b # bs) = put_bytes (m(p \<mapsto> b)) (p + 1) bs"
  by (auto simp: put_bytes_def nth_Cons' intro!: ext)

lemma put_bytes_append: "put_bytes m p (as @ bs) = put_bytes (put_bytes m p as) (p + length as) bs"
  by (induction as arbitrary: m p) (simp_all add: put_bytes_Cons)

text \<open>Writes to separate ranges commute.\<close>

lemma put_bytes_swap:
  assumes "p + length as \<le> q \<or> q + length bs \<le> p"
  shows "put_bytes (put_bytes m p as) q bs = put_bytes (put_bytes m q bs) p as"
  using assms by (auto simp: put_bytes_def intro!: ext)

lemma mapped_put_bytes [simp]: "mapped m p n \<Longrightarrow> mapped (put_bytes m q bs) p n"
  by (auto simp: mapped_def hget_put_bytes)

lemma store_bytes_ok: "mapped m p (length bs) \<Longrightarrow> store_bytes m p bs = Some (put_bytes m p bs)"
proof (induction bs arbitrary: m p)
  case (Cons b bs)
  then obtain c where c: "hget m p = Some c" and t: "mapped m (p + 1) (length bs)"
    by (auto simp: mapped_Suc)
  have "mapped (m(p \<mapsto> b)) (p + 1) (length bs)"
    using mapped_put_bytes [OF t, of p "[b]"] by (simp add: put_bytes_Cons)
  with Cons.IH c show ?case by (simp add: hupd_def put_bytes_Cons)
qed simp

lemma load_bytes_put_other:
  "q + length bs \<le> p \<or> p + n \<le> q \<Longrightarrow> load_bytes (put_bytes m q bs) p n = load_bytes m p n"
  by (induction n arbitrary: p) (auto simp: hget_put_bytes)

lemma load_bytes_put_same:
  "mapped m p (length bs) \<Longrightarrow> load_bytes (put_bytes m p bs) p (length bs) = Some bs"
  by (auto simp: load_bytes_iff put_bytes_def mapped_def hget_def split: if_splits)

unbundle bit_operations_syntax

section \<open>Block routines\<close>

text \<open>\<open>(uint8_t)c\<close> of an \<open>int\<close> argument.\<close>

definition to_u8 :: "int \<Rightarrow> u8" where
  "to_u8 c = of_int c"

fun memcmp_loop :: "memory \<Rightarrow> ptr \<Rightarrow> ptr \<Rightarrow> nat \<Rightarrow> (ptr \<times> ptr \<times> nat) option" where
  "memcmp_loop m l r n =
     (if n = 0 then Some (l, r, n)
      else do {
        a \<leftarrow> hget m l;
        b \<leftarrow> hget m r;
        if a = b then memcmp_loop m (l + 1) (r + 1) (n - 1) else Some (l, r, n)
      })"

definition memcmp :: "memory \<Rightarrow> ptr \<Rightarrow> ptr \<Rightarrow> nat \<Rightarrow> int option" where
  "memcmp m vl vr n = do {
     (l, r, n) \<leftarrow> memcmp_loop m vl vr n;
     if n \<noteq> 0 then do { a \<leftarrow> hget m l; b \<leftarrow> hget m r; Some (uint a - uint b) }
     else Some 0
   }"

text \<open>The three loops of \<open>memchr\<close>: up to an aligned address, by words, and by bytes.\<close>

fun memchr_align :: "memory \<Rightarrow> u8 \<Rightarrow> ptr \<Rightarrow> nat \<Rightarrow> (ptr \<times> nat) option" where
  "memchr_align m c s n =
     (if s mod 8 \<noteq> 0 \<and> n \<noteq> 0
      then do { b \<leftarrow> hget m s; if b \<noteq> c then memchr_align m c (s + 1) (n - 1) else Some (s, n) }
      else Some (s, n))"

fun memchr_words :: "memory \<Rightarrow> u64 \<Rightarrow> ptr \<Rightarrow> nat \<Rightarrow> (ptr \<times> nat) option" where
  "memchr_words m k w n =
     (if 8 \<le> n
      then do { x \<leftarrow> load64 m w; if HASZERO (x XOR k) = 0 then memchr_words m k (w + 8) (n - 8) else Some (w, n) }
      else Some (w, n))"

fun memchr_tail :: "memory \<Rightarrow> u8 \<Rightarrow> ptr \<Rightarrow> nat \<Rightarrow> (ptr \<times> nat) option" where
  "memchr_tail m c s n =
     (if n \<noteq> 0
      then do { b \<leftarrow> hget m s; if b \<noteq> c then memchr_tail m c (s + 1) (n - 1) else Some (s, n) }
      else Some (s, n))"

definition memchr :: "memory \<Rightarrow> ptr \<Rightarrow> int \<Rightarrow> nat \<Rightarrow> ptr option" where
  "memchr m src c n = do {
     let c = to_u8 c;
     (s, n) \<leftarrow> memchr_align m c src n;
     more \<leftarrow> (if n \<noteq> 0 then do { b \<leftarrow> hget m s; Some (b \<noteq> c) } else Some False);
     (s, n) \<leftarrow>
       (if more then do {
          let k = ONES * ucast c;
          (w, n) \<leftarrow> memchr_words m k s n;
          memchr_tail m c w n
        } else Some (s, n));
     Some (if n \<noteq> 0 then s else NULL)
   }"

fun memrchr :: "memory \<Rightarrow> ptr \<Rightarrow> int \<Rightarrow> nat \<Rightarrow> ptr option" where
  "memrchr m s c 0 = Some NULL"
| "memrchr m s c (Suc n) = do {
     b \<leftarrow> hget m (s + n);
     if b = to_u8 c then Some (s + n) else memrchr m s c n
   }"

text \<open>The copying loops write one element per round, in rising order of the index \<open>i\<close>.\<close>

fun memcpy_loop :: "nat \<Rightarrow> memory \<Rightarrow> ptr \<Rightarrow> ptr \<Rightarrow> nat \<Rightarrow> memory option" where
  "memcpy_loop w m dst src 0 = Some m"
| "memcpy_loop w m dst src (Suc n) = do {
     bs \<leftarrow> load_bytes m src w;
     m \<leftarrow> store_bytes m dst bs;
     memcpy_loop w m (dst + w) (src + w) n
   }"

definition memcpy :: "memory \<Rightarrow> ptr \<Rightarrow> ptr \<Rightarrow> nat \<Rightarrow> memory option" where
  "memcpy m dstptr srcptr sz = memcpy_loop 1 m dstptr srcptr sz"

definition memcpy32 :: "memory \<Rightarrow> ptr \<Rightarrow> ptr \<Rightarrow> nat \<Rightarrow> memory option" where
  "memcpy32 m dstptr srcptr n = memcpy_loop 4 m dstptr srcptr n"

fun memset_loop :: "memory \<Rightarrow> ptr \<Rightarrow> u8 list \<Rightarrow> nat \<Rightarrow> memory option" where
  "memset_loop m buf bs 0 = Some m"
| "memset_loop m buf bs (Suc n) = do {
     m \<leftarrow> store_bytes m buf bs;
     memset_loop m (buf + length bs) bs n
   }"

definition memset :: "memory \<Rightarrow> ptr \<Rightarrow> int \<Rightarrow> nat \<Rightarrow> memory option" where
  "memset m bufptr val sz = memset_loop m bufptr [to_u8 val] sz"

definition memsetw :: "memory \<Rightarrow> ptr \<Rightarrow> int \<Rightarrow> nat \<Rightarrow> memory option" where
  "memsetw m bufptr val sz = memset_loop m bufptr [to_u8 val, to_u8 (val div 256)] sz"

text \<open>\<open>memmove\<close>. The loops that run up to or down to an aligned address return \<open>dest\<close> when
  the count is used up: \<open>Inl\<close> carries the memory of that early return.\<close>

fun memmove_up_align :: "memory \<Rightarrow> ptr \<Rightarrow> ptr \<Rightarrow> nat \<Rightarrow> (memory + (memory \<times> ptr \<times> ptr \<times> nat)) option" where
  "memmove_up_align m d s n =
     (if d mod 8 \<noteq> 0
      then if n = 0 then Some (Inl m)
           else do {
             b \<leftarrow> hget m s;
             m \<leftarrow> hupd d (\<lambda>_. b) m;
             memmove_up_align m (d + 1) (s + 1) (n - 1)
           }
      else Some (Inr (m, d, s, n)))"

fun memmove_up_words :: "memory \<Rightarrow> ptr \<Rightarrow> ptr \<Rightarrow> nat \<Rightarrow> (memory \<times> ptr \<times> ptr \<times> nat) option" where
  "memmove_up_words m d s n =
     (if 8 \<le> n
      then do {
        bs \<leftarrow> load_bytes m s 8;
        m \<leftarrow> store_bytes m d bs;
        memmove_up_words m (d + 8) (s + 8) (n - 8)
      }
      else Some (m, d, s, n))"

fun memmove_up_bytes :: "memory \<Rightarrow> ptr \<Rightarrow> ptr \<Rightarrow> nat \<Rightarrow> memory option" where
  "memmove_up_bytes m d s n =
     (if n \<noteq> 0
      then do { b \<leftarrow> hget m s; m \<leftarrow> hupd d (\<lambda>_. b) m; memmove_up_bytes m (d + 1) (s + 1) (n - 1) }
      else Some m)"

fun memmove_down_align :: "memory \<Rightarrow> ptr \<Rightarrow> ptr \<Rightarrow> nat \<Rightarrow> (memory + (memory \<times> nat)) option" where
  "memmove_down_align m d s n =
     (if (d + n) mod 8 \<noteq> 0
      then if n = 0 then Some (Inl m)
           else do {
             b \<leftarrow> hget m (s + (n - 1));
             m \<leftarrow> hupd (d + (n - 1)) (\<lambda>_. b) m;
             memmove_down_align m d s (n - 1)
           }
      else Some (Inr (m, n)))"

fun memmove_down_words :: "memory \<Rightarrow> ptr \<Rightarrow> ptr \<Rightarrow> nat \<Rightarrow> (memory \<times> nat) option" where
  "memmove_down_words m d s n =
     (if 8 \<le> n
      then do {
        bs \<leftarrow> load_bytes m (s + (n - 8)) 8;
        m \<leftarrow> store_bytes m (d + (n - 8)) bs;
        memmove_down_words m d s (n - 8)
      }
      else Some (m, n))"

fun memmove_down_bytes :: "memory \<Rightarrow> ptr \<Rightarrow> ptr \<Rightarrow> nat \<Rightarrow> memory option" where
  "memmove_down_bytes m d s n =
     (if n \<noteq> 0
      then do {
        b \<leftarrow> hget m (s + (n - 1));
        m \<leftarrow> hupd (d + (n - 1)) (\<lambda>_. b) m;
        memmove_down_bytes m d s (n - 1)
      }
      else Some m)"

definition memmove :: "memory \<Rightarrow> ptr \<Rightarrow> ptr \<Rightarrow> nat \<Rightarrow> memory option" where
  "memmove m d s n =
     (if d = s then Some m
      else if s + n \<le> d \<or> d + n \<le> s then memcpy m d s n
      else if d < s then
        (if s mod 8 = d mod 8 then do {
           r \<leftarrow> memmove_up_align m d s n;
           (case r of
              Inl m \<Rightarrow> Some m
            | Inr (m, d, s, n) \<Rightarrow> do {
                (m, d, s, n) \<leftarrow> memmove_up_words m d s n;
                memmove_up_bytes m d s n
              })
         } else memmove_up_bytes m d s n)
      else
        (if s mod 8 = d mod 8 then do {
           r \<leftarrow> memmove_down_align m d s n;
           (case r of
              Inl m \<Rightarrow> Some m
            | Inr (m, n) \<Rightarrow> do {
                (m, n) \<leftarrow> memmove_down_words m d s n;
                memmove_down_bytes m d s n
              })
         } else memmove_down_bytes m d s n))"

lemmas [simp del] = memcmp_loop.simps memchr_align.simps memchr_words.simps memchr_tail.simps
  memmove_up_align.simps memmove_up_words.simps memmove_up_bytes.simps
  memmove_down_align.simps memmove_down_words.simps memmove_down_bytes.simps

unbundle bit_operations_syntax

section \<open>Copying\<close>

text \<open>Copying the first \<open>k\<close> of \<open>n\<close> bytes leaves the copy of the remaining ones to do. The
  target may overlap the source from below.\<close>

definition copy_up :: "memory \<Rightarrow> ptr \<Rightarrow> ptr \<Rightarrow> nat \<Rightarrow> u8 list \<Rightarrow> bool" where
  "copy_up m d s n xs \<longleftrightarrow>
     load_bytes m s n = Some xs \<and> mapped m d n \<and> (d \<le> s \<or> s + n \<le> d)"

lemma copy_up_chunk:
  assumes "copy_up m d s n xs" "k \<le> n"
  shows "load_bytes m s k = Some (take k xs)"
    "store_bytes m d (take k xs) = Some (put_bytes m d (take k xs))"
    "copy_up (put_bytes m d (take k xs)) (d + k) (s + k) (n - k) (drop k xs)"
proof -
  have l: "load_bytes m s n = Some xs" and mp: "mapped m d n" and o: "d \<le> s \<or> s + n \<le> d"
    using assms(1) by (auto simp: copy_up_def)
  have len: "length xs = n" using load_bytes_length [OF l] .
  have mp': "mapped m d k" "mapped m (d + k) (n - k)"
    using mp mapped_add [of m d k "n - k"] assms(2) by auto
  show "load_bytes m s k = Some (take k xs)"
    using load_bytes_add(1) [OF l assms(2)] .
  show "store_bytes m d (take k xs) = Some (put_bytes m d (take k xs))"
    using store_bytes_ok mp'(1) len assms(2) by simp
  have tk: "length (take k xs) = k" using len assms(2) by simp
  have "load_bytes (put_bytes m d (take k xs)) (s + k) (n - k) = load_bytes m (s + k) (n - k)"
    by (rule load_bytes_put_other) (use o tk assms(2) in auto)
  then have "load_bytes (put_bytes m d (take k xs)) (s + k) (n - k) = Some (drop k xs)"
    using load_bytes_add(2) [OF l assms(2)] by simp
  with mp'(2) o assms(2) show "copy_up (put_bytes m d (take k xs)) (d + k) (s + k) (n - k) (drop k xs)"
    by (auto simp: copy_up_def)
qed

lemma copy_up_byte:
  assumes "copy_up m d s n xs" "n \<noteq> 0"
  obtains x where "hget m s = Some x" "hupd d (\<lambda>_. x) m = Some (put_bytes m d (take 1 xs))"
proof -
  obtain x ys where xs: "xs = x # ys"
    using assms by (cases xs) (auto simp: copy_up_def dest: load_bytes_length)
  have "hget m s = Some x"
    using load_bytes_nth [of m s n xs 0] assms xs by (simp add: copy_up_def)
  moreover have "store_bytes m d [x] = hupd d (\<lambda>_. x) m"
    by (cases "hupd d (\<lambda>_. x) m") simp_all
  ultimately show thesis
    using that [of x] copy_up_chunk(2) [OF assms(1), of 1] assms(2) xs by simp
qed

lemma copy_up_done: "copy_up m d s 0 xs \<Longrightarrow> xs = []"
  by (auto simp: copy_up_def)

lemma put_take_drop:
  assumes "j \<le> length xs"
  shows "put_bytes (put_bytes m d (take j xs)) (d + j) (drop j xs) = put_bytes m d xs"
proof -
  have "length (take j xs) = j" using assms by simp
  then show ?thesis
    using put_bytes_append [of m d "take j xs" "drop j xs"] by (simp only: append_take_drop_id)
qed

lemma copy_up_length: "copy_up m d s n xs \<Longrightarrow> length xs = n"
  by (auto simp: copy_up_def dest: load_bytes_length)

lemma memcpy_loop_ok:
  "copy_up m d s (w * n) xs \<Longrightarrow> memcpy_loop w m d s n = Some (put_bytes m d xs)"
proof (induction n arbitrary: m d s xs)
  case 0
  then show ?case using copy_up_done by force
next
  case (Suc n)
  note c = copy_up_chunk [OF Suc.prems, of w]
  have "memcpy_loop w (put_bytes m d (take w xs)) (d + w) (s + w) n =
      Some (put_bytes (put_bytes m d (take w xs)) (d + w) (drop w xs))"
    using Suc.IH [OF c(3) [simplified]] by simp
  then show ?case using c(1,2) copy_up_length [OF Suc.prems] by (simp add: put_take_drop)
qed

lemma memmove_up_bytes_ok:
  "copy_up m d s n xs \<Longrightarrow> memmove_up_bytes m d s n = Some (put_bytes m d xs)"
proof (induction n arbitrary: m d s xs)
  case 0
  then show ?case using copy_up_done [OF 0] by (simp add: memmove_up_bytes.simps)
next
  case (Suc n)
  obtain x where x: "hget m s = Some x" "hupd d (\<lambda>_. x) m = Some (put_bytes m d (take 1 xs))"
    using copy_up_byte [OF Suc.prems] by auto
  have "memmove_up_bytes (put_bytes m d (take 1 xs)) (d + 1) (s + 1) n =
      Some (put_bytes (put_bytes m d (take 1 xs)) (d + 1) (drop 1 xs))"
    using Suc.IH copy_up_chunk(3) [OF Suc.prems, of 1] by simp
  with x show ?case
    using copy_up_length [OF Suc.prems] put_take_drop [of 1 xs] by (simp add: memmove_up_bytes.simps [of m])
qed

text \<open>The aligning loop and the word loop copy a prefix.\<close>

lemma memmove_up_align_ok:
  assumes "copy_up m d s n xs"
  shows "memmove_up_align m d s n = Some (Inl (put_bytes m d xs)) \<or>
    (\<exists>j\<le>n. memmove_up_align m d s n = Some (Inr (put_bytes m d (take j xs), d + j, s + j, n - j)))"
  using assms
proof (induction n arbitrary: m d s xs)
  case 0
  then show ?case using copy_up_done [OF 0] by (auto simp: memmove_up_align.simps [of m])
next
  case (Suc n)
  show ?case
  proof (cases "d mod 8 = 0")
    case True
    then show ?thesis by (intro disjI2 exI [of _ 0]) (simp add: memmove_up_align.simps)
  next
    case False
    obtain x where x: "hget m s = Some x" "hupd d (\<lambda>_. x) m = Some (put_bytes m d (take 1 xs))"
      using copy_up_byte [OF Suc.prems] by auto
    have step: "memmove_up_align m d s (Suc n) = memmove_up_align (put_bytes m d (take 1 xs)) (d + 1) (s + 1) n"
      using False x by (simp add: memmove_up_align.simps [of m])
    have len: "length xs = Suc n" using copy_up_length [OF Suc.prems] .
    have pj: "put_bytes (put_bytes m d (take 1 xs)) (d + 1) (take j (drop 1 xs)) = put_bytes m d (take (j + 1) xs)"
      if "j \<le> n" for j
      using put_take_drop [of 1 "take (j + 1) xs" m d] len that by (simp add: min_def drop_take)
    show ?thesis
      using Suc.IH [of "put_bytes m d (take 1 xs)" "d + 1" "s + 1" "drop 1 xs"] copy_up_chunk(3) [OF Suc.prems, of 1]
        pj put_take_drop [of 1 xs m d] len unfolding step
      by (auto simp: add.assoc)
  qed
qed

lemma memmove_up_words_ok:
  assumes "copy_up m d s n xs"
  shows "\<exists>j\<le>n. memmove_up_words m d s n = Some (put_bytes m d (take j xs), d + j, s + j, n - j)"
  using assms
proof (induction n arbitrary: m d s xs rule: less_induct)
  case (less n)
  show ?case
  proof (cases "8 \<le> n")
    case False
    then show ?thesis by (intro exI [of _ 0]) (simp add: memmove_up_words.simps)
  next
    case True
    note c = copy_up_chunk [OF less.prems True]
    have step: "memmove_up_words m d s n = memmove_up_words (put_bytes m d (take 8 xs)) (d + 8) (s + 8) (n - 8)"
      using True c(1,2) by (simp add: memmove_up_words.simps [of m])
    have "n - 8 < n" using True by simp
    then obtain j where j: "j \<le> n - 8" "memmove_up_words (put_bytes m d (take 8 xs)) (d + 8) (s + 8) (n - 8) =
        Some (put_bytes (put_bytes m d (take 8 xs)) (d + 8) (take j (drop 8 xs)), d + 8 + j, s + 8 + j, n - 8 - j)"
      using less.IH c(3) by blast
    have "put_bytes (put_bytes m d (take 8 xs)) (d + 8) (take j (drop 8 xs)) = put_bytes m d (take (8 + j) xs)"
      using put_take_drop [of 8 "take (8 + j) xs" m d] copy_up_length [OF less.prems] j(1) True
      by (simp add: min_def drop_take)
    then show ?thesis
      using j True unfolding step by (intro exI [of _ "8 + j"]) (simp add: add.assoc)
  qed
qed


text \<open>The same downwards, for a target that may overlap the source from above.\<close>

definition copy_down :: "memory \<Rightarrow> ptr \<Rightarrow> ptr \<Rightarrow> nat \<Rightarrow> u8 list \<Rightarrow> bool" where
  "copy_down m d s n xs \<longleftrightarrow> load_bytes m s n = Some xs \<and> mapped m d n \<and> s \<le> d"

lemma copy_down_length: "copy_down m d s n xs \<Longrightarrow> length xs = n"
  by (auto simp: copy_down_def dest: load_bytes_length)

lemma copy_down_chunk:
  assumes "copy_down m d s n xs" "j \<le> n"
  shows "load_bytes m (s + j) (n - j) = Some (drop j xs)"
    "store_bytes m (d + j) (drop j xs) = Some (put_bytes m (d + j) (drop j xs))"
    "copy_down (put_bytes m (d + j) (drop j xs)) d s j (take j xs)"
proof -
  have l: "load_bytes m s n = Some xs" and mp: "mapped m d n" and o: "s \<le> d"
    using assms(1) by (auto simp: copy_down_def)
  have mp': "mapped m d j" "mapped m (d + j) (n - j)"
    using mp mapped_add [of m d j "n - j"] assms(2) by auto
  show "load_bytes m (s + j) (n - j) = Some (drop j xs)"
    using load_bytes_add(2) [OF l assms(2)] .
  show "store_bytes m (d + j) (drop j xs) = Some (put_bytes m (d + j) (drop j xs))"
    using store_bytes_ok mp'(2) load_bytes_length [OF l] by simp
  have "load_bytes (put_bytes m (d + j) (drop j xs)) s j = load_bytes m s j"
    by (rule load_bytes_put_other) (use o in auto)
  with load_bytes_add(1) [OF l assms(2)] mp'(1) o
  show "copy_down (put_bytes m (d + j) (drop j xs)) d s j (take j xs)"
    by (auto simp: copy_down_def)
qed

lemma copy_down_byte:
  assumes "copy_down m d s (Suc n) xs"
  obtains x where "hget m (s + n) = Some x" "hupd (d + n) (\<lambda>_. x) m = Some (put_bytes m (d + n) (drop n xs))"
proof -
  have len: "length xs = Suc n" using copy_down_length [OF assms] .
  have d: "drop n xs = [xs ! n]"
    using Cons_nth_drop_Suc [of n xs] len by simp
  have "hget m (s + n) = Some (xs ! n)"
    using load_bytes_nth [of m s "Suc n" xs n] assms by (simp add: copy_down_def)
  moreover have "store_bytes m (d + n) [xs ! n] = hupd (d + n) (\<lambda>_. xs ! n) m"
    by (cases "hupd (d + n) (\<lambda>_. xs ! n) m") simp_all
  ultimately show thesis
    using that [of "xs ! n"] copy_down_chunk(2) [OF assms, of n] d by simp
qed

lemma put_drop_take:
  assumes "i \<le> j" "j \<le> length xs"
  shows "put_bytes (put_bytes m (d + j) (drop j xs)) (d + i) (drop i (take j xs)) = put_bytes m (d + i) (drop i xs)"
proof -
  have l: "length (drop i (take j xs)) = j - i" using assms by simp
  have e: "drop i xs = drop i (take j xs) @ drop j xs"
    using assms by (metis append_take_drop_id drop_append length_take min_absorb2 drop_drop
        diff_is_0_eq' drop0)
  have "put_bytes m (d + i) (drop i xs) = put_bytes (put_bytes m (d + i) (drop i (take j xs))) (d + j) (drop j xs)"
    unfolding e put_bytes_append using l assms by simp
  also have "\<dots> = put_bytes (put_bytes m (d + j) (drop j xs)) (d + i) (drop i (take j xs))"
    by (rule put_bytes_swap) (use l assms in simp)
  finally show ?thesis by simp
qed

lemma memmove_down_bytes_ok:
  "copy_down m d s n xs \<Longrightarrow> memmove_down_bytes m d s n = Some (put_bytes m d xs)"
proof (induction n arbitrary: m xs)
  case 0
  then show ?case using copy_down_length [OF 0] by (simp add: memmove_down_bytes.simps)
next
  case (Suc n)
  obtain x where x: "hget m (s + n) = Some x" "hupd (d + n) (\<lambda>_. x) m = Some (put_bytes m (d + n) (drop n xs))"
    using copy_down_byte [OF Suc.prems] .
  have "memmove_down_bytes (put_bytes m (d + n) (drop n xs)) d s n =
      Some (put_bytes (put_bytes m (d + n) (drop n xs)) d (take n xs))"
    using Suc.IH copy_down_chunk(3) [OF Suc.prems, of n] by simp
  with x show ?case
    using copy_down_length [OF Suc.prems] put_drop_take [of 0 n xs m d]
    by (simp add: memmove_down_bytes.simps [of m])
qed

lemma memmove_down_align_ok:
  assumes "copy_down m d s n xs"
  shows "memmove_down_align m d s n = Some (Inl (put_bytes m d xs)) \<or>
    (\<exists>j\<le>n. memmove_down_align m d s n = Some (Inr (put_bytes m (d + j) (drop j xs), j)))"
  using assms
proof (induction n arbitrary: m xs)
  case 0
  then show ?case using copy_down_length [OF 0] by (auto simp: memmove_down_align.simps [of m])
next
  case (Suc n)
  have len: "length xs = Suc n" using copy_down_length [OF Suc.prems] .
  show ?case
  proof (cases "(d + Suc n) mod 8 = 0")
    case True
    then show ?thesis using len by (intro disjI2 exI [of _ "Suc n"]) (simp add: memmove_down_align.simps)
  next
    case False
    obtain x where x: "hget m (s + n) = Some x" "hupd (d + n) (\<lambda>_. x) m = Some (put_bytes m (d + n) (drop n xs))"
      using copy_down_byte [OF Suc.prems] .
    have step: "memmove_down_align m d s (Suc n) = memmove_down_align (put_bytes m (d + n) (drop n xs)) d s n"
      using False x by (simp add: memmove_down_align.simps [of m])
    have pj: "put_bytes (put_bytes m (d + n) (drop n xs)) (d + j) (drop j (take n xs)) = put_bytes m (d + j) (drop j xs)"
      if "j \<le> n" for j
      using put_drop_take [OF that, of xs m d] len by simp
    show ?thesis
      using Suc.IH [OF copy_down_chunk(3) [OF Suc.prems, of n]] pj pj [of 0] unfolding step
      by (auto intro: le_SucI)
  qed
qed

lemma memmove_down_words_ok:
  assumes "copy_down m d s n xs"
  shows "\<exists>j\<le>n. memmove_down_words m d s n = Some (put_bytes m (d + j) (drop j xs), j)"
  using assms
proof (induction n arbitrary: m xs rule: less_induct)
  case (less n)
  have len: "length xs = n" using copy_down_length [OF less.prems] .
  show ?case
  proof (cases "8 \<le> n")
    case False
    then show ?thesis using len by (intro exI [of _ n]) (simp add: memmove_down_words.simps)
  next
    case True
    note c = copy_down_chunk [OF less.prems, of "n - 8"]
    have step: "memmove_down_words m d s n =
        memmove_down_words (put_bytes m (d + (n - 8)) (drop (n - 8) xs)) d s (n - 8)"
      using True c(1,2) by (simp add: memmove_down_words.simps [of m])
    have "n - 8 < n" using True by simp
    then obtain j where j: "j \<le> n - 8" "memmove_down_words (put_bytes m (d + (n - 8)) (drop (n - 8) xs)) d s (n - 8) =
        Some (put_bytes (put_bytes m (d + (n - 8)) (drop (n - 8) xs)) (d + j) (drop j (take (n - 8) xs)), j)"
      using less.IH c(3) by (meson diff_le_self)
    have "put_bytes (put_bytes m (d + (n - 8)) (drop (n - 8) xs)) (d + j) (drop j (take (n - 8) xs)) =
        put_bytes m (d + j) (drop j xs)"
      using put_drop_take [OF j(1), of xs m d] len by simp
    then show ?thesis
      using j unfolding step by (intro exI [of _ j]) auto
  qed
qed

lemma put_bytes_same:
  assumes "load_bytes m p n = Some xs"
  shows "put_bytes m p xs = m"
proof (rule ext)
  fix a
  show "put_bytes m p xs a = m a"
    using load_bytes_nth [OF assms, of "a - p"] load_bytes_length [OF assms]
    by (cases "p \<le> a \<and> a < p + length xs") (auto simp: put_bytes_def hget_def less_diff_conv2 add.commute split: if_splits)
qed

lemma memmove_up_ok:
  assumes "copy_up m d s n xs"
  shows "do { r \<leftarrow> memmove_up_align m d s n;
              (case r of
                 Inl m \<Rightarrow> Some m
               | Inr (m, d, s, n) \<Rightarrow> do {
                   (m, d, s, n) \<leftarrow> memmove_up_words m d s n;
                   memmove_up_bytes m d s n
                 }) } = Some (put_bytes m d xs)"
proof -
  have words: "do { (m, d, s, n) \<leftarrow> memmove_up_words m d s n; memmove_up_bytes m d s n } = Some (put_bytes m d xs)"
    if c: "copy_up m d s n xs" for m d s n xs
    using memmove_up_words_ok [OF c] memmove_up_bytes_ok [OF copy_up_chunk(3) [OF c]]
      copy_up_length [OF c] by (auto simp: put_take_drop)
  from memmove_up_align_ok [OF assms] show ?thesis
    using words [OF copy_up_chunk(3) [OF assms]] copy_up_length [OF assms] by (auto simp: put_take_drop)
qed

lemma memmove_down_ok:
  assumes "copy_down m d s n xs"
  shows "do { r \<leftarrow> memmove_down_align m d s n;
              (case r of
                 Inl m \<Rightarrow> Some m
               | Inr (m, n) \<Rightarrow> do {
                   (m, n) \<leftarrow> memmove_down_words m d s n;
                   memmove_down_bytes m d s n
                 }) } = Some (put_bytes m d xs)"
proof -
  have join: "put_bytes (put_bytes m (d + j) (drop j xs)) d (take j xs) = put_bytes m d xs"
    if "j \<le> length xs" for j m xs
    using put_drop_take [of 0 j xs m d] that by simp
  have words: "do { (m, n) \<leftarrow> memmove_down_words m d s n; memmove_down_bytes m d s n } = Some (put_bytes m d xs)"
    if c: "copy_down m d s n xs" for m n xs
    using memmove_down_words_ok [OF c] memmove_down_bytes_ok [OF copy_down_chunk(3) [OF c]]
      copy_down_length [OF c] by (auto simp: join)
  from memmove_down_align_ok [OF assms] show ?thesis
    using words [OF copy_down_chunk(3) [OF assms]] copy_down_length [OF assms] by (auto simp: join)
qed

text \<open>C21: \<open>memmove\<close> copies. For every \<open>n\<close>, every alignment of the two addresses and every
  overlap of the two ranges, the \<open>n\<close> bytes at the target become the bytes the source held
  before the call, and no other byte changes. The word loops of the routine are part of the
  statement: they run when the addresses agree modulo eight.\<close>

theorem memmove_copies:
  assumes "load_bytes m s n = Some xs" "mapped m d n"
  shows "memmove m d s n = Some (put_bytes m d xs)"
proof -
  consider (same) "d = s" | (apart) "d \<noteq> s" "s + n \<le> d \<or> d + n \<le> s"
    | (up) "d < s" "\<not> (s + n \<le> d \<or> d + n \<le> s)" | (down) "s < d" "\<not> (s + n \<le> d \<or> d + n \<le> s)"
    by linarith
  then show ?thesis
  proof cases
    case same
    with put_bytes_same [OF assms(1)] show ?thesis by (simp add: memmove_def)
  next
    case apart
    then have "copy_up m d s (1 * n) xs" using assms by (auto simp: copy_up_def)
    with apart show ?thesis by (simp add: memmove_def memcpy_def memcpy_loop_ok del: mult_1)
  next
    case up
    then have "copy_up m d s n xs" using assms by (simp add: copy_up_def)
    with up show ?thesis
      using memmove_up_ok memmove_up_bytes_ok by (simp add: memmove_def)
  next
    case down
    then have "copy_down m d s n xs" using assms by (simp add: copy_down_def)
    with down show ?thesis
      using memmove_down_ok memmove_down_bytes_ok by (simp add: memmove_def)
  qed
qed

text \<open>Ten bytes moved up by eight, the ranges overlapping and congruent modulo eight: the
  last byte is moved alone, then a word, then the first byte.\<close>

definition ex_mem :: memory where
  "ex_mem = (\<lambda>a. if 8 \<le> a \<and> a < 40 then Some (of_nat a) else None)"

theorem memmove_copies_witness:
  "load_bytes ex_mem 15 10 = Some [15, 16, 17, 18, 19, 20, 21, 22, 23, 24] \<and> mapped ex_mem 23 10
   \<and> memmove ex_mem 23 15 10 = Some (put_bytes ex_mem 23 [15, 16, 17, 18, 19, 20, 21, 22, 23, 24])"
proof -
  have "load_bytes ex_mem 15 10 = Some [15, 16, 17, 18, 19, 20, 21, 22, 23, 24]"
    by code_simp
  moreover have "mapped ex_mem 23 10"
    by (simp add: mapped_def ex_mem_def hget_def)
  ultimately show ?thesis using memmove_copies [of ex_mem 15 10] by blast
qed

unbundle bit_operations_syntax

section \<open>Searching\<close>

text \<open>Bit \<open>n\<close> of a word is bit \<open>n mod 8\<close> of its byte \<open>n div 8\<close>.\<close>

lemma bit_byte_step:
  fixes X :: nat
  assumes "a < 256"
  shows "bit (a + 256 * X) n \<longleftrightarrow> (if n < 8 then bit a n else bit X (n - 8))"
proof (cases "n < 8")
  case True
  then have e: "(256 :: nat) = 2 ^ n * (2 * 2 ^ (7 - n))"
    by (simp flip: power_Suc power_add)
  have "(a + 256 * X) div 2 ^ n = (a + (2 * 2 ^ (7 - n) * X) * 2 ^ n) div 2 ^ n"
    by (simp only: e ac_simps)
  also have "\<dots> = 2 * (2 ^ (7 - n) * X) + a div 2 ^ n"
    by (subst div_mult_self1) simp_all
  finally have "(a + 256 * X) div 2 ^ n = 2 * (2 ^ (7 - n) * X) + a div 2 ^ n" .
  with True show ?thesis by (simp add: bit_iff_odd)
next
  case False
  then have "(2 :: nat) ^ n = 256 * 2 ^ (n - 8)"
    using power_add [of "2 :: nat" 8 "n - 8"] by simp
  then have "(a + 256 * X) div 2 ^ n = X div 2 ^ (n - 8)"
    using assms by (simp add: div_mult2_eq)
  with False show ?thesis by (simp add: bit_iff_odd)
qed

lemma bit_le_nat: "bit (le_nat bs) n \<longleftrightarrow> n div 8 < length bs \<and> bit (bs ! (n div 8)) (n mod 8)"
proof (induction bs arbitrary: n)
  case (Cons b bs)
  have "unat b < 256" using unsigned_less [of b] by simp
  then have "bit (le_nat (b # bs)) n \<longleftrightarrow> (if n < 8 then bit (unat b) n else bit (le_nat bs) (n - 8))"
    by (simp add: bit_byte_step)
  also have "\<dots> \<longleftrightarrow> n div 8 < length (b # bs) \<and> bit ((b # bs) ! (n div 8)) (n mod 8)"
    by (cases "n < 8") (auto simp: Cons.IH bit_unsigned_iff le_div_geq le_mod_geq)
  finally show ?case .
qed simp

lemma bit_word_of_bytes:
  assumes "length bs = 8"
  shows "bit (of_nat (le_nat bs) :: u64) n \<longleftrightarrow> n < 64 \<and> bit (bs ! (n div 8)) (n mod 8)"
proof -
  have "bit (of_nat (le_nat bs) :: u64) n \<longleftrightarrow> n < 64 \<and> bit (le_nat bs) n"
    using bit_word_of_int_iff [of "int (le_nat bs)" n, where 'a = 64] by (simp add: bit_of_nat_iff_bit)
  with assms show ?thesis by (auto simp: bit_le_nat)
qed

lemma le_nat_replicate: "le_nat (replicate n c) = unat c * le_nat (replicate n 1)"
  by (induction n) (simp_all add: algebra_simps)

lemma ONES_times: "ONES * ucast c = of_nat (le_nat (replicate 8 c))"
proof -
  have "replicate 8 1 = [1, 1, 1, 1, 1, 1, 1, 1 :: u8]"
    by code_simp
  then have "ONES = of_nat (le_nat (replicate 8 1))"
    by (simp add: ONES_eq)
  moreover have "(ucast c :: u64) = of_nat (unat c)"
    by simp
  ultimately show ?thesis
    by (simp only: le_nat_replicate [of 8 c] of_nat_mult mult.commute)
qed

lemma xor_bytes:
  assumes "length bs = 8" "length cs = 8"
  shows "(of_nat (le_nat bs) :: u64) XOR of_nat (le_nat cs) = of_nat (le_nat (map2 (XOR) bs cs))"
proof (rule bit_eqI)
  fix n
  have "n < 64 \<Longrightarrow> n div 8 < 8" for n :: nat by simp
  then show "bit ((of_nat (le_nat bs) :: u64) XOR of_nat (le_nat cs)) n =
      bit (of_nat (le_nat (map2 (XOR) bs cs)) :: u64) n"
    using assms by (auto simp: bit_xor_iff bit_word_of_bytes)
qed

text \<open>The word test of the search loops finds the byte \<open>c\<close> exactly.\<close>

lemma word_has_byte:
  assumes "length bs = 8"
  shows "HASZERO (of_nat (le_nat bs) XOR (ONES * ucast c)) = 0 \<longleftrightarrow> c \<notin> set bs"
proof -
  let ?cs = "map2 (XOR) bs (replicate 8 c)"
  have cs: "?cs = map (\<lambda>b. b XOR c) bs"
    using assms by (intro nth_equalityI) auto
  have "HASZERO (of_nat (le_nat bs) XOR (ONES * ucast c)) = HASZERO (of_nat (le_nat ?cs))"
    using assms by (simp only: ONES_times xor_bytes length_replicate)
  then have h: "HASZERO (of_nat (le_nat bs) XOR (ONES * ucast c)) \<noteq> 0 \<longleftrightarrow> 0 \<in> set ?cs"
    using HASZERO_iff [of ?cs] assms by (metis length_map length_zip length_replicate min.idem)
  have "b XOR c = 0 \<longleftrightarrow> b = c" for b
    by (auto simp: bit_eq_iff bit_xor_iff)
  then have "0 \<in> set ?cs \<longleftrightarrow> c \<in> set bs"
    unfolding cs by (auto simp: image_iff)
  with h show ?thesis by blast
qed


text \<open>The position of the first \<open>c\<close> in \<open>bs\<close>, its length if there is none.\<close>

definition first_pos :: "u8 \<Rightarrow> u8 list \<Rightarrow> nat" where
  "first_pos c bs = length (takeWhile (\<lambda>b. b \<noteq> c) bs)"

lemma first_pos_Cons: "first_pos c (b # bs) = (if b = c then 0 else Suc (first_pos c bs))"
  by (simp add: first_pos_def)

lemma first_pos_skip:
  "c \<notin> set (take j bs) \<Longrightarrow> j \<le> length bs \<Longrightarrow> first_pos c bs = j + first_pos c (drop j bs)"
proof -
  assume a: "c \<notin> set (take j bs)" "j \<le> length bs"
  have "takeWhile (\<lambda>b. b \<noteq> c) (take j bs @ drop j bs) = take j bs @ takeWhile (\<lambda>b. b \<noteq> c) (drop j bs)"
    using a(1) by (intro takeWhile_append2) auto
  then show ?thesis using a(2) by (simp add: first_pos_def)
qed

lemma first_pos_le: "first_pos c bs \<le> length bs"
  by (simp add: first_pos_def length_takeWhile_le)

lemma first_pos_mem: "first_pos c bs < length bs \<longleftrightarrow> c \<in> set bs"
  by (induction bs) (auto simp: first_pos_def)

lemma load_bytes_SucE:
  assumes "load_bytes m p (Suc n) = Some bs"
  obtains b cs where "bs = b # cs" "hget m p = Some b" "load_bytes m (p + 1) n = Some cs"
  using load_bytes_Suc [OF assms] by auto

lemma memchr_tail_ok:
  "load_bytes m s n = Some bs \<Longrightarrow> memchr_tail m c s n = Some (s + first_pos c bs, n - first_pos c bs)"
proof (induction n arbitrary: s bs)
  case 0
  then show ?case by (simp add: memchr_tail.simps first_pos_def)
next
  case (Suc n)
  obtain b cs where b: "bs = b # cs" "hget m s = Some b" "load_bytes m (s + 1) n = Some cs"
    using Suc.prems by (rule load_bytes_SucE)
  with Suc.IH [OF b(3)] show ?case by (simp add: memchr_tail.simps [of m c s] first_pos_Cons)
qed

lemma memchr_align_ok:
  "load_bytes m s n = Some bs \<Longrightarrow>
    \<exists>j\<le>first_pos c bs. memchr_align m c s n = Some (s + j, n - j)"
proof (induction n arbitrary: s bs)
  case 0
  then show ?case by (simp add: memchr_align.simps)
next
  case (Suc n)
  obtain b cs where b: "bs = b # cs" "hget m s = Some b" "load_bytes m (s + 1) n = Some cs"
    using Suc.prems by (rule load_bytes_SucE)
  obtain j where j: "j \<le> first_pos c cs" "memchr_align m c (s + 1) n = Some (s + 1 + j, n - j)"
    using Suc.IH [OF b(3)] by blast
  show ?case
  proof (cases "s mod 8 = 0 \<or> b = c")
    case True
    with b show ?thesis by (intro exI [of _ 0]) (auto simp: memchr_align.simps [of m c s])
  next
    case False
    with b j show ?thesis
      by (intro exI [of _ "Suc j"]) (simp add: memchr_align.simps [of m c s] first_pos_Cons)
  qed
qed

lemma load64_bytes: "load_bytes m w 8 = Some bs \<Longrightarrow> load64 m w = Some (of_nat (le_nat bs))"
  by (simp add: load64_def)

lemma memchr_words_ok:
  "load_bytes m s n = Some bs \<Longrightarrow>
    \<exists>j\<le>first_pos c bs. memchr_words m (ONES * ucast c) s n = Some (s + j, n - j)"
proof (induction n arbitrary: s bs rule: less_induct)
  case (less n)
  let ?k = "ONES * ucast c"
  have len: "length bs = n" using load_bytes_length [OF less.prems] .
  show ?case
  proof (cases "8 \<le> n \<and> c \<notin> set (take 8 bs)")
    case True
    then have w: "load_bytes m s 8 = Some (take 8 bs)" "load_bytes m (s + 8) (n - 8) = Some (drop 8 bs)"
      using load_bytes_add [OF less.prems] by auto
    obtain j where j: "j \<le> first_pos c (drop 8 bs)"
        "memchr_words m ?k (s + 8) (n - 8) = Some (s + 8 + j, n - 8 - j)"
      using less.IH [OF _ w(2)] True by auto
    have "first_pos c bs = 8 + first_pos c (drop 8 bs)"
      using first_pos_skip [of c 8 bs] True len by simp
    moreover have "memchr_words m ?k s n = memchr_words m ?k (s + 8) (n - 8)"
      using True w(1) len word_has_byte [of "take 8 bs" c]
      by (simp add: memchr_words.simps [of m ?k s] load64_bytes)
    ultimately show ?thesis
      using j by (intro exI [of _ "8 + j"]) (simp add: add.assoc)
  next
    case False
    have "memchr_words m ?k s n = Some (s, n)"
    proof (cases "8 \<le> n")
      case True
      then have "load_bytes m s 8 = Some (take 8 bs)"
        using load_bytes_add [OF less.prems] by auto
      then show ?thesis
        using False True len word_has_byte [of "take 8 bs" c]
        by (simp add: memchr_words.simps [of m ?k s] load64_bytes)
    qed (simp add: memchr_words.simps [of m ?k s])
    then show ?thesis by (intro exI [of _ 0]) simp
  qed
qed

lemma first_pos_drop: "j \<le> first_pos c bs \<Longrightarrow> first_pos c (drop j bs) = first_pos c bs - j"
proof (induction bs arbitrary: j)
  case (Cons b bs)
  then show ?case by (cases j) (auto simp: first_pos_Cons split: if_splits)
qed (simp add: first_pos_def)

text \<open>\<open>memchr\<close>, which skips to an aligned address and then tests eight bytes at a time
  with \<open>HASZERO\<close>, returns the address of the first occurrence of the byte among the \<open>n\<close> bytes,
  and NULL if there is none; it reads nothing outside the \<open>n\<close> bytes.\<close>

theorem memchr_finds_first:
  assumes "load_bytes m p n = Some bs"
  shows "memchr m p c n = Some (if to_u8 c \<in> set bs then p + first_pos (to_u8 c) bs else NULL)"
proof -
  let ?c = "to_u8 c"
  have len: "length bs = n" using load_bytes_length [OF assms] .
  obtain i where i: "i \<le> first_pos ?c bs" "memchr_align m ?c p n = Some (p + i, n - i)"
    using memchr_align_ok [OF assms] by blast
  have fn: "first_pos ?c bs \<le> n" using first_pos_le [of ?c bs] len by simp
  then have r: "load_bytes m (p + i) (n - i) = Some (drop i bs)"
    using load_bytes_add(2) [OF assms, of i] i(1) by simp
  have fi: "first_pos ?c (drop i bs) = first_pos ?c bs - i" using first_pos_drop [OF i(1)] .
  obtain j where j: "j \<le> first_pos ?c (drop i bs)"
      "memchr_words m (ONES * ucast ?c) (p + i) (n - i) = Some (p + i + j, n - i - j)"
    using memchr_words_ok [OF r] by blast
  have r': "load_bytes m (p + i + j) (n - i - j) = Some (drop j (drop i bs))"
    using load_bytes_add(2) [OF r, of j] j(1) fi fn by simp
  have tail: "memchr_tail m ?c (p + i + j) (n - i - j) = Some (p + first_pos ?c bs, n - first_pos ?c bs)"
    using memchr_tail_ok [OF r', of ?c] first_pos_drop [OF j(1)] fi i(1) j(1) fn by simp
  have mem: "?c \<in> set bs \<longleftrightarrow> first_pos ?c bs < n" using first_pos_mem [of ?c bs] len by simp
  show ?thesis
  proof (cases "n - i = 0")
    case True
    then show ?thesis using i mem by (simp add: memchr_def)
  next
    case False
    then have "0 < n - i" by simp
    with load_bytes_Suc [OF r] obtain b cs where b: "drop i bs = b # cs" "hget m (p + i) = Some b"
      by blast
    show ?thesis
    proof (cases "b = ?c")
      case True
      then have "first_pos ?c bs = i" using fi i(1) b(1) by (simp add: first_pos_Cons)
      with True False b i mem show ?thesis by (simp add: memchr_def)
    next
      case neq: False
      show ?thesis using False neq b i j tail mem fn by (simp add: memchr_def)
    qed
  qed
qed

theorem memchr_finds_first_witness:
  "load_bytes ex_mem 11 20 = Some (map of_nat [11..<31]) \<and> memchr ex_mem 11 30 20 = Some 30
   \<and> memchr ex_mem 11 40 20 = Some NULL"
proof -
  have l: "load_bytes ex_mem 11 20 = Some (map of_nat [11..<31])"
    by code_simp
  have "to_u8 30 \<in> set (map of_nat [11..<31])" "11 + first_pos (to_u8 30) (map of_nat [11..<31]) = 30"
    "to_u8 40 \<notin> set (map of_nat [11..<31])"
    by code_simp+
  with memchr_finds_first [OF l, of 30] memchr_finds_first [OF l, of 40] l show ?thesis
    by simp
qed

section \<open>Comparing and filling\<close>

text \<open>The difference of the first two bytes that differ, zero if there are none.\<close>

fun byte_diff :: "u8 list \<Rightarrow> u8 list \<Rightarrow> int" where
  "byte_diff (a # as) (b # bs) = (if a = b then byte_diff as bs else uint a - uint b)"
| "byte_diff _ _ = 0"

lemma memcmp_ok:
  "load_bytes m l n = Some as \<Longrightarrow> load_bytes m r n = Some bs \<Longrightarrow> memcmp m l r n = Some (byte_diff as bs)"
proof (induction n arbitrary: l r as bs)
  case 0
  then show ?case by (simp add: memcmp_def memcmp_loop.simps)
next
  case (Suc n)
  obtain a as' where a: "as = a # as'" "hget m l = Some a" "load_bytes m (l + 1) n = Some as'"
    using Suc.prems(1) by (rule load_bytes_SucE)
  obtain b bs' where b: "bs = b # bs'" "hget m r = Some b" "load_bytes m (r + 1) n = Some bs'"
    using Suc.prems(2) by (rule load_bytes_SucE)
  show ?case
    using Suc.IH [OF a(3) b(3)] a b by (simp add: memcmp_def memcmp_loop.simps [of m l])
qed

lemma byte_diff_eq_0: "length as = length bs \<Longrightarrow> byte_diff as bs = 0 \<longleftrightarrow> as = bs"
  by (induction as bs rule: byte_diff.induct) (auto simp: word_uint_eq_iff)

lemma memset_loop_ok:
  "mapped m p (n * length bs) \<Longrightarrow>
    memset_loop m p bs n = Some (put_bytes m p (concat (replicate n bs)))"
proof (induction n arbitrary: m p)
  case (Suc n)
  then have mp: "mapped m p (length bs)" "mapped m (p + length bs) (n * length bs)"
    by (simp_all add: mapped_add)
  then show ?case
    using Suc.IH [of "put_bytes m p bs" "p + length bs"] by (simp add: store_bytes_ok put_bytes_append)
qed simp

lemma memset_ok: "mapped m p n \<Longrightarrow> memset m p v n = Some (put_bytes m p (replicate n (to_u8 v)))"
proof -
  assume "mapped m p n"
  moreover have "concat (replicate n [to_u8 v]) = replicate n (to_u8 v)" by (induction n) simp_all
  ultimately show ?thesis using memset_loop_ok [of m p n "[to_u8 v]"] by (simp add: memset_def)
qed

text \<open>The position after the last \<open>c\<close>, searched from the end.\<close>

lemma memrchr_ok:
  "load_bytes m s n = Some bs \<Longrightarrow>
    memrchr m s c n = Some (if to_u8 c \<in> set bs then s + (n - 1 - first_pos (to_u8 c) (rev bs)) else NULL)"
proof (induction n arbitrary: bs)
  case (Suc n)
  have len: "length bs = Suc n" using load_bytes_length [OF Suc.prems] .
  then obtain cs b where b: "bs = cs @ [b]" "length cs = n" by (cases bs rule: rev_cases) auto
  have "load_bytes m s n = Some cs" "hget m (s + n) = Some b"
    using load_bytes_add(1) [OF Suc.prems, of n] load_bytes_nth [OF Suc.prems, of n] b by (simp_all add: nth_append)
  with Suc.IH [of cs] b show ?case by (auto simp: first_pos_Cons)
qed simp

end
