(* ===== verification/Ctype.thy ===== *)
theory Ctype
  imports Bytes
begin

unbundle bit_operations_syntax

text \<open>
  Character classes and the conversions of \<open>lib/ctype.c\<close>. A character argument is a C
  \<open>int\<close>; a \<open>char\<close> read from memory is signed on this target, so it is passed as \<open>sint\<close> of
  the byte.
\<close>

definition isdigit :: "int \<Rightarrow> bool" where
  "isdigit c \<longleftrightarrow> 48 \<le> c \<and> c \<le> 57"

definition isupper :: "int \<Rightarrow> bool" where
  "isupper c \<longleftrightarrow> 65 \<le> c \<and> c \<le> 90"

definition islower :: "int \<Rightarrow> bool" where
  "islower c \<longleftrightarrow> 97 \<le> c \<and> c \<le> 122"

definition isalpha :: "int \<Rightarrow> bool" where
  "isalpha c \<longleftrightarrow> islower c \<or> isupper c"

text \<open>\<open>OR(c, BS(5))\<close> and \<open>NAND(BS(5), c)\<close> work on \<open>uintptr_t\<close>; the result goes back to \<open>int\<close>.\<close>

definition word_to_int :: "u64 \<Rightarrow> int" where
  "word_to_int w = sint (ucast w :: u32)"

definition tolower :: "int \<Rightarrow> int" where
  "tolower c = (if \<not> isalpha c then c else word_to_int (of_int c OR push_bit 5 1))"

definition toupper :: "int \<Rightarrow> int" where
  "toupper c = (if \<not> isalpha c then c else word_to_int (NOT (push_bit 5 1) AND of_int c))"

definition isspace :: "int \<Rightarrow> bool" where
  "isspace c \<longleftrightarrow> c = 32 \<or> c = 11 \<or> c = 8 \<or> c = 12 \<or> c = 9 \<or> c = 13 \<or> c = 10"

definition isxdigit :: "int \<Rightarrow> bool" where
  "isxdigit c \<longleftrightarrow> isdigit c \<or> (97 \<le> c \<and> c \<le> 102) \<or> (65 \<le> c \<and> c \<le> 70)"

definition isalphanum :: "int \<Rightarrow> bool" where
  "isalphanum c \<longleftrightarrow> isalpha c \<or> isdigit c"

text \<open>\<open>atoi\<close> collects the digits in a negative \<open>int\<close>. Arithmetic on \<open>int\<close> is that of a 32-bit
  word; overflow, which C leaves undefined, wraps around as the compiled code does.\<close>

partial_function (option) skip_space :: "memory \<Rightarrow> ptr \<Rightarrow> ptr option" where
  "skip_space m s = do { c \<leftarrow> hget m s; if isspace (sint c) then skip_space m (s + 1) else Some s }"

partial_function (option) digits_loop :: "memory \<Rightarrow> ptr \<Rightarrow> u32 \<Rightarrow> u32 option" where
  "digits_loop m s n = do {
     c \<leftarrow> hget m s;
     if isdigit (sint c) then digits_loop m (s + 1) (10 * n - (scast c - 48)) else Some n
   }"

definition atoi :: "memory \<Rightarrow> ptr \<Rightarrow> int option" where
  "atoi m s = do {
     s \<leftarrow> skip_space m s;
     c \<leftarrow> hget m s;
     let neg = (c = 45);
     let s = (if c = 45 \<or> c = 43 then s + 1 else s);
     n \<leftarrow> digits_loop m s 0;
     Some (sint (if neg then n else - n))
   }"

definition atol :: "memory \<Rightarrow> ptr \<Rightarrow> int option" where
  "atol m s = atoi m s"

unbundle bit_operations_syntax

section \<open>Letters\<close>

lemma tolower_upper: "isupper c \<Longrightarrow> tolower c = c + 32"
proof -
  assume c: "isupper c"
  have all: "\<forall>c\<in>set [65..90]. word_to_int (of_int c OR push_bit 5 1) = c + 32"
    by code_simp
  have "c \<in> set [65..90]" using c by (simp only: set_upto) (simp add: isupper_def)
  from bspec [OF all this] c show ?thesis by (simp add: tolower_def isalpha_def)
qed

lemma toupper_lower: "islower c \<Longrightarrow> toupper c = c - 32"
proof -
  assume c: "islower c"
  have all: "\<forall>c\<in>set [97..122]. word_to_int (NOT (push_bit 5 1) AND of_int c) = c - 32"
    by code_simp
  have "c \<in> set [97..122]" using c by (simp only: set_upto) (simp add: islower_def)
  from bspec [OF all this] c show ?thesis by (simp add: toupper_def isalpha_def)
qed

lemma tolower_id: "\<not> isupper c \<Longrightarrow> tolower c = c"
proof (cases "islower c")
  case True
  have all: "\<forall>c\<in>set [97..122]. word_to_int (of_int c OR push_bit 5 1) = c"
    by code_simp
  have "c \<in> set [97..122]" using True by (simp only: set_upto) (simp add: islower_def)
  from bspec [OF all this] show ?thesis by (simp add: tolower_def)
qed (simp add: tolower_def isalpha_def)

lemma toupper_id: "\<not> islower c \<Longrightarrow> toupper c = c"
proof (cases "isupper c")
  case True
  have all: "\<forall>c\<in>set [65..90]. word_to_int (NOT (push_bit 5 1) AND of_int c) = c"
    by code_simp
  have "c \<in> set [65..90]" using True by (simp only: set_upto) (simp add: isupper_def)
  from bspec [OF all this] show ?thesis by (simp add: toupper_def)
qed (simp add: toupper_def isalpha_def)

text \<open>The case conversions are inverse to each other on letters, leave every other
  character alone, and are idempotent.\<close>

theorem case_conversion_roundtrip:
  "(islower c \<longrightarrow> tolower (toupper c) = c) \<and> (isupper c \<longrightarrow> toupper (tolower c) = c)
   \<and> (\<not> isalpha c \<longrightarrow> tolower c = c \<and> toupper c = c)
   \<and> tolower (tolower c) = tolower c \<and> toupper (toupper c) = toupper c
   \<and> \<not> isupper (tolower c) \<and> \<not> islower (toupper c)"
proof -
  consider "isupper c" | "islower c" | "\<not> isalpha c" by (auto simp: isalpha_def)
  then show ?thesis
  proof cases
    case 1
    then have "islower (c + 32)" "\<not> isupper (c + 32)" "\<not> islower c"
      by (auto simp: isupper_def islower_def)
    with 1 show ?thesis by (simp add: tolower_upper toupper_lower tolower_id toupper_id isalpha_def)
  next
    case 2
    then have "isupper (c - 32)" "\<not> islower (c - 32)" "\<not> isupper c"
      by (auto simp: isupper_def islower_def)
    with 2 show ?thesis by (simp add: tolower_upper toupper_lower tolower_id toupper_id isalpha_def)
  next
    case 3
    then show ?thesis by (simp add: tolower_id toupper_id isalpha_def)
  qed
qed

theorem case_conversion_roundtrip_witness:
  "islower 113 \<and> tolower (toupper 113) = 113 \<and> isupper 81 \<and> toupper (tolower 81) = 81 \<and> tolower 95 = 95"
  using case_conversion_roundtrip [of 113] case_conversion_roundtrip [of 81] case_conversion_roundtrip [of 95]
  by (simp add: islower_def isupper_def isalpha_def)

section \<open>Decimal numbers\<close>

text \<open>The number a run of digits denotes, and a memory that holds the run.\<close>

fun dec_value :: "u8 list \<Rightarrow> int \<Rightarrow> int" where
  "dec_value [] v = v"
| "dec_value (d # ds) v = dec_value ds (10 * v + (sint d - 48))"

definition all_digits :: "u8 list \<Rightarrow> bool" where
  "all_digits ds \<longleftrightarrow> (\<forall>d\<in>set ds. isdigit (sint d))"

lemma dec_value_mono: "all_digits ds \<Longrightarrow> 0 \<le> v \<Longrightarrow> v \<le> dec_value ds v"
proof (induction ds arbitrary: v)
  case (Cons d ds)
  then have "v \<le> 10 * v + (sint d - 48)" "0 \<le> 10 * v + (sint d - 48)"
    by (auto simp: all_digits_def isdigit_def)
  moreover from this Cons have "10 * v + (sint d - 48) \<le> dec_value ds (10 * v + (sint d - 48))"
    by (simp add: all_digits_def)
  ultimately show ?case by simp
qed simp

lemma digits_loop_ok:
  assumes "load_bytes m s (length (ds @ [e])) = Some (ds @ [e])" "all_digits ds" "\<not> isdigit (sint e)"
  shows "digits_loop m s (of_int (- v)) = Some (of_int (- dec_value ds v))"
  using assms
proof (induction ds arbitrary: s v)
  case Nil
  then show ?case by (simp add: digits_loop.simps [of m s] split: bind_splits)
next
  case (Cons d ds)
  from Cons.prems(1) have d: "hget m s = Some d" and r: "load_bytes m (s + 1) (length (ds @ [e])) = Some (ds @ [e])"
    by (auto split: bind_splits)
  have e: "10 * of_int (- v) - (scast d - 48) = (of_int (- (10 * v + (sint d - 48))) :: u32)"
    by (simp add: algebra_simps)
  show ?case
    using Cons.IH [OF r, of "10 * v + (sint d - 48)"] Cons.prems(2,3) d
    by (simp add: digits_loop.simps [of m s] all_digits_def e del: of_int_minus of_int_add of_int_mult of_int_diff)
qed

lemma skip_space_ok:
  assumes "load_bytes m s (length (sp @ [e])) = Some (sp @ [e])" "\<forall>c\<in>set sp. isspace (sint c)" "\<not> isspace (sint e)"
  shows "skip_space m s = Some (s + length sp)"
  using assms
proof (induction sp arbitrary: s)
  case Nil
  then show ?case by (simp add: skip_space.simps [of m s] split: bind_splits)
next
  case (Cons c sp)
  from Cons.prems(1) have c: "hget m s = Some c" and r: "load_bytes m (s + 1) (length (sp @ [e])) = Some (sp @ [e])"
    by (auto split: bind_splits)
  show ?case using Cons.IH [OF r] Cons.prems(2,3) c by (simp add: skip_space.simps [of m s])
qed


lemma sint_of_int32: "- (2 ^ 31) \<le> k \<Longrightarrow> k < 2 ^ 31 \<Longrightarrow> sint (of_int k :: u32) = k"
  by (simp add: signed_of_int signed_take_bit_int_eq_self)

text \<open>\<open>atoi\<close> reads decimal numbers: after white space and an optional sign, the value of
  the digits up to the first other character, for every value an \<open>int\<close> can hold. The most
  negative value is included, because the digits are collected in a negative number.\<close>

theorem atoi_reads_decimal:
  assumes mem: "load_bytes m s (length (sp @ sg @ ds @ [e])) = Some (sp @ sg @ ds @ [e])"
    and sp: "\<forall>c\<in>set sp. isspace (sint c)" and sg: "sg \<in> {[], [43], [45]}"
    and ds: "all_digits ds" "ds \<noteq> []" and e: "\<not> isdigit (sint e)"
    and fits: "dec_value ds 0 \<le> (if sg = [45] then 2 ^ 31 else 2 ^ 31 - 1)"
  shows "atoi m s = Some (if sg = [45] then - dec_value ds 0 else dec_value ds 0)"
proof -
  let ?v = "dec_value ds 0"
  obtain c r where c: "sg @ ds @ [e] = c # r" by (cases "sg @ ds @ [e]") auto
  have nsp: "\<not> isspace (sint c)"
    using sg ds c by (cases ds) (auto simp: isspace_def all_digits_def isdigit_def)
  have l1: "load_bytes m s (length (sp @ [c])) = Some (sp @ [c])"
    using load_bytes_add(1) [OF mem, of "length (sp @ [c])"] c by simp
  have l2: "load_bytes m (s + length sp) (length (sg @ ds @ [e])) = Some (sg @ ds @ [e])"
    using load_bytes_add(2) [OF mem, of "length sp"] by simp
  have hc: "hget m (s + length sp) = Some c"
    using load_bytes_nth [OF l2, of 0] c by simp
  have l3: "load_bytes m (s + length sp + length sg) (length (ds @ [e])) = Some (ds @ [e])"
    using load_bytes_add(2) [OF l2, of "length sg"] by simp
  have dl: "digits_loop m (s + length sp + length sg) 0 = Some (of_int (- ?v))"
    using digits_loop_ok [OF l3 ds(1) e, of 0] by simp
  have sign: "(c = 45) = (sg = [45])" "(c = 43) = (sg = [43])"
    using sg ds c by (cases ds; auto simp: all_digits_def isdigit_def)+
  have off: "(if c = 45 \<or> c = 43 then s + length sp + 1 else s + length sp) = s + length sp + length sg"
    using sg by (auto simp: sign)
  have v0: "0 \<le> ?v" using dec_value_mono [OF ds(1), of 0] by simp
  have neg: "sint (of_int (- ?v) :: u32) = - ?v" if "?v \<le> 2 ^ 31"
    using sint_of_int32 [of "- ?v"] that v0 by simp
  have pos: "sint (- of_int (- ?v) :: u32) = ?v" if "?v \<le> 2 ^ 31 - 1"
    using sint_of_int32 [of ?v] that v0 by simp
  have "atoi m s = Some (sint (if c = 45 then of_int (- ?v) else - of_int (- ?v) :: u32))"
    unfolding atoi_def skip_space_ok [OF l1 sp nsp] Let_def bind.bind_lunit hc off dl ..
  then show ?thesis
    using fits neg pos by (cases "sg = [45]") (simp_all only: sign refl simp_thms if_True if_False)
qed

definition ex_number :: memory where
  "ex_number = put_bytes (\<lambda>_. None) 16 [32, 9, 45, 50, 49, 52, 55, 52, 56, 51, 54, 52, 56, 0]"

theorem atoi_reads_decimal_witness:
  "atoi ex_number 16 = Some (- 2147483648)"
proof -
  have "load_bytes ex_number 16 (length ([32, 9] @ [45] @ [50, 49, 52, 55, 52, 56, 51, 54, 52, 56] @ [0 :: u8]))
      = Some ([32, 9] @ [45] @ [50, 49, 52, 55, 52, 56, 51, 54, 52, 56] @ [0])"
    by code_simp
  moreover have "\<forall>c\<in>set [32, 9 :: u8]. isspace (sint c)" "all_digits [50, 49, 52, 55, 52, 56, 51, 54, 52, 56]"
      "\<not> isdigit (sint (0 :: u8))" "dec_value [50, 49, 52, 55, 52, 56, 51, 54, 52, 56] 0 = 2147483648"
    by (simp_all add: isspace_def all_digits_def isdigit_def)
  ultimately show ?thesis
    using atoi_reads_decimal [of ex_number 16 "[32, 9]" "[45]" "[50, 49, 52, 55, 52, 56, 51, 54, 52, 56]" 0] by simp
qed

end
