(* ===== verification/CString.thy ===== *)
theory CString
  imports Ctype
begin

unbundle bit_operations_syntax

text \<open>
  The string routines of \<open>lib/string.c\<close> on byte-addressed memory. A string is a run of
  non-zero bytes that ends with a zero byte. The routines that read whole words
  (\<open>strlen\<close>, \<open>strchrnul\<close>, \<open>stpcpy\<close>) read beyond the terminator, up to the end of its
  aligned word, so their contracts ask for memory that is mapped in whole words.
\<close>

section \<open>Scanning\<close>

partial_function (option) strcmp_loop :: "memory \<Rightarrow> ptr \<Rightarrow> ptr \<Rightarrow> (ptr \<times> ptr) option" where
  "strcmp_loop m l r = do {
     a \<leftarrow> hget m l;
     b \<leftarrow> hget m r;
     if a = b \<and> a \<noteq> 0 then strcmp_loop m (l + 1) (r + 1) else Some (l, r)
   }"

definition strcmp :: "memory \<Rightarrow> ptr \<Rightarrow> ptr \<Rightarrow> int option" where
  "strcmp m l r = do {
     (l, r) \<leftarrow> strcmp_loop m l r;
     a \<leftarrow> hget m l;
     b \<leftarrow> hget m r;
     Some (uint a - uint b)
   }"

definition strcoll :: "memory \<Rightarrow> ptr \<Rightarrow> ptr \<Rightarrow> int option" where
  "strcoll m s1 s2 = strcmp m s1 s2"

text \<open>The loops of \<open>strlen\<close>. The first one returns early (\<open>Inl\<close>) when it meets the end.\<close>

partial_function (option) strlen_align :: "memory \<Rightarrow> ptr \<Rightarrow> (ptr + ptr) option" where
  "strlen_align m s =
     (if s mod 8 \<noteq> 0
      then do { b \<leftarrow> hget m s; if b = 0 then Some (Inl s) else strlen_align m (s + 1) }
      else Some (Inr s))"

partial_function (option) strlen_words :: "memory \<Rightarrow> ptr \<Rightarrow> ptr option" where
  "strlen_words m w = do { x \<leftarrow> load64 m w; if HASZERO x = 0 then strlen_words m (w + 8) else Some w }"

partial_function (option) strlen_bytes :: "memory \<Rightarrow> ptr \<Rightarrow> ptr option" where
  "strlen_bytes m s = do { b \<leftarrow> hget m s; if b \<noteq> 0 then strlen_bytes m (s + 1) else Some s }"

definition strlen :: "memory \<Rightarrow> ptr \<Rightarrow> nat option" where
  "strlen m a = do {
     r \<leftarrow> strlen_align m a;
     (case r of
        Inl s \<Rightarrow> Some (s - a)
      | Inr s \<Rightarrow> do {
          w \<leftarrow> strlen_words m s;
          s \<leftarrow> strlen_bytes m w;
          Some (s - a)
        })
   }"

partial_function (option) strchrnul_align :: "memory \<Rightarrow> u8 \<Rightarrow> ptr \<Rightarrow> (ptr + ptr) option" where
  "strchrnul_align m c s =
     (if s mod 8 \<noteq> 0
      then do { b \<leftarrow> hget m s; if b = 0 \<or> b = c then Some (Inl s) else strchrnul_align m c (s + 1) }
      else Some (Inr s))"

partial_function (option) strchrnul_words :: "memory \<Rightarrow> u64 \<Rightarrow> ptr \<Rightarrow> ptr option" where
  "strchrnul_words m k w = do {
     x \<leftarrow> load64 m w;
     if HASZERO x = 0 \<and> HASZERO (x XOR k) = 0 then strchrnul_words m k (w + 8) else Some w
   }"

partial_function (option) strchrnul_bytes :: "memory \<Rightarrow> u8 \<Rightarrow> ptr \<Rightarrow> ptr option" where
  "strchrnul_bytes m c s = do {
     b \<leftarrow> hget m s;
     if b \<noteq> 0 \<and> b \<noteq> c then strchrnul_bytes m c (s + 1) else Some s
   }"

definition strchrnul :: "memory \<Rightarrow> ptr \<Rightarrow> int \<Rightarrow> ptr option" where
  "strchrnul m s c = do {
     let c = to_u8 c;
     if c = 0 then do { n \<leftarrow> strlen m s; Some (s + n) }
     else do {
       r \<leftarrow> strchrnul_align m c s;
       (case r of
          Inl s \<Rightarrow> Some s
        | Inr s \<Rightarrow> do {
            w \<leftarrow> strchrnul_words m (ONES * ucast c) s;
            strchrnul_bytes m c w
          })
     }
   }"

definition strchr :: "memory \<Rightarrow> ptr \<Rightarrow> int \<Rightarrow> ptr option" where
  "strchr m s c = do {
     r \<leftarrow> strchrnul m s c;
     b \<leftarrow> hget m r;
     Some (if b = to_u8 c then r else NULL)
   }"

definition strrchr :: "memory \<Rightarrow> ptr \<Rightarrow> int \<Rightarrow> ptr option" where
  "strrchr m s c = do { n \<leftarrow> strlen m s; memrchr m s c (n + 1) }"

text \<open>A set of bytes as a table of four words, indexed through \<open>BITOP\<close>.\<close>

type_synonym byteset = "nat \<Rightarrow> u64"

definition bit_of :: "u8 \<Rightarrow> u64" where
  "bit_of b = push_bit (unat b mod 64) 1"

definition BITOP_set :: "byteset \<Rightarrow> u8 \<Rightarrow> byteset" where
  "BITOP_set A b = A(unat b div 64 := A (unat b div 64) OR bit_of b)"

definition BITOP_test :: "byteset \<Rightarrow> u8 \<Rightarrow> u64" where
  "BITOP_test A b = A (unat b div 64) AND bit_of b"

partial_function (option) byteset_fill :: "memory \<Rightarrow> ptr \<Rightarrow> byteset \<Rightarrow> byteset option" where
  "byteset_fill m c A = do {
     b \<leftarrow> hget m c;
     if b \<noteq> 0 then
       (let A = BITOP_set A b in if A (unat b div 64) \<noteq> 0 then byteset_fill m (c + 1) A else Some A)
     else Some A
   }"

partial_function (option) strspn_one :: "memory \<Rightarrow> ptr \<Rightarrow> ptr \<Rightarrow> ptr option" where
  "strspn_one m c s = do {
     a \<leftarrow> hget m s;
     b \<leftarrow> hget m c;
     if a = b then strspn_one m c (s + 1) else Some s
   }"

partial_function (option) span_loop :: "memory \<Rightarrow> bool \<Rightarrow> byteset \<Rightarrow> ptr \<Rightarrow> ptr option" where
  "span_loop m inside A s = do {
     b \<leftarrow> hget m s;
     if b \<noteq> 0 \<and> (BITOP_test A b \<noteq> 0) = inside then span_loop m inside A (s + 1) else Some s
   }"

definition strspn :: "memory \<Rightarrow> ptr \<Rightarrow> ptr \<Rightarrow> nat option" where
  "strspn m a c = do {
     c0 \<leftarrow> hget m c;
     if c0 = 0 then Some 0
     else do {
       c1 \<leftarrow> hget m (c + 1);
       if c1 = 0 then do { s \<leftarrow> strspn_one m c a; Some (s - a) }
       else do {
         A \<leftarrow> byteset_fill m c (\<lambda>_. 0);
         s \<leftarrow> span_loop m True A a;
         Some (s - a)
       }
     }
   }"

definition strcspn :: "memory \<Rightarrow> ptr \<Rightarrow> ptr \<Rightarrow> nat option" where
  "strcspn m a c = do {
     c0 \<leftarrow> hget m c;
     c1 \<leftarrow> (if c0 \<noteq> 0 then hget m (c + 1) else Some 0);
     if c0 \<noteq> 0 \<and> c1 \<noteq> 0 then do {
       A \<leftarrow> byteset_fill m c (\<lambda>_. 0);
       s \<leftarrow> span_loop m False A a;
       Some (s - a)
     } else do {
       s \<leftarrow> strchrnul m a (sint c0);
       Some (s - a)
     }
   }"

definition strpbrk :: "memory \<Rightarrow> ptr \<Rightarrow> ptr \<Rightarrow> ptr option" where
  "strpbrk m s b = do {
     n \<leftarrow> strcspn m s b;
     x \<leftarrow> hget m (s + n);
     Some (if x \<noteq> 0 then s + n else NULL)
   }"

definition lfind :: "memory \<Rightarrow> ptr \<Rightarrow> u8 \<Rightarrow> ptr option" where
  "lfind m str accept = strchr m str (sint accept)"

definition rfind :: "memory \<Rightarrow> ptr \<Rightarrow> u8 \<Rightarrow> ptr option" where
  "rfind m str accept = strrchr m str (sint accept)"

fun strncmp_loop :: "memory \<Rightarrow> ptr \<Rightarrow> ptr \<Rightarrow> nat \<Rightarrow> (ptr \<times> ptr) option" where
  "strncmp_loop m s1 s2 0 = Some (s1, s2)"
| "strncmp_loop m s1 s2 (Suc n) = do {
     a \<leftarrow> hget m s1;
     b \<leftarrow> hget m s2;
     if a = b then (if n = 0 \<or> a = 0 then Some (s1, s2) else strncmp_loop m (s1 + 1) (s2 + 1) n)
     else Some (s1, s2)
   }"

definition strncmp :: "memory \<Rightarrow> ptr \<Rightarrow> ptr \<Rightarrow> nat \<Rightarrow> int option" where
  "strncmp m s1 s2 n =
     (if n = 0 then Some 0
      else do {
        (s1, s2) \<leftarrow> strncmp_loop m s1 s2 n;
        a \<leftarrow> hget m s1;
        b \<leftarrow> hget m s2;
        Some (uint a - uint b)
      })"

partial_function (option) strcasecmp_loop :: "memory \<Rightarrow> ptr \<Rightarrow> ptr \<Rightarrow> (ptr \<times> ptr) option" where
  "strcasecmp_loop m s1 s2 = do {
     a \<leftarrow> hget m s1;
     b \<leftarrow> hget m s2;
     if tolower (sint a) = tolower (sint b) \<and> a \<noteq> 0 then strcasecmp_loop m (s1 + 1) (s2 + 1)
     else Some (s1, s2)
   }"

definition strcasecmp :: "memory \<Rightarrow> ptr \<Rightarrow> ptr \<Rightarrow> int option" where
  "strcasecmp m s1 s2 = do {
     (s1, s2) \<leftarrow> strcasecmp_loop m s1 s2;
     a \<leftarrow> hget m s1;
     b \<leftarrow> hget m s2;
     Some (uint a - uint b)
   }"

fun strncasecmp_loop :: "memory \<Rightarrow> ptr \<Rightarrow> ptr \<Rightarrow> nat \<Rightarrow> (ptr \<times> ptr) option" where
  "strncasecmp_loop m s1 s2 0 = Some (s1, s2)"
| "strncasecmp_loop m s1 s2 (Suc n) = do {
     a \<leftarrow> hget m s1;
     b \<leftarrow> hget m s2;
     if tolower (sint a) = tolower (sint b)
     then (if n = 0 \<or> a = 0 then Some (s1, s2) else strncasecmp_loop m (s1 + 1) (s2 + 1) n)
     else Some (s1, s2)
   }"

definition strncasecmp :: "memory \<Rightarrow> ptr \<Rightarrow> ptr \<Rightarrow> nat \<Rightarrow> int option" where
  "strncasecmp m s1 s2 n =
     (if n = 0 then Some 0
      else do {
        (s1, s2) \<leftarrow> strncasecmp_loop m s1 s2 n;
        a \<leftarrow> hget m s1;
        b \<leftarrow> hget m s2;
        Some (sint (of_int (tolower (sint a)) - of_int (tolower (sint b)) :: u32))
      })"

definition compare_strings :: "memory \<Rightarrow> ptr \<Rightarrow> ptr \<Rightarrow> int option" where
  "compare_strings m s0 s1 = do {
     n0 \<leftarrow> strlen m s0;
     n1 \<leftarrow> strlen m s1;
     if n0 \<noteq> n1 then Some (- 1) else strcmp m s0 s1
   }"

definition string_eq :: "memory \<Rightarrow> ptr \<Rightarrow> ptr \<Rightarrow> bool option" where
  "string_eq m str0 str1 = do { r \<leftarrow> compare_strings m str0 str1; Some (r = 0) }"

section \<open>Copying and joining\<close>

partial_function (option) strcpy_loop :: "memory \<Rightarrow> ptr \<Rightarrow> ptr \<Rightarrow> (memory \<times> ptr) option" where
  "strcpy_loop m d s = do {
     b \<leftarrow> hget m s;
     m \<leftarrow> hupd d (\<lambda>_. b) m;
     if b \<noteq> 0 then strcpy_loop m (d + 1) (s + 1) else Some (m, d)
   }"

definition strcpy :: "memory \<Rightarrow> ptr \<Rightarrow> ptr \<Rightarrow> memory option" where
  "strcpy m dest src = do { (m, _) \<leftarrow> strcpy_loop m dest src; Some m }"

partial_function (option) stpcpy_align :: "memory \<Rightarrow> ptr \<Rightarrow> ptr \<Rightarrow> ((memory \<times> ptr) + (memory \<times> ptr \<times> ptr)) option" where
  "stpcpy_align m d s =
     (if s mod 8 \<noteq> 0 then do {
        b \<leftarrow> hget m s;
        m \<leftarrow> hupd d (\<lambda>_. b) m;
        if b = 0 then Some (Inl (m, d)) else stpcpy_align m (d + 1) (s + 1)
      } else Some (Inr (m, d, s)))"

partial_function (option) stpcpy_words :: "memory \<Rightarrow> ptr \<Rightarrow> ptr \<Rightarrow> (memory \<times> ptr \<times> ptr) option" where
  "stpcpy_words m d s = do {
     x \<leftarrow> load64 m s;
     if HASZERO x = 0 then do {
       bs \<leftarrow> load_bytes m s 8;
       m \<leftarrow> store_bytes m d bs;
       stpcpy_words m (d + 8) (s + 8)
     } else Some (m, d, s)
   }"

definition stpcpy :: "memory \<Rightarrow> ptr \<Rightarrow> ptr \<Rightarrow> (memory \<times> ptr) option" where
  "stpcpy m d s =
     (if s mod 8 = d mod 8 then do {
        r \<leftarrow> stpcpy_align m d s;
        (case r of
           Inl (m, d) \<Rightarrow> Some (m, d)
         | Inr (m, d, s) \<Rightarrow> do {
             (m, d, s) \<leftarrow> stpcpy_words m d s;
             strcpy_loop m d s
           })
      } else strcpy_loop m d s)"

partial_function (option) strcat_loop :: "memory \<Rightarrow> ptr \<Rightarrow> ptr \<Rightarrow> (memory \<times> ptr) option" where
  "strcat_loop m e s = do {
     b \<leftarrow> hget m s;
     if b \<noteq> 0 then do { m \<leftarrow> hupd e (\<lambda>_. b) m; strcat_loop m (e + 1) (s + 1) } else Some (m, e)
   }"

definition strcat :: "memory \<Rightarrow> ptr \<Rightarrow> ptr \<Rightarrow> memory option" where
  "strcat m dest src = do {
     e \<leftarrow> strlen_bytes m dest;
     (m, e) \<leftarrow> strcat_loop m e src;
     hupd e (\<lambda>_. 0) m
   }"

fun strncat_loop :: "memory \<Rightarrow> ptr \<Rightarrow> ptr \<Rightarrow> nat \<Rightarrow> (memory \<times> ptr) option" where
  "strncat_loop m e s n = do {
     b \<leftarrow> hget m s;
     if b \<noteq> 0 \<and> 0 < n then do { m \<leftarrow> hupd e (\<lambda>_. b) m; strncat_loop m (e + 1) (s + 1) (n - 1) }
     else Some (m, e)
   }"

definition strncat :: "memory \<Rightarrow> ptr \<Rightarrow> ptr \<Rightarrow> nat \<Rightarrow> memory option" where
  "strncat m dest src n = do {
     e \<leftarrow> strlen_bytes m dest;
     (m, e) \<leftarrow> strncat_loop m e src n;
     hupd e (\<lambda>_. 0) m
   }"

fun strncpy_loop :: "memory \<Rightarrow> ptr \<Rightarrow> ptr \<Rightarrow> nat \<Rightarrow> (memory \<times> ptr \<times> nat) option" where
  "strncpy_loop m d s n =
     (if 0 < n then do {
        b \<leftarrow> hget m s;
        if b = 0 then Some (m, d, n)
        else do { m \<leftarrow> hupd d (\<lambda>_. b) m; strncpy_loop m (d + 1) (s + 1) (n - 1) }
      } else Some (m, d, n))"

text \<open>The padding loop of \<open>strncpy\<close> counts to \<open>(int)n\<close>.\<close>

definition size_to_int :: "nat \<Rightarrow> int" where
  "size_to_int n = sint (of_nat n :: u32)"

definition strncpy :: "memory \<Rightarrow> ptr \<Rightarrow> ptr \<Rightarrow> nat \<Rightarrow> (memory \<times> ptr) option" where
  "strncpy m dest src n = do {
     (m, out, n) \<leftarrow> strncpy_loop m dest src n;
     let k = nat (size_to_int n);
     m \<leftarrow> memset_loop m out [0] k;
     Some (m, out + k)
   }"

fun safestrncpy_loop :: "memory \<Rightarrow> ptr \<Rightarrow> ptr \<Rightarrow> nat \<Rightarrow> (memory \<times> ptr) option" where
  "safestrncpy_loop m s t 0 = Some (m, s)"
| "safestrncpy_loop m s t (Suc n) = do {
     b \<leftarrow> hget m t;
     m \<leftarrow> hupd s (\<lambda>_. b) m;
     if b \<noteq> 0 then safestrncpy_loop m (s + 1) (t + 1) n else Some (m, s + 1)
   }"

definition safestrncpy :: "memory \<Rightarrow> ptr \<Rightarrow> ptr \<Rightarrow> nat \<Rightarrow> memory option" where
  "safestrncpy m s t n =
     (if n = 0 then Some m
      else do {
        (m, s) \<leftarrow> safestrncpy_loop m s t (n - 1);
        hupd s (\<lambda>_. 0) m
      })"

section \<open>Splitting\<close>

text \<open>\<open>strtok_r\<close> returns the token (NULL at the end) and the new \<open>*saveptr\<close>.\<close>

definition strtok_r :: "memory \<Rightarrow> ptr \<Rightarrow> ptr \<Rightarrow> ptr \<Rightarrow> (ptr \<times> ptr \<times> memory) option" where
  "strtok_r m str delim saveptr = do {
     let str = (if str = NULL then saveptr else str);
     n \<leftarrow> strspn m str delim;
     let token = str + n;
     b \<leftarrow> hget m token;
     if b = 0 then Some (NULL, token, m)
     else do {
       e \<leftarrow> strpbrk m token delim;
       if e = NULL then do { sv \<leftarrow> lfind m token 0; Some (token, sv, m) }
       else do { m \<leftarrow> hupd e (\<lambda>_. 0) m; Some (token, e + 1, m) }
     }
   }"

text \<open>\<open>strtok\<close> keeps its \<open>saveptr\<close> in a static variable.\<close>

definition strtok :: "memory \<Rightarrow> ptr \<Rightarrow> ptr \<Rightarrow> ptr \<Rightarrow> (ptr \<times> ptr \<times> memory) option" where
  "strtok m str delim static_saveptr =
     strtok_r m str delim (if str \<noteq> NULL then NULL else static_saveptr)"

lemmas [simp del] = strncat_loop.simps strncpy_loop.simps

unbundle bit_operations_syntax

section \<open>Strings in memory\<close>

definition cstr :: "memory \<Rightarrow> ptr \<Rightarrow> u8 list \<Rightarrow> bool" where
  "cstr m p xs \<longleftrightarrow> 0 \<notin> set xs \<and> load_bytes m p (length xs + 1) = Some (xs @ [0])"

text \<open>Memory mapped in aligned words of eight bytes (as every page of memory is).\<close>

definition words_mapped :: "memory \<Rightarrow> bool" where
  "words_mapped m \<longleftrightarrow> (\<forall>a. hget m a \<noteq> None \<longrightarrow> mapped m (8 * (a div 8)) 8)"

lemma cstr_Nil [simp]: "cstr m p [] \<longleftrightarrow> hget m p = Some 0"
  by (auto simp: cstr_def split: bind_splits)

lemma cstr_Cons [simp]: "cstr m p (x # xs) \<longleftrightarrow> hget m p = Some x \<and> x \<noteq> 0 \<and> cstr m (p + 1) xs"
  by (auto simp: cstr_def split: bind_splits)

lemma cstr_drop: "cstr m p xs \<Longrightarrow> j \<le> length xs \<Longrightarrow> cstr m (p + j) (drop j xs)"
proof (induction xs arbitrary: p j)
  case (Cons x xs)
  then show ?case using Cons.IH [of "p + 1" "j - 1"] by (cases j) auto
qed simp

lemma cstr_append: "cstr m p (xs @ ys) \<Longrightarrow> cstr m (p + length xs) ys"
  using cstr_drop [of m p "xs @ ys" "length xs"] by simp

lemma cstr_nonzero: "cstr m p xs \<Longrightarrow> 0 \<notin> set xs"
  by (simp add: cstr_def)

lemma cstr_nth: "cstr m p xs \<Longrightarrow> i < length xs \<Longrightarrow> hget m (p + i) = Some (xs ! i)"
  using load_bytes_nth [of m p "length xs + 1" "xs @ [0]" i] by (simp add: cstr_def nth_append)

lemma cstr_end: "cstr m p xs \<Longrightarrow> hget m (p + length xs) = Some 0"
  using load_bytes_nth [of m p "length xs + 1" "xs @ [0]" "length xs"] by (simp add: cstr_def)

lemma cstr_unique: "cstr m p xs \<Longrightarrow> cstr m p ys \<Longrightarrow> xs = ys"
proof (induction xs arbitrary: p ys)
  case Nil
  then show ?case by (cases ys) auto
next
  case (Cons x xs)
  then show ?case by (cases ys) auto
qed

text \<open>The aligned word at the beginning of a string: it has no zero byte exactly if the
  string is longer than it.\<close>

lemma cstr_word:
  assumes "cstr m p xs" "words_mapped m" "p mod 8 = 0"
  obtains bs where "load_bytes m p 8 = Some bs" "0 \<in> set bs \<longleftrightarrow> length xs < 8"
    "8 \<le> length xs \<longrightarrow> bs = take 8 xs"
proof -
  have al: "8 * (p div 8) = p" using assms(3) by auto
  have "hget m p \<noteq> None" using assms(1) by (cases xs) auto
  then have "mapped m p 8" using assms(2) al by (metis words_mapped_def)
  then obtain bs where bs: "load_bytes m p 8 = Some bs" by (auto simp: mapped_load)
  have z: "0 \<notin> set xs" using cstr_nonzero [OF assms(1)] .
  have long: "bs = take 8 xs" if "8 \<le> length xs"
    using load_bytes_add(1) [of m p "length xs + 1" "xs @ [0]" 8] assms(1) bs that by (simp add: cstr_def)
  have short: "0 \<in> set bs" if "length xs < 8"
  proof -
    have "bs ! length xs = 0"
      using load_bytes_nth [OF bs that] cstr_end [OF assms(1)] by simp
    then show ?thesis using load_bytes_length [OF bs] that nth_mem [of "length xs" bs] by simp
  qed
  have "0 \<in> set bs \<longleftrightarrow> length xs < 8"
    using long short z by (cases "length xs < 8") (auto dest: in_set_takeD)
  then show thesis using bs long by (intro that) auto
qed

lemma first_pos_0: "0 \<notin> set xs \<Longrightarrow> first_pos 0 xs = length xs"
  by (induction xs) (auto simp: first_pos_def)

section \<open>Scanning finds what a byte loop would find\<close>

text \<open>The loops of \<open>strchrnul\<close>. Those of \<open>strlen\<close> are their instances for \<open>c = 0\<close>, except for
  the second word test, which is then redundant.\<close>

lemma strchrnul_align_ok:
  assumes "cstr m p xs"
  shows "strchrnul_align m c p = Some (Inl (p + first_pos c xs)) \<or>
    (\<exists>j\<le>first_pos c xs. (p + j) mod 8 = 0 \<and> strchrnul_align m c p = Some (Inr (p + j)))"
  using assms
proof (induction xs arbitrary: p)
  case Nil
  then show ?case by (auto simp: strchrnul_align.simps [of m c p] first_pos_def)
next
  case (Cons x xs)
  show ?case
  proof (cases "p mod 8 = 0 \<or> x = c")
    case True
    with Cons.prems show ?thesis by (auto simp: strchrnul_align.simps [of m c p] first_pos_Cons)
  next
    case False
    then have "strchrnul_align m c p = strchrnul_align m c (p + 1)"
      using Cons.prems by (simp add: strchrnul_align.simps [of m c p])
    with Cons.IH [of "p + 1"] Cons.prems False show ?thesis
      by (auto simp: first_pos_Cons intro: exI [of _ "Suc _"])
  qed
qed

lemma strchrnul_words_ok:
  assumes "cstr m p xs" "words_mapped m" "p mod 8 = 0"
  shows "\<exists>j\<le>first_pos c xs. strchrnul_words m (ONES * ucast c) p = Some (p + j)"
  using assms
proof (induction "length xs" arbitrary: p xs rule: less_induct)
  case less
  obtain bs where bs: "load_bytes m p 8 = Some bs" "0 \<in> set bs \<longleftrightarrow> length xs < 8"
    "8 \<le> length xs \<longrightarrow> bs = take 8 xs" by (rule cstr_word [OF less.prems])
  let ?k = "ONES * ucast c"
  have len: "length bs = 8" using load_bytes_length [OF bs(1)] .
  have step: "strchrnul_words m ?k p = (if 0 \<notin> set bs \<and> c \<notin> set bs then strchrnul_words m ?k (p + 8) else Some p)"
    using bs(1) HASZERO_iff [OF len] word_has_byte [OF len, of c]
    by (auto simp: strchrnul_words.simps [of m ?k p] load64_bytes)
  show ?case
  proof (cases "0 \<notin> set bs \<and> c \<notin> set bs")
    case True
    then have l8: "8 \<le> length xs" using bs(2) by simp
    have "\<exists>j\<le>first_pos c (drop 8 xs). strchrnul_words m ?k (p + 8) = Some (p + 8 + j)"
      using less.hyps [of "drop 8 xs" "p + 8"] l8 cstr_drop [OF less.prems(1) l8] less.prems by simp
    then obtain j where j: "j \<le> first_pos c (drop 8 xs)" "strchrnul_words m ?k (p + 8) = Some (p + 8 + j)"
      by blast
    have "first_pos c xs = 8 + first_pos c (drop 8 xs)"
      using first_pos_skip [of c 8 xs] True bs(3) l8 by simp
    with j True show ?thesis unfolding step by (intro exI [of _ "8 + j"]) (simp add: add.assoc)
  qed (use step in auto)
qed

lemma strchrnul_bytes_ok: "cstr m p xs \<Longrightarrow> strchrnul_bytes m c p = Some (p + first_pos c xs)"
proof (induction xs arbitrary: p)
  case Nil
  then show ?case by (simp add: strchrnul_bytes.simps [of m c p] first_pos_def)
next
  case (Cons x xs)
  then show ?case using Cons.IH [of "p + 1"] by (simp add: strchrnul_bytes.simps [of m c p] first_pos_Cons)
qed


lemma strlen_align_eq: "strlen_align m p = strchrnul_align m 0 p" if "cstr m p xs" for p
  using that
proof (induction xs arbitrary: p)
  case Nil
  then show ?case by (simp add: strchrnul_align.simps [of m 0 p] strlen_align.simps [of m p])
next
  case (Cons x xs)
  then show ?case by (simp add: strchrnul_align.simps [of m 0 p] strlen_align.simps [of m p])
qed

lemma strlen_words_ok:
  assumes "cstr m p xs" "words_mapped m" "p mod 8 = 0"
  shows "\<exists>j\<le>length xs. strlen_words m p = Some (p + j)"
  using assms
proof (induction "length xs" arbitrary: p xs rule: less_induct)
  case less
  obtain bs where bs: "load_bytes m p 8 = Some bs" "0 \<in> set bs \<longleftrightarrow> length xs < 8"
    by (rule cstr_word [OF less.prems])
  have len: "length bs = 8" using load_bytes_length [OF bs(1)] .
  have step: "strlen_words m p = (if length xs < 8 then Some p else strlen_words m (p + 8))"
    using bs HASZERO_iff [OF len] by (auto simp: strlen_words.simps [of m p] load64_bytes)
  show ?case
  proof (cases "length xs < 8")
    case False
    then have "\<exists>j\<le>length (drop 8 xs). strlen_words m (p + 8) = Some (p + 8 + j)"
      using less.hyps [of "drop 8 xs" "p + 8"] cstr_drop [OF less.prems(1), of 8] less.prems by simp
    then obtain j where "j \<le> length xs - 8" "strlen_words m (p + 8) = Some (p + 8 + j)" by auto
    with False show ?thesis unfolding step by (intro exI [of _ "8 + j"]) (simp add: add.assoc)
  qed (use step in auto)
qed

lemma strlen_bytes_ok: "cstr m p xs \<Longrightarrow> strlen_bytes m p = Some (p + length xs)"
proof (induction xs arbitrary: p)
  case Nil
  then show ?case by (simp add: strlen_bytes.simps [of m p])
next
  case (Cons x xs)
  then show ?case using Cons.IH [of "p + 1"] by (simp add: strlen_bytes.simps [of m p])
qed

lemma strlen_ok:
  assumes "cstr m p xs" "words_mapped m"
  shows "strlen m p = Some (length xs)"
proof -
  have f: "first_pos 0 xs = length xs" using first_pos_0 [OF cstr_nonzero [OF assms(1)]] .
  note eq = strlen_align_eq [OF assms(1)]
  from strchrnul_align_ok [OF assms(1), of 0] show ?thesis
  proof (elim disjE exE conjE)
    assume "strchrnul_align m 0 p = Some (Inl (p + first_pos 0 xs))"
    with eq f show ?thesis by (simp add: strlen_def)
  next
    fix j assume j: "j \<le> first_pos 0 xs" "(p + j) mod 8 = 0" "strchrnul_align m 0 p = Some (Inr (p + j))"
    have jl: "j \<le> length xs" using j(1) f by simp
    note d = cstr_drop [OF assms(1) jl]
    from strlen_words_ok [OF d assms(2) j(2)] obtain k
      where k: "k \<le> length (drop j xs)" "strlen_words m (p + j) = Some (p + j + k)" by blast
    have "strlen_bytes m (p + j + k) = Some (p + length xs)"
      using strlen_bytes_ok [OF cstr_drop [OF d k(1)]] k(1) jl by simp
    with j k eq show ?thesis by (simp add: strlen_def)
  qed
qed

lemma strchrnul_ok:
  assumes "cstr m p xs" "words_mapped m"
  shows "strchrnul m p c = Some (p + first_pos (to_u8 c) xs)"
proof (cases "to_u8 c = 0")
  case True
  have "first_pos 0 xs = length xs" using first_pos_0 [OF cstr_nonzero [OF assms(1)]] .
  with True strlen_ok [OF assms] show ?thesis by (simp add: strchrnul_def)
next
  case False
  let ?c = "to_u8 c"
  from strchrnul_align_ok [OF assms(1), of ?c] show ?thesis
  proof (elim disjE exE conjE)
    assume "strchrnul_align m ?c p = Some (Inl (p + first_pos ?c xs))"
    with False show ?thesis by (simp add: strchrnul_def)
  next
    fix j assume j: "j \<le> first_pos ?c xs" "(p + j) mod 8 = 0" "strchrnul_align m ?c p = Some (Inr (p + j))"
    have jl: "j \<le> length xs" using j(1) first_pos_le [of ?c xs] by simp
    note d = cstr_drop [OF assms(1) jl]
    from strchrnul_words_ok [OF d assms(2) j(2), of ?c] obtain k
      where k: "k \<le> first_pos ?c (drop j xs)" "strchrnul_words m (ONES * ucast ?c) (p + j) = Some (p + j + k)"
      by blast
    have kl: "k \<le> length (drop j xs)" using k(1) first_pos_le [of ?c "drop j xs"] by simp
    have "first_pos ?c (drop k (drop j xs)) = first_pos ?c xs - j - k"
      using first_pos_drop [OF k(1)] first_pos_drop [OF j(1)] by simp
    moreover have "k \<le> first_pos ?c xs - j" using k(1) first_pos_drop [OF j(1)] by simp
    ultimately have "strchrnul_bytes m ?c (p + j + k) = Some (p + first_pos ?c xs)"
      using strchrnul_bytes_ok [OF cstr_drop [OF d kl], of ?c] j(1) by simp
    with False j k show ?thesis by (simp add: strchrnul_def)
  qed
qed


lemma to_u8_sint [simp]: "to_u8 (sint b) = b"
  by (simp add: to_u8_def)

lemma strchr_ok:
  assumes "cstr m p xs" "words_mapped m"
  shows "strchr m p c = Some (if to_u8 c \<in> set (xs @ [0]) then p + first_pos (to_u8 c) xs else NULL)"
proof -
  let ?c = "to_u8 c"
  have "hget m (p + first_pos ?c xs) = Some (if ?c \<in> set xs then ?c else 0)"
    using assms(1)
  proof (induction xs arbitrary: p)
    case (Cons x xs)
    then show ?case using Cons.IH [of "p + 1"] by (auto simp: first_pos_Cons)
  qed (simp add: first_pos_def)
  then show ?thesis using strchrnul_ok [OF assms] by (auto simp: strchr_def)
qed

lemma strrchr_ok:
  assumes "cstr m p xs" "words_mapped m"
  shows "strrchr m p c =
    Some (if to_u8 c \<in> set (xs @ [0]) then p + (length xs - first_pos (to_u8 c) (0 # rev xs)) else NULL)"
  using memrchr_ok [of m p "length xs + 1" "xs @ [0]" c] strlen_ok [OF assms] assms(1)
  by (auto simp: strrchr_def cstr_def)

lemma strcmp_ok: "cstr m p xs \<Longrightarrow> cstr m q ys \<Longrightarrow> strcmp m p q = Some (byte_diff (xs @ [0]) (ys @ [0]))"
proof (induction xs arbitrary: p q ys)
  case Nil
  then show ?case by (cases ys) (auto simp: strcmp_def strcmp_loop.simps [of m p q])
next
  case (Cons x xs)
  show ?case
  proof (cases ys)
    case Nil
    with Cons.prems show ?thesis by (auto simp: strcmp_def strcmp_loop.simps [of m p q])
  next
    case (Cons y ys')
    with Cons.prems Cons.IH [of "p + 1" "q + 1" ys'] show ?thesis
      by (auto simp: strcmp_def strcmp_loop.simps [of m p q])
  qed
qed

lemma strncmp_ok:
  "cstr m p xs \<Longrightarrow> cstr m q ys \<Longrightarrow>
    strncmp m p q n = Some (byte_diff (take n (xs @ [0])) (take n (ys @ [0])))"
proof (induction n arbitrary: p q xs ys)
  case 0
  then show ?case by (simp add: strncmp_def)
next
  case (Suc n)
  show ?case
  proof (cases "xs = [] \<or> ys = []")
    case True
    then show ?thesis using Suc.prems by (cases xs; cases ys) (auto simp: strncmp_def)
  next
    case False
    then obtain x xs' y ys' where e: "xs = x # xs'" "ys = y # ys'" by (auto simp: neq_Nil_conv)
    then show ?thesis using Suc.prems Suc.IH [of "p + 1" xs' "q + 1" ys'] by (cases n) (auto simp: strncmp_def)
  qed
qed

lemma u8_pos: "a \<noteq> 0 \<Longrightarrow> 0 < uint a" for a :: u8
  using uint_0_iff [of a] unsigned_greater_eq [of a] by (simp add: order_less_le)

text \<open>The sign of the first difference is the lexicographic order, with the end of a string
  below every character.\<close>

lemma byte_diff_lex:
  "0 \<notin> set xs \<Longrightarrow> 0 \<notin> set ys \<Longrightarrow>
    (byte_diff (xs @ [0]) (ys @ [0]) = 0 \<longleftrightarrow> xs = ys) \<and>
    (byte_diff (xs @ [0]) (ys @ [0]) < 0 \<longleftrightarrow> (xs, ys) \<in> lexord {(a, b). a < b})"
proof (induction xs arbitrary: ys)
  case Nil
  then show ?case by (cases ys) (auto simp: u8_pos dest: u8_pos)
next
  case (Cons x xs)
  then show ?case
    by (cases ys) (auto simp: word_less_def word_uint_eq_iff dest: u8_pos)
qed

unbundle bit_operations_syntax

section \<open>Spans\<close>

lemma bit_of_iff: "bit (bit_of b) n \<longleftrightarrow> n = unat b mod 64"
  by (auto simp: bit_of_def bit_exp_iff)

lemma BITOP_test_iff: "BITOP_test A b \<noteq> 0 \<longleftrightarrow> bit (A (unat b div 64)) (unat b mod 64)"
  using bit_eq_iff [of "BITOP_test A b" 0] bit_imp_le_length [of "A (unat b div 64)"]
  by (auto simp: BITOP_test_def bit_and_iff bit_of_iff)

lemma BITOP_test_set: "BITOP_test (BITOP_set A a) b \<noteq> 0 \<longleftrightarrow> a = b \<or> BITOP_test A b \<noteq> 0"
proof -
  have "unat a div 64 = unat b div 64 \<and> unat b mod 64 = unat a mod 64 \<longleftrightarrow> a = b"
    by (metis div_mult_mod_eq unsigned_word_eqI)
  then show ?thesis
    unfolding BITOP_test_iff by (auto simp: BITOP_set_def bit_or_iff bit_of_iff)
qed

lemma BITOP_set_nonzero: "BITOP_set A b (unat b div 64) \<noteq> 0"
proof -
  have "bit (BITOP_set A b (unat b div 64)) (unat b mod 64)"
    by (simp add: BITOP_set_def bit_or_iff bit_of_iff)
  then show ?thesis by auto
qed

lemma byteset_fill_ok:
  assumes "cstr m c ds"
  obtains A' where "byteset_fill m c A = Some A'"
    "\<forall>b. BITOP_test A' b \<noteq> 0 \<longleftrightarrow> b \<in> set ds \<or> BITOP_test A b \<noteq> 0"
proof -
  have "\<exists>A'. byteset_fill m c A = Some A' \<and> (\<forall>b. BITOP_test A' b \<noteq> 0 \<longleftrightarrow> b \<in> set ds \<or> BITOP_test A b \<noteq> 0)"
    using assms
  proof (induction ds arbitrary: c A)
    case Nil
    then show ?case by (simp add: byteset_fill.simps [of m c])
  next
    case (Cons d ds)
    then show ?case
      using Cons.IH [of "c + 1" "BITOP_set A d"] BITOP_set_nonzero [of A d]
      by (auto simp: byteset_fill.simps [of m c] BITOP_test_set Let_def)
  qed
  then show thesis using that by blast
qed

definition span_len :: "(u8 \<Rightarrow> bool) \<Rightarrow> u8 list \<Rightarrow> nat" where
  "span_len P xs = length (takeWhile P xs)"

lemma span_loop_ok:
  assumes "cstr m p xs" "\<forall>b. BITOP_test A b \<noteq> 0 \<longleftrightarrow> b \<in> D"
  shows "span_loop m inside A p = Some (p + span_len (\<lambda>b. (b \<in> D) = inside) xs)"
  using assms(1)
proof (induction xs arbitrary: p)
  case Nil
  then show ?case by (simp add: span_loop.simps [of m inside A p] span_len_def)
next
  case (Cons x xs)
  then show ?case
    using Cons.IH [of "p + 1"] assms(2) by (simp add: span_loop.simps [of m inside A p] span_len_def)
qed

lemma strspn_one_ok:
  assumes "hget m c = Some d" "d \<noteq> 0" "cstr m p xs"
  shows "strspn_one m c p = Some (p + span_len (\<lambda>b. b = d) xs)"
  using assms(3)
proof (induction xs arbitrary: p)
  case Nil
  then show ?case using assms(1,2) by (simp add: strspn_one.simps [of m c p] span_len_def)
next
  case (Cons x xs)
  then show ?case using Cons.IH [of "p + 1"] assms(1) by (simp add: strspn_one.simps [of m c p] span_len_def)
qed

lemma BITOP_test_empty: "BITOP_test (\<lambda>_. 0) b = 0"
  by (simp add: BITOP_test_def)

lemma strspn_ok:
  assumes "cstr m p xs" "cstr m c ds"
  shows "strspn m p c = Some (span_len (\<lambda>b. b \<in> set ds) xs)"
proof -
  obtain A where A: "byteset_fill m c (\<lambda>_. 0) = Some A" "\<forall>b. BITOP_test A b \<noteq> 0 \<longleftrightarrow> b \<in> set ds"
    using byteset_fill_ok [OF assms(2), of "\<lambda>_. 0"] BITOP_test_empty by metis
  consider "ds = []" | d where "ds = [d]" | d e es where "ds = d # e # es"
    by (cases ds; cases "tl ds") auto
  then show ?thesis
  proof cases
    case 1
    then show ?thesis using assms by (cases xs) (auto simp: strspn_def span_len_def)
  next
    case (2 d)
    then show ?thesis using assms strspn_one_ok [of m c d p xs] by (simp add: strspn_def)
  next
    case (3 d e es)
    then show ?thesis using assms A(1) span_loop_ok [OF assms(1) A(2), of True] by (simp add: strspn_def)
  qed
qed

lemma strcspn_ok:
  assumes "cstr m p xs" "cstr m c ds" "words_mapped m"
  shows "strcspn m p c = Some (span_len (\<lambda>b. b \<notin> set ds) xs)"
proof -
  obtain A where A: "byteset_fill m c (\<lambda>_. 0) = Some A" "\<forall>b. BITOP_test A b \<noteq> 0 \<longleftrightarrow> b \<in> set ds"
    using byteset_fill_ok [OF assms(2), of "\<lambda>_. 0"] BITOP_test_empty by metis
  have z: "span_len (\<lambda>b. b \<noteq> 0) xs = length xs"
    using first_pos_0 [OF cstr_nonzero [OF assms(1)]] by (simp add: span_len_def first_pos_def)
  have all: "takeWhile (\<lambda>b. True) xs = xs" by (induction xs) auto
  note nul = strchrnul_ok [OF assms(1,3)]
  consider "ds = []" | d where "ds = [d]" | d e es where "ds = d # e # es"
    by (cases ds; cases "tl ds") auto
  then show ?thesis
  proof cases
    case 1
    then show ?thesis using assms nul [of 0] z
      by (simp add: strcspn_def to_u8_def first_pos_def span_len_def all)
  next
    case (2 d)
    then show ?thesis using assms nul [of "sint d"] by (simp add: strcspn_def first_pos_def span_len_def)
  next
    case (3 d e es)
    then show ?thesis using assms A(1) span_loop_ok [OF assms(1) A(2), of False] by (simp add: strcspn_def)
  qed
qed

lemma span_at: "cstr m p xs \<Longrightarrow> hget m (p + span_len P xs) = Some ((xs @ [0]) ! span_len P xs)"
proof (induction xs arbitrary: p)
  case (Cons x xs)
  then show ?case using Cons.IH [of "p + 1"] by (auto simp: span_len_def)
qed (simp add: span_len_def)

lemma strpbrk_ok:
  assumes "cstr m p xs" "cstr m c ds" "words_mapped m"
  shows "strpbrk m p c =
    Some (if set xs \<inter> set ds = {} then NULL else p + span_len (\<lambda>b. b \<notin> set ds) xs)"
proof -
  let ?n = "span_len (\<lambda>b. b \<notin> set ds) xs"
  have "(xs @ [0]) ! ?n = 0 \<longleftrightarrow> set xs \<inter> set ds = {}"
    using cstr_nonzero [OF assms(1)] by (induction xs) (auto simp: span_len_def)
  then show ?thesis
    using strcspn_ok [OF assms] span_at [OF assms(1)] by (simp add: strpbrk_def)
qed

lemma compare_strings_ok:
  assumes "cstr m p xs" "cstr m q ys" "words_mapped m"
  shows "compare_strings m p q = Some (if length xs \<noteq> length ys then - 1 else byte_diff (xs @ [0]) (ys @ [0]))"
  using strlen_ok [OF assms(1,3)] strlen_ok [OF assms(2,3)] strcmp_ok [OF assms(1,2)]
  by (simp add: compare_strings_def)

lemma string_eq_ok:
  assumes "cstr m p xs" "cstr m q ys" "words_mapped m"
  shows "string_eq m p q = Some (xs = ys)"
  using compare_strings_ok [OF assms] byte_diff_lex [of xs ys] assms(1,2)
  by (auto simp: string_eq_def cstr_nonzero)

unbundle bit_operations_syntax

section \<open>Copies\<close>

lemma cstr_put_other:
  "q + length bs \<le> p \<or> p + length xs < q \<Longrightarrow> cstr (put_bytes m q bs) p xs = cstr m p xs"
  using load_bytes_put_other [of q bs p "length xs + 1" m] by (auto simp: cstr_def)

lemma cstr_put: "mapped m p (length xs + 1) \<Longrightarrow> 0 \<notin> set xs \<Longrightarrow> cstr (put_bytes m p (xs @ [0])) p xs"
  using load_bytes_put_same [of m p "xs @ [0]"] by (simp add: cstr_def)

lemma hget_None_put: "mapped m q (length bs) \<Longrightarrow> hget (put_bytes m q bs) a = None \<longleftrightarrow> hget m a = None"
  by (auto simp: hget_put_bytes mapped_def dest: spec [of _ "a - q"])

lemma words_mapped_put:
  "words_mapped m \<Longrightarrow> mapped m q (length bs) \<Longrightarrow> words_mapped (put_bytes m q bs)"
  by (auto simp: words_mapped_def hget_None_put mapped_def [of "put_bytes m q bs"] mapped_def [of m "8 * _"])

lemma hupd_put: "hget m d \<noteq> None \<Longrightarrow> hupd d (\<lambda>_. b) m = Some (put_bytes m d [b])"
  by (auto simp: hupd_def put_bytes_Cons)

text \<open>A string to be copied to a separate place, and what is left of it after a piece.\<close>

definition str_copy :: "memory \<Rightarrow> ptr \<Rightarrow> ptr \<Rightarrow> u8 list \<Rightarrow> bool" where
  "str_copy m d s xs \<longleftrightarrow> cstr m s xs \<and> mapped m d (length xs + 1) \<and>
     (d + length xs < s \<or> s + length xs < d)"

lemma str_copy_drop:
  assumes "str_copy m d s xs" "k \<le> length xs"
  shows "str_copy (put_bytes m d (take k xs)) (d + k) (s + k) (drop k xs)"
    "store_bytes m d (take k xs) = Some (put_bytes m d (take k xs))"
proof -
  have l: "length (take k xs) = k" using assms(2) by simp
  have mp: "mapped m d k" "mapped m (d + k) (length (drop k xs) + 1)"
    using assms mapped_add [of m d k "length xs - k + 1"] by (auto simp: str_copy_def)
  have "cstr (put_bytes m d (take k xs)) (s + k) (drop k xs)"
    using assms cstr_drop [of m s xs k] l cstr_put_other [of d "take k xs" "s + k" "drop k xs" m]
    by (auto simp: str_copy_def)
  with mp assms show "str_copy (put_bytes m d (take k xs)) (d + k) (s + k) (drop k xs)"
    by (auto simp: str_copy_def)
  show "store_bytes m d (take k xs) = Some (put_bytes m d (take k xs))"
    using store_bytes_ok mp(1) l by simp
qed

lemma str_copy_step:
  assumes "str_copy m d s (x # xs)"
  shows "hget m s = Some x" "x \<noteq> 0" "hupd d (\<lambda>_. x) m = Some (put_bytes m d [x])"
    "str_copy (put_bytes m d [x]) (d + 1) (s + 1) xs"
  using str_copy_drop [OF assms, of 1] assms mapped_Suc [of m d "length xs + 1"]
  by (auto simp: str_copy_def intro: hupd_put)

lemma str_copy_end:
  assumes "str_copy m d s []"
  shows "hget m s = Some 0" "hupd d (\<lambda>_. 0) m = Some (put_bytes m d [0])"
  using assms mapped_Suc [of m d 0] by (auto simp: str_copy_def intro: hupd_put)

lemma put_bytes_more: "put_bytes (put_bytes m d [x]) (d + 1) ys = put_bytes m d (x # ys)"
  by (simp add: put_bytes_Cons)

lemma strcpy_loop_ok:
  "str_copy m d s xs \<Longrightarrow> strcpy_loop m d s = Some (put_bytes m d (xs @ [0]), d + length xs)"
proof (induction xs arbitrary: m d s)
  case Nil
  then show ?case using str_copy_end [OF Nil] by (simp add: strcpy_loop.simps [of m d s])
next
  case (Cons x xs)
  note st = str_copy_step [OF Cons.prems]
  show ?case
    using st Cons.IH [OF st(4)] put_bytes_more [of m d x] by (simp add: strcpy_loop.simps [of m d s])
qed

lemma stpcpy_align_ok:
  "str_copy m d s xs \<Longrightarrow>
    stpcpy_align m d s = Some (Inl (put_bytes m d (xs @ [0]), d + length xs)) \<or>
    (\<exists>j\<le>length xs. (s + j) mod 8 = 0 \<and> stpcpy_align m d s = Some (Inr (put_bytes m d (take j xs), d + j, s + j)))"
proof (induction xs arbitrary: m d s)
  case Nil
  then show ?case using str_copy_end [OF Nil] by (auto simp: stpcpy_align.simps [of m d s])
next
  case (Cons x xs)
  note st = str_copy_step [OF Cons.prems]
  show ?case
  proof (cases "s mod 8 = 0")
    case True
    then show ?thesis by (intro disjI2 exI [of _ 0]) (simp add: stpcpy_align.simps [of m d s])
  next
    case False
    then have step: "stpcpy_align m d s = stpcpy_align (put_bytes m d [x]) (d + 1) (s + 1)"
      using st by (simp add: stpcpy_align.simps [of m d s])
    from Cons.IH [OF st(4)] show ?thesis
    proof (elim disjE exE conjE)
      assume "stpcpy_align (put_bytes m d [x]) (d + 1) (s + 1) =
        Some (Inl (put_bytes (put_bytes m d [x]) (d + 1) (xs @ [0]), d + 1 + length xs))"
      then show ?thesis unfolding step put_bytes_more by simp
    next
      fix j assume "j \<le> length xs" "(s + 1 + j) mod 8 = 0"
        "stpcpy_align (put_bytes m d [x]) (d + 1) (s + 1) =
          Some (Inr (put_bytes (put_bytes m d [x]) (d + 1) (take j xs), d + 1 + j, s + 1 + j))"
      then show ?thesis unfolding step put_bytes_more by (intro disjI2 exI [of _ "Suc j"]) simp
    qed
  qed
qed

lemma stpcpy_words_ok:
  assumes "str_copy m d s xs" "words_mapped m" "s mod 8 = 0"
  shows "\<exists>j\<le>length xs. stpcpy_words m d s = Some (put_bytes m d (take j xs), d + j, s + j)"
  using assms
proof (induction "length xs" arbitrary: m d s xs rule: less_induct)
  case less
  have cs: "cstr m s xs" using less.prems(1) by (simp add: str_copy_def)
  obtain bs where bs: "load_bytes m s 8 = Some bs" "0 \<in> set bs \<longleftrightarrow> length xs < 8"
    "8 \<le> length xs \<longrightarrow> bs = take 8 xs" by (rule cstr_word [OF cs less.prems(2,3)])
  have hz: "HASZERO (of_nat (le_nat bs)) = 0 \<longleftrightarrow> 8 \<le> length xs"
    using HASZERO_iff [of bs] load_bytes_length [OF bs(1)] bs(2) by auto
  show ?case
  proof (cases "8 \<le> length xs")
    case False
    with bs(1) hz have "stpcpy_words m d s = Some (m, d, s)"
      by (simp add: stpcpy_words.simps [of m d s] load64_bytes)
    then show ?thesis by (intro exI [of _ 0]) simp
  next
    case True
    let ?m = "put_bytes m d (take 8 xs)"
    note dr = str_copy_drop [OF less.prems(1) True]
    have step: "stpcpy_words m d s = stpcpy_words ?m (d + 8) (s + 8)"
      using bs hz True dr(2) by (simp add: stpcpy_words.simps [of m d s] load64_bytes)
    have "mapped m d (length (take 8 xs))"
      using less.prems(1) True mapped_add [of m d 8 "length xs - 7"] by (simp add: str_copy_def)
    then have "words_mapped ?m" using words_mapped_put less.prems(2) by simp
    then have "\<exists>j\<le>length (drop 8 xs). stpcpy_words ?m (d + 8) (s + 8) =
        Some (put_bytes ?m (d + 8) (take j (drop 8 xs)), d + 8 + j, s + 8 + j)"
      using less.hyps [OF _ dr(1)] True less.prems(3) by simp
    then obtain j where j: "j \<le> length xs - 8" "stpcpy_words ?m (d + 8) (s + 8) =
        Some (put_bytes ?m (d + 8) (take j (drop 8 xs)), d + 8 + j, s + 8 + j)" by auto
    have "put_bytes ?m (d + 8) (take j (drop 8 xs)) = put_bytes m d (take (8 + j) xs)"
      using put_take_drop [of 8 "take (8 + j) xs" m d] True j(1) by (simp add: min_def drop_take)
    with j True show ?thesis unfolding step by (intro exI [of _ "8 + j"]) (simp add: add.assoc)
  qed
qed

lemma stpcpy_ok:
  assumes "str_copy m d s xs" "words_mapped m"
  shows "stpcpy m d s = Some (put_bytes m d (xs @ [0]), d + length xs)"
proof (cases "s mod 8 = d mod 8")
  case False
  then show ?thesis using strcpy_loop_ok [OF assms(1)] by (simp add: stpcpy_def)
next
  case True
  have join: "put_bytes (put_bytes m d (take j xs)) (d + j) (drop j xs @ [0]) = put_bytes m d (xs @ [0])"
    if "j \<le> length xs" for j m d xs
    using put_take_drop [of j "xs @ [0]" m d] that by simp
  have words: "do { (m, d, s) \<leftarrow> stpcpy_words m d s; strcpy_loop m d s } = Some (put_bytes m d (xs @ [0]), d + length xs)"
    if c: "str_copy m d s xs" "words_mapped m" "s mod 8 = 0" for m d s xs
    using stpcpy_words_ok [OF c] strcpy_loop_ok [OF str_copy_drop(1) [OF c(1)]] by (auto simp: join)
  from stpcpy_align_ok [OF assms(1)] show ?thesis
  proof (elim disjE exE conjE)
    assume "stpcpy_align m d s = Some (Inl (put_bytes m d (xs @ [0]), d + length xs))"
    with True show ?thesis by (simp add: stpcpy_def)
  next
    fix j assume j: "j \<le> length xs" "(s + j) mod 8 = 0"
      "stpcpy_align m d s = Some (Inr (put_bytes m d (take j xs), d + j, s + j))"
    have "mapped m d (length (take j xs))"
      using assms(1) j(1) mapped_add [of m d j "length xs - j + 1"] by (simp add: str_copy_def)
    then have "words_mapped (put_bytes m d (take j xs))" using words_mapped_put assms(2) by blast
    from words [OF str_copy_drop(1) [OF assms(1) j(1)] this j(2)] True j show ?thesis
      by (simp add: stpcpy_def join)
  qed
qed

unbundle bit_operations_syntax

lemma strcat_loop_ok:
  "str_copy m e s ys \<Longrightarrow> strcat_loop m e s = Some (put_bytes m e ys, e + length ys)"
proof (induction ys arbitrary: m e s)
  case Nil
  then show ?case using str_copy_end [OF Nil] by (simp add: strcat_loop.simps [of m e s])
next
  case (Cons y ys)
  note st = str_copy_step [OF Cons.prems]
  show ?case
    using st Cons.IH [OF st(4)] put_bytes_more [of m e y] by (simp add: strcat_loop.simps [of m e s])
qed

lemma put_bytes_snoc: "put_bytes m e (ys @ [b]) = put_bytes (put_bytes m e ys) (e + length ys) [b]"
  by (rule put_bytes_append)

lemma strcat_ok:
  assumes "cstr m d xs" "str_copy m (d + length xs) s ys"
  shows "strcat m d s = Some (put_bytes m (d + length xs) (ys @ [0]))"
proof -
  let ?e = "d + length xs"
  have "hget (put_bytes m ?e ys) (?e + length ys) \<noteq> None"
    using assms(2) mapped_add [of m ?e "length ys" 1]
    by (auto simp: str_copy_def mapped_def hget_put_bytes dest: spec [of _ "length ys"])
  then have "hupd (?e + length ys) (\<lambda>_. 0) (put_bytes m ?e ys) = Some (put_bytes m ?e (ys @ [0]))"
    using hupd_put put_bytes_snoc by simp
  then show ?thesis
    using strlen_bytes_ok [OF assms(1)] strcat_loop_ok [OF assms(2)] by (simp add: strcat_def)
qed

lemma cstr_append_put:
  assumes "cstr m d xs" "cstr (put_bytes m (d + length xs) (ys @ [0])) (d + length xs) ys"
  shows "cstr (put_bytes m (d + length xs) (ys @ [0])) d (xs @ ys)"
proof -
  let ?m = "put_bytes m (d + length xs) (ys @ [0])"
  have "load_bytes ?m d (length xs) = Some xs"
    using load_bytes_put_other [of "d + length xs" "ys @ [0]" d "length xs" m]
      load_bytes_add(1) [of m d "length xs + 1" "xs @ [0]" "length xs"] assms(1) by (simp add: cstr_def)
  then have "(\<forall>i<length xs. hget ?m (d + i) = Some (xs ! i))" by (simp add: load_bytes_iff)
  then show ?thesis
    using assms(2) cstr_nonzero [OF assms(1)]
  proof (induction xs arbitrary: d)
    case (Cons x xs)
    from Cons.prems show ?case
      using Cons.IH [of "d + 1"] by (auto simp: All_less_Suc2)
  qed simp
qed

lemma strncpy_loop_ok:
  assumes "cstr m s xs" "mapped m d (min n (length xs))" "d + n \<le> s \<or> s + length xs < d"
  shows "strncpy_loop m d s n = Some (put_bytes m d (take n xs), d + min n (length xs), n - length xs)"
  using assms
proof (induction n arbitrary: m d s xs)
  case 0
  then show ?case by (simp add: strncpy_loop.simps)
next
  case (Suc n)
  show ?case
  proof (cases xs)
    case Nil
    with Suc.prems show ?thesis by (simp add: strncpy_loop.simps [of m d s])
  next
    case (Cons x ys)
    let ?m = "put_bytes m d [x]"
    have mp: "hget m d \<noteq> None" "mapped m (d + 1) (min n (length ys))"
      using Suc.prems(2) Cons by (auto simp: mapped_Suc)
    have "cstr ?m (s + 1) ys"
      using cstr_put_other [of d "[x]" "s + 1" ys m] Suc.prems Cons by auto
    then have "strncpy_loop ?m (d + 1) (s + 1) n =
        Some (put_bytes ?m (d + 1) (take n ys), d + 1 + min n (length ys), n - length ys)"
      using Suc.IH [of ?m "s + 1" ys "d + 1"] mp(2) Suc.prems(3) Cons by auto
    then show ?thesis
      using Suc.prems(1) Cons hupd_put [OF mp(1)] put_bytes_more [of m d x]
      by (simp add: strncpy_loop.simps [of m d s])
  qed
qed

lemma safestrncpy_loop_ok:
  assumes "cstr m s xs" "mapped m d n" "d + n \<le> s \<or> s + length xs < d"
  shows "safestrncpy_loop m d s n =
    Some (put_bytes m d (take n (xs @ [0])), d + min n (length xs + 1))"
  using assms
proof (induction n arbitrary: m d s xs)
  case (Suc n)
  have mp: "hget m d \<noteq> None" "mapped m (d + 1) n" using Suc.prems(2) by (auto simp: mapped_Suc)
  show ?case
  proof (cases xs)
    case Nil
    with Suc.prems show ?thesis using hupd_put [OF mp(1)] by simp
  next
    case (Cons x ys)
    let ?m = "put_bytes m d [x]"
    have "cstr ?m (s + 1) ys"
      using cstr_put_other [of d "[x]" "s + 1" ys m] Suc.prems Cons by auto
    then have "safestrncpy_loop ?m (d + 1) (s + 1) n =
        Some (put_bytes ?m (d + 1) (take n (ys @ [0])), d + 1 + min n (length ys + 1))"
      using Suc.IH [of ?m "s + 1" ys "d + 1"] mp(2) Suc.prems(3) Cons by auto
    then show ?thesis
      using Suc.prems(1) Cons hupd_put [OF mp(1)] put_bytes_more [of m d x] by simp
  qed
qed simp

text \<open>Writing the terminating zero; a shorter source leaves two of them.\<close>

lemma safestrncpy_ok:
  assumes "cstr m s xs" "mapped m d n" "0 < n" "d + n \<le> s \<or> s + length xs < d"
  shows "safestrncpy m d s n = Some (put_bytes m d (take (n - 1) (xs @ [0]) @ [0]))"
proof -
  have l: "length (take (n - 1) (xs @ [0])) = min (n - 1) (length xs + 1)" by simp
  have mp: "mapped m d (n - 1)" "hget m (d + min (n - 1) (length xs + 1)) \<noteq> None"
    using assms(2,3) mapped_add [of m d "n - 1" 1] by (auto simp: mapped_def)
  have "hupd (d + min (n - 1) (length xs + 1)) (\<lambda>_. 0) (put_bytes m d (take (n - 1) (xs @ [0]))) =
      Some (put_bytes m d (take (n - 1) (xs @ [0]) @ [0]))"
    using hupd_put [of "put_bytes m d (take (n - 1) (xs @ [0]))"] mp(2) put_bytes_snoc [of m d "take (n - 1) (xs @ [0])" 0] l
    by (simp add: hget_None_put hget_put_bytes)
  moreover have "d + (n - 1) \<le> s \<or> s + length xs < d" using assms(4) by auto
  ultimately show ?thesis
    using safestrncpy_loop_ok [OF assms(1) mp(1)] assms(3) by (simp add: safestrncpy_def)
qed

unbundle bit_operations_syntax

section \<open>Fields\<close>

text \<open>The fields of a string: its maximal non-empty runs of bytes that are not separators.\<close>

function fields :: "u8 list \<Rightarrow> u8 list \<Rightarrow> u8 list list" where
  "fields D xs =
     (let ys = dropWhile (\<lambda>b. b \<in> set D) xs in
      if ys = [] then []
      else takeWhile (\<lambda>b. b \<notin> set D) ys # fields D (dropWhile (\<lambda>b. b \<notin> set D) ys))"
  by pat_completeness auto
termination
proof (relation "measure (\<lambda>(D, xs). length xs)", simp)
  fix D xs ys :: "u8 list"
  assume ys: "ys = dropWhile (\<lambda>b. b \<in> set D) xs" "ys \<noteq> []"
  then have "hd ys \<notin> set D" using hd_dropWhile by metis
  then have "length (dropWhile (\<lambda>b. b \<notin> set D) ys) < length ys"
    using ys(2) by (cases ys) (simp_all add: length_dropWhile_le le_imp_less_Suc)
  also have "length ys \<le> length xs" using ys(1) by (simp add: length_dropWhile_le)
  finally show "((D, dropWhile (\<lambda>b. b \<notin> set D) ys), (D, xs)) \<in> measure (\<lambda>(D, xs). length xs)"
    by simp
qed

declare fields.simps [simp del]

lemma takeWhile_span: "takeWhile P xs = take (span_len P xs) xs"
  unfolding span_len_def by (rule takeWhile_eq_take)

lemma dropWhile_span: "dropWhile P xs = drop (span_len P xs) xs"
  unfolding span_len_def by (rule dropWhile_eq_drop)

lemma span_len_le: "span_len P xs \<le> length xs"
  by (simp add: span_len_def length_takeWhile_le)

text \<open>One call of \<open>strtok_r\<close>, as a case analysis on what is left of the string.\<close>

lemma strtok_r_ok:
  assumes "cstr m p xs" "cstr m c ds" "words_mapped m" "(if str = NULL then save else str) = p"
  shows
    "strtok_r m str c save =
       (let i = span_len (\<lambda>b. b \<in> set ds) xs; ys = drop i xs; j = span_len (\<lambda>b. b \<notin> set ds) ys in
        if ys = [] then Some (NULL, p + length xs, m)
        else if drop j ys = [] then Some (p + i, p + length xs, m)
        else Some (p + i, p + i + j + 1, put_bytes m (p + i + j) [0]))"
proof -
  let ?i = "span_len (\<lambda>b. b \<in> set ds) xs"
  let ?ys = "drop ?i xs"
  let ?j = "span_len (\<lambda>b. b \<notin> set ds) ?ys"
  have i: "?i \<le> length xs" by (rule span_len_le)
  have j: "?j \<le> length ?ys" by (rule span_len_le)
  note cy = cstr_drop [OF assms(1) i]
  have at: "hget m (p + ?i) = Some ((?ys @ [0]) ! 0)"
    using cy by (cases ?ys) auto
  have nz: "?ys \<noteq> [] \<Longrightarrow> ?ys ! 0 \<noteq> 0"
    using cy cstr_nonzero [OF cy] by (cases ?ys) auto
  have none: "set ?ys \<inter> set ds = {} \<longleftrightarrow> drop ?j ?ys = []"
    using dropWhile_span [of "\<lambda>b. b \<notin> set ds" ?ys] dropWhile_eq_Nil_conv [of "\<lambda>b. b \<notin> set ds" ?ys] by auto
  have nonNULL: "p + ?i + ?j \<noteq> NULL"
    using cy by (cases ?ys) (auto simp: hget_def split: if_splits)
  have sep: "drop ?j ?ys \<noteq> [] \<Longrightarrow> hget m (p + ?i + ?j) \<noteq> None"
    using cstr_drop [OF cy j] by (cases "drop ?j ?ys") auto
  have fin: "first_pos 0 ?ys = length ?ys" using first_pos_0 [OF cstr_nonzero [OF cy]] .
  show ?thesis
    using assms(4) strspn_ok [OF assms(1,2)] strpbrk_ok [OF cy assms(2,3)] strchr_ok [OF cy assms(3), of 0]
      at nz none nonNULL hupd_put [OF sep] fin i
    by (auto simp: strtok_r_def Let_def lfind_def to_u8_def nth_append)
qed


lemma cstr_cong:
  "(\<And>a. p \<le> a \<Longrightarrow> a \<le> p + length xs \<Longrightarrow> m' a = m a) \<Longrightarrow> cstr m' p xs = cstr m p xs"
proof (induction xs arbitrary: p)
  case (Cons x xs)
  have "cstr m' (p + 1) xs = cstr m (p + 1) xs" using Cons.prems by (intro Cons.IH) auto
  moreover have "m' p = m p" using Cons.prems by simp
  ultimately show ?case by (simp add: hget_def)
qed (simp add: hget_def)

lemma cstr_truncate: "cstr m p xs \<Longrightarrow> j \<le> length xs \<Longrightarrow> cstr (put_bytes m (p + j) [0]) p (take j xs)"
proof (induction xs arbitrary: p j)
  case Nil
  then show ?case by (auto simp: put_bytes_def hget_def split: if_splits)
next
  case (Cons x xs)
  show ?case
  proof (cases j)
    case 0
    with Cons.prems show ?thesis by (auto simp: put_bytes_def hget_def split: if_splits)
  next
    case (Suc l)
    with Cons.prems Cons.IH [of "p + 1" l] show ?thesis by (simp add: hget_put_bytes)
  qed
qed

lemma fields_skip: "fields D (takeWhile (\<lambda>b. b \<in> set D) xs @ ys) = fields D ys"
proof -
  have "dropWhile (\<lambda>b. b \<in> set D) (takeWhile (\<lambda>b. b \<in> set D) xs @ ys) = dropWhile (\<lambda>b. b \<in> set D) ys"
    by (rule dropWhile_append2) (auto dest: set_takeWhileD)
  then show ?thesis by (simp add: fields.simps [of D "_ @ _"] fields.simps [of D ys])
qed

lemma fields_sep: "d \<in> set D \<Longrightarrow> fields D (d # ys) = fields D ys"
  by (simp add: fields.simps [of D "_ # _"] fields.simps [of D ys])

text \<open>A client that calls \<open>strtok_r\<close> until it returns NULL, at most \<open>k\<close> times.\<close>

fun strtok_seq :: "nat \<Rightarrow> memory \<Rightarrow> ptr \<Rightarrow> ptr \<Rightarrow> ptr \<Rightarrow> (ptr list \<times> memory) option" where
  "strtok_seq 0 m str c save = Some ([], m)"
| "strtok_seq (Suc k) m str c save = do {
     (t, save, m) \<leftarrow> strtok_r m str c save;
     if t = NULL then Some ([], m)
     else do { (ts, m) \<leftarrow> strtok_seq k m NULL c save; Some (t # ts, m) }
   }"

lemma strtok_seq_ok:
  assumes "cstr m p xs" "cstr m c ds" "words_mapped m" "(if str = NULL then save else str) = p"
    "c + length ds < p \<or> p + length xs < c" "length xs < k"
  shows "\<exists>ts m'. strtok_seq k m str c save = Some (ts, m') \<and> list_all2 (cstr m') ts (fields ds xs)
    \<and> (\<forall>a. a < p \<or> p + length xs < a \<longrightarrow> m' a = m a)"
  using assms
proof (induction k arbitrary: m p xs str save)
  case (Suc k)
  let ?i = "span_len (\<lambda>b. b \<in> set ds) xs"
  let ?ys = "drop ?i xs"
  let ?j = "span_len (\<lambda>b. b \<notin> set ds) ?ys"
  have i: "?i \<le> length xs" and j: "?j \<le> length ?ys" by (rule span_len_le)+
  note call = strtok_r_ok [OF Suc.prems(1-4)]
  note cy = cstr_drop [OF Suc.prems(1) i]
  have pi: "p + ?i \<noteq> NULL" using cy by (cases ?ys) (auto simp: hget_def split: if_splits)
  have fx: "fields ds xs = (if ?ys = [] then [] else take ?j ?ys # fields ds (drop ?j ?ys))"
    by (simp add: fields.simps [of ds xs] Let_def dropWhile_span takeWhile_span)
  consider (none) "?ys = []" | (last) "?ys \<noteq> []" "drop ?j ?ys = []" | (more) "?ys \<noteq> []" "drop ?j ?ys \<noteq> []"
    by blast
  then show ?case
  proof cases
    case none
    with call fx show ?thesis by (simp add: Let_def)
  next
    case last
    have e: "take ?j ?ys = ?ys" using last(2) j by simp
    have z: "fields ds [] = []" by (simp add: fields.simps)
    have r: "strtok_seq k m NULL c (p + length xs) = Some ([], m)"
    proof (cases k)
      case (Suc l)
      have "cstr m (p + length xs) []" using cstr_end [OF Suc.prems(1)] by simp
      then show ?thesis
        using strtok_r_ok [of m "p + length xs" "[]" c ds NULL "p + length xs"] Suc.prems(2,3) Suc by simp
    qed simp
    show ?thesis using call last pi r fx e z cy by (simp add: Let_def)
  next
    case more
    obtain d zs where dz: "drop ?j ?ys = d # zs" using more(2) by (cases "drop ?j ?ys") auto
    let ?m = "put_bytes m (p + ?i + ?j) [0]"
    let ?q = "p + ?i + ?j + 1"
    have cd: "hget m (p + ?i + ?j) = Some d" "cstr m ?q zs"
      using cstr_drop [OF cy j] dz by auto
    have len: "length xs = ?i + ?j + 1 + length zs"
      using arg_cong [OF dz, of length] more i j by simp
    have "dropWhile (\<lambda>b. b \<notin> set ds) ?ys = d # zs" by (simp only: dropWhile_span dz)
    then have dD: "d \<in> set ds" using hd_dropWhile [of "\<lambda>b. b \<notin> set ds" ?ys] by simp
    have "cstr ?m ?q zs" using cd(2) cstr_put_other [of "p + ?i + ?j" "[0]" ?q zs m] by simp
    moreover have "cstr ?m c ds"
      using Suc.prems(2,5) len cstr_put_other [of "p + ?i + ?j" "[0]" c ds m] by auto
    moreover have "words_mapped ?m"
      using cd(1) by (intro words_mapped_put Suc.prems(3)) (simp add: mapped_def)
    ultimately obtain ts m' where r: "strtok_seq k ?m NULL c ?q = Some (ts, m')"
        "list_all2 (cstr m') ts (fields ds zs)" "\<forall>a. a < ?q \<or> ?q + length zs < a \<longrightarrow> m' a = ?m a"
      using Suc.IH [of ?m ?q zs NULL ?q] Suc.prems(5,6) len by auto
    have "cstr ?m (p + ?i) (take ?j ?ys)" using cstr_truncate [OF cy j] .
    then have tok: "cstr m' (p + ?i) (take ?j ?ys)"
      using r(3) cstr_cong [of "p + ?i" "take ?j ?ys" m' ?m] by simp
    have "\<forall>a. a < p \<or> p + length xs < a \<longrightarrow> m' a = m a"
      using r(3) len by (auto simp: put_bytes_def)
    moreover have "strtok_seq (Suc k) m str c save = Some ((p + ?i) # ts, m')"
      using call more pi r(1) by (simp add: Let_def)
    moreover have "fields ds xs = take ?j ?ys # fields ds zs"
      using fx more(1) dz fields_sep [OF dD] by simp
    ultimately show ?thesis using tok r(2) by auto
  qed
qed simp

unbundle bit_operations_syntax

section \<open>Contracts\<close>

text \<open>Two strings in mapped memory: \<open>/usr//bin\<close> at 19 and \<open>/\<close> at 48.\<close>

definition ex_text :: memory where
  "ex_text = put_bytes (put_bytes (\<lambda>a. if 16 \<le> a \<and> a < 80 then Some 0 else None) 19
     [47, 117, 115, 114, 47, 47, 98, 105, 110]) 48 [47]"

lemma ex_text_mapped: "hget ex_text a = None \<longleftrightarrow> \<not> (16 \<le> a \<and> a < 80)"
  by (auto simp: ex_text_def put_bytes_def hget_def)

lemma ex_text_words: "words_mapped ex_text"
  unfolding words_mapped_def mapped_def ex_text_mapped
proof (intro allI impI)
  fix a i :: nat assume a: "\<not> \<not> (16 \<le> a \<and> a < 80)" and i: "i < 8"
  from a have "2 \<le> a div 8" "a div 8 \<le> 9" by auto
  with i show "\<not> \<not> (16 \<le> 8 * (a div 8) + i \<and> 8 * (a div 8) + i < 80)" by simp
qed

lemma ex_text_strings:
  "cstr ex_text 19 [47, 117, 115, 114, 47, 47, 98, 105, 110]" "cstr ex_text 48 [47]"
  by (simp_all add: ex_text_def put_bytes_def hget_def)

text \<open>C22: The scanning routines that read whole words agree with the definition of a string
  byte by byte: \<open>strlen\<close> is the length, \<open>strchr\<close> the first and \<open>strrchr\<close> the last occurrence of
  a character (of the terminator too), NULL if it does not occur, whatever the alignment.\<close>

theorem string_scans:
  assumes "cstr m p xs" "words_mapped m"
  shows "strlen m p = Some (length xs)
    \<and> strchr m p c = Some (if to_u8 c \<in> set (xs @ [0]) then p + first_pos (to_u8 c) xs else NULL)
    \<and> strrchr m p c =
      Some (if to_u8 c \<in> set (xs @ [0]) then p + (length xs - first_pos (to_u8 c) (0 # rev xs)) else NULL)"
  using strlen_ok [OF assms] strchr_ok [OF assms] strrchr_ok [OF assms] by blast

theorem string_scans_witness:
  "strlen ex_text 19 = Some 9 \<and> strchr ex_text 19 98 = Some 25 \<and> strrchr ex_text 19 47 = Some 24
   \<and> strchr ex_text 19 122 = Some NULL"
  using string_scans [OF ex_text_strings(1) ex_text_words, of 98] string_scans [OF ex_text_strings(1) ex_text_words, of 47]
    string_scans [OF ex_text_strings(1) ex_text_words, of 122]
  by (simp add: to_u8_def first_pos_def)

text \<open>\<open>strcmp\<close> compares: its result is zero exactly for equal strings and negative exactly
  if the first one comes first in the lexicographic order of unsigned bytes; \<open>string_eq\<close>
  decides equality, although \<open>compare_strings\<close> returns \<open>-1\<close> for every pair of different
  lengths.\<close>

theorem string_order:
  assumes "cstr m p xs" "cstr m q ys" "words_mapped m"
  shows "\<exists>r. strcmp m p q = Some r \<and> (r = 0 \<longleftrightarrow> xs = ys) \<and> (r < 0 \<longleftrightarrow> (xs, ys) \<in> lexord {(a, b). a < b})
    \<and> string_eq m p q = Some (xs = ys)"
  using strcmp_ok [OF assms(1,2)] string_eq_ok [OF assms] byte_diff_lex [of xs ys] assms(1,2)
  by (simp add: cstr_nonzero)

theorem string_order_witness:
  "(\<exists>r. strcmp ex_text 48 19 = Some r \<and> r < 0) \<and> string_eq ex_text 48 19 = Some False"
  using string_order [OF ex_text_strings(2,1) ex_text_words] by auto

text \<open>C23: \<open>stpcpy\<close>, which copies whole words when source and target agree modulo eight, does
  exactly what the byte loop of \<open>strcpy\<close> does: the target holds the string, nothing else
  changes, and the pointer returned is that of the terminator.\<close>

theorem stpcpy_equals_strcpy:
  assumes "cstr m s xs" "words_mapped m" "mapped m d (length xs + 1)"
    "d + length xs < s \<or> s + length xs < d"
  shows "stpcpy m d s = strcpy_loop m d s
    \<and> stpcpy m d s = Some (put_bytes m d (xs @ [0]), d + length xs)
    \<and> strcpy m d s = Some (put_bytes m d (xs @ [0]))"
  using stpcpy_ok [of m d s xs] strcpy_loop_ok [of m d s xs] assms
  by (simp add: str_copy_def strcpy_def)

theorem stpcpy_equals_strcpy_witness:
  "stpcpy ex_text 51 19 = Some (put_bytes ex_text 51 [47, 117, 115, 114, 47, 47, 98, 105, 110, 0], 60)
   \<and> stpcpy ex_text 51 19 = strcpy_loop ex_text 51 19"
proof -
  have "mapped ex_text 51 (length [47, 117, 115, 114, 47, 47, 98, 105, 110 :: u8] + 1)"
    unfolding mapped_def ex_text_mapped by simp
  with stpcpy_equals_strcpy [OF ex_text_strings(1) ex_text_words, of 51] show ?thesis by auto
qed

text \<open>\<open>safestrncpy\<close> never writes outside the \<open>n\<close> bytes of the target and always leaves a
  terminated string there: the first \<open>n - 1\<close> bytes of the source.\<close>

theorem safestrncpy_bounded:
  assumes "cstr m s xs" "mapped m d n" "0 < n" "d + n \<le> s \<or> s + length xs < d"
  shows "\<exists>m'. safestrncpy m d s n = Some m' \<and> cstr m' d (take (n - 1) xs)
    \<and> (\<forall>a. \<not> (d \<le> a \<and> a < d + n) \<longrightarrow> m' a = m a)"
proof -
  let ?bs = "take (n - 1) (xs @ [0]) @ [0]"
  have len: "length ?bs \<le> n" using assms(3) by auto
  have mp: "mapped m d (length ?bs)"
    using assms(2) mapped_add [of m d "length ?bs" "n - length ?bs"] len by auto
  have pre: "?bs = take (n - 1) xs @ [0] \<or> ?bs = (take (n - 1) xs @ [0]) @ [0]"
    by (cases "n - 1 \<le> length xs") auto
  have "cstr (put_bytes m d ?bs) d (take (n - 1) xs)"
  proof -
    have nz: "0 \<notin> set (take (n - 1) xs)" using cstr_nonzero [OF assms(1)] by (auto dest: in_set_takeD)
    have k: "length (take (n - 1) xs) + 1 \<le> length ?bs" using pre by auto
    have "load_bytes (put_bytes m d ?bs) d (length (take (n - 1) xs) + 1) = Some (take (n - 1) xs @ [0])"
      using load_bytes_add(1) [OF load_bytes_put_same [OF mp] k] pre by auto
    with nz show ?thesis by (simp add: cstr_def)
  qed
  moreover have "\<forall>a. \<not> (d \<le> a \<and> a < d + n) \<longrightarrow> put_bytes m d ?bs a = m a"
    using len by (auto simp: put_bytes_def)
  ultimately show ?thesis using safestrncpy_ok [OF assms] by blast
qed

theorem safestrncpy_bounded_witness:
  "\<exists>m'. safestrncpy ex_text 60 19 5 = Some m' \<and> cstr m' 60 [47, 117, 115, 114] \<and> m' 65 = ex_text 65"
proof -
  have "mapped ex_text 60 5" unfolding mapped_def ex_text_mapped by simp
  with safestrncpy_bounded [OF ex_text_strings(1), of 60 5] show ?thesis by fastforce
qed

text \<open>C24: Calling \<open>strtok_r\<close> until it returns NULL hands out exactly the fields of the string,
  in order, each as a terminated string that later calls leave alone; nothing outside the
  string is written, and one call more than the string has characters is always enough.\<close>

theorem strtok_hands_out_fields:
  assumes "cstr m p xs" "cstr m c ds" "words_mapped m" "c + length ds < p \<or> p + length xs < c" "length xs < k"
  shows "\<exists>ts m'. strtok_seq k m p c save = Some (ts, m') \<and> list_all2 (cstr m') ts (fields ds xs)
    \<and> (\<forall>a. a < p \<or> p + length xs < a \<longrightarrow> m' a = m a)"
proof -
  have "p \<noteq> NULL" using assms(1) by (cases xs) (auto simp: hget_def split: if_splits)
  then show ?thesis using strtok_seq_ok [OF assms(1-3) _ assms(4,5), of p save] by simp
qed

theorem strtok_hands_out_fields_witness:
  "\<exists>ts m'. strtok_seq 10 ex_text 19 48 NULL = Some (ts, m')
     \<and> list_all2 (cstr m') ts [[117, 115, 114], [98, 105, 110]]"
proof -
  have "fields [47] [47, 117, 115, 114, 47, 47, 98, 105, 110] = [[117, 115, 114], [98, 105, 110]]"
    by (simp add: fields.simps)
  with strtok_hands_out_fields [OF ex_text_strings ex_text_words, of 10 NULL] show ?thesis by auto
qed

end
