(* ===== verification/Hash.thy ===== *)
theory Hash
imports Btree CString
begin

text \<open>
  The kernel's hash tables (\<open>ds/hash.c\<close>): a search tree from hash values to chains of nodes. The tree is
  embedded in the table (\<open>h_btree\<close>); here it is the tree at the table's own pointer. The functions of the table's context
  are the client's: hashing a key, and comparing a key with data (0 when they belong together), either of which may be
  missing.
\<close>

section \<open>State\<close>

record hash_ctx =
  hash_verify_obj :: "(ptr \<Rightarrow> ptr \<Rightarrow> int) option"
  hash_func :: "(ptr \<Rightarrow> u64) option"

record hash_node =
  hn_prev :: ptr
  hn_data :: ptr
  hn_next :: ptr

record hash_table =
  h_ctx :: ptr
  h_spinlock :: spinlock

record hstate =
  hnodes :: "hash_node heap"
  htabs :: "hash_table heap"
  hctxs :: "hash_ctx heap"
  hb :: bstate
  hmemory :: memory

definition h_used :: "hstate \<Rightarrow> ptr \<Rightarrow> bool" where
  "h_used s p \<longleftrightarrow> hnodes s p \<noteq> None \<or> htabs s p \<noteq> None \<or> hctxs s p \<noteq> None \<or> b_used (hb s) p"

definition HASH_INIT :: "ptr \<Rightarrow> hash_table" where
  "HASH_INIT c = \<lparr>h_ctx = c, h_spinlock = SPINLOCK_INIT\<rparr>"

definition hash_assert_locked :: "ctx \<Rightarrow> ptr \<Rightarrow> hstate \<Rightarrow> unit option" where
  "hash_assert_locked me h s = do { kassert (h \<noteq> NULL); t \<leftarrow> hget (htabs s) h; lk_assert me (h_spinlock t) }"

definition hash_islocked :: "ctx \<Rightarrow> ptr \<Rightarrow> hstate \<Rightarrow> bool option" where
  "hash_islocked me h s = do { kassert (h \<noteq> NULL); t \<leftarrow> hget (htabs s) h; Some (lk_held me (h_spinlock t)) }"

definition hash_lock :: "ctx \<Rightarrow> ptr \<Rightarrow> hstate \<Rightarrow> hstate option" where
  "hash_lock me h s = do {
     kassert (h \<noteq> NULL);
     t \<leftarrow> hget (htabs s) h;
     lk \<leftarrow> lk_acquire me (h_spinlock t);
     Some (s\<lparr>htabs := (htabs s)(h \<mapsto> t\<lparr>h_spinlock := lk\<rparr>)\<rparr>)
   }"

definition hash_unlock :: "ctx \<Rightarrow> ptr \<Rightarrow> hstate \<Rightarrow> hstate option" where
  "hash_unlock me h s = do {
     kassert (h \<noteq> NULL);
     t \<leftarrow> hget (htabs s) h;
     lk \<leftarrow> lk_release me (h_spinlock t);
     Some (s\<lparr>htabs := (htabs s)(h \<mapsto> t\<lparr>h_spinlock := lk\<rparr>)\<rparr>)
   }"

text \<open>\<open>hash_btree_lock\<close> and \<open>hash_btree_unlock\<close> assert the table's own lock first.\<close>

definition hash_btree_lock :: "ctx \<Rightarrow> ptr \<Rightarrow> hstate \<Rightarrow> hstate option" where
  "hash_btree_lock me h s = do { hash_assert_locked me h s; b \<leftarrow> btree_lock me h (hb s); Some (s\<lparr>hb := b\<rparr>) }"

definition hash_btree_unlock :: "ctx \<Rightarrow> ptr \<Rightarrow> hstate \<Rightarrow> hstate option" where
  "hash_btree_unlock me h s = do { hash_assert_locked me h s; b \<leftarrow> btree_unlock me h (hb s); Some (s\<lparr>hb := b\<rparr>) }"

section \<open>Operations\<close>

text \<open>The hash of a key or of data, in the context \<open>c\<close>.\<close>

definition hash_key :: "hash_ctx \<Rightarrow> ptr \<Rightarrow> u64" where
  "hash_key c key = (case hash_func c of Some f \<Rightarrow> f key | None \<Rightarrow> of_nat key)"

text \<open>Whether data belong to a key: by the client's comparison, as strings, or as pointers.\<close>

definition hash_match :: "hash_ctx \<Rightarrow> bool \<Rightarrow> memory \<Rightarrow> ptr \<Rightarrow> ptr \<Rightarrow> bool option" where
  "hash_match c isstring m key data =
     (case hash_verify_obj c of
        Some f \<Rightarrow> Some (f key data = 0)
      | None \<Rightarrow> if isstring then do { r \<leftarrow> compare_strings m data key; Some (r = 0) } else Some (data = key))"

partial_function (option) hash_find :: "(ptr \<Rightarrow> bool option) \<Rightarrow> ptr \<Rightarrow> hash_node heap \<Rightarrow> ptr option" where
  "hash_find ok node h =
     (if node = NULL then Some NULL
      else do {
        n \<leftarrow> hget h node;
        found \<leftarrow> ok (hn_data n);
        if found then Some node else hash_find ok (hn_next n) h
      })"

text \<open>The last node of a chain, \<open>tail\<close> for the empty one.\<close>

partial_function (option) hash_tail :: "ptr \<Rightarrow> ptr \<Rightarrow> hash_node heap \<Rightarrow> ptr option" where
  "hash_tail tail node h =
     (if node = NULL then Some tail
      else do { n \<leftarrow> hget h node; hash_tail node (hn_next n) h })"

definition hash_insert :: "ctx \<Rightarrow> ptr \<Rightarrow> ptr \<Rightarrow> ptr \<Rightarrow> hstate \<Rightarrow> (int \<times> hstate) option" where
  "hash_insert me h key data s =
     (if h = NULL then Some (- EINVAL, s)
      else do {
        hash_assert_locked me h s;
        t \<leftarrow> hget (htabs s) h;
        if h_ctx t = NULL then Some (- EINVAL, s)
        else do {
          c \<leftarrow> hget (hctxs s) (h_ctx t);
          let k = hash_key c key;
          let (node, ps) = kmalloc (h_used s) (bmem (hb s));
          let s = s\<lparr>hb := (hb s)\<lparr>bmem := ps\<rparr>\<rparr>;
          if node = NULL then Some (- ENOMEM, s)
          else do {
            let s = s\<lparr>hnodes := (hnodes s)(node \<mapsto> \<lparr>hn_prev = NULL, hn_data = data, hn_next = NULL\<rparr>)\<rparr>;
            s \<leftarrow> hash_btree_lock me h s;
            (err, head) \<leftarrow> btree_search me h k (hb s);
            (err, s) \<leftarrow> (if err = - ENOENT then do { (err, b) \<leftarrow> btree_insert me h k node (hb s); Some (err, s\<lparr>hb := b\<rparr>) }
                 else if err = 0 then do {
                   tail \<leftarrow> hash_tail NULL (the head) (hnodes s);
                   hp \<leftarrow> hupd tail (hn_next_update (\<lambda>_. node)) (hnodes s);
                   hp \<leftarrow> hupd node (hn_prev_update (\<lambda>_. tail)) hp;
                   Some (err, s\<lparr>hnodes := hp\<rparr>)
                 }
                 else Some (err, s));
            s \<leftarrow> hash_btree_unlock me h s;
            if err \<noteq> 0 then do { hp \<leftarrow> kfree node (hnodes s); Some (err, s\<lparr>hnodes := hp\<rparr>) }
            else Some (0, s)
          }
        }
      })"

definition hash_search :: "ctx \<Rightarrow> ptr \<Rightarrow> ptr \<Rightarrow> bool \<Rightarrow> bool \<Rightarrow> hstate \<Rightarrow> ((int \<times> ptr option) \<times> hstate) option" where
  "hash_search me h key isstring pdp s =
     (if h = NULL then Some ((- EINVAL, None), s)
      else do {
        hash_assert_locked me h s;
        t \<leftarrow> hget (htabs s) h;
        if h_ctx t = NULL then Some ((- EINVAL, None), s)
        else do {
          c \<leftarrow> hget (hctxs s) (h_ctx t);
          let k = hash_key c key;
          s \<leftarrow> hash_btree_lock me h s;
          (err, head) \<leftarrow> btree_search me h k (hb s);
          if err = 0 then do {
            node \<leftarrow> hash_find (hash_match c isstring (hmemory s) key) (the head) (hnodes s);
            if node = NULL then do { s \<leftarrow> hash_btree_unlock me h s; Some ((- ENOENT, None), s) }
            else do {
              n \<leftarrow> hget (hnodes s) node;
              s \<leftarrow> hash_btree_unlock me h s;
              Some ((0, if pdp then Some (hn_data n) else None), s)
            }
          }
          else do { s \<leftarrow> hash_btree_unlock me h s; Some ((err, None), s) }
        }
      })"

text \<open>When the head of a chain goes, the rest goes back into the tree, under the hash of its first data.\<close>

definition hash_drop_head :: "ctx \<Rightarrow> ptr \<Rightarrow> hash_ctx \<Rightarrow> u64 \<Rightarrow> ptr \<Rightarrow> hstate \<Rightarrow> (int \<times> hstate) option" where
  "hash_drop_head me h c k nx s = do {
     b \<leftarrow> btree_delete me h k (hb s);
     if nx = NULL then Some (0, s\<lparr>hb := b\<rparr>)
     else do {
       n \<leftarrow> hget (hnodes s) nx;
       (err, b) \<leftarrow> btree_insert me h (hash_key c (hn_data n)) nx b;
       Some (err, s\<lparr>hb := b\<rparr>)
     }
   }"

definition hash_delete :: "ctx \<Rightarrow> ptr \<Rightarrow> ptr \<Rightarrow> bool \<Rightarrow> hstate \<Rightarrow> (int \<times> hstate) option" where
  "hash_delete me h key isstring s =
     (if h = NULL then Some (- EINVAL, s)
      else do {
        hash_assert_locked me h s;
        t \<leftarrow> hget (htabs s) h;
        if h_ctx t = NULL then Some (- EINVAL, s)
        else do {
          c \<leftarrow> hget (hctxs s) (h_ctx t);
          let k = hash_key c key;
          s \<leftarrow> hash_btree_lock me h s;
          (err, head) \<leftarrow> btree_search me h k (hb s);
          if err \<noteq> 0 then do { s \<leftarrow> hash_btree_unlock me h s; Some (err, s) }
          else do {
            target \<leftarrow> hash_find (hash_match c isstring (hmemory s) key) (the head) (hnodes s);
            if target = NULL then do { s \<leftarrow> hash_btree_unlock me h s; Some (- ENOENT, s) }
            else do {
              n \<leftarrow> hget (hnodes s) target;
              hp \<leftarrow> hupd_if (hn_next n) (hn_prev_update (\<lambda>_. hn_prev n)) (hnodes s);
              hp \<leftarrow> hupd_if (hn_prev n) (hn_next_update (\<lambda>_. hn_next n)) hp;
              let s = s\<lparr>hnodes := hp\<rparr>;
              (err, s) \<leftarrow> (if target = the head then hash_drop_head me h c k (hn_next n) s else Some (0, s));
              s \<leftarrow> hash_btree_unlock me h s;
              if err \<noteq> 0 then Some (err, s)
              else do { hp \<leftarrow> kfree target (hnodes s); Some (0, s\<lparr>hnodes := hp\<rparr>) }
            }
          }
        }
      })"

partial_function (option) hash_enqueue :: "ctx \<Rightarrow> ptr \<Rightarrow> ptr \<Rightarrow> hash_node heap \<Rightarrow> qstate \<Rightarrow> (int \<times> qstate) option" where
  "hash_enqueue me node q h u =
     (if node = NULL then Some (0, u)
      else do {
        n \<leftarrow> hget h node;
        ((err, _), u) \<leftarrow> enqueue me q (hn_data n) True u;
        if err \<noteq> 0 then Some (err, u) else hash_enqueue me (hn_next n) q h u
      })"

partial_function (option) hash_traverse_btree_node ::
  "ctx \<Rightarrow> ptr \<Rightarrow> ptr \<Rightarrow> hstate \<Rightarrow> qstate \<Rightarrow> (int \<times> qstate) option" where
  "hash_traverse_btree_node me tree q s u = do {
     queue_assert_locked me q u;
     if q = NULL then Some (- EINVAL, u)
     else if tree = NULL then Some (0, u)
     else do {
       n \<leftarrow> hget (bnodes (hb s)) tree;
       btree_assert_locked me (bn_btree n) (hb s);
       (_, u) \<leftarrow> hash_traverse_btree_node me (bn_left n) q s u;
       (err, u) \<leftarrow> hash_enqueue me (bn_data n) q (hnodes s) u;
       if err \<noteq> 0 then Some (err, u)
       else do {
         (_, u) \<leftarrow> hash_traverse_btree_node me (bn_right n) q s u;
         Some (0, u)
       }
     }
   }"

definition hash_traverse :: "ctx \<Rightarrow> ptr \<Rightarrow> ptr \<Rightarrow> hstate \<Rightarrow> qstate \<Rightarrow> (int \<times> hstate \<times> qstate) option" where
  "hash_traverse me h q s u = do {
     hash_assert_locked me h s;
     queue_assert_locked me q u;
     s \<leftarrow> hash_btree_lock me h s;
     bt \<leftarrow> hget (btrees (hb s)) h;
     (err, u) \<leftarrow> hash_traverse_btree_node me (bt_root bt) q s u;
     s \<leftarrow> hash_btree_unlock me h s;
     Some (err, s, u)
   }"

definition hash_init :: "ptr \<Rightarrow> ptr \<Rightarrow> hstate \<Rightarrow> hstate" where
  "hash_init h c s = s\<lparr>htabs := (htabs s)(h \<mapsto> HASH_INIT c), hb := (hb s)\<lparr>btrees := (btrees (hb s))(h \<mapsto> BTREE_INIT)\<rparr>\<rparr>"

definition hash_alloc :: "ptr \<Rightarrow> bool \<Rightarrow> hstate \<Rightarrow> (int \<times> ptr option) \<times> hstate" where
  "hash_alloc c phtp s =
     (if c = NULL \<or> \<not> phtp then ((- EINVAL, None), s)
      else let (h, ps) = kmalloc (h_used s) (bmem (hb s)); s = s\<lparr>hb := (hb s)\<lparr>bmem := ps\<rparr>\<rparr> in
        if h = NULL then ((- ENOMEM, None), s) else ((0, Some h), hash_init h c s))"

definition hash_destroy :: "ctx \<Rightarrow> ptr \<Rightarrow> hstate \<Rightarrow> hstate option" where
  "hash_destroy me h s = do {
     locked \<leftarrow> hash_islocked me h s;
     s \<leftarrow> (if locked then Some s else hash_lock me h s);
     s \<leftarrow> hash_unlock me h s;
     ht \<leftarrow> kfree h (htabs s);
     bt \<leftarrow> kfree h (btrees (hb s));
     Some (s\<lparr>htabs := ht, hb := (hb s)\<lparr>btrees := bt\<rparr>\<rparr>)
   }"

definition hash_free :: "ctx \<Rightarrow> ptr \<Rightarrow> hstate \<Rightarrow> (int \<times> hstate) option" where
  "hash_free me h s = do {
     hash_assert_locked me h s;
     empty \<leftarrow> btree_isempty me h (hb s);
     if \<not> empty then Some (- ENOTEMPTY, s)
     else do { s \<leftarrow> hash_destroy me h s; Some (0, s) }
   }"

section \<open>Chains\<close>

interpretation hn: dll_node hn_next hn_prev hn_next_update hn_prev_update
  by unfold_locales simp_all

definition hdata :: "hash_node heap \<Rightarrow> ptr \<Rightarrow> ptr" where
  "hdata hp x = hn_data (the (hp x))"

definition hchain :: "hash_node heap \<Rightarrow> ptr list \<Rightarrow> bool" where
  "hchain hp xs \<longleftrightarrow> dchain hn_next hn_prev hp NULL xs NULL \<and> distinct xs \<and> NULL \<notin> set xs"

lemma hash_tail_ok: "dchain hn_next hn_prev hp pr xs NULL \<Longrightarrow> NULL \<notin> set xs \<Longrightarrow> hash_tail d (first_of xs NULL) hp = Some (last_of xs d)"
proof (induction xs arbitrary: pr d)
  case Nil
  then show ?case by (simp add: hash_tail.simps)
next
  case (Cons x xs)
  then show ?case by (subst hash_tail.simps) (auto simp: hget_nonNULL)
qed

lemma hash_find_ok:
  assumes "dchain hn_next hn_prev hp pr xs NULL" "NULL \<notin> set xs" "\<forall>x\<in>set xs. ok (hdata hp x) \<noteq> None"
  shows "hash_find ok (first_of xs NULL) hp = Some (case find (\<lambda>x. ok (hdata hp x) = Some True) xs of None \<Rightarrow> NULL | Some x \<Rightarrow> x)"
  using assms
proof (induction xs arbitrary: pr)
  case Nil
  then show ?case by (simp add: hash_find.simps)
next
  case (Cons x xs)
  then obtain n b where "hp x = Some n" "hn_next n = first_of xs NULL" "ok (hn_data n) = Some b" "x \<noteq> NULL" by (auto simp: hdata_def)
  then show ?case using Cons by (subst hash_find.simps) (auto simp: hget_nonNULL hdata_def)
qed

lemma hdata_payload: "hn.same_payload h h' \<Longrightarrow> h x \<noteq> None \<Longrightarrow> hdata h' x = hdata h x"
proof -
  assume a: "hn.same_payload h h'" "h x \<noteq> None"
  then have e: "map_option hn.payload (h' x) = map_option hn.payload (h x)" by (simp add: hn.same_payload_def)
  have "hn_data (hn.payload n) = hn_data n" for n by (simp add: hn.payload_def)
  then show ?thesis using e a(2) unfolding hdata_def by (metis map_option_is_None option.map_sel)
qed

section \<open>Tables\<close>

text \<open>The chains of a table by hash value: none is empty, and no two share a node.\<close>

definition chains :: "hash_node heap \<Rightarrow> (u64 \<rightharpoonup> ptr list) \<Rightarrow> bool" where
  "chains hp C \<longleftrightarrow> (\<forall>k xs. C k = Some xs \<longrightarrow> xs \<noteq> [] \<and> hchain hp xs)
     \<and> (\<forall>k l xs ys. C k = Some xs \<longrightarrow> C l = Some ys \<longrightarrow> k \<noteq> l \<longrightarrow> set xs \<inter> set ys = {})"

definition heads :: "(u64 \<rightharpoonup> ptr list) \<Rightarrow> u64 \<rightharpoonup> ptr" where
  "heads C = (\<lambda>k. map_option (\<lambda>xs. first_of xs NULL) (C k))"

definition contents :: "hash_node heap \<Rightarrow> (u64 \<rightharpoonup> ptr list) \<Rightarrow> u64 \<Rightarrow> ptr list" where
  "contents hp C k = (case C k of None \<Rightarrow> [] | Some xs \<Rightarrow> map (hdata hp) xs)"

definition hash_tab :: "ctx \<Rightarrow> ptr \<Rightarrow> hash_ctx \<Rightarrow> hstate \<Rightarrow> bool" where
  "hash_tab me h c s \<longleftrightarrow> h \<noteq> NULL \<and> (\<exists>t. htabs s h = Some t \<and> lk_held me (h_spinlock t) \<and> h_ctx t \<noteq> NULL \<and> hctxs s (h_ctx t) = Some c)"

definition tree_free :: "ptr \<Rightarrow> bstate \<Rightarrow> (u64 \<rightharpoonup> ptr) \<Rightarrow> bool" where
  "tree_free h b m \<longleftrightarrow> (\<exists>bt t. btrees b h = Some bt \<and> lk_free (bt_lock bt) \<and> btree_ok b h t \<and> bmap (bnodes b) t = m)"

text \<open>A locked table with the context \<open>c\<close> whose data, by hash value and in the order of their chain, are \<open>D\<close>.\<close>

definition hash_is :: "ctx \<Rightarrow> ptr \<Rightarrow> hash_ctx \<Rightarrow> hstate \<Rightarrow> (u64 \<Rightarrow> ptr list) \<Rightarrow> bool" where
  "hash_is me h c s D \<longleftrightarrow> hash_tab me h c s
     \<and> (\<exists>C. tree_free h (hb s) (heads C) \<and> chains (hnodes s) C \<and> contents (hnodes s) C = D)"

lemma btree_lock_ok:
  assumes "tree_free h b m" "h \<noteq> NULL"
  shows "\<exists>b'. btree_lock me h b = Some b' \<and> btree_rep me h b' m \<and> bmem b' = bmem b \<and> bnodes b' = bnodes b \<and> b_used b' = b_used b"
proof -
  obtain bt t where t: "btrees b h = Some bt" "lk_free (bt_lock bt)" "btree_ok b h t" "bmap (bnodes b) t = m"
    using assms(1) by (auto simp: tree_free_def)
  obtain lk where "lk_acquire me (bt_lock bt) = Some lk" "lk_held me lk" using lk_acquire_free [OF t(2)] by blast
  then show ?thesis using t assms(2)
    by (auto simp: btree_lock_def hget_nonNULL btree_rep_def blocked_def btree_ok_def btree_shape_def b_used_def fun_eq_iff)
qed

lemma btree_unlock_ok:
  assumes "btree_rep me h b m"
  shows "\<exists>b'. btree_unlock me h b = Some b' \<and> tree_free h b' m"
proof -
  obtain bt t where t: "h \<noteq> NULL" "btrees b h = Some bt" "lk_held me (bt_lock bt)" "btree_ok b h t" "bmap (bnodes b) t = m"
    using assms by (auto simp: btree_rep_def blocked_def)
  obtain lk where "lk_release me (bt_lock bt) = Some lk" "lk_free lk" using lk_release_held [OF t(3)] by blast
  then show ?thesis using t
    by (auto simp: btree_unlock_def hget_nonNULL tree_free_def btree_ok_def btree_shape_def)
qed

lemma search_rep: "btree_rep me h b m \<Longrightarrow> btree_search me h k b = Some (case m k of None \<Rightarrow> (- ENOENT, None) | Some v \<Rightarrow> (0, Some v))"
  by (auto simp: btree_rep_def btree_ok_def btree_search_ok split: option.splits)

lemma hash_assert_locked_ok [simp]: "hash_tab me h c s \<Longrightarrow> hash_assert_locked me h s = Some ()"
  by (auto simp: hash_tab_def hash_assert_locked_def hget_nonNULL)

lemma hash_tab_hb [simp]: "hash_tab me h c (s\<lparr>hb := b\<rparr>) = hash_tab me h c s" "hash_tab me h c (s\<lparr>hnodes := hp\<rparr>) = hash_tab me h c s"
  by (simp_all add: hash_tab_def)

lemma hash_lock_tree:
  assumes "hash_tab me h c s" "tree_free h (hb s) m"
  obtains b where "hash_btree_lock me h s = Some (s\<lparr>hb := b\<rparr>)" "btree_rep me h b m" "bmem b = bmem (hb s)" "b_used b = b_used (hb s)"
proof -
  have "h \<noteq> NULL" using assms(1) by (simp add: hash_tab_def)
  from btree_lock_ok [OF assms(2) this, of me] show thesis using that assms(1) by (auto simp: hash_btree_lock_def)
qed

lemma hash_unlock_tree:
  assumes "hash_tab me h c s" "btree_rep me h (hb s) m"
  obtains b where "hash_btree_unlock me h s = Some (s\<lparr>hb := b\<rparr>)" "tree_free h b m"
  using btree_unlock_ok [OF assms(2)] assms(1) by (auto simp: hash_btree_unlock_def)

lemma hash_ctx_ok:
  assumes "hash_tab me h c s"
  obtains t where "hget (htabs s) h = Some t" "h_ctx t \<noteq> NULL" "hget (hctxs s) (h_ctx t) = Some c" "h \<noteq> NULL"
  using assms by (auto simp: hash_tab_def hget_nonNULL)

lemma chains_at: "chains hp C \<Longrightarrow> C k = Some xs \<Longrightarrow> xs \<noteq> [] \<and> hchain hp xs"
  by (simp add: chains_def)

lemma hchain_mapped: "hchain hp xs \<Longrightarrow> x \<in> set xs \<Longrightarrow> x \<noteq> NULL \<and> hp x \<noteq> None"
  unfolding hchain_def using dchain_mapped by fastforce

text \<open>Replacing one chain: what the others and their data need is that their nodes stay.\<close>

lemma chains_update:
  assumes "chains hp C" and o: "\<forall>ys. r = Some ys \<longrightarrow> ys \<noteq> [] \<and> hchain hp' ys"
    and fr: "\<And>l ys x. C l = Some ys \<Longrightarrow> l \<noteq> k \<Longrightarrow> x \<in> set ys \<Longrightarrow> hp' x = hp x \<and> (\<forall>zs. r = Some zs \<longrightarrow> x \<notin> set zs)"
  shows "chains hp' (C(k := r))" "contents hp' (C(k := r)) = (contents hp C)(k := (case r of None \<Rightarrow> [] | Some ys \<Rightarrow> map (hdata hp') ys))"
proof -
  have hc: "hchain hp' ys" if "C l = Some ys" "l \<noteq> k" for l ys
    using chains_at [OF assms(1) that(1)] fr [OF that] dchain_cong [of ys hp' hp] by (simp add: hchain_def)
  show "chains hp' (C(k := r))"
    unfolding chains_def
  proof (intro conjI allI impI)
    fix l ys assume "(C(k := r)) l = Some ys"
    then show "ys \<noteq> []" "hchain hp' ys" using o hc chains_at [OF assms(1)] by (auto split: if_splits)
  next
    fix l l' ys zs assume a: "(C(k := r)) l = Some ys" "(C(k := r)) l' = Some zs" "l \<noteq> l'"
    have "set ys \<inter> set zs = {}" if "l \<noteq> k" "l' \<noteq> k" using that a assms(1) unfolding chains_def by simp
    moreover have "set ys \<inter> set zs = {}" if "l = k" using that a fr [of l' zs] by auto
    moreover have "set ys \<inter> set zs = {}" if "l' = k" using that a fr [of l ys] by auto
    ultimately show "set ys \<inter> set zs = {}" by blast
  qed
  show "contents hp' (C(k := r)) = (contents hp C)(k := (case r of None \<Rightarrow> [] | Some ys \<Rightarrow> map (hdata hp') ys))"
  proof
    fix l
    have "map (hdata hp') ys = map (hdata hp) ys" if "C l = Some ys" "l \<noteq> k" for ys
      using fr [OF that] unfolding hdata_def by simp
    then show "contents hp' (C(k := r)) l = ((contents hp C)(k := (case r of None \<Rightarrow> [] | Some ys \<Rightarrow> map (hdata hp') ys))) l"
      unfolding contents_def by (cases "l = k"; cases "C l") simp_all
  qed
qed

lemma heads_upd: "heads (C(k := r)) = (heads C)(k := map_option (\<lambda>xs. first_of xs NULL) r)"
  by (auto simp: heads_def)

lemma hash_isI:
  "hash_tab me h c s \<Longrightarrow> tree_free h (hb s) (heads C) \<Longrightarrow> chains (hnodes s) C \<Longrightarrow> contents (hnodes s) C = D \<Longrightarrow> hash_is me h c s D"
  by (auto simp: hash_is_def)

lemma find_map: "find P (map f xs) = map_option f (find (P \<circ> f) xs)"
  by (induction xs) auto

lemma find_in: "find P xs = Some x \<Longrightarrow> x \<in> set xs \<and> P x"
  by (induction xs) (auto split: if_splits)

section \<open>Searching\<close>

lemma hash_search_ok:
  assumes "hash_is me h c s D" "\<forall>d\<in>set (D (hash_key c key)). hash_match c str (hmemory s) key d \<noteq> None"
  shows "\<exists>s'. hash_search me h key str pdp s = Some (case find (\<lambda>d. hash_match c str (hmemory s) key d = Some True) (D (hash_key c key)) of
      None \<Rightarrow> (- ENOENT, None) | Some d \<Rightarrow> (0, if pdp then Some d else None), s') \<and> hash_is me h c s' D"
proof -
  let ?k = "hash_key c key" and ?m = "hash_match c str (hmemory s) key"
  obtain C where C: "hash_tab me h c s" "tree_free h (hb s) (heads C)" "chains (hnodes s) C" "contents (hnodes s) C = D"
    using assms(1) by (auto simp: hash_is_def)
  obtain t where t: "hget (htabs s) h = Some t" "h_ctx t \<noteq> NULL" "hget (hctxs s) (h_ctx t) = Some c" "h \<noteq> NULL"
    by (rule hash_ctx_ok [OF C(1)])
  obtain b where b: "hash_btree_lock me h s = Some (s\<lparr>hb := b\<rparr>)" "btree_rep me h b (heads C)" by (rule hash_lock_tree [OF C(1,2)])
  have tb: "hash_tab me h c (s\<lparr>hb := b\<rparr>)" "btree_rep me h (hb (s\<lparr>hb := b\<rparr>)) (heads C)" using C(1) b(2) by simp_all
  obtain b' where b': "hash_btree_unlock me h (s\<lparr>hb := b\<rparr>) = Some (s\<lparr>hb := b'\<rparr>)" "tree_free h b' (heads C)"
    using hash_unlock_tree [OF tb] by (metis hstate.surjective hstate.update_convs(4))
  have hi: "hash_is me h c (s\<lparr>hb := b'\<rparr>) D" using C b'(2) by (intro hash_isI [of _ _ _ _ C]) simp_all
  show ?thesis
  proof (cases "C ?k")
    case None
    then have "D ?k = []" using C(4) by (auto simp: contents_def)
    then show ?thesis using hi None C(1) t b' by (simp add: hash_search_def b(1) search_rep [OF b(2)] heads_def errno_defs)
  next
    case (Some xs)
    have D: "D ?k = map (hdata (hnodes s)) xs" using Some C(4) by (auto simp: contents_def)
    have xs: "dchain hn_next hn_prev (hnodes s) NULL xs NULL" "NULL \<notin> set xs" using chains_at [OF C(3) Some] by (simp_all add: hchain_def)
    have m: "\<forall>x\<in>set xs. ?m (hdata (hnodes s) x) \<noteq> None" using assms(2) by (simp add: D)
    show ?thesis
    proof (cases "find (\<lambda>x. ?m (hdata (hnodes s) x) = Some True) xs")
      case None
      then show ?thesis using hi C(1) t b' hash_find_ok [OF xs m]
        by (simp add: hash_search_def b(1) search_rep [OF b(2)] heads_def Some D find_map o_def)
    next
      case (Some x)
      have "x \<noteq> NULL \<and> hnodes s x \<noteq> None" using find_in [OF Some] chains_at [OF C(3) \<open>C ?k = Some xs\<close>] hchain_mapped by blast
      then have x: "x \<noteq> NULL" "hget (hnodes s) x = Some (the (hnodes s x))" using hget_nonNULL [of x "hnodes s"] by simp_all
      then show ?thesis using hi C(1) t b' hash_find_ok [OF xs m] Some
        by (simp add: hash_search_def b(1) search_rep [OF b(2)] heads_def \<open>C ?k = Some xs\<close> D find_map o_def) (simp add: hdata_def)
    qed
  qed
qed

section \<open>Inserting\<close>

lemma tree_free_bmem [simp]: "tree_free h (b\<lparr>bmem := ps\<rparr>) m = tree_free h b m"
  by (simp add: tree_free_def btree_ok_def btree_shape_def)

lemma link_tail_ok:
  assumes "hchain hp xs" "xs \<noteq> []" "node \<notin> set xs" "node \<noteq> NULL" "hp node = Some n" "hn_next n = NULL"
  obtains hp1 hp' where "hupd (last_of xs NULL) (hn_next_update (\<lambda>_. node)) hp = Some hp1"
    "hupd node (hn_prev_update (\<lambda>_. last_of xs NULL)) hp1 = Some hp'" "hchain hp' (xs @ [node])"
    "\<And>x. x \<notin> set xs \<Longrightarrow> x \<noteq> node \<Longrightarrow> hp' x = hp x" "map (hdata hp') (xs @ [node]) = map (hdata hp) xs @ [hn_data n]"
proof -
  have xs: "dchain hn_next hn_prev hp NULL xs NULL" "distinct xs" "NULL \<notin> set xs" using assms(1) by (simp_all add: hchain_def)
  have l: "last_of xs NULL \<noteq> NULL" by (rule last_of_nonNULL [OF assms(2) xs(3)])
  obtain hp1 where h1: "hupd_if (last_of xs NULL) (hn_next_update (\<lambda>_. node)) hp = Some hp1" "dchain hn_next hn_prev hp1 NULL xs node"
      "hn.same_payload hp hp1" "\<And>y. y \<notin> set xs \<Longrightarrow> hp1 y = hp y"
    using hn.retarget_last [OF xs] by blast
  define hp' where "hp' = hp1(node \<mapsto> n\<lparr>hn_prev := last_of xs NULL\<rparr>)"
  have n1: "hp1 node = Some n" using h1(4) [OF assms(3)] assms(5) by simp
  have d: "hdata hp' x = hdata hp x" if "x \<in> set xs" for x
  proof -
    have "hp x \<noteq> None" "x \<noteq> node" using that assms(3) hchain_mapped [OF assms(1)] by auto
    then show ?thesis using hdata_payload [OF h1(3), of x] by (simp add: hp'_def hdata_def)
  qed
  show thesis
  proof (rule that)
    show "hupd (last_of xs NULL) (hn_next_update (\<lambda>_. node)) hp = Some hp1" using h1(1) l by (simp add: hupd_if_nonNULL)
    show "hupd node (hn_prev_update (\<lambda>_. last_of xs NULL)) hp1 = Some hp'" using assms(4) n1 by (simp add: hupd_mapped hp'_def)
    show "hchain hp' (xs @ [node])" using h1(2) assms(3,4,6) xs by (auto simp: hchain_def dchain_append hp'_def)
    show "hp' x = hp x" if "x \<notin> set xs" "x \<noteq> node" for x using h1(4) that by (simp add: hp'_def)
    show "map (hdata hp') (xs @ [node]) = map (hdata hp) xs @ [hn_data n]" using d by (simp add: hp'_def hdata_def)
  qed
qed

lemma chains_outside:
  assumes "chains hp C" "hp p = None \<or> (\<forall>k xs. C k = Some xs \<longrightarrow> p \<notin> set xs)"
  shows "chains (hp(p := v)) C" "contents (hp(p := v)) C = contents hp C"
proof -
  have np: "p \<notin> set xs" if "C k = Some xs" for k xs
    using that assms(2) chains_at [OF assms(1) that] hchain_mapped [of hp xs p] by auto
  have e: "map (hdata (hp(p := v))) xs = map (hdata hp) xs" if "C k = Some xs" for k xs
    using np [OF that] by (auto simp: hdata_def)
  have "hchain (hp(p := v)) xs = hchain hp xs" if "C k = Some xs" for k xs using np [OF that] by (simp add: hchain_def)
  then show "chains (hp(p := v)) C" using assms(1) unfolding chains_def by blast
  show "contents (hp(p := v)) C = contents hp C"
  proof
    fix k show "contents (hp(p := v)) C k = contents hp C k" using e [of k] by (cases "C k") (simp_all add: contents_def)
  qed
qed

text \<open>The part of \<open>hash_insert\<close> behind the allocation of the node, for a hash value with no chain and for one with a chain.\<close>

lemma insert_new_chain:
  assumes ch: "chains hp C" and rep: "btree_rep me h b (heads C)" and k: "C k = None" and node: "hp node = None" "node \<noteq> NULL"
  shows "\<exists>e b'. btree_insert me h k node b = Some (e, b')
    \<and> (if e = 0 then btree_rep me h b' (heads (C(k \<mapsto> [node])))
          \<and> chains (hp(node \<mapsto> \<lparr>hn_prev = NULL, hn_data = data, hn_next = NULL\<rparr>)) (C(k \<mapsto> [node]))
          \<and> contents (hp(node \<mapsto> \<lparr>hn_prev = NULL, hn_data = data, hn_next = NULL\<rparr>)) (C(k \<mapsto> [node])) = (contents hp C)(k := [data])
       else e = - ENOMEM \<and> btree_rep me h b' (heads C) \<and> fst (kmalloc (b_used b) (bmem b)) = NULL)"
proof -
  let ?hp = "hp(node \<mapsto> \<lparr>hn_prev = NULL, hn_data = data, hn_next = NULL\<rparr>)"
  have hk: "heads C k = None" using k by (simp add: heads_def)
  obtain e b' where i: "btree_insert me h k node b = Some (e, b')"
      "case kmalloc (b_used b) (bmem b) of (p, ps) \<Rightarrow> if p = NULL then e = - ENOMEM \<and> b' = b\<lparr>bmem := ps\<rparr>
         else if heads C k \<noteq> None then e = - EEXIST \<and> b' = b\<lparr>bmem := ps\<rparr> else e = 0 \<and> btree_rep me h b' ((heads C)(k \<mapsto> node)) \<and> bmem b' = ps"
    using btree_insert_cases [OF rep, of k node] by (elim exE conjE)
  have np: "node \<notin> set ys" if "C l = Some ys" for l ys using that node(1) chains_at [OF ch that] hchain_mapped [of hp ys node] by auto
  have "\<forall>ys. Some [node] = Some ys \<longrightarrow> ys \<noteq> [] \<and> hchain ?hp ys" using node(2) by (simp add: hchain_def)
  moreover have "?hp x = hp x \<and> (\<forall>zs. Some [node] = Some zs \<longrightarrow> x \<notin> set zs)" if "C l = Some ys" "l \<noteq> k" "x \<in> set ys" for l ys x
    using np [OF that(1)] that(3) by auto
  ultimately have "chains ?hp (C(k \<mapsto> [node]))" "contents ?hp (C(k \<mapsto> [node])) = (contents hp C)(k := map (hdata ?hp) [node])"
    using chains_update [OF ch, of "Some [node]" ?hp k] by simp_all
  then have "chains ?hp (C(k \<mapsto> [node]))" "contents ?hp (C(k \<mapsto> [node])) = (contents hp C)(k := [data])" by (simp_all add: hdata_def)
  then show ?thesis using i hk rep
    by (cases "kmalloc (b_used b) (bmem b)") (auto simp: heads_upd errno_defs split: if_splits)
qed

lemma insert_old_chain:
  assumes ch: "chains hp C" and k: "C k = Some xs" and node: "hp node = None" "node \<noteq> NULL"
  obtains hp1 hp' where
    "hash_tail NULL (first_of xs NULL) (hp(node \<mapsto> \<lparr>hn_prev = NULL, hn_data = data, hn_next = NULL\<rparr>)) = Some (last_of xs NULL)"
    "hupd (last_of xs NULL) (hn_next_update (\<lambda>_. node)) (hp(node \<mapsto> \<lparr>hn_prev = NULL, hn_data = data, hn_next = NULL\<rparr>)) = Some hp1"
    "hupd node (hn_prev_update (\<lambda>_. last_of xs NULL)) hp1 = Some hp'"
    "chains hp' (C(k \<mapsto> xs @ [node]))" "contents hp' (C(k \<mapsto> xs @ [node])) = (contents hp C)(k := contents hp C k @ [data])"
    "heads (C(k \<mapsto> xs @ [node])) = heads C"
proof -
  let ?n = "\<lparr>hn_prev = NULL, hn_data = data, hn_next = NULL\<rparr>"
  let ?hp = "hp(node \<mapsto> ?n)"
  note ch1 = chains_outside [OF ch disjI1, of node "Some ?n", OF node(1)]
  have xs: "xs \<noteq> []" "hchain ?hp xs" using chains_at [OF ch1(1) k] by simp_all
  have np: "node \<notin> set ys" if "C l = Some ys" for l ys using that node(1) chains_at [OF ch that] hchain_mapped [of hp ys node] by auto
  have n1: "?hp node = Some ?n" "hn_next ?n = NULL" by simp_all
  obtain hp1 hp' where l: "hupd (last_of xs NULL) (hn_next_update (\<lambda>_. node)) ?hp = Some hp1"
      "hupd node (hn_prev_update (\<lambda>_. last_of xs NULL)) hp1 = Some hp'" "hchain hp' (xs @ [node])"
      "\<And>x. x \<notin> set xs \<Longrightarrow> x \<noteq> node \<Longrightarrow> hp' x = ?hp x" "map (hdata hp') (xs @ [node]) = map (hdata ?hp) xs @ [hn_data ?n]"
    using link_tail_ok [OF xs(2,1) np [OF k] node(2) n1] by metis
  have o: "\<forall>ys. Some (xs @ [node]) = Some ys \<longrightarrow> ys \<noteq> [] \<and> hchain hp' ys" using l(3) by simp
  have fr: "hp' x = ?hp x \<and> (\<forall>zs. Some (xs @ [node]) = Some zs \<longrightarrow> x \<notin> set zs)" if "C m = Some ys" "m \<noteq> k" "x \<in> set ys" for m ys x
  proof -
    have "set ys \<inter> set xs = {}" using that(1,2) k ch unfolding chains_def by metis
    then have "x \<notin> set xs" using that(3) by blast
    moreover have "x \<noteq> node" using np [OF that(1)] that(3) by blast
    ultimately show ?thesis using l(4) [of x] by simp
  qed
  have u: "chains hp' (C(k \<mapsto> xs @ [node]))"
      "contents hp' (C(k \<mapsto> xs @ [node])) = (contents ?hp C)(k := (case Some (xs @ [node]) of None \<Rightarrow> [] | Some ys \<Rightarrow> map (hdata hp') ys))"
    by (rule chains_update [OF ch1(1) o], erule (2) fr)+
  have tl: "hash_tail NULL (first_of xs NULL) ?hp = Some (last_of xs NULL)" using xs(2) hash_tail_ok [of ?hp NULL xs NULL] by (simp add: hchain_def)
  have "heads (C(k \<mapsto> xs @ [node])) = heads C" using k xs(1) by (cases xs) (auto simp: heads_def)
  moreover have mk: "map (hdata ?hp) xs = contents hp C k" using k unfolding ch1(2) [symmetric] by (simp add: contents_def)
  have "contents hp' (C(k \<mapsto> xs @ [node])) = (contents ?hp C)(k := map (hdata hp') (xs @ [node]))" using u(2) by (simp only: option.case)
  then have "contents hp' (C(k \<mapsto> xs @ [node])) = (contents hp C)(k := contents hp C k @ [data])"
    unfolding l(5) mk ch1(2) by (simp only: hash_node.simps)
  ultimately show thesis using that [OF tl l(1,2) u(1)] by blast
qed

lemma b_used_bmem [simp]: "b_used (b\<lparr>bmem := ps\<rparr>) = b_used b"
  by (simp add: b_used_def fun_eq_iff)

text \<open>\<open>hash_insert\<close> once its arguments are checked and the node is allocated.\<close>

lemma hash_insert_eq:
  assumes "hash_tab me h c s" "kmalloc (h_used s) (bmem (hb s)) = (node, ps)" "node \<noteq> NULL"
    "hash_btree_lock me h (s\<lparr>hb := (hb s)\<lparr>bmem := ps\<rparr>, hnodes := (hnodes s)(node \<mapsto> \<lparr>hn_prev = NULL, hn_data = data, hn_next = NULL\<rparr>)\<rparr>) = Some s1"
    "btree_search me h (hash_key c key) (hb s1) = Some (err, head)"
  shows "hash_insert me h key data s = do {
     (err, s) \<leftarrow> (if err = - ENOENT then do { (err, b) \<leftarrow> btree_insert me h (hash_key c key) node (hb s1); Some (err, s1\<lparr>hb := b\<rparr>) }
          else if err = 0 then do {
            tail \<leftarrow> hash_tail NULL (the head) (hnodes s1);
            hp \<leftarrow> hupd tail (hn_next_update (\<lambda>_. node)) (hnodes s1);
            hp \<leftarrow> hupd node (hn_prev_update (\<lambda>_. tail)) hp;
            Some (err, s1\<lparr>hnodes := hp\<rparr>)
          }
          else Some (err, s1));
     s \<leftarrow> hash_btree_unlock me h s;
     if err \<noteq> 0 then do { hp \<leftarrow> kfree node (hnodes s); Some (err, s\<lparr>hnodes := hp\<rparr>) } else Some (0, s)
   }"
proof -
  obtain t where t: "hget (htabs s) h = Some t" "h_ctx t \<noteq> NULL" "hget (hctxs s) (h_ctx t) = Some c" "h \<noteq> NULL"
    by (rule hash_ctx_ok [OF assms(1)])
  have e: "s\<lparr>hb := (hb s)\<lparr>bmem := ps\<rparr>, hnodes := (hnodes s)(node \<mapsto> \<lparr>hn_prev = NULL, hn_data = data, hn_next = NULL\<rparr>)\<rparr>
      = s\<lparr>hnodes := (hnodes s)(node \<mapsto> \<lparr>hn_prev = NULL, hn_data = data, hn_next = NULL\<rparr>), hb := (hb s)\<lparr>bmem := ps\<rparr>\<rparr>" by simp
  show ?thesis using assms t by (simp add: hash_insert_def Let_def e del: One_nat_def)
qed

lemma hash_unlock_nodes:
  assumes "hash_tab me h c s" "btree_rep me h b m"
  obtains b2 where "hash_btree_unlock me h (s\<lparr>hb := b, hnodes := hp\<rparr>) = Some (s\<lparr>hb := b2, hnodes := hp\<rparr>)" "tree_free h b2 m"
proof -
  have r: "hash_tab me h c (s\<lparr>hb := b, hnodes := hp\<rparr>)" "btree_rep me h (hb (s\<lparr>hb := b, hnodes := hp\<rparr>)) m" using assms by simp_all
  have e: "s\<lparr>hb := b, hnodes := hp, hb := b2\<rparr> = s\<lparr>hb := b2, hnodes := hp\<rparr>" for b2 by simp
  show thesis by (rule hash_unlock_tree [OF r, unfolded e]) (rule that)
qed

text \<open>A table with a new node, locked for the insertion.\<close>

definition with_node :: "ptr \<Rightarrow> ptr \<Rightarrow> ptr list \<Rightarrow> hstate \<Rightarrow> hstate" where
  "with_node node data ps s = s\<lparr>hb := (hb s)\<lparr>bmem := ps\<rparr>, hnodes := (hnodes s)(node \<mapsto> \<lparr>hn_prev = NULL, hn_data = data, hn_next = NULL\<rparr>)\<rparr>"

definition inserting :: "ctx \<Rightarrow> ptr \<Rightarrow> hash_ctx \<Rightarrow> hstate \<Rightarrow> (u64 \<rightharpoonup> ptr list) \<Rightarrow> ptr \<Rightarrow> ptr \<Rightarrow> ptr list \<Rightarrow> bstate \<Rightarrow> bool" where
  "inserting me h c s C node data ps b \<longleftrightarrow> hash_tab me h c s \<and> chains (hnodes s) C \<and> kmalloc (h_used s) (bmem (hb s)) = (node, ps) \<and> node \<noteq> NULL
     \<and> hash_btree_lock me h (with_node node data ps s) = Some ((with_node node data ps s)\<lparr>hb := b\<rparr>) \<and> btree_rep me h b (heads C)"

lemma with_node_tab: "hash_tab me h c s \<Longrightarrow> hash_tab me h c (with_node node data ps s)"
  by (simp add: with_node_def)

lemma inserting_fresh: "inserting me h c s C node data ps b \<Longrightarrow> hnodes s node = None"
  using kmalloc_fresh [of "h_used s" "bmem (hb s)" node ps] by (auto simp: inserting_def h_used_def)

lemma hash_insert_new:
  assumes i: "inserting me h c s C node data ps b" and k: "C (hash_key c key) = None"
  shows "\<exists>e s'. hash_insert me h key data s = Some (e, s')
    \<and> (if e = 0 then hash_is me h c s' ((contents (hnodes s) C)(hash_key c key := [data]))
       else e = - ENOMEM \<and> hash_is me h c s' (contents (hnodes s) C) \<and> fst (kmalloc (b_used b) (bmem b)) = NULL)"
proof -
  let ?k = "hash_key c key" and ?hp = "(hnodes s)(node \<mapsto> \<lparr>hn_prev = NULL, hn_data = data, hn_next = NULL\<rparr>)" and ?s = "with_node node data ps s"
  have I: "hash_tab me h c s" "chains (hnodes s) C" "kmalloc (h_used s) (bmem (hb s)) = (node, ps)" "node \<noteq> NULL"
      "hash_btree_lock me h ?s = Some (?s\<lparr>hb := b\<rparr>)" "btree_rep me h b (heads C)" using i by (simp_all add: inserting_def)
  note nn = inserting_fresh [OF i] and tab = with_node_tab [OF I(1), of node data ps]
  have sr: "btree_search me h ?k (hb (?s\<lparr>hb := b\<rparr>)) = Some (- ENOENT, None)" using k by (simp add: search_rep [OF I(6)] heads_def)
  note eq = hash_insert_eq [OF I(1,3,4) I(5) [unfolded with_node_def] sr [unfolded with_node_def], folded with_node_def]
  have sh: "?s\<lparr>hb := b'\<rparr> = ?s\<lparr>hb := b', hnodes := ?hp\<rparr>" for b' by (simp add: with_node_def)
  obtain e b' where e: "btree_insert me h ?k node b = Some (e, b')"
    "if e = 0 then btree_rep me h b' (heads (C(?k \<mapsto> [node]))) \<and> chains ?hp (C(?k \<mapsto> [node])) \<and> contents ?hp (C(?k \<mapsto> [node])) = (contents (hnodes s) C)(?k := [data])
     else e = - ENOMEM \<and> btree_rep me h b' (heads C) \<and> fst (kmalloc (b_used b) (bmem b)) = NULL"
    using insert_new_chain [OF I(2,6) k nn I(4), of data] by blast
  show ?thesis
  proof (cases "e = 0")
    case True
    then have r: "btree_rep me h b' (heads (C(?k \<mapsto> [node])))" "chains ?hp (C(?k \<mapsto> [node]))"
        "contents ?hp (C(?k \<mapsto> [node])) = (contents (hnodes s) C)(?k := [data])" using e(2) by simp_all
    obtain b2 where b2: "hash_btree_unlock me h (?s\<lparr>hb := b', hnodes := ?hp\<rparr>) = Some (?s\<lparr>hb := b2, hnodes := ?hp\<rparr>)" "tree_free h b2 (heads (C(?k \<mapsto> [node])))"
      by (rule hash_unlock_nodes [OF tab r(1)])
    have "hash_is me h c (?s\<lparr>hb := b2, hnodes := ?hp\<rparr>) ((contents (hnodes s) C)(?k := [data]))"
      using r(2,3) b2(2) tab by (intro hash_isI [of _ _ _ _ "C(?k \<mapsto> [node])"]) simp_all
    moreover have "hash_insert me h key data s = Some (0, ?s\<lparr>hb := b2, hnodes := ?hp\<rparr>)"
      unfolding eq using e(1) True b2(1) sh [of b'] by simp
    ultimately show ?thesis by auto
  next
    case False
    then have r: "e = - ENOMEM" "btree_rep me h b' (heads C)" "fst (kmalloc (b_used b) (bmem b)) = NULL" using e(2) by simp_all
    obtain b2 where b2: "hash_btree_unlock me h (?s\<lparr>hb := b', hnodes := ?hp\<rparr>) = Some (?s\<lparr>hb := b2, hnodes := ?hp\<rparr>)" "tree_free h b2 (heads C)"
      by (rule hash_unlock_nodes [OF tab r(2)])
    have "hash_is me h c (?s\<lparr>hb := b2, hnodes := hnodes s\<rparr>) (contents (hnodes s) C)" using I(2) b2(2) tab by (intro hash_isI [of _ _ _ _ C]) simp_all
    moreover have "kfree node ?hp = Some (hnodes s)" using I(4) nn by (auto simp: kfree_def)
    then have "hash_insert me h key data s = Some (e, ?s\<lparr>hb := b2, hnodes := hnodes s\<rparr>)"
      unfolding eq using e(1) False b2(1) sh [of b'] by simp
    ultimately show ?thesis using r False by auto
  qed
qed

lemma hash_insert_old:
  assumes i: "inserting me h c s C node data ps b" and k: "C (hash_key c key) = Some xs"
  shows "\<exists>s'. hash_insert me h key data s = Some (0, s')
    \<and> hash_is me h c s' ((contents (hnodes s) C)(hash_key c key := contents (hnodes s) C (hash_key c key) @ [data]))"
proof -
  let ?k = "hash_key c key" and ?hp = "(hnodes s)(node \<mapsto> \<lparr>hn_prev = NULL, hn_data = data, hn_next = NULL\<rparr>)" and ?s = "with_node node data ps s"
  have I: "hash_tab me h c s" "chains (hnodes s) C" "kmalloc (h_used s) (bmem (hb s)) = (node, ps)" "node \<noteq> NULL"
      "hash_btree_lock me h ?s = Some (?s\<lparr>hb := b\<rparr>)" "btree_rep me h b (heads C)" using i by (simp_all add: inserting_def)
  note nn = inserting_fresh [OF i] and tab = with_node_tab [OF I(1), of node data ps]
  obtain hp1 hp' where l: "hash_tail NULL (first_of xs NULL) ?hp = Some (last_of xs NULL)"
      "hupd (last_of xs NULL) (hn_next_update (\<lambda>_. node)) ?hp = Some hp1" "hupd node (hn_prev_update (\<lambda>_. last_of xs NULL)) hp1 = Some hp'"
      "chains hp' (C(?k \<mapsto> xs @ [node]))" "contents hp' (C(?k \<mapsto> xs @ [node])) = (contents (hnodes s) C)(?k := contents (hnodes s) C ?k @ [data])"
      "heads (C(?k \<mapsto> xs @ [node])) = heads C"
    by (rule insert_old_chain [OF I(2) k nn I(4)])
  have sr: "btree_search me h ?k (hb (?s\<lparr>hb := b\<rparr>)) = Some (0, Some (first_of xs NULL))" using k by (simp add: search_rep [OF I(6)] heads_def)
  note eq = hash_insert_eq [OF I(1,3,4) I(5) [unfolded with_node_def] sr [unfolded with_node_def], folded with_node_def]
  obtain b2 where b2: "hash_btree_unlock me h (?s\<lparr>hb := b, hnodes := hp'\<rparr>) = Some (?s\<lparr>hb := b2, hnodes := hp'\<rparr>)" "tree_free h b2 (heads C)"
    by (rule hash_unlock_nodes [OF tab I(6)])
  have "hash_is me h c (?s\<lparr>hb := b2, hnodes := hp'\<rparr>) ((contents (hnodes s) C)(?k := contents (hnodes s) C ?k @ [data]))"
    using l(4-6) b2(2) tab by (intro hash_isI [of _ _ _ _ "C(?k \<mapsto> xs @ [node])"]) simp_all
  moreover have hs: "hnodes ?s = ?hp" by (simp add: with_node_def)
  have "hash_insert me h key data s = Some (0, ?s\<lparr>hb := b2, hnodes := hp'\<rparr>)"
    unfolding eq using l(1-3) b2(1) by (simp add: errno_defs hs)
  ultimately show ?thesis by blast
qed

lemma hash_insert_ok:
  assumes "hash_is me h c s D" and k: "k = hash_key c key"
  shows "\<exists>e s'. hash_insert me h key data s = Some (e, s')
    \<and> (if e = 0 then hash_is me h c s' (D(k := D k @ [data]))
       else e = - ENOMEM \<and> hash_is me h c s' D
         \<and> (fst (kmalloc (h_used s) (bmem (hb s))) = NULL \<or> D k = [] \<and> fst (kmalloc (b_used (hb s)) (tl (bmem (hb s)))) = NULL))"
proof -
  obtain C where C: "hash_tab me h c s" "tree_free h (hb s) (heads C)" "chains (hnodes s) C" "contents (hnodes s) C = D"
    using assms(1) by (auto simp: hash_is_def)
  obtain node ps where km: "kmalloc (h_used s) (bmem (hb s)) = (node, ps)" by fastforce
  have ps: "ps = tl (bmem (hb s))" using km by (auto simp: kmalloc_def split: list.splits)
  show ?thesis
  proof (cases "node = NULL")
    case True
    obtain t where t: "hget (htabs s) h = Some t" "h_ctx t \<noteq> NULL" "hget (hctxs s) (h_ctx t) = Some c" "h \<noteq> NULL"
      by (rule hash_ctx_ok [OF C(1)])
    have "hash_is me h c (s\<lparr>hb := (hb s)\<lparr>bmem := ps\<rparr>\<rparr>) D" using C by (intro hash_isI [of _ _ _ _ C]) simp_all
    then show ?thesis using True km t C(1) by (simp add: hash_insert_def errno_defs)
  next
    case False
    have tf: "tree_free h (hb (with_node node data ps s)) (heads C)" using C(2) by (simp add: with_node_def)
    obtain b where b: "hash_btree_lock me h (with_node node data ps s) = Some ((with_node node data ps s)\<lparr>hb := b\<rparr>)" "btree_rep me h b (heads C)"
        "bmem b = bmem (hb (with_node node data ps s))" "b_used b = b_used (hb (with_node node data ps s))"
      by (rule hash_lock_tree [OF with_node_tab [OF C(1)] tf])
    have i: "inserting me h c s C node data ps b" using C km False b by (simp add: inserting_def)
    have m: "fst (kmalloc (b_used b) (bmem b)) = fst (kmalloc (b_used (hb s)) (tl (bmem (hb s))))" using b(3,4) ps by (simp add: with_node_def)
    show ?thesis
    proof (cases "C k")
      case None
      then have "D k = []" using C(4) by (auto simp: contents_def)
      then show ?thesis using hash_insert_new [OF i, of key] None m unfolding C(4) k by (metis append_Nil)
    next
      case (Some xs)
      then show ?thesis using hash_insert_old [OF i, of key xs] unfolding C(4) k by metis
    qed
  qed
qed

section \<open>Deleting\<close>

fun drop_first :: "('a \<Rightarrow> bool) \<Rightarrow> 'a list \<Rightarrow> 'a list" where
  "drop_first P [] = []"
| "drop_first P (x # xs) = (if P x then xs else x # drop_first P xs)"

lemma drop_first_map: "\<forall>a\<in>set A. \<not> P (f a) \<Longrightarrow> P (f x) \<Longrightarrow> drop_first P (map f (A @ x # B)) = map f (A @ B)"
  by (induction A) auto

lemma find_split: "find P xs = Some x \<Longrightarrow> \<exists>A B. xs = A @ x # B \<and> (\<forall>a\<in>set A. \<not> P a) \<and> P x"
proof (induction xs)
  case (Cons y ys)
  show ?case
  proof (cases "P y")
    case False
    then obtain A B where "ys = A @ x # B" "\<forall>a\<in>set A. \<not> P a" "P x" using Cons by auto
    then have "y # ys = (y # A) @ x # B \<and> (\<forall>a\<in>set (y # A). \<not> P a) \<and> P x" using False by simp
    then show ?thesis by blast
  qed (use Cons in force)
qed simp

lemma unlink_ok:
  assumes "hchain hp (A @ x # B)"
  obtains hp1 hp' where "hupd_if (first_of B NULL) (hn_prev_update (\<lambda>_. last_of A NULL)) hp = Some hp1"
    "hupd_if (last_of A NULL) (hn_next_update (\<lambda>_. first_of B NULL)) hp1 = Some hp'" "hchain hp' (A @ B)"
    "\<And>y. hp y \<noteq> None \<Longrightarrow> hdata hp' y = hdata hp y" "\<And>y. y \<notin> set A \<Longrightarrow> y \<notin> set B \<Longrightarrow> hp' y = hp y"
proof -
  have d: "dchain hn_next hn_prev hp NULL (A @ x # B) NULL" "distinct (A @ x # B)" "NULL \<notin> set (A @ x # B)"
    using assms by (simp_all add: hchain_def)
  obtain hp' where u: "dll_unlink hn_next_update hn_prev_update (last_of A NULL) (first_of B NULL) hp = Some hp'"
      "dchain hn_next hn_prev hp' NULL (A @ B) NULL" "hn.same_payload hp hp'" "\<And>y. y \<notin> set A \<Longrightarrow> y \<notin> set B \<Longrightarrow> hp' y = hp y"
    using hn.unlink_chain [OF d] by blast
  have "do { h \<leftarrow> hupd_if (first_of B NULL) (hn_prev_update (\<lambda>_. last_of A NULL)) hp; hupd_if (last_of A NULL) (hn_next_update (\<lambda>_. first_of B NULL)) h } = Some hp'"
    using u(1) unfolding dll_unlink_def by (subst hupd_commute) simp_all
  then obtain hp1 where h1: "hupd_if (first_of B NULL) (hn_prev_update (\<lambda>_. last_of A NULL)) hp = Some hp1"
      "hupd_if (last_of A NULL) (hn_next_update (\<lambda>_. first_of B NULL)) hp1 = Some hp'" by (auto simp: bind_eq_Some_conv)
  have c: "hchain hp' (A @ B)" using u(2) d by (simp add: hchain_def)
  show thesis by (rule that [OF h1 c hdata_payload [OF u(3)] u(4)])
qed

text \<open>The chain of the hash value \<open>k\<close> without its node \<open>x\<close>, once that node is freed.\<close>

lemma chains_remove:
  assumes ch: "chains hp C" and k: "C k = Some (A @ x # B)" and c: "hchain hp' (A @ B)"
    and d: "\<And>y. hp y \<noteq> None \<Longrightarrow> hdata hp' y = hdata hp y" and fr: "\<And>y. y \<notin> set A \<Longrightarrow> y \<notin> set B \<Longrightarrow> hp' y = hp y"
    and r: "r = None \<or> r = Some (A @ B) \<and> A @ B \<noteq> []"
  shows "chains (hp'(x := v)) (C(k := r))"
    "contents (hp'(x := v)) (C(k := r)) = (contents hp C)(k := (if r = None then [] else map (hdata hp) (A @ B)))"
proof -
  have hx: "hchain hp (A @ x # B)" using chains_at [OF ch k] by simp
  then have x: "x \<notin> set (A @ B)" by (auto simp: hchain_def)
  have c': "hchain (hp'(x := v)) (A @ B)" using c x by (simp add: hchain_def)
  have m: "map (hdata (hp'(x := v))) (A @ B) = map (hdata hp) (A @ B)"
  proof (rule map_cong [OF refl])
    fix y assume y: "y \<in> set (A @ B)"
    then have "hp y \<noteq> None" "y \<noteq> x" using hchain_mapped [OF hx, of y] x by auto
    then show "hdata (hp'(x := v)) y = hdata hp y" using d [of y] by (simp add: hdata_def)
  qed
  have o: "\<forall>ys. r = Some ys \<longrightarrow> ys \<noteq> [] \<and> hchain (hp'(x := v)) ys" using r c' by auto
  have f: "(hp'(x := v)) y = hp y \<and> (\<forall>zs. r = Some zs \<longrightarrow> y \<notin> set zs)" if "C l = Some ys" "l \<noteq> k" "y \<in> set ys" for l ys y
  proof -
    have "set ys \<inter> set (A @ x # B) = {}" using that(1,2) k ch unfolding chains_def by metis
    then have "y \<notin> set A" "y \<notin> set B" "y \<noteq> x" using that(3) by auto
    then show ?thesis using fr [of y] r by auto
  qed
  have u: "chains (hp'(x := v)) (C(k := r))"
      "contents (hp'(x := v)) (C(k := r)) = (contents hp C)(k := (case r of None \<Rightarrow> [] | Some ys \<Rightarrow> map (hdata (hp'(x := v))) ys))"
    by (rule chains_update [OF ch o], erule (2) f)+
  show "chains (hp'(x := v)) (C(k := r))" by (rule u(1))
  show "contents (hp'(x := v)) (C(k := r)) = (contents hp C)(k := (if r = None then [] else map (hdata hp) (A @ B)))"
    using u(2) r m by auto
qed

lemma drop_head_ok:
  assumes rep: "btree_rep me h (hb s) (heads C)"
    and n: "B \<noteq> [] \<longrightarrow> hget (hnodes s) (first_of B NULL) = Some n \<and> hash_key c (hn_data n) = k" and z: "NULL \<notin> set B"
  shows "\<exists>e b. hash_drop_head me h c k (first_of B NULL) s = Some (e, s\<lparr>hb := b\<rparr>)
    \<and> (if e = 0 then btree_rep me h b (heads (C(k := (if B = [] then None else Some B))))
       else e = - ENOMEM \<and> B \<noteq> [] \<and> btree_rep me h b (heads (C(k := None))))"
proof -
  obtain b where b: "btree_delete me h k (hb s) = Some b" "btree_rep me h b ((heads C)(k := None))"
    using btree_map.del_ok [OF rep, of k] by blast
  show ?thesis
  proof (cases "B = []")
    case True
    then show ?thesis using b by (intro exI [of _ 0] exI [of _ b]) (simp add: hash_drop_head_def heads_upd)
  next
    case False
    have f: "first_of B NULL \<noteq> NULL" by (rule first_of_nonNULL [OF False z])
    obtain e b' where "btree_insert me h k (first_of B NULL) b = Some (e, b')"
        "case kmalloc (b_used b) (bmem b) of (p, ps) \<Rightarrow> if p = NULL then e = - ENOMEM \<and> b' = b\<lparr>bmem := ps\<rparr>
           else if ((heads C)(k := None)) k \<noteq> None then e = - EEXIST \<and> b' = b\<lparr>bmem := ps\<rparr>
           else e = 0 \<and> btree_rep me h b' ((heads C)(k := None, k \<mapsto> first_of B NULL)) \<and> bmem b' = ps"
      using btree_insert_cases [OF b(2), of k "first_of B NULL"] by (elim exE conjE)
    then show ?thesis using b f n False
      by (cases "kmalloc (b_used b) (bmem b)") (auto simp: hash_drop_head_def heads_upd errno_defs split: if_splits)
  qed
qed

text \<open>\<open>hash_delete\<close> once a node is found.\<close>

lemma hash_delete_eq:
  assumes tab: "hash_tab me h c s" and lk: "hash_btree_lock me h s = Some (s\<lparr>hb := b\<rparr>)"
    and se: "btree_search me h (hash_key c key) b = Some (0, Some head)"
    and fi: "hash_find (hash_match c str (hmemory s) key) head (hnodes s) = Some x" "x \<noteq> NULL" "hget (hnodes s) x = Some n"
    and un: "hupd_if (hn_next n) (hn_prev_update (\<lambda>_. hn_prev n)) (hnodes s) = Some hp1"
      "hupd_if (hn_prev n) (hn_next_update (\<lambda>_. hn_next n)) hp1 = Some hp'"
  shows "hash_delete me h key str s = do {
     (err, s) \<leftarrow> (if x = head then hash_drop_head me h c (hash_key c key) (hn_next n) (s\<lparr>hb := b, hnodes := hp'\<rparr>) else Some (0, s\<lparr>hb := b, hnodes := hp'\<rparr>));
     s \<leftarrow> hash_btree_unlock me h s;
     if err \<noteq> 0 then Some (err, s) else do { hp \<leftarrow> kfree x (hnodes s); Some (0, s\<lparr>hnodes := hp\<rparr>) }
   }"
proof -
  obtain t where t: "hget (htabs s) h = Some t" "h_ctx t \<noteq> NULL" "hget (hctxs s) (h_ctx t) = Some c" "h \<noteq> NULL"
    by (rule hash_ctx_ok [OF tab])
  have e: "s\<lparr>hb := b, hnodes := hp'\<rparr> = s\<lparr>hnodes := hp', hb := b\<rparr>" by simp
  show ?thesis using assms t by (simp add: hash_delete_def Let_def e)
qed

text \<open>The tree after the deletion of the node \<open>x\<close> of a chain.\<close>

lemma delete_tree_ok:
  assumes rep: "btree_rep me h b (heads C)" and k: "C k = Some (A @ x # B)" and d: "distinct (A @ x # B)" "NULL \<notin> set B"
    and n: "B \<noteq> [] \<longrightarrow> hget hp (first_of B NULL) = Some n \<and> hash_key c (hn_data n) = k"
  shows "\<exists>e b'. (if x = first_of (A @ x # B) NULL then hash_drop_head me h c k (first_of B NULL) (s\<lparr>hb := b, hnodes := hp\<rparr>)
        else Some (0, s\<lparr>hb := b, hnodes := hp\<rparr>)) = Some (e, s\<lparr>hb := b', hnodes := hp\<rparr>)
    \<and> (if e = 0 then btree_rep me h b' (heads (C(k := (if A @ B = [] then None else Some (A @ B)))))
       else e = - ENOMEM \<and> A = [] \<and> B \<noteq> [] \<and> btree_rep me h b' (heads (C(k := None))))"
proof (cases A)
  case Nil
  have r: "btree_rep me h (hb (s\<lparr>hb := b, hnodes := hp\<rparr>)) (heads C)" using rep by simp
  have n': "B \<noteq> [] \<longrightarrow> hget (hnodes (s\<lparr>hb := b, hnodes := hp\<rparr>)) (first_of B NULL) = Some n \<and> hash_key c (hn_data n) = k" using n by simp
  have e: "s\<lparr>hb := b, hnodes := hp, hb := b'\<rparr> = s\<lparr>hb := b', hnodes := hp\<rparr>" for b' by simp
  have f: "x = first_of (A @ x # B) NULL" "A @ B = B" using Nil by simp_all
  show ?thesis unfolding if_P [OF f(1)] f(2) using drop_head_ok [OF r n' d(2), unfolded e] Nil by metis
next
  case (Cons a A')
  then have "heads (C(k \<mapsto> A @ B)) = heads C" using k by (auto simp: heads_def)
  then show ?thesis using Cons d(1) rep by (intro exI [of _ 0] exI [of _ b]) auto
qed

lemma hash_delete_found:
  assumes C: "hash_tab me h c s" "chains (hnodes s) C" and k: "C k = Some (A @ x # B)" "k = hash_key c key"
    and b: "hash_btree_lock me h s = Some (s\<lparr>hb := b\<rparr>)" "btree_rep me h b (heads C)"
    and fi: "hash_find (hash_match c str (hmemory s) key) (first_of (A @ x # B) NULL) (hnodes s) = Some x"
    and own: "\<forall>y\<in>set B. hash_key c (hdata (hnodes s) y) = k"
  shows "\<exists>e s'. hash_delete me h key str s = Some (e, s')
    \<and> (if e = 0 then hash_is me h c s' ((contents (hnodes s) C)(k := map (hdata (hnodes s)) (A @ B)))
       else e = - ENOMEM \<and> A = [] \<and> B \<noteq> [] \<and> hash_is me h c s' ((contents (hnodes s) C)(k := [])))"
proof -
  let ?hp = "hnodes s"
  have hc: "hchain ?hp (A @ x # B)" using chains_at [OF C(2) k(1)] by simp
  then have dx: "x \<noteq> NULL" "NULL \<notin> set B" "distinct (A @ x # B)" by (auto simp: hchain_def)
  obtain n where n: "?hp x = Some n" "hn_prev n = last_of A NULL" "hn_next n = first_of B NULL"
    using hc dchain_at [of hn_next hn_prev ?hp NULL A x B NULL] by (auto simp: hchain_def)
  obtain hp1 hp' where u: "hupd_if (first_of B NULL) (hn_prev_update (\<lambda>_. last_of A NULL)) ?hp = Some hp1"
      "hupd_if (last_of A NULL) (hn_next_update (\<lambda>_. first_of B NULL)) hp1 = Some hp'" "hchain hp' (A @ B)"
      "\<And>y. ?hp y \<noteq> None \<Longrightarrow> hdata hp' y = hdata ?hp y" "\<And>y. y \<notin> set A \<Longrightarrow> y \<notin> set B \<Longrightarrow> hp' y = ?hp y"
    using unlink_ok [OF hc] by metis
  have hx: "x = first_of (A @ x # B) NULL \<longleftrightarrow> A = []" using dx(3) by (cases A) auto
  have se: "btree_search me h (hash_key c key) b = Some (0, Some (first_of (A @ x # B) NULL))"
    using k by (simp add: search_rep [OF b(2)] heads_def)
  have gx: "hget ?hp x = Some n" using n(1) dx(1) by (simp add: hget_nonNULL)
  note eq = hash_delete_eq [OF C(1) b(1) se fi dx(1) gx, unfolded n(2,3), OF u(1,2)]
  note cr = chains_remove [OF C(2) k(1) u(3-5)]
  define r where "r = (if A @ B = [] then None else Some (A @ B))"
  have nB: "B \<noteq> [] \<longrightarrow> hget hp' (first_of B NULL) = Some (the (hp' (first_of B NULL))) \<and> hash_key c (hn_data (the (hp' (first_of B NULL)))) = k"
  proof
    assume "B \<noteq> []"
    then have f: "first_of B NULL \<in> set B" by (rule first_of_in)
    then have "first_of B NULL \<noteq> NULL \<and> hp' (first_of B NULL) \<noteq> None" "?hp (first_of B NULL) \<noteq> None"
      using hchain_mapped [OF u(3), of "first_of B NULL"] hchain_mapped [OF hc, of "first_of B NULL"] by auto
    then show "hget hp' (first_of B NULL) = Some (the (hp' (first_of B NULL))) \<and> hash_key c (hn_data (the (hp' (first_of B NULL)))) = k"
      using own f u(4) [of "first_of B NULL"] by (simp add: hdata_def hget_nonNULL del: neq0_conv)
  qed
  have fx: "kfree x hp' = Some (hp'(x := None))" using u(5) [of x] n(1) dx by (auto simp: kfree_def)
  obtain e b' where e: "(if x = first_of (A @ x # B) NULL then hash_drop_head me h c (hash_key c key) (first_of B NULL) (s\<lparr>hb := b, hnodes := hp'\<rparr>)
        else Some (0, s\<lparr>hb := b, hnodes := hp'\<rparr>)) = Some (e, s\<lparr>hb := b', hnodes := hp'\<rparr>)"
      "if e = 0 then btree_rep me h b' (heads (C(k := r))) else e = - ENOMEM \<and> A = [] \<and> B \<noteq> [] \<and> btree_rep me h b' (heads (C(k := None)))"
    using delete_tree_ok [OF b(2) k(1) dx(3,2) nB] unfolding r_def k(2) by blast
  show ?thesis
  proof (cases "e = 0")
    case True
    obtain b2 where b2: "hash_btree_unlock me h (s\<lparr>hb := b', hnodes := hp'\<rparr>) = Some (s\<lparr>hb := b2, hnodes := hp'\<rparr>)" "tree_free h b2 (heads (C(k := r)))"
      using hash_unlock_nodes [OF C(1), of b' "heads (C(k := r))" hp'] e(2) True by auto
    have "hash_is me h c (s\<lparr>hb := b2, hnodes := hp'(x := None)\<rparr>) ((contents ?hp C)(k := map (hdata ?hp) (A @ B)))"
      using cr [of r None] b2(2) C(1) by (intro hash_isI [of _ _ _ _ "C(k := r)"]) (auto simp: r_def)
    moreover have "hash_delete me h key str s = Some (0, s\<lparr>hb := b2, hnodes := hp'(x := None)\<rparr>)"
      unfolding eq e(1) using b2(1) fx True by simp
    ultimately show ?thesis by auto
  next
    case False
    obtain b2 where b2: "hash_btree_unlock me h (s\<lparr>hb := b', hnodes := hp'\<rparr>) = Some (s\<lparr>hb := b2, hnodes := hp'\<rparr>)" "tree_free h b2 (heads (C(k := None)))"
      using hash_unlock_nodes [OF C(1), of b' "heads (C(k := None))" hp'] e(2) False by auto
    have "hash_is me h c (s\<lparr>hb := b2, hnodes := hp'\<rparr>) ((contents ?hp C)(k := []))"
      using cr [of None "hp' x"] b2(2) C(1) by (intro hash_isI [of _ _ _ _ "C(k := None)"]) simp_all
    moreover have "hash_delete me h key str s = Some (e, s\<lparr>hb := b2, hnodes := hp'\<rparr>)" unfolding eq e(1) using b2(1) False by simp
    ultimately show ?thesis using e(2) False by auto
  qed
qed

lemma hash_delete_ok:
  assumes hi: "hash_is me h c s D" and k: "k = hash_key c key"
    and m: "\<forall>d\<in>set (D k). hash_match c str (hmemory s) key d \<noteq> None" and own: "\<forall>d\<in>set (D k). hash_key c d = k"
  shows "\<exists>e s'. hash_delete me h key str s = Some (e, s')
    \<and> (if e = 0 then (\<exists>d\<in>set (D k). hash_match c str (hmemory s) key d = Some True)
          \<and> hash_is me h c s' (D(k := drop_first (\<lambda>d. hash_match c str (hmemory s) key d = Some True) (D k)))
       else if e = - ENOENT then (\<forall>d\<in>set (D k). hash_match c str (hmemory s) key d = Some False) \<and> hash_is me h c s' D
       else e = - ENOMEM \<and> tl (D k) \<noteq> [] \<and> hash_is me h c s' (D(k := [])))"
proof -
  let ?m = "hash_match c str (hmemory s) key"
  obtain C where C: "hash_tab me h c s" "tree_free h (hb s) (heads C)" "chains (hnodes s) C" "contents (hnodes s) C = D"
    using hi by (auto simp: hash_is_def)
  obtain t where t: "hget (htabs s) h = Some t" "h_ctx t \<noteq> NULL" "hget (hctxs s) (h_ctx t) = Some c" "h \<noteq> NULL"
    by (rule hash_ctx_ok [OF C(1)])
  obtain b where b: "hash_btree_lock me h s = Some (s\<lparr>hb := b\<rparr>)" "btree_rep me h b (heads C)" by (rule hash_lock_tree [OF C(1,2)])
  have e: "s\<lparr>hb := b\<rparr> = s\<lparr>hb := b, hnodes := hnodes s\<rparr>" for b by simp
  obtain b' where b': "hash_btree_unlock me h (s\<lparr>hb := b\<rparr>) = Some (s\<lparr>hb := b'\<rparr>)" "tree_free h b' (heads C)"
    using hash_unlock_nodes [OF C(1) b(2), of "hnodes s"] unfolding e [symmetric] by metis
  have hi': "hash_is me h c (s\<lparr>hb := b'\<rparr>) D" using C b'(2) by (intro hash_isI [of _ _ _ _ C]) simp_all
  show ?thesis
  proof (cases "C k")
    case None
    then have "D k = []" using C(4) by (auto simp: contents_def)
    then show ?thesis using hi' None C(1) t b' k by (simp add: hash_delete_def b(1) search_rep [OF b(2)] heads_def errno_defs)
  next
    case (Some xs)
    have D: "D k = map (hdata (hnodes s)) xs" using Some C(4) by (auto simp: contents_def)
    have xs: "dchain hn_next hn_prev (hnodes s) NULL xs NULL" "NULL \<notin> set xs" using chains_at [OF C(3) Some] by (simp_all add: hchain_def)
    have mx: "\<forall>x\<in>set xs. ?m (hdata (hnodes s) x) \<noteq> None" using m by (simp add: D)
    show ?thesis
    proof (cases "find (\<lambda>x. ?m (hdata (hnodes s) x) = Some True) xs")
      case None
      then have "\<forall>d\<in>set (D k). ?m d = Some False" using mx unfolding D find_None_iff by (simp add: image_iff) (metis (full_types))
      then show ?thesis using hi' C(1) t b' k Some None hash_find_ok [OF xs mx]
        by (simp add: hash_delete_def b(1) search_rep [OF b(2)] heads_def errno_defs)
    next
      case f: (Some x)
      obtain A B where ab: "xs = A @ x # B" "\<forall>a\<in>set A. ?m (hdata (hnodes s) a) \<noteq> Some True" "?m (hdata (hnodes s) x) = Some True"
        using find_split [OF f] by blast
      have fi: "hash_find ?m (first_of (A @ x # B) NULL) (hnodes s) = Some x" using hash_find_ok [OF xs mx] f by (simp add: ab(1))
      have ownB: "\<forall>y\<in>set B. hash_key c (hdata (hnodes s) y) = k" using own by (auto simp: D ab(1))
      note r = hash_delete_found [OF C(1,3) Some [unfolded ab(1)] k b fi ownB, unfolded C(4)]
      have "drop_first (\<lambda>d. ?m d = Some True) (D k) = map (hdata (hnodes s)) (A @ B)" unfolding D ab(1) using ab(2,3) by (intro drop_first_map) simp_all
      moreover have "\<exists>d\<in>set (D k). ?m d = Some True" using ab by (auto simp: D)
      moreover have "tl (D k) \<noteq> []" if "A = []" "B \<noteq> []" using that by (simp add: D ab(1))
      moreover obtain e s' where "hash_delete me h key str s = Some (e, s')" "if e = 0 then hash_is me h c s' (D(k := map (hdata (hnodes s)) (A @ B)))
          else e = - ENOMEM \<and> A = [] \<and> B \<noteq> [] \<and> hash_is me h c s' (D(k := []))" using r by blast
      ultimately show ?thesis by (intro exI [of _ e] exI [of _ s']) (cases "e = 0"; simp add: errno_defs)
    qed
  qed
qed

section \<open>Properties\<close>

declare hash_tail.simps [code] hash_find.simps [code] btree_lookup_loop.simps [code] btree_insert_loop.simps [code]

text \<open>An empty locked table that hashes everything to 1 or 6; data belong to the key that is \<open>off\<close> less.\<close>

definition hctx_ex :: "nat \<Rightarrow> hash_ctx" where
  "hctx_ex off = \<lparr>hash_verify_obj = Some (\<lambda>key d. if d = key + off then 0 else 1), hash_func = Some (\<lambda>p. if p < 115 then 1 else 6)\<rparr>"

definition hme_ex :: ctx where "hme_ex = \<lparr>self_tid = 1, self_cpu = 0\<rparr>"

definition hash_ex :: "nat \<Rightarrow> ptr list \<Rightarrow> hstate" where
  "hash_ex off ps = \<lparr>hnodes = Map.empty, htabs = [1 \<mapsto> (HASH_INIT 2)\<lparr>h_spinlock := \<lparr>s_guard = 0, s_tid = 1, s_lock = 1, s_apicid = 0\<rparr>\<rparr>],
     hctxs = [2 \<mapsto> hctx_ex off], hb = \<lparr>bnodes = Map.empty, btrees = [1 \<mapsto> BTREE_INIT], bmem = ps\<rparr>, hmemory = Map.empty\<rparr>"

lemma hash_ex_is: "hash_is hme_ex 1 (hctx_ex off) (hash_ex off ps) (\<lambda>_. [])"
proof (rule hash_isI [of _ _ _ _ Map.empty])
  show "hash_tab hme_ex 1 (hctx_ex off) (hash_ex off ps)"
    by (simp add: hash_tab_def hash_ex_def HASH_INIT_def hme_ex_def lk_held_def spin_self_def)
  show "tree_free 1 (hb (hash_ex off ps)) (heads Map.empty)" unfolding tree_free_def
    by (rule exI [of _ BTREE_INIT], rule exI [of _ Leaf])
      (simp add: hash_ex_def BTREE_INIT_def zero_lock_def lk_free_def btree_ok_def btree_shape_def key_order_def bmap_def bitems_def heads_def)
qed (simp_all add: chains_def contents_def fun_eq_iff)

text \<open>C36: \<open>hash_insert\<close> puts the data behind those with the same hash and changes nothing else. It fails only without memory, for the
  node or, for a hash value that is new, for the node of the tree, and then leaves the table as it was.\<close>

theorem hash_insert_appends:
  assumes "hash_is me h c s D" "k = hash_key c key"
  shows "\<exists>e s'. hash_insert me h key data s = Some (e, s')
    \<and> (if e = 0 then hash_is me h c s' (D(k := D k @ [data]))
       else e = - ENOMEM \<and> hash_is me h c s' D
         \<and> (fst (kmalloc (h_used s) (bmem (hb s))) = NULL \<or> D k = [] \<and> fst (kmalloc (b_used (hb s)) (tl (bmem (hb s)))) = NULL))"
  by (rule hash_insert_ok [OF assms])

lemma hctx_ex_key: "hash_key (hctx_ex off) p = (if p < 115 then 1 else 6)"
  by (simp add: hash_key_def hctx_ex_def)

lemma hctx_ex_match: "hash_match (hctx_ex off) str m key d = Some (d = key + off)"
  by (simp add: hash_match_def hctx_ex_def)

lemma hash_ex_mem:
  "fst (kmalloc (h_used (hash_ex off [3, 4])) (bmem (hb (hash_ex off [3, 4])))) = 3"
  "fst (kmalloc (b_used (hb (hash_ex off [3, 4]))) (tl (bmem (hb (hash_ex off [3, 4]))))) = 4"
  by (simp_all add: hash_ex_def kmalloc_def h_used_def b_used_def)

lemma hash_ex_insert:
  "\<exists>s. hash_insert hme_ex 1 11 111 (hash_ex 100 [3, 4]) = Some (0, s) \<and> hash_is hme_ex 1 (hctx_ex 100) s ((\<lambda>_. [])(1 := [111]))"
  using hash_insert_ok [OF hash_ex_is refl, of 11 111 100 "[3, 4]", unfolded hash_ex_mem hctx_ex_key] by (auto split: if_splits)

theorem hash_insert_appends_witness:
  "\<exists>s. hash_insert hme_ex 1 11 111 (hash_ex 100 [3, 4]) = Some (0, s) \<and> hash_is hme_ex 1 (hctx_ex 100) s ((\<lambda>_. [])(1 := [111]))"
  using hash_insert_appends [OF hash_ex_is refl, of 11 111 100 "[3, 4]", unfolded hash_ex_mem hctx_ex_key] by (auto split: if_splits)

text \<open>C37: \<open>hash_search\<close> returns the first data with the hash of the key that belong to the key, and \<open>-ENOENT\<close> when there are none; the
  table stays as it was. Comparing the key with the data must not fault.\<close>

theorem hash_search_finds_first:
  assumes "hash_is me h c s D" "k = hash_key c key" "\<forall>d\<in>set (D k). hash_match c str (hmemory s) key d \<noteq> None"
  shows "\<exists>s'. hash_search me h key str True s = Some (case find (\<lambda>d. hash_match c str (hmemory s) key d = Some True) (D k) of
      None \<Rightarrow> (- ENOENT, None) | Some d \<Rightarrow> (0, Some d), s') \<and> hash_is me h c s' D"
  using hash_search_ok [OF assms(1), of key str True, unfolded if_True] assms(2,3) by simp

theorem hash_search_finds_first_witness:
  "\<exists>s s'. hash_insert hme_ex 1 11 111 (hash_ex 100 [3, 4]) = Some (0, s) \<and> hash_search hme_ex 1 11 False True s = Some ((0, Some 111), s')"
proof -
  obtain s where s: "hash_insert hme_ex 1 11 111 (hash_ex 100 [3, 4]) = Some (0, s)" "hash_is hme_ex 1 (hctx_ex 100) s ((\<lambda>_. [])(1 := [111]))"
    using hash_ex_insert by blast
  have "(1 :: u64) = hash_key (hctx_ex 100) 11" by (simp add: hctx_ex_key)
  from hash_search_finds_first [OF s(2) this, of False] s(1) show ?thesis by (auto simp: hctx_ex_match)
qed

text \<open>C38: When data hash as their keys do, \<open>hash_delete\<close> takes out exactly the first data that belong to the key, or reports \<open>-ENOENT\<close> and
  changes nothing. When the tree has no memory for the rest of the chain it reports \<open>-ENOMEM\<close> and the whole chain is lost.\<close>

theorem hash_delete_removes:
  assumes "hash_is me h c s D" "k = hash_key c key" "\<forall>d\<in>set (D k). hash_match c str (hmemory s) key d \<noteq> None"
    "\<forall>d\<in>set (D k). hash_key c d = k"
  shows "\<exists>e s'. hash_delete me h key str s = Some (e, s')
    \<and> (if e = 0 then (\<exists>d\<in>set (D k). hash_match c str (hmemory s) key d = Some True)
          \<and> hash_is me h c s' (D(k := drop_first (\<lambda>d. hash_match c str (hmemory s) key d = Some True) (D k)))
       else if e = - ENOENT then (\<forall>d\<in>set (D k). hash_match c str (hmemory s) key d = Some False) \<and> hash_is me h c s' D
       else e = - ENOMEM \<and> tl (D k) \<noteq> [] \<and> hash_is me h c s' (D(k := [])))"
  by (rule hash_delete_ok [OF assms])

theorem hash_delete_removes_witness:
  "\<exists>s s'. hash_insert hme_ex 1 11 111 (hash_ex 100 [3, 4]) = Some (0, s) \<and> hash_delete hme_ex 1 11 False s = Some (0, s')
     \<and> hash_is hme_ex 1 (hctx_ex 100) s' (\<lambda>_. [])"
proof -
  obtain s where s: "hash_insert hme_ex 1 11 111 (hash_ex 100 [3, 4]) = Some (0, s)" "hash_is hme_ex 1 (hctx_ex 100) s ((\<lambda>_. [])(1 := [111]))"
    using hash_ex_insert by blast
  have k: "(1 :: u64) = hash_key (hctx_ex 100) 11" by (simp add: hctx_ex_key)
  have u: "(\<lambda>_. [])(1 := []) = (\<lambda>_ :: u64. [] :: ptr list)" by auto
  from hash_delete_removes [OF s(2) k, of False] s(1) show ?thesis by (auto simp: hctx_ex_match hctx_ex_key u split: if_splits)
qed


text \<open>C40: \<open>hash_free\<close> panics on every table whose tree is not locked, which is how the caller leaves it: it asks the tree whether it is
  empty without taking the tree's lock.\<close>

theorem hash_free_panics:
  assumes "hash_is me h c s D"
  shows "hash_free me h s = None"
proof -
  obtain bt where "btrees (hb s) h = Some bt" "lk_free (bt_lock bt)" "h \<noteq> NULL" "hash_tab me h c s"
    using assms by (auto simp: hash_is_def tree_free_def hash_tab_def)
  then show ?thesis by (auto simp: hash_free_def btree_isempty_def btree_assert_locked_def hget_nonNULL lk_free_def lk_held_def lk_assert_def)
qed

theorem hash_free_panics_witness: "hash_free hme_ex 1 (hash_ex 100 []) = None"
  by (rule hash_free_panics [OF hash_ex_is])

end
