(* ===== verification/Regions.thy ===== *)
theory Regions
  imports Prelude
begin

text \<open>
  Lists of address regions, given by base and size: the abstract view of the address space
  managers. A list is in order when its regions are not empty, rise, and leave a gap between
  any two neighbours, so that the set of addresses it covers determines it.
\<close>

definition PAGESZ :: u64 where "PAGESZ = 0x1000"

definition PAGEMASK :: u64 where "PAGEMASK = PAGESZ - 1"

type_synonym region = "nat \<times> nat"

definition span :: "region \<Rightarrow> nat set" where
  "span r = {fst r..<fst r + snd r}"

definition covered :: "region list \<Rightarrow> nat set" where
  "covered rs = (\<Union>r\<in>set rs. span r)"

definition total :: "region list \<Rightarrow> nat" where
  "total rs = sum_list (map snd rs)"

definition below :: "region \<Rightarrow> region \<Rightarrow> bool" where
  "below r q \<longleftrightarrow> fst r + snd r < fst q"

definition regions_ok :: "region list \<Rightarrow> bool" where
  "regions_ok rs \<longleftrightarrow> sorted_wrt below rs \<and> (\<forall>r\<in>set rs. 0 < snd r)"

lemma covered_simps [simp]:
  "covered [] = {}" "covered (r # rs) = span r \<union> covered rs" "covered (rs @ qs) = covered rs \<union> covered qs"
  by (auto simp: covered_def)

lemma total_simps [simp]:
  "total [] = 0" "total (r # rs) = snd r + total rs" "total (rs @ qs) = total rs + total qs"
  by (auto simp: total_def)

lemma span_join: "a + b = c \<Longrightarrow> span (a, b + d) = span (a, b) \<union> span (c, d)"
  by (auto simp: span_def)

lemma span_disjoint_order:
  assumes "span r \<inter> span q = {}" "0 < snd r" "0 < snd q" "fst r < fst q"
  shows "fst r + snd r \<le> fst q"
proof (rule ccontr)
  assume "\<not> fst r + snd r \<le> fst q"
  then have "fst q \<in> span r" "fst q \<in> span q" using assms by (auto simp: span_def)
  with assms(1) show False by blast
qed

lemma span_disjoint_order':
  assumes "span r \<inter> span q = {}" "0 < snd r" "0 < snd q" "fst r \<le> fst q"
  shows "fst r + snd r \<le> fst q"
proof (cases "fst r = fst q")
  case True
  then have "fst r \<in> span r" "fst r \<in> span q" using assms by (auto simp: span_def)
  with assms(1) show ?thesis by blast
qed (use assms span_disjoint_order in auto)

section \<open>Putting a region back\<close>

text \<open>A region that does not meet the list, between the regions \<open>L\<close> below it and \<open>R\<close> above.\<close>

definition fits :: "region list \<Rightarrow> region \<Rightarrow> region list \<Rightarrow> bool" where
  "fits L r R \<longleftrightarrow> regions_ok (L @ R) \<and> 0 < snd r \<and> span r \<inter> covered (L @ R) = {}
     \<and> (\<forall>q\<in>set L. fst q < fst r) \<and> (\<forall>q\<in>set R. fst r \<le> fst q)"

lemma fits_order:
  assumes "fits L r R"
  shows "q \<in> set L \<Longrightarrow> fst q + snd q \<le> fst r" "q \<in> set R \<Longrightarrow> fst r + snd r \<le> fst q"
proof -
  show "fst q + snd q \<le> fst r" if "q \<in> set L"
  proof (rule span_disjoint_order)
    show "span q \<inter> span r = {}" using assms that by (auto simp: fits_def covered_def)
  qed (use assms that in \<open>auto simp: fits_def regions_ok_def\<close>)
  show "fst r + snd r \<le> fst q" if "q \<in> set R"
  proof (rule span_disjoint_order')
    show "span r \<inter> span q = {}" using assms that by (auto simp: fits_def covered_def)
  qed (use assms that in \<open>auto simp: fits_def regions_ok_def\<close>)
qed

text \<open>Replacing the neighbourhood of the new region: what is needed of the region \<open>m\<close> that
  takes its place between \<open>L\<close> and \<open>R\<close>.\<close>

lemma regions_ok_middle:
  "regions_ok (L @ m # R) \<longleftrightarrow> regions_ok L \<and> regions_ok R \<and> 0 < snd m
     \<and> (\<forall>q\<in>set L. below q m) \<and> (\<forall>q\<in>set R. below m q) \<and> (\<forall>p\<in>set L. \<forall>q\<in>set R. below p q)"
  by (auto simp: regions_ok_def sorted_wrt_append)

lemma regions_ok_append:
  "regions_ok (L @ R) \<longleftrightarrow> regions_ok L \<and> regions_ok R \<and> (\<forall>p\<in>set L. \<forall>q\<in>set R. below p q)"
  by (auto simp: regions_ok_def sorted_wrt_append)

lemma regions_ok_Nil [simp]: "regions_ok []"
  by (simp add: regions_ok_def)

lemma regions_ok_Cons: "regions_ok (m # R) \<longleftrightarrow> regions_ok R \<and> 0 < snd m \<and> (\<forall>q\<in>set R. below m q)"
  by (auto simp: regions_ok_def)

lemma below_last:
  assumes "regions_ok L" "q \<in> set L" "fst (last L) + snd (last L) \<le> b"
  shows "q = last L \<or> fst q + snd q < b"
proof (cases L rule: rev_cases)
  case (snoc L' l)
  then show ?thesis using assms by (auto simp: regions_ok_append below_def)
qed (use assms in simp)

lemma below_hd:
  assumes "regions_ok R" "q \<in> set R" "b \<le> fst (hd R)"
  shows "q = hd R \<or> b < fst q"
proof (cases R)
  case (Cons r R')
  then show ?thesis using assms by (auto simp: regions_ok_def below_def)
qed (use assms in simp)

lemma put_alone:
  assumes "fits L r R" "L \<noteq> [] \<Longrightarrow> fst (last L) + snd (last L) \<noteq> fst r" "R \<noteq> [] \<Longrightarrow> fst r + snd r \<noteq> fst (hd R)"
  shows "regions_ok (L @ r # R)"
proof -
  have ok: "regions_ok L" "regions_ok R" "\<forall>p\<in>set L. \<forall>q\<in>set R. below p q" and r: "0 < snd r"
    using assms(1) by (auto simp: fits_def regions_ok_append regions_ok_Cons)
  have "below q r" if "q \<in> set L" for q
  proof -
    have ne: "L \<noteq> []" using that by auto
    have le: "fst (last L) + snd (last L) \<le> fst r" using fits_order(1) [OF assms(1) last_in_set [OF ne]] .
    then show ?thesis using below_last [OF ok(1) that le] assms(2) [OF ne] by (auto simp: below_def)
  qed
  moreover have "below r q" if "q \<in> set R" for q
  proof -
    have ne: "R \<noteq> []" using that by auto
    have le: "fst r + snd r \<le> fst (hd R)" using fits_order(2) [OF assms(1) hd_in_set [OF ne]] .
    then show ?thesis using below_hd [OF ok(2) that le] assms(3) [OF ne] by (auto simp: below_def)
  qed
  ultimately show ?thesis using ok r by (simp add: regions_ok_middle)
qed

text \<open>Joining two neighbours that touch, in a list that is otherwise in order.\<close>

lemma join_touching:
  assumes "regions_ok (L @ [(a, n)])" "regions_ok ((a + n, k) # R)" "\<forall>p\<in>set L. \<forall>q\<in>set R. below p q"
  shows "regions_ok (L @ (a, n + k) # R)"
  using assms by (auto simp: regions_ok_append regions_ok_def below_def sorted_wrt_append)

lemma put_left:
  assumes "fits (L @ [(a, n)]) (b, z) R" "a + n = b" "R \<noteq> [] \<Longrightarrow> b + z \<noteq> fst (hd R)"
  shows "regions_ok (L @ (a, n + z) # R)"
proof -
  have ok: "regions_ok (L @ [(a, n)])" "regions_ok R" "\<forall>p\<in>set L. \<forall>q\<in>set R. below p q"
    using assms(1) by (auto simp: fits_def regions_ok_append regions_ok_Cons)
  have "fits [] (b, z) R" using assms(1) by (auto simp: fits_def regions_ok_append regions_ok_Cons)
  then have "regions_ok ((b, z) # R)" using put_alone [of "[]" "(b, z)" R] assms(3) by simp
  then show ?thesis using join_touching ok assms(2) by blast
qed

lemma put_right:
  assumes "fits L (b, z) ((c, k) # R)" "b + z = c" "L \<noteq> [] \<Longrightarrow> fst (last L) + snd (last L) \<noteq> b"
  shows "regions_ok (L @ (b, z + k) # R)"
proof -
  have ok: "regions_ok ((c, k) # R)" "regions_ok L" "\<forall>p\<in>set L. \<forall>q\<in>set R. below p q"
    using assms(1) by (auto simp: fits_def regions_ok_append regions_ok_Cons)
  have "fits L (b, z) []" using assms(1) by (auto simp: fits_def regions_ok_append regions_ok_Cons)
  then have "regions_ok (L @ [(b, z)])" using put_alone [of L "(b, z)" "[]"] assms(3) by simp
  then show ?thesis using join_touching ok assms(2) by blast
qed

lemma put_both:
  assumes "fits (L @ [(a, n)]) (b, z) ((c, k) # R)" "a + n = b" "b + z = c"
  shows "regions_ok (L @ (a, n + (z + k)) # R)"
proof -
  have ok: "regions_ok (L @ [(a, n)])" "regions_ok ((c, k) # R)" "\<forall>p\<in>set L. \<forall>q\<in>set R. below p q" "0 < z"
    using assms(1) by (auto simp: fits_def regions_ok_append regions_ok_Cons)
  have "regions_ok ((b, z + k) # R)"
    using ok(2,4) assms(3) by (auto simp: regions_ok_def below_def)
  then show ?thesis using join_touching [of L a n "z + k" R] ok(1,3) assms(2) by simp
qed

section \<open>Finding a gap\<close>

lemma regions_ok_cases:
  "regions_ok rs \<Longrightarrow> r \<in> set rs \<Longrightarrow> q \<in> set rs \<Longrightarrow> r = q \<or> below r q \<or> below q r"
  by (induction rs) (auto simp: regions_ok_Cons)

text \<open>A range of addresses that the list covers lies within one of its regions.\<close>

lemma range_in_region:
  assumes "regions_ok rs" "{a..<a + n} \<subseteq> covered rs" "0 < n"
  obtains r where "r \<in> set rs" "fst r \<le> a" "a + n \<le> fst r + snd r"
proof -
  obtain r where r: "r \<in> set rs" "a \<in> span r"
    using assms(2,3) by (force simp: covered_def)
  have "a + n \<le> fst r + snd r"
  proof (rule ccontr)
    assume "\<not> a + n \<le> fst r + snd r"
    then have "fst r + snd r \<in> {a..<a + n}" using r(2) by (auto simp: span_def)
    then obtain q where q: "q \<in> set rs" "fst r + snd r \<in> span q"
      using assms(2) by (auto simp: covered_def)
    have "r = q \<or> below r q \<or> below q r"
      using regions_ok_cases [OF assms(1) r(1) q(1)] .
    then show False using q(2) r(2) by (auto simp: span_def below_def)
  qed
  with r show thesis by (intro that) (auto simp: span_def)
qed

text \<open>The first region that is large enough is the one at the lowest address.\<close>

lemma first_fit_lowest:
  assumes "regions_ok (L @ r # R)" "\<forall>q\<in>set L. snd q < n" "0 < n"
    "{a..<a + n} \<subseteq> covered (L @ r # R)"
  shows "fst r \<le> a"
proof -
  obtain q where q: "q \<in> set (L @ r # R)" "fst q \<le> a" "a + n \<le> fst q + snd q"
    using range_in_region [OF assms(1,4,3)] .
  then have "q \<notin> set L" using assms(2,3) by force
  with q(1) have "q = r \<or> below r q" using assms(1) by (auto simp: regions_ok_append regions_ok_Cons)
  with q(2) show ?thesis by (auto simp: below_def)
qed

lemma no_fit:
  assumes "regions_ok rs" "\<forall>q\<in>set rs. snd q < n" "0 < n"
  shows "\<not> {a..<a + n} \<subseteq> covered rs"
proof
  assume "{a..<a + n} \<subseteq> covered rs"
  then obtain q where "q \<in> set rs" "fst q \<le> a" "a + n \<le> fst q + snd q"
    using range_in_region [OF assms(1) _ assms(3)] by blast
  with assms(2) show False by force
qed

lemma regions_ok_disjoint: "regions_ok (L @ r # R) \<Longrightarrow> span r \<inter> covered (L @ R) = {}"
  by (auto simp: regions_ok_append regions_ok_Cons covered_def span_def below_def)

lemma regions_ok_remove: "regions_ok (L @ r # R) \<Longrightarrow> regions_ok (L @ R)"
  by (auto simp: regions_ok_append regions_ok_Cons)

text \<open>What is left of a region after its lower part is taken stays apart from its neighbours.\<close>

lemma regions_ok_shrink:
  assumes "regions_ok (L @ (b, z) # R)" "n < z"
  shows "regions_ok (L @ (b + n, z - n) # R)" "fits L (b + n, z - n) R"
    "L \<noteq> [] \<Longrightarrow> fst (last L) + snd (last L) \<noteq> b + n" "R \<noteq> [] \<Longrightarrow> (b + n) + (z - n) \<noteq> fst (hd R)"
proof -
  have lt: "\<forall>q\<in>set L. fst q + snd q < b" and gt: "\<forall>q\<in>set R. b + z < fst q"
    using assms(1) by (auto simp: regions_ok_append regions_ok_Cons below_def)
  show ok: "regions_ok (L @ (b + n, z - n) # R)"
    using assms by (force simp: regions_ok_append regions_ok_Cons below_def)
  then show "fits L (b + n, z - n) R"
    using regions_ok_disjoint [OF ok] lt gt assms(2) regions_ok_remove [OF ok]
    by (auto simp: fits_def)
  show "fst (last L) + snd (last L) \<noteq> b + n" if "L \<noteq> []"
    using lt last_in_set [OF that] by force
  show "(b + n) + (z - n) \<noteq> fst (hd R)" if "R \<noteq> []"
    using gt hd_in_set [OF that] assms(2) by force
qed

text \<open>Regions that do not meet.\<close>

definition apart :: "region list \<Rightarrow> bool" where
  "apart rs \<longleftrightarrow> sorted_wrt (\<lambda>r q. span r \<inter> span q = {}) rs"

lemma apart_snoc: "apart (rs @ [r]) \<longleftrightarrow> apart rs \<and> covered rs \<inter> span r = {}"
  by (auto simp: apart_def sorted_wrt_append covered_def)

lemma apart_middle:
  "apart (A @ r # B) \<Longrightarrow> apart (A @ B) \<and> span r \<inter> covered (A @ B) = {}"
  by (auto simp: apart_def sorted_wrt_append covered_def)

lemma apart_bases:
  assumes "apart (A @ r # B)" "q \<in> set A" "0 < snd q" "0 < snd r"
  shows "fst q \<noteq> fst r"
proof
  assume "fst q = fst r"
  then have "fst r \<in> span q \<inter> span r" using assms(3,4) by (simp add: span_def)
  moreover have "span q \<inter> span r = {}" using assms(1,2) by (auto simp: apart_def sorted_wrt_append)
  ultimately show False by simp
qed

section \<open>The contract of a region allocator\<close>

text \<open>A gap is a range of the arena that no live block touches.\<close>

definition gap :: "nat set \<Rightarrow> region list \<Rightarrow> nat \<Rightarrow> nat \<Rightarrow> bool" where
  "gap arena bs a n \<longleftrightarrow> {a..<a + n} \<subseteq> arena \<and> {a..<a + n} \<inter> covered bs = {}"

text \<open>A client of the allocator requests blocks and releases those it holds, by their position;
  \<open>bs\<close> is what it was given and has not given back.\<close>

datatype areq = Request nat | Release nat

fun run_areq :: "(nat \<Rightarrow> 's \<Rightarrow> (nat option \<times> 's) option) \<Rightarrow> (nat \<Rightarrow> 's \<Rightarrow> 's option) \<Rightarrow>
    areq \<Rightarrow> region list \<times> 's \<Rightarrow> (region list \<times> 's) option" where
  "run_areq alloc release (Request n) (bs, s) = do {
     (r, s) \<leftarrow> alloc n s;
     Some (case r of None \<Rightarrow> bs | Some a \<Rightarrow> bs @ [(a, n)], s)
   }"
| "run_areq alloc release (Release i) (bs, s) =
     (if i < length bs then do { s \<leftarrow> release (fst (bs ! i)) s; Some (take i bs @ drop (Suc i) bs, s) }
      else Some (bs, s))"

fun run_areqs :: "(nat \<Rightarrow> 's \<Rightarrow> (nat option \<times> 's) option) \<Rightarrow> (nat \<Rightarrow> 's \<Rightarrow> 's option) \<Rightarrow>
    areq list \<Rightarrow> region list \<times> 's \<Rightarrow> (region list \<times> 's) option" where
  "run_areqs alloc release [] st = Some st"
| "run_areqs alloc release (r # rs) st = do { st \<leftarrow> run_areq alloc release r st; run_areqs alloc release rs st }"

locale region_allocator =
  fixes arena :: "nat set"
    and good :: "nat \<Rightarrow> bool"
    and rep :: "'s \<Rightarrow> region list \<Rightarrow> bool"
    and alloc :: "nat \<Rightarrow> 's \<Rightarrow> (nat option \<times> 's) option"
    and release :: "nat \<Rightarrow> 's \<Rightarrow> 's option"
  assumes alloc_ok: "rep s bs \<Longrightarrow> good n \<Longrightarrow> \<exists>r s'. alloc n s = Some (r, s') \<and>
      (case r of None \<Rightarrow> rep s' bs \<and> (\<forall>c. \<not> gap arena bs c n)
       | Some a \<Rightarrow> rep s' (bs @ [(a, n)]) \<and> gap arena bs a n \<and> (\<forall>c. gap arena bs c n \<longrightarrow> a \<le> c))"
    and release_ok: "rep s (A @ (a, n) # B) \<Longrightarrow> \<exists>s'. release a s = Some s' \<and> rep s' (A @ B)"
    and rep_sound: "rep s bs \<Longrightarrow> apart bs \<and> covered bs \<subseteq> arena \<and> (\<forall>r\<in>set bs. good (snd r))"
begin

text \<open>No sequence of requests and releases of held blocks fails, and the blocks held stay apart
  and within the arena.\<close>

lemma run_areq_ok:
  assumes "rep s bs" "\<forall>n. r = Request n \<longrightarrow> good n"
  shows "\<exists>bs' s'. run_areq alloc release r (bs, s) = Some (bs', s') \<and> rep s' bs'"
proof (cases r)
  case (Request n)
  then have n: "good n" using assms(2) by simp
  from alloc_ok [OF assms(1) n] show ?thesis using Request by (auto split: option.splits)
next
  case (Release i)
  show ?thesis
  proof (cases "i < length bs")
    case True
    then have "rep s (take i bs @ (fst (bs ! i), snd (bs ! i)) # drop (Suc i) bs)"
      using assms(1) by (simp add: id_take_nth_drop [symmetric])
    from release_ok [OF this] show ?thesis using Release True by auto
  qed (use Release assms(1) in simp)
qed

lemma run_areqs_ok:
  assumes "rep s bs" "\<forall>n. Request n \<in> set rs \<longrightarrow> good n"
  shows "\<exists>bs' s'. run_areqs alloc release rs (bs, s) = Some (bs', s') \<and> rep s' bs'"
  using assms
proof (induction rs arbitrary: s bs)
  case (Cons r rs)
  obtain bs1 s1 where 1: "run_areq alloc release r (bs, s) = Some (bs1, s1)" "rep s1 bs1"
    using run_areq_ok [OF Cons.prems(1), of r] Cons.prems(2) by auto
  with Cons.IH [OF 1(2)] Cons.prems(2) show ?case by simp
qed simp

lemma run_areqs_sound:
  assumes "rep s bs" "\<forall>n. Request n \<in> set rs \<longrightarrow> good n"
  obtains bs' s' where "run_areqs alloc release rs (bs, s) = Some (bs', s')" "rep s' bs'"
    "apart bs'" "covered bs' \<subseteq> arena" "\<forall>r\<in>set bs'. good (snd r)"
  using run_areqs_ok [OF assms] rep_sound by blast

text \<open>A block given back leaves room for another of its size, at its address or below.\<close>

lemma realloc_released:
  assumes r: "rep s (A @ (a, n) # B)"
  obtains s1 b s2 where "release a s = Some s1" "alloc n s1 = Some (Some b, s2)" "b \<le> a"
    "rep s2 (A @ B @ [(b, n)])"
proof -
  obtain s1 where s1: "release a s = Some s1" "rep s1 (A @ B)" using release_ok [OF r] by blast
  have n: "good n" using rep_sound [OF r] by auto
  have ap: "apart (A @ (a, n) # B)" and cov: "covered (A @ (a, n) # B) \<subseteq> arena" using rep_sound [OF r] by auto
  have g: "gap arena (A @ B) a n"
    using apart_middle [OF ap] cov by (auto simp: gap_def span_def)
  obtain r' s2 where "alloc n s1 = Some (r', s2)"
      "case r' of None \<Rightarrow> rep s2 (A @ B) \<and> (\<forall>c. \<not> gap arena (A @ B) c n)
       | Some b \<Rightarrow> rep s2 ((A @ B) @ [(b, n)]) \<and> gap arena (A @ B) b n \<and> (\<forall>c. gap arena (A @ B) c n \<longrightarrow> b \<le> c)"
    using alloc_ok [OF s1(2) n] by blast
  then show thesis using that s1(1) g by (auto split: option.splits)
qed

end

section \<open>Ordered lists of regions that may touch\<close>

definition upto_start :: "region \<Rightarrow> region \<Rightarrow> bool" where
  "upto_start r q \<longleftrightarrow> fst r + snd r \<le> fst q"

definition ordered :: "region list \<Rightarrow> bool" where
  "ordered rs \<longleftrightarrow> sorted_wrt upto_start rs \<and> (\<forall>r\<in>set rs. 0 < snd r)"

lemma ordered_Nil [simp]: "ordered []"
  by (simp add: ordered_def)

lemma ordered_Cons: "ordered (r # rs) \<longleftrightarrow> ordered rs \<and> 0 < snd r \<and> (\<forall>q\<in>set rs. upto_start r q)"
  by (auto simp: ordered_def)

lemma ordered_append:
  "ordered (L @ R) \<longleftrightarrow> ordered L \<and> ordered R \<and> (\<forall>p\<in>set L. \<forall>q\<in>set R. upto_start p q)"
  by (auto simp: ordered_def sorted_wrt_append)

lemma ordered_cut:
  assumes "ordered (L @ r # R)"
  shows "\<forall>q\<in>set L. fst q + snd q \<le> fst r" "\<forall>q\<in>set R. fst r + snd r \<le> fst q"
  using assms by (auto simp: ordered_append ordered_Cons upto_start_def)

lemma ordered_disjoint: "ordered (L @ r # R) \<Longrightarrow> span r \<inter> covered (L @ R) = {}"
  using ordered_cut [of L r R] by (fastforce simp: covered_def span_def)

lemma ordered_apart: "ordered rs \<Longrightarrow> apart rs"
  unfolding ordered_def apart_def
  by (rule sorted_wrt_mono_rel [of _ upto_start]) (auto simp: upto_start_def span_def)

text \<open>An address outside the regions splits the list.\<close>

lemma ordered_split:
  assumes "ordered rs" "a \<notin> covered rs"
  obtains A B where "rs = A @ B" "\<forall>q\<in>set A. fst q + snd q \<le> a" "\<forall>q\<in>set B. a < fst q"
    "A = takeWhile (\<lambda>q. fst q \<le> a) rs" "B = dropWhile (\<lambda>q. fst q \<le> a) rs"
proof -
  let ?A = "takeWhile (\<lambda>q. fst q \<le> a) rs" and ?B = "dropWhile (\<lambda>q. fst q \<le> a) rs"
  have rs: "rs = ?A @ ?B" by simp
  have "fst q + snd q \<le> a" if "q \<in> set ?A" for q
  proof -
    have "q \<in> set rs" "fst q \<le> a" using set_takeWhileD [OF that] by auto
    then show ?thesis using assms(2) by (fastforce simp: covered_def span_def)
  qed
  moreover have "a < fst q" if "q \<in> set ?B" for q
  proof (cases ?B)
    case (Cons b B)
    then have "a < fst b" using hd_dropWhile [of "\<lambda>q. fst q \<le> a" rs] by auto
    moreover have "ordered (?A @ b # B)" using assms(1) Cons rs by simp
    ultimately show ?thesis using that Cons ordered_cut(2) [of ?A b B] by auto
  next
    case Nil
    then have "q \<in> set []" using that by metis
    then show ?thesis by simp
  qed
  ultimately show thesis using that [OF rs] by simp
qed

text \<open>How far a gap reaches.\<close>

definition gap_end :: "nat \<Rightarrow> region list \<Rightarrow> nat" where
  "gap_end lim B = (case B of [] \<Rightarrow> lim | q # _ \<Rightarrow> fst q)"

lemma gap_reach:
  assumes "ordered (A @ B)" "\<forall>q\<in>set A. fst q + snd q \<le> a" "\<forall>q\<in>set B. a < fst q"
    and "covered (A @ B) \<subseteq> {..<lim}" "a < lim"
  shows "gap {..<lim} (A @ B) a k \<longleftrightarrow> a + k \<le> gap_end lim B"
proof
  assume g: "gap {..<lim} (A @ B) a k"
  show "a + k \<le> gap_end lim B"
  proof (cases B)
    case Nil
    have "a + k \<le> lim"
    proof (cases "k = 0")
      case False
      then have "a + k - 1 \<in> {a..<a + k}" by simp
      then show ?thesis using g unfolding gap_def by fastforce
    qed (use assms(5) in simp)
    then show ?thesis using Nil by (simp add: gap_end_def)
  next
    case (Cons b B')
    have "0 < snd b" using assms(1) Cons by (simp add: ordered_append ordered_Cons)
    then have "fst b \<in> covered (A @ B)" using Cons by (simp add: span_def)
    then have "fst b \<notin> {a..<a + k}" using g by (auto simp: gap_def)
    then show ?thesis using assms(3) Cons by (auto simp: gap_end_def)
  qed
next
  assume k: "a + k \<le> gap_end lim B"
  have "{a..<a + k} \<inter> span q = {}" if "q \<in> set (A @ B)" for q
  proof (cases B)
    case (Cons b B')
    have "\<forall>r\<in>set B'. fst b + snd b \<le> fst r" using ordered_cut(2) [of A b B'] assms(1) Cons by simp
    then show ?thesis using k assms(2) that Cons by (auto simp: gap_end_def span_def)
  qed (use that assms(2) in \<open>auto simp: span_def\<close>)
  moreover have "gap_end lim B \<le> lim"
  proof (cases B)
    case (Cons b B')
    have "0 < snd b" using assms(1) Cons by (simp add: ordered_append ordered_Cons)
    then have "fst b \<in> covered (A @ B)" using Cons by (simp add: span_def)
    then show ?thesis using assms(4) Cons by (auto simp: gap_end_def)
  qed (simp add: gap_end_def)
  ultimately show "gap {..<lim} (A @ B) a k" using k by (fastforce simp: gap_def covered_def)
qed

lemma gap_inside:
  assumes "a \<in> covered rs \<or> a \<notin> arena"
  shows "gap arena rs a k \<longleftrightarrow> k = 0"
proof (cases k)
  case (Suc j)
  then have "a \<in> {a..<a + k}" by simp
  then show ?thesis using assms Suc unfolding gap_def by blast
qed (simp add: gap_def)

end
