(* ===== verification/Vmm.thy ===== *)
theory Vmm
  imports Spinlock Regions
begin

unbundle bit_operations_syntax

text \<open>
  The kernel's virtual memory manager (\<open>mm/vmm/vmm.c\<close>): it hands out page-aligned regions of
  the kernel heap's address range. Three lists share one static array of nodes: the free
  regions (sorted and coalesced), the regions in use, and the unused nodes.

  \<open>&nodes[i]\<close> is the pointer \<open>i + 2\<close>, so that \<open>nodes + (i - 1)\<close> is defined for \<open>i = 0\<close> as well
  (the code stores that pointer before it overwrites it with NULL).
\<close>

section \<open>State\<close>

definition KHEAPSZ :: u64 where "KHEAPSZ = 4 * 1024 * 1024 * 1024"

definition KHEAPBASE :: u64 where "KHEAPBASE = 0xFFFFFF8000000000 + 4 * 1024 * 1024 * 1024"

definition KHEAP_MAX_NODES :: nat where "KHEAP_MAX_NODES = unat (KHEAPSZ div PAGESZ)"

record vnode =
  vn_base :: u64
  vn_next :: ptr
  vn_prev :: ptr
  vn_size :: u64

definition vnode0 :: vnode where
  "vnode0 = \<lparr>vn_base = 0, vn_next = NULL, vn_prev = NULL, vn_size = 0\<rparr>"

record vmm =
  vmm_online :: bool
  used_virtual_mmsz :: u64
  vmm_spinlock :: spinlock
  usedvmr_head :: ptr
  usedvmr_tail :: ptr
  freevmr_head :: ptr
  freevmr_tail :: ptr
  freenodes_head :: ptr
  freenodes_tail :: ptr
  nodes :: "vnode heap"

definition node_ptr :: "nat \<Rightarrow> ptr" where "node_ptr i = i + 2"

text \<open>\<open>p->f = v\<close>, and \<open>if (p) p->f = v\<close>.\<close>

definition vupd :: "ptr \<Rightarrow> (vnode \<Rightarrow> vnode) \<Rightarrow> vmm \<Rightarrow> vmm option" where
  "vupd p f s = do { h \<leftarrow> hupd p f (nodes s); Some (s\<lparr>nodes := h\<rparr>) }"

definition vupd_if :: "ptr \<Rightarrow> (vnode \<Rightarrow> vnode) \<Rightarrow> vmm \<Rightarrow> vmm option" where
  "vupd_if p f s = (if p \<noteq> NULL then vupd p f s else Some s)"

section \<open>Operations\<close>

definition can_merge_left :: "ptr \<Rightarrow> ptr \<Rightarrow> vmm \<Rightarrow> bool option" where
  "can_merge_left node left s = do {
     n \<leftarrow> hget (nodes s) node;
     l \<leftarrow> hget (nodes s) left;
     Some (vn_base l + vn_size l = vn_base n)
   }"

definition can_merge_right :: "ptr \<Rightarrow> ptr \<Rightarrow> vmm \<Rightarrow> bool option" where
  "can_merge_right node right s = do {
     n \<leftarrow> hget (nodes s) node;
     r \<leftarrow> hget (nodes s) right;
     Some (vn_base n + vn_size n = vn_base r)
   }"

definition can_merge_both :: "ptr \<Rightarrow> ptr \<Rightarrow> ptr \<Rightarrow> vmm \<Rightarrow> bool option" where
  "can_merge_both left node right s = do {
     a \<leftarrow> can_merge_left node left s;
     if a then can_merge_right node right s else Some False
   }"

definition freenodes_get :: "vmm \<Rightarrow> (ptr \<times> vmm) option" where
  "freenodes_get s =
     (if freenodes_head s = NULL then Some (NULL, s)
      else do {
        let node = freenodes_head s;
        n \<leftarrow> hget (nodes s) node;
        let s = s\<lparr>freenodes_head := vn_next n\<rparr>;
        let s = (if freenodes_head s = NULL then s\<lparr>freenodes_tail := NULL\<rparr> else s);
        s \<leftarrow> vupd node (\<lambda>_. vnode0) s;
        Some (node, s)
      })"

text \<open>The assertions at the start of the functions that take a region.\<close>

definition assert_region :: "ptr \<Rightarrow> vmm \<Rightarrow> unit option" where
  "assert_region node s = do {
     n \<leftarrow> hget (nodes s) node;
     kassert (vn_size n \<noteq> 0);
     kassert (KHEAPBASE \<le> vn_base n)
   }"

definition freenodes_put :: "ptr \<Rightarrow> vmm \<Rightarrow> vmm option" where
  "freenodes_put node s = do {
     assert_region node s;
     s \<leftarrow> vupd node (vn_next_update (\<lambda>_. NULL)) s;
     s \<leftarrow> vupd node (vn_prev_update (\<lambda>_. NULL)) s;
     let s = (if freenodes_head s = NULL then s\<lparr>freenodes_head := node\<rparr> else s);
     s \<leftarrow> vupd_if (freenodes_tail s) (vn_next_update (\<lambda>_. node)) s;
     s \<leftarrow> vupd node (vn_prev_update (\<lambda>_. freenodes_tail s)) s;
     Some (s\<lparr>freenodes_tail := node\<rparr>)
   }"

definition merge_left :: "ptr \<Rightarrow> ptr \<Rightarrow> vmm \<Rightarrow> vmm option" where
  "merge_left node left s = do {
     c \<leftarrow> can_merge_left node left s;
     kassert c;
     n \<leftarrow> hget (nodes s) node;
     s \<leftarrow> vupd left (vn_size_update (\<lambda>z. z + vn_size n)) s;
     freenodes_put node s
   }"

definition merge_right :: "ptr \<Rightarrow> ptr \<Rightarrow> vmm \<Rightarrow> vmm option" where
  "merge_right node right s = do {
     c \<leftarrow> can_merge_right node right s;
     kassert c;
     n \<leftarrow> hget (nodes s) node;
     s \<leftarrow> vupd right (vn_base_update (\<lambda>b. b - vn_size n)) s;
     s \<leftarrow> vupd right (vn_size_update (\<lambda>z. z + vn_size n)) s;
     freenodes_put node s
   }"

definition concatenate :: "ptr \<Rightarrow> ptr \<Rightarrow> ptr \<Rightarrow> vmm \<Rightarrow> vmm option" where
  "concatenate left node right s = do {
     c \<leftarrow> can_merge_both left node right s;
     kassert c;
     n \<leftarrow> hget (nodes s) node;
     r \<leftarrow> hget (nodes s) right;
     s \<leftarrow> vupd left (vn_size_update (\<lambda>z. z + (vn_size n + vn_size r))) s;
     s \<leftarrow> vupd_if (vn_next r) (vn_prev_update (\<lambda>_. left)) s;
     s \<leftarrow> vupd left (vn_next_update (\<lambda>_. vn_next r)) s;
     let s = (if vn_next r = NULL then s\<lparr>freevmr_tail := left\<rparr> else s);
     s \<leftarrow> freenodes_put node s;
     freenodes_put right s
   }"

definition freevmr_linkto_left :: "ptr \<Rightarrow> ptr \<Rightarrow> vmm \<Rightarrow> vmm option" where
  "freevmr_linkto_left node left s = do {
     l \<leftarrow> hget (nodes s) left;
     s \<leftarrow> vupd node (vn_next_update (\<lambda>_. vn_next l)) s;
     s \<leftarrow> (if vn_next l \<noteq> NULL then vupd (vn_next l) (vn_prev_update (\<lambda>_. node)) s
           else vupd node (vn_next_update (\<lambda>_. NULL)) (s\<lparr>freevmr_tail := node\<rparr>));
     s \<leftarrow> vupd left (vn_next_update (\<lambda>_. node)) s;
     vupd node (vn_prev_update (\<lambda>_. left)) s
   }"

definition freevmr_linkto_right :: "ptr \<Rightarrow> ptr \<Rightarrow> vmm \<Rightarrow> vmm option" where
  "freevmr_linkto_right node right s = do {
     r \<leftarrow> hget (nodes s) right;
     s \<leftarrow> vupd node (vn_prev_update (\<lambda>_. vn_prev r)) s;
     s \<leftarrow> (if vn_prev r \<noteq> NULL then vupd (vn_prev r) (vn_next_update (\<lambda>_. node)) s
           else vupd node (vn_prev_update (\<lambda>_. NULL)) (s\<lparr>freevmr_head := node\<rparr>));
     s \<leftarrow> vupd right (vn_prev_update (\<lambda>_. node)) s;
     vupd node (vn_next_update (\<lambda>_. right)) s
   }"

text \<open>The search for the neighbours of a region that is put back: the loop of \<open>freevmr_put\<close>
  ends with \<open>left\<close> the last region below \<open>b\<close> and \<open>right\<close> the first one that is not.\<close>

partial_function (option) freevmr_put_loop :: "u64 \<Rightarrow> ptr \<Rightarrow> ptr \<Rightarrow> vnode heap \<Rightarrow> (ptr \<times> ptr) option" where
  "freevmr_put_loop b left right h =
     (if right = NULL then Some (left, right)
      else do {
        r \<leftarrow> hget h right;
        if vn_base r < b then freevmr_put_loop b right (vn_next r) h else Some (left, right)
      })"

text \<open>The rest of \<open>freevmr_put\<close>: joining the region to the neighbours it touches.\<close>

definition freevmr_join :: "ptr \<Rightarrow> ptr \<Rightarrow> ptr \<Rightarrow> vmm \<Rightarrow> vmm option" where
  "freevmr_join left node right s =
     (if left \<noteq> NULL \<and> right \<noteq> NULL then do {
        both \<leftarrow> can_merge_both left node right s;
        if both then concatenate left node right s
        else do {
          ml \<leftarrow> can_merge_left node left s;
          if ml then merge_left node left s
          else do {
            mr \<leftarrow> can_merge_right node right s;
            if mr then merge_right node right s
            else do {
              s \<leftarrow> vupd node (vn_prev_update (\<lambda>_. left)) s;
              s \<leftarrow> vupd node (vn_next_update (\<lambda>_. right)) s;
              s \<leftarrow> vupd left (vn_next_update (\<lambda>_. node)) s;
              vupd right (vn_prev_update (\<lambda>_. node)) s
            }
          }
        }
      } else if left \<noteq> NULL then do {
        ml \<leftarrow> can_merge_left node left s;
        if ml then merge_left node left s else freevmr_linkto_left node left s
      } else if right \<noteq> NULL then do {
        mr \<leftarrow> can_merge_right node right s;
        if mr then merge_right node right s else freevmr_linkto_right node right s
      } else None)"

definition freevmr_put :: "ptr \<Rightarrow> vmm \<Rightarrow> vmm option" where
  "freevmr_put node s = do {
     assert_region node s;
     s \<leftarrow> vupd node (vn_prev_update (\<lambda>_. NULL)) s;
     s \<leftarrow> vupd node (vn_next_update (\<lambda>_. NULL)) s;
     if freevmr_head s = NULL then Some (s\<lparr>freevmr_head := node, freevmr_tail := node\<rparr>)
     else do {
       n \<leftarrow> hget (nodes s) node;
       (left, right) \<leftarrow> freevmr_put_loop (vn_base n) NULL (freevmr_head s) (nodes s);
       freevmr_join left node right s
     }
   }"

partial_function (option) freevmr_get_loop :: "u64 \<Rightarrow> ptr \<Rightarrow> vnode heap \<Rightarrow> ptr option" where
  "freevmr_get_loop sz node h =
     (if node = NULL then Some NULL
      else do {
        n \<leftarrow> hget h node;
        if sz \<le> vn_size n then Some node else freevmr_get_loop sz (vn_next n) h
      })"

text \<open>Taking a region out of the free list. When the last region goes, the code sets
  \<open>freevmr_tail = next\<close>, which is NULL then.\<close>

definition freevmr_take :: "ptr \<Rightarrow> vmm \<Rightarrow> vmm option" where
  "freevmr_take node s = do {
     n \<leftarrow> hget (nodes s) node;
     let next = vn_next n;
     let prev = vn_prev n;
     s \<leftarrow> vupd node (vn_next_update (\<lambda>_. NULL)) s;
     s \<leftarrow> vupd node (vn_prev_update (\<lambda>_. NULL)) s;
     s \<leftarrow> vupd_if prev (vn_next_update (\<lambda>_. next)) s;
     s \<leftarrow> (if freevmr_head s = node then vupd_if next (vn_prev_update (\<lambda>_. NULL)) (s\<lparr>freevmr_head := next\<rparr>)
           else Some s);
     s \<leftarrow> vupd_if next (vn_prev_update (\<lambda>_. prev)) s;
     (if freevmr_tail s = node then vupd_if next (vn_next_update (\<lambda>_. NULL)) (s\<lparr>freevmr_tail := next\<rparr>)
      else Some s)
   }"

definition freevmr_get :: "u64 \<Rightarrow> vmm \<Rightarrow> (ptr \<times> vmm) option" where
  "freevmr_get sz s = do {
     kassert (sz \<noteq> 0);
     kassert (sz AND PAGEMASK = 0);
     node \<leftarrow> freevmr_get_loop sz (freevmr_head s) (nodes s);
     if node \<noteq> NULL then do { s \<leftarrow> freevmr_take node s; Some (node, s) } else Some (NULL, s)
   }"

definition usedvmr_put :: "ptr \<Rightarrow> vmm \<Rightarrow> vmm option" where
  "usedvmr_put node s = do {
     assert_region node s;
     let s = (if usedvmr_head s = NULL then s\<lparr>usedvmr_head := node\<rparr> else s);
     s \<leftarrow> vupd_if (usedvmr_tail s) (vn_next_update (\<lambda>_. node)) s;
     s \<leftarrow> vupd node (vn_next_update (\<lambda>_. NULL)) s;
     s \<leftarrow> vupd node (vn_prev_update (\<lambda>_. usedvmr_tail s)) s;
     Some (s\<lparr>usedvmr_tail := node\<rparr>)
   }"

partial_function (option) usedvmr_lookup_loop :: "u64 \<Rightarrow> ptr \<Rightarrow> vnode heap \<Rightarrow> ptr option" where
  "usedvmr_lookup_loop b node h =
     (if node = NULL then Some NULL
      else do {
        n \<leftarrow> hget h node;
        if vn_base n = b then Some node else usedvmr_lookup_loop b (vn_next n) h
      })"

definition usedvmr_lookup :: "u64 \<Rightarrow> vmm \<Rightarrow> (ptr \<times> vmm) option" where
  "usedvmr_lookup b s = do {
     kassert (b \<noteq> 0);
     node \<leftarrow> usedvmr_lookup_loop b (usedvmr_head s) (nodes s);
     if node \<noteq> NULL then do {
       n \<leftarrow> hget (nodes s) node;
       s \<leftarrow> vupd_if (vn_prev n) (vn_next_update (\<lambda>_. vn_next n)) s;
       s \<leftarrow> vupd_if (vn_next n) (vn_prev_update (\<lambda>_. vn_prev n)) s;
       let s = (if usedvmr_head s = node then s\<lparr>usedvmr_head := vn_next n\<rparr> else s);
       let s = (if usedvmr_tail s = node then s\<lparr>usedvmr_tail := vn_prev n\<rparr> else s);
       s \<leftarrow> vupd node (vn_next_update (\<lambda>_. NULL)) s;
       s \<leftarrow> vupd node (vn_prev_update (\<lambda>_. NULL)) s;
       Some (node, s)
     } else Some (NULL, s)
   }"

definition vmm_lock :: "ctx \<Rightarrow> vmm \<Rightarrow> vmm option" where
  "vmm_lock me s = do { lk \<leftarrow> lk_acquire me (vmm_spinlock s); Some (s\<lparr>vmm_spinlock := lk\<rparr>) }"

definition vmm_unlock :: "ctx \<Rightarrow> vmm \<Rightarrow> vmm option" where
  "vmm_unlock me s = do { lk \<leftarrow> lk_release me (vmm_spinlock s); Some (s\<lparr>vmm_spinlock := lk\<rparr>) }"

text \<open>The loop of \<open>vmm_init\<close> links the nodes \<open>0\<close> to \<open>i - 1\<close>.\<close>

fun vmm_init_loop :: "nat \<Rightarrow> vnode heap \<Rightarrow> vnode heap" where
  "vmm_init_loop 0 h = h"
| "vmm_init_loop (Suc i) h =
     (vmm_init_loop i h)(node_ptr i \<mapsto> vnode0\<lparr>vn_prev := node_ptr i - 1, vn_next := node_ptr (i + 1)\<rparr>)"

definition vmm_init :: "vmm \<Rightarrow> (int \<times> vmm) option" where
  "vmm_init s = do {
     let h = (\<lambda>p. if node_ptr 0 \<le> p \<and> p < node_ptr KHEAP_MAX_NODES then Some vnode0 else nodes s p);
     let i = KHEAP_MAX_NODES - 1;
     let s = s\<lparr>nodes := vmm_init_loop i h\<rparr>;
     s \<leftarrow> vupd (node_ptr 0) (vn_prev_update (\<lambda>_. NULL)) s;
     s \<leftarrow> vupd (node_ptr i) (vn_next_update (\<lambda>_. NULL)) s;
     s \<leftarrow> vupd (node_ptr i) (vn_prev_update (\<lambda>_. node_ptr (i - 1))) s;
     (node, s) \<leftarrow> freenodes_get (s\<lparr>freenodes_head := node_ptr 0, freenodes_tail := node_ptr i\<rparr>);
     s \<leftarrow> vupd node (\<lambda>_. vnode0\<lparr>vn_base := KHEAPBASE, vn_size := KHEAPSZ\<rparr>) s;
     s \<leftarrow> freevmr_put node s;
     Some (0, s\<lparr>vmm_online := True\<rparr>)
   }"

text \<open>The part of \<open>vmm_alloc\<close> that cuts the requested size off the region found.\<close>

definition vmm_split :: "ptr \<Rightarrow> u64 \<Rightarrow> vmm \<Rightarrow> (ptr \<times> vmm) option" where
  "vmm_split split sz s = do {
     sp \<leftarrow> hget (nodes s) split;
     if sz < vn_size sp then do {
       (node, s) \<leftarrow> freenodes_get s;
       kassert (node \<noteq> NULL);
       s \<leftarrow> vupd node (vn_base_update (\<lambda>_. vn_base sp)) s;
       s \<leftarrow> vupd node (vn_size_update (\<lambda>_. sz)) s;
       s \<leftarrow> vupd split (vn_base_update (\<lambda>b. b + sz)) s;
       s \<leftarrow> vupd split (vn_size_update (\<lambda>z. z - sz)) s;
       s \<leftarrow> freevmr_put split s;
       Some (node, s)
     }
     else if vn_size sp < sz then None
     else Some (split, s)
   }"

definition vmm_alloc :: "ctx \<Rightarrow> u64 \<Rightarrow> vmm \<Rightarrow> (u64 \<times> vmm) option" where
  "vmm_alloc me sz s = do {
     s \<leftarrow> (if \<not> vmm_online s then do { (_, s) \<leftarrow> vmm_init s; Some s } else Some s);
     s \<leftarrow> vmm_lock me s;
     (split, s) \<leftarrow> freevmr_get sz s;
     if split = NULL then do { s \<leftarrow> vmm_unlock me s; Some (0, s) }
     else do {
       (node, s) \<leftarrow> vmm_split split sz s;
       let s = s\<lparr>used_virtual_mmsz := used_virtual_mmsz s + sz\<rparr>;
       n \<leftarrow> hget (nodes s) node;
       let addr = vn_base n;
       s \<leftarrow> usedvmr_put node s;
       s \<leftarrow> vmm_unlock me s;
       Some (addr, s)
     }
   }"

definition vmm_free :: "ctx \<Rightarrow> u64 \<Rightarrow> vmm \<Rightarrow> vmm option" where
  "vmm_free me b s = do {
     kassert (b \<noteq> 0);
     s \<leftarrow> vmm_lock me s;
     (node, s) \<leftarrow> usedvmr_lookup b s;
     kassert (node \<noteq> NULL);
     n \<leftarrow> hget (nodes s) node;
     let s = s\<lparr>used_virtual_mmsz := used_virtual_mmsz s - vn_size n\<rparr>;
     s \<leftarrow> freevmr_put node s;
     vmm_unlock me s
   }"

definition vmm_getfreesize :: "ctx \<Rightarrow> vmm \<Rightarrow> (u64 \<times> vmm) option" where
  "vmm_getfreesize me s = do {
     s \<leftarrow> vmm_lock me s;
     let sz = KHEAPSZ - used_virtual_mmsz s;
     s \<leftarrow> vmm_unlock me s;
     Some (sz div 1024, s)
   }"

definition vmm_getinuse :: "ctx \<Rightarrow> vmm \<Rightarrow> (u64 \<times> vmm) option" where
  "vmm_getinuse me s = do {
     s \<leftarrow> vmm_lock me s;
     let sz = used_virtual_mmsz s;
     s \<leftarrow> vmm_unlock me s;
     Some (sz div 1024, s)
   }"

definition vmm_active :: "vmm \<Rightarrow> bool" where "vmm_active s = vmm_online s"

definition getpagesize :: int where "getpagesize = uint PAGESZ"

interpretation vn: dll_node vn_next vn_prev vn_next_update vn_prev_update
  by unfold_locales simp_all

section \<open>The three lists\<close>

definition reg :: "vnode heap \<Rightarrow> ptr \<Rightarrow> region" where
  "reg h p = (case h p of None \<Rightarrow> (0, 0) | Some n \<Rightarrow> (unat (vn_base n), unat (vn_size n)))"

abbreviation vchain :: "vnode heap \<Rightarrow> ptr \<Rightarrow> ptr list \<Rightarrow> ptr \<Rightarrow> bool" where
  "vchain \<equiv> dchain vn_next vn_prev"

text \<open>The unused nodes are linked through \<open>next\<close> only: \<open>freenodes_get\<close> leaves a stale \<open>prev\<close>
  in the new head.\<close>

fun schain :: "vnode heap \<Rightarrow> ptr list \<Rightarrow> bool" where
  "schain h [] \<longleftrightarrow> True"
| "schain h (x # xs) \<longleftrightarrow> (\<exists>n. h x = Some n \<and> vn_next n = first_of xs NULL) \<and> schain h xs"

definition free_list :: "vmm \<Rightarrow> ptr list \<Rightarrow> bool" where
  "free_list s xs \<longleftrightarrow> vchain (nodes s) NULL xs NULL \<and> freevmr_head s = first_of xs NULL
     \<and> (freevmr_tail s = NULL \<or> freevmr_tail s = last_of xs NULL)"

definition used_list :: "vmm \<Rightarrow> ptr list \<Rightarrow> bool" where
  "used_list s us \<longleftrightarrow> vchain (nodes s) NULL us NULL \<and> usedvmr_head s = first_of us NULL
     \<and> usedvmr_tail s = last_of us NULL"

definition spare_list :: "vmm \<Rightarrow> ptr list \<Rightarrow> bool" where
  "spare_list s fs \<longleftrightarrow> schain (nodes s) fs \<and> freenodes_head s = first_of fs NULL
     \<and> freenodes_tail s = last_of fs NULL"

text \<open>The lists share no node. The links of nodes outside the lists are not constrained.\<close>

definition three_lists :: "vmm \<Rightarrow> ptr list \<Rightarrow> ptr list \<Rightarrow> ptr list \<Rightarrow> bool" where
  "three_lists s xs us fs \<longleftrightarrow> free_list s xs \<and> used_list s us \<and> spare_list s fs
     \<and> distinct (xs @ us @ fs) \<and> NULL \<notin> set (xs @ us @ fs)"

lemma schain_cong: "(\<And>x. x \<in> set xs \<Longrightarrow> h' x = h x) \<Longrightarrow> schain h' xs = schain h xs"
  by (induction xs) auto

lemma schain_frame [simp]: "p \<notin> set xs \<Longrightarrow> schain (h(p := v)) xs = schain h xs"
  by (rule schain_cong) auto

lemma schain_snoc:
  "schain h xs \<Longrightarrow> h p = Some n \<Longrightarrow> vn_next n = NULL \<Longrightarrow> distinct (xs @ [p]) \<Longrightarrow> NULL \<notin> set xs \<Longrightarrow>
    \<exists>h'. hupd_if (last_of xs NULL) (vn_next_update (\<lambda>_. p)) h = Some h' \<and> schain h' (xs @ [p])
      \<and> (\<forall>y. y \<notin> set xs \<longrightarrow> h' y = h y) \<and> (\<forall>y. reg h' y = reg h y)"
proof (induction xs)
  case (Cons x xs)
  show ?case
  proof (cases xs)
    case Nil
    with Cons.prems show ?thesis
      by (auto simp: hupd_if_nonNULL hupd_mapped reg_def)
  next
    case (Cons y ys)
    obtain h' where h': "hupd_if (last_of xs NULL) (vn_next_update (\<lambda>_. p)) h = Some h'" "schain h' (xs @ [p])"
        "\<forall>y. y \<notin> set xs \<longrightarrow> h' y = h y" "\<forall>y. reg h' y = reg h y"
      using Cons.IH Cons.prems by auto
    have "last_of (x # xs) NULL = last_of xs NULL" using \<open>xs = y # ys\<close> by simp
    moreover have "h' x = h x" using h'(3) Cons.prems(4) by simp
    ultimately show ?thesis using h' Cons.prems(1) \<open>xs = y # ys\<close> by (intro exI [of _ h']) auto
  qed
qed simp

lemma vupd_ok: "p \<noteq> NULL \<Longrightarrow> nodes s p = Some n \<Longrightarrow> vupd p f s = Some (s\<lparr>nodes := (nodes s)(p \<mapsto> f n)\<rparr>)"
  by (simp add: vupd_def hupd_mapped)

lemma vupd_if_heap: "hupd_if p f (nodes s) = Some h' \<Longrightarrow> vupd_if p f s = Some (s\<lparr>nodes := h'\<rparr>)"
  by (auto simp: vupd_if_def vupd_def hupd_if_def split: if_splits)

lemma vupd_heap: "p \<noteq> NULL \<Longrightarrow> hupd_if p f (nodes s) = Some h' \<Longrightarrow> vupd p f s = Some (s\<lparr>nodes := h'\<rparr>)"
  using vupd_if_heap [of p f s h'] by (simp add: vupd_if_def)

lemma freenodes_put_ok:
  assumes "spare_list s fs" "distinct (fs @ [node])" "NULL \<notin> set (fs @ [node])"
    "nodes s node = Some n" "vn_size n \<noteq> 0" "KHEAPBASE \<le> vn_base n"
  obtains h where
    "freenodes_put node s = Some (s\<lparr>freenodes_head := first_of (fs @ [node]) NULL, freenodes_tail := node, nodes := h\<rparr>)"
    "schain h (fs @ [node])" "\<forall>y. y \<notin> set (fs @ [node]) \<longrightarrow> h y = nodes s y" "\<forall>y. reg h y = reg (nodes s) y"
proof -
  let ?n = "n\<lparr>vn_next := NULL, vn_prev := NULL\<rparr>"
  let ?h = "(nodes s)(node \<mapsto> ?n)"
  have sp: "schain (nodes s) fs" "freenodes_head s = first_of fs NULL" "freenodes_tail s = last_of fs NULL"
    using assms(1) by (auto simp: spare_list_def)
  have "schain ?h fs" using sp(1) assms(2) by simp
  then obtain h' where h': "hupd_if (last_of fs NULL) (vn_next_update (\<lambda>_. node)) ?h = Some h'" "schain h' (fs @ [node])"
      "\<forall>y. y \<notin> set fs \<longrightarrow> h' y = ?h y" "\<forall>y. reg h' y = reg ?h y"
    using schain_snoc [of ?h fs node ?n] assms(2,3) by auto
  let ?h2 = "h'(node \<mapsto> ?n\<lparr>vn_prev := last_of fs NULL\<rparr>)"
  have hn: "h' node = Some ?n" using h'(3) assms(2) by simp
  have ch: "schain ?h2 (fs @ [node])"
  proof -
    have "schain ?h2 xs" if "schain h' xs" for xs
      using that hn by (induction xs) auto
    then show ?thesis using h'(2) .
  qed
  have nn: "node \<noteq> NULL" using assms(3) by auto
  have hd: "first_of fs NULL = NULL \<longleftrightarrow> fs = []" using assms(3) by (cases fs) auto
  have "freenodes_put node s = Some (s\<lparr>freenodes_head := first_of (fs @ [node]) NULL, freenodes_tail := node, nodes := ?h2\<rparr>)"
    using assms(3-6) sp hn nn hd h'(1)
    by (cases fs) (simp_all add: freenodes_put_def assert_region_def hget_nonNULL vupd_ok vupd_if_heap Let_def)
  moreover have "\<forall>y. reg ?h2 y = reg (nodes s) y"
    using h'(4) hn assms(4) by (auto simp: reg_def)
  moreover have "\<forall>y. y \<notin> set (fs @ [node]) \<longrightarrow> ?h2 y = nodes s y" using h'(3) by auto
  ultimately show thesis using ch by (intro that [of ?h2])
qed

section \<open>Putting a region into the free list\<close>

lemma reg_same:
  assumes "vn.same_payload h h'"
  shows "reg h' y = reg h y"
proof -
  have pl: "vn_base n = vn_base (vn.payload n)" "vn_size n = vn_size (vn.payload n)" for n
    by (simp_all add: vn.payload_def)
  have r: "reg g y = (case map_option vn.payload (g y) of None \<Rightarrow> (0, 0) | Some n \<Rightarrow> (unat (vn_base n), unat (vn_size n)))" for g
    by (cases "g y") (simp_all add: reg_def pl(1) [symmetric] pl(2) [symmetric])
  show ?thesis
    using assms unfolding r [of h] r [of h'] vn.same_payload_def by simp
qed

lemma link_in:
  assumes "vchain h NULL (L @ R) NULL" "distinct (L @ node # R)" "NULL \<notin> set (L @ node # R)"
    "h node = Some n" "vn_prev n = last_of L NULL" "vn_next n = first_of R NULL"
  obtains h1 h2 where "hupd_if (last_of L NULL) (vn_next_update (\<lambda>_. node)) h = Some h1"
    "hupd_if (first_of R NULL) (vn_prev_update (\<lambda>_. node)) h1 = Some h2"
    "vchain h2 NULL (L @ node # R) NULL" "\<forall>y. reg h2 y = reg h y"
    "\<forall>y. y \<notin> set (L @ R) \<longrightarrow> h2 y = h y" "h1 node = h node"
proof -
  have cl: "vchain h NULL L (first_of R NULL)" and cr: "vchain h (last_of L NULL) R NULL"
    using assms(1) by (auto simp: dchain_append)
  obtain h1 where h1: "hupd_if (last_of L NULL) (vn_next_update (\<lambda>_. node)) h = Some h1"
      "vchain h1 NULL L node" "vn.same_payload h h1" "\<forall>y. y \<notin> set L \<longrightarrow> h1 y = h y"
    using vn.retarget_last [OF cl, of node] assms(2,3) by auto
  have "vchain h1 (last_of L NULL) R NULL = vchain h (last_of L NULL) R NULL"
    by (rule dchain_cong) (use h1(4) assms(2) in auto)
  with cr have cr1: "vchain h1 (last_of L NULL) R NULL" by simp
  obtain h2 where h2: "hupd_if (first_of R NULL) (vn_prev_update (\<lambda>_. node)) h1 = Some h2"
      "vchain h2 node R NULL" "vn.same_payload h1 h2" "\<forall>y. y \<notin> set R \<longrightarrow> h2 y = h1 y"
    using vn.retarget_first [OF cr1, of node] assms(2,3) by auto
  have "vchain h2 NULL L node = vchain h1 NULL L node"
    by (rule dchain_cong) (use h2(4) assms(2) in auto)
  with h1(2) have "vchain h2 NULL L node" by simp
  moreover have "h2 node = Some n" "h1 node = h node" using h1(4) h2(4) assms(2,4) by auto
  ultimately have "vchain h2 NULL (L @ node # R) NULL"
    using h2(2) assms(5,6) by (simp add: dchain_append)
  moreover have "\<forall>y. reg h2 y = reg h y" using reg_same [OF h1(3)] reg_same [OF h2(3)] by simp
  ultimately show thesis
    using h1 h2 assms(2) by (intro that [of h1 h2]) auto
qed

lemma freevmr_put_loop_ok:
  assumes "vchain h pr xs NULL" "NULL \<notin> set xs"
  shows "freevmr_put_loop b pr (first_of xs NULL) h =
    Some (last_of (takeWhile (\<lambda>p. fst (reg h p) < unat b) xs) pr,
          first_of (dropWhile (\<lambda>p. fst (reg h p) < unat b) xs) NULL)"
  using assms
proof (induction xs arbitrary: pr)
  case Nil
  then show ?case by (simp add: freevmr_put_loop.simps)
next
  case (Cons x xs)
  then obtain n where n: "h x = Some n" "vn_next n = first_of xs NULL" "x \<noteq> NULL" "vchain h x xs NULL"
    by auto
  have "vn_base n < b \<longleftrightarrow> fst (reg h x) < unat b"
    using n(1) by (simp add: reg_def word_less_nat_alt)
  with n Cons.IH [OF n(4)] Cons.prems show ?case
    by (simp add: freevmr_put_loop.simps [of b pr x] hget_nonNULL)
qed

definition in_heap :: "region \<Rightarrow> bool" where
  "in_heap r \<longleftrightarrow> unat KHEAPBASE \<le> fst r \<and> fst r + snd r \<le> unat KHEAPBASE + unat KHEAPSZ"

lemma heap_consts: "unat KHEAPBASE = 0xFFFFFF8100000000" "unat KHEAPSZ = 0x100000000" "unat PAGESZ = 0x1000"
  by (simp_all add: KHEAPBASE_def KHEAPSZ_def PAGESZ_def)

lemma in_heap_add:
  fixes b z :: u64
  assumes "in_heap (unat b, unat z)"
  shows "unat (b + z) = unat b + unat z"
proof -
  have "unat b + unat z < 2 ^ 64" using assms by (simp add: in_heap_def heap_consts)
  then show ?thesis by (simp add: unat_word_ariths)
qed

lemma in_heap_base: "in_heap (unat b, z) \<Longrightarrow> KHEAPBASE \<le> b"
  by (simp add: in_heap_def word_le_nat_alt)

text \<open>What \<open>freevmr_put\<close> leaves of the other lists and of the rest of the state.\<close>

definition put_result :: "vmm \<Rightarrow> ptr list \<Rightarrow> ptr list \<Rightarrow> ptr list \<Rightarrow> ptr \<Rightarrow> vmm \<Rightarrow> ptr list \<Rightarrow> ptr list \<Rightarrow> bool" where
  "put_result s xs us fs node s' xs' ex \<longleftrightarrow>
     three_lists s' xs' us (fs @ ex) \<and> set xs' \<union> set ex = insert node (set xs)
     \<and> (\<forall>y. y \<notin> set (node # xs @ fs) \<longrightarrow> nodes s' y = nodes s y)
     \<and> used_virtual_mmsz s' = used_virtual_mmsz s \<and> vmm_spinlock s' = vmm_spinlock s \<and> vmm_online s' = vmm_online s"

text \<open>A node outside the lists, about to be put into the free list between \<open>L\<close> and \<open>R\<close>.\<close>

definition loose :: "vmm \<Rightarrow> ptr list \<Rightarrow> ptr list \<Rightarrow> ptr list \<Rightarrow> ptr \<Rightarrow> vnode \<Rightarrow> bool" where
  "loose s xs us fs node n \<longleftrightarrow> three_lists s xs us fs \<and> node \<notin> set (xs @ us @ fs) \<and> node \<noteq> NULL
     \<and> nodes s node = Some n"

lemma three_lists_free:
  assumes "three_lists s xs us fs"
    and "vchain h NULL xs' NULL" "hp = first_of xs' NULL" "tp = NULL \<or> tp = last_of xs' NULL"
    and "\<forall>y. y \<notin> set W \<longrightarrow> h y = nodes s y" "set W \<inter> set (us @ fs) = {}"
    and "distinct (xs' @ us @ fs)" "NULL \<notin> set xs'"
  shows "three_lists (s\<lparr>freevmr_head := hp, freevmr_tail := tp, nodes := h\<rparr>) xs' us fs"
proof -
  have "vchain h NULL us NULL = vchain (nodes s) NULL us NULL" "schain h fs = schain (nodes s) fs"
    using assms(5,6) by (intro dchain_cong schain_cong; auto)+
  then show ?thesis
    using assms by (auto simp: three_lists_def free_list_def used_list_def spare_list_def)
qed

lemma loose_free:
  assumes "loose s (L @ R) us fs node n"
  shows "vchain (nodes s) NULL (L @ R) NULL" "distinct (L @ node # R)" "NULL \<notin> set (L @ node # R)"
    "freevmr_head s = first_of (L @ R) NULL" "freevmr_tail s = NULL \<or> freevmr_tail s = last_of (L @ R) NULL"
    "nodes s node = Some n" "node \<noteq> NULL" "three_lists s (L @ R) us fs"
    "set (node # L @ R) \<inter> set (us @ fs) = {}" "distinct (L @ node # R @ us @ fs)"
  using assms by (auto simp: loose_def three_lists_def free_list_def)

lemma put_result_alone:
  assumes l: "loose s (L @ R) us fs node n"
    and "vchain h NULL (L @ node # R) NULL" "hp = first_of (L @ node # R) NULL"
      "tp = NULL \<or> tp = last_of (L @ node # R) NULL" "\<forall>y. y \<notin> set (node # L @ R) \<longrightarrow> h y = nodes s y"
  shows "put_result s (L @ R) us fs node (s\<lparr>freevmr_head := hp, freevmr_tail := tp, nodes := h\<rparr>) (L @ node # R) []"
proof -
  note f = loose_free [OF l]
  have "three_lists (s\<lparr>freevmr_head := hp, freevmr_tail := tp, nodes := h\<rparr>) (L @ node # R) us fs"
    by (rule three_lists_free [OF f(8) assms(2-5) f(9)]) (use f in auto)
  then show ?thesis using assms(5) by (auto simp: put_result_def)
qed

text \<open>The three ways to link a region that touches neither neighbour.\<close>

lemma vmm_same: "s\<lparr>nodes := h\<rparr> = s\<lparr>freevmr_head := freevmr_head s, freevmr_tail := freevmr_tail s, nodes := h\<rparr>"
  by simp

lemma link_middle:
  assumes l: "loose s (L @ R) us fs node n" and ne: "L \<noteq> []" "R \<noteq> []"
  obtains s' where
    "do { s \<leftarrow> vupd node (vn_prev_update (\<lambda>_. last_of L NULL)) s;
          s \<leftarrow> vupd node (vn_next_update (\<lambda>_. first_of R NULL)) s;
          s \<leftarrow> vupd (last_of L NULL) (vn_next_update (\<lambda>_. node)) s;
          vupd (first_of R NULL) (vn_prev_update (\<lambda>_. node)) s } = Some s'"
    "put_result s (L @ R) us fs node s' (L @ node # R) []" "\<forall>y. reg (nodes s') y = reg (nodes s) y"
proof -
  note f = loose_free [OF l]
  let ?n = "n\<lparr>vn_prev := last_of L NULL, vn_next := first_of R NULL\<rparr>"
  let ?h = "(nodes s)(node \<mapsto> ?n)"
  have c: "vchain ?h NULL (L @ R) NULL" using f(1,2) by simp
  have side: "?h node = Some ?n" "vn_prev ?n = last_of L NULL" "vn_next ?n = first_of R NULL" by simp_all
  obtain h1 h2 where h: "hupd_if (last_of L NULL) (vn_next_update (\<lambda>_. node)) ?h = Some h1"
      "hupd_if (first_of R NULL) (vn_prev_update (\<lambda>_. node)) h1 = Some h2"
      "vchain h2 NULL (L @ node # R) NULL" "\<forall>y. reg h2 y = reg ?h y" "\<forall>y. y \<notin> set (L @ R) \<longrightarrow> h2 y = ?h y"
      "h1 node = ?h node"
    by (rule link_in [OF c f(2,3) side])
  have nn: "last_of L NULL \<noteq> NULL" "first_of R NULL \<noteq> NULL"
    using last_of_nonNULL [OF ne(1)] first_of_nonNULL [OF ne(2)] f(3) by simp_all
  have tl: "last_of (L @ node # R) NULL = last_of (L @ R) NULL" "first_of (L @ node # R) NULL = first_of (L @ R) NULL"
    using ne by (cases R; cases L; simp)+
  have "put_result s (L @ R) us fs node (s\<lparr>freevmr_head := freevmr_head s, freevmr_tail := freevmr_tail s, nodes := h2\<rparr>) (L @ node # R) []"
    by (rule put_result_alone [OF l h(3)]) (use f tl h(5) in auto)
  moreover have "\<forall>y. reg h2 y = reg (nodes s) y" using h(4) f(6) by (simp add: reg_def)
  ultimately show thesis
    using f(6,7) h(1,2) nn by (intro that [of "s\<lparr>nodes := h2\<rparr>"]) (simp_all add: vupd_ok vupd_heap)
qed

lemma link_last:
  assumes l: "loose s L us fs node n" and ne: "L \<noteq> []"
  obtains s' where "freevmr_linkto_left node (last_of L NULL) s = Some s'"
    "put_result s L us fs node s' (L @ [node]) []" "\<forall>y. reg (nodes s') y = reg (nodes s) y"
proof -
  note f = loose_free [of s L "[]", simplified, OF l]
  obtain L' x where L: "L = L' @ [x]" using ne by (cases L rule: rev_cases) auto
  let ?n = "n\<lparr>vn_next := NULL, vn_prev := x\<rparr>"
  let ?h = "(nodes s)(node \<mapsto> ?n)"
  obtain ln where ln: "nodes s x = Some ln" "vn_next ln = NULL"
    using dchain_at [of vn_next vn_prev "nodes s" NULL L' x "[]" NULL] f(1) L by auto
  have nn: "x \<noteq> NULL" "x \<noteq> node" "x \<notin> set L'" using f(2,3) L by auto
  let ?h2 = "(nodes s)(node \<mapsto> ?n, x \<mapsto> ln\<lparr>vn_next := node\<rparr>)"
  have c: "vchain ?h NULL (L' @ [x]) NULL" using f(1,2) L by simp
  have "vchain ?h2 NULL L node"
    using vn.set_next_of_last [OF c nn(3), of ln node] ln nn L by auto
  then have ch: "vchain ?h2 NULL (L @ node # []) NULL"
    using nn L by (simp add: dchain_append)
  have "put_result s (L @ []) us fs node (s\<lparr>freevmr_head := freevmr_head s, freevmr_tail := node, nodes := ?h2\<rparr>) (L @ node # []) []"
  proof (rule put_result_alone [OF _ ch])
    show "freevmr_head s = first_of (L @ node # []) NULL" using f(4) L by (cases L') auto
  qed (use l L in auto)
  moreover have "\<forall>y. reg ?h2 y = reg (nodes s) y" using ln f(6) nn by (auto simp: reg_def)
  moreover have "freevmr_linkto_left node x s = Some (s\<lparr>freevmr_tail := node, nodes := ?h2\<rparr>)"
    using f(6,7) ln nn by (simp add: freevmr_linkto_left_def hget_nonNULL vupd_ok fun_upd_twist)
  ultimately show thesis using L by (intro that [of "s\<lparr>freevmr_tail := node, nodes := ?h2\<rparr>"]) simp_all
qed

lemma link_first:
  assumes l: "loose s R us fs node n" and ne: "R \<noteq> []"
  obtains s' where "freevmr_linkto_right node (first_of R NULL) s = Some s'"
    "put_result s R us fs node s' (node # R) []" "\<forall>y. reg (nodes s') y = reg (nodes s) y"
proof -
  note f = loose_free [of s "[]" R, simplified, OF l]
  obtain x R' where R: "R = x # R'" using ne by (cases R) auto
  let ?n = "n\<lparr>vn_prev := NULL, vn_next := x\<rparr>"
  let ?h = "(nodes s)(node \<mapsto> ?n)"
  obtain rn where rn: "nodes s x = Some rn" "vn_prev rn = NULL" using f(1) R by auto
  have nn: "x \<noteq> NULL" "x \<noteq> node" "x \<notin> set R'" using f(2,3) R by auto
  let ?h2 = "(nodes s)(node \<mapsto> ?n, x \<mapsto> rn\<lparr>vn_prev := node\<rparr>)"
  have c: "vchain ?h NULL (x # R') NULL" using f(1,2) R by auto
  have "vchain ?h2 node R NULL"
    using vn.set_prev_of_first [OF c nn(3), of rn node] rn nn R by auto
  then have ch: "vchain ?h2 NULL ([] @ node # R) NULL" using nn R by simp
  have "put_result s ([] @ R) us fs node (s\<lparr>freevmr_head := node, freevmr_tail := freevmr_tail s, nodes := ?h2\<rparr>) ([] @ node # R) []"
    by (rule put_result_alone [OF _ ch]) (use l f R in auto)
  moreover have "\<forall>y. reg ?h2 y = reg (nodes s) y" using rn f(6) nn by (auto simp: reg_def)
  moreover have "freevmr_linkto_right node x s = Some (s\<lparr>freevmr_head := node, nodes := ?h2\<rparr>)"
    using f(6,7) rn nn by (simp add: freevmr_linkto_right_def hget_nonNULL vupd_ok fun_upd_twist)
  ultimately show thesis using R by (intro that [of "s\<lparr>freevmr_head := node, nodes := ?h2\<rparr>"]) simp_all
qed

text \<open>A normal form for updates of the state: \<open>nodes\<close> last.\<close>

lemma nodes_last [simp]:
  "s\<lparr>nodes := h, freevmr_tail := p\<rparr> = s\<lparr>freevmr_tail := p, nodes := h\<rparr>"
  "s\<lparr>nodes := h, freevmr_head := p\<rparr> = s\<lparr>freevmr_head := p, nodes := h\<rparr>"
  "s\<lparr>nodes := h, usedvmr_tail := p\<rparr> = s\<lparr>usedvmr_tail := p, nodes := h\<rparr>"
  "s\<lparr>nodes := h, usedvmr_head := p\<rparr> = s\<lparr>usedvmr_head := p, nodes := h\<rparr>"
  by (cases s; simp)+

text \<open>Giving a node back to the unused ones.\<close>

lemma spare_put:
  assumes l: "loose s xs us fs node n" and "vn_size n \<noteq> 0" "KHEAPBASE \<le> vn_base n"
  obtains s' where "freenodes_put node s = Some s'" "put_result s xs us fs node s' xs [node]"
    "\<forall>y. reg (nodes s') y = reg (nodes s) y" "\<forall>y. y \<notin> set (fs @ [node]) \<longrightarrow> nodes s' y = nodes s y"
proof -
  have t: "three_lists s xs us fs" "distinct (fs @ [node])" "NULL \<notin> set (fs @ [node])" "nodes s node = Some n"
      "spare_list s fs"
    using l by (auto simp: loose_def three_lists_def)
  obtain h where h:
    "freenodes_put node s = Some (s\<lparr>freenodes_head := first_of (fs @ [node]) NULL, freenodes_tail := node, nodes := h\<rparr>)"
    "schain h (fs @ [node])" "\<forall>y. y \<notin> set (fs @ [node]) \<longrightarrow> h y = nodes s y" "\<forall>y. reg h y = reg (nodes s) y"
    by (rule freenodes_put_ok [OF t(5,2,3,4) assms(2,3)])
  have "vchain h NULL xs NULL = vchain (nodes s) NULL xs NULL" "vchain h NULL us NULL = vchain (nodes s) NULL us NULL"
    using l h(3) by (intro dchain_cong; auto simp: loose_def three_lists_def)+
  then have "three_lists (s\<lparr>freenodes_head := first_of (fs @ [node]) NULL, freenodes_tail := node, nodes := h\<rparr>) xs us (fs @ [node])"
    using l h(2) by (auto simp: loose_def three_lists_def free_list_def used_list_def spare_list_def)
  then show thesis using h by (intro that) (auto simp: put_result_def)
qed

lemma dchain_relabel:
  assumes "vchain h pr xs nx" "h x = Some l" "vn_next m = vn_next l" "vn_prev m = vn_prev l"
  shows "vchain (h(x \<mapsto> m)) pr xs nx"
  using assms(1)
proof (induction xs arbitrary: pr)
  case (Cons y ys)
  then show ?case using assms(2-4) by (cases "y = x") auto
qed simp

lemma loose_relabel:
  assumes "loose s xs us fs node n" "x \<in> set xs" "nodes s x = Some l" "vn_next m = vn_next l" "vn_prev m = vn_prev l"
  shows "loose (s\<lparr>nodes := (nodes s)(x \<mapsto> m)\<rparr>) xs us fs node n"
proof -
  have "x \<notin> set us" "x \<notin> set fs" using assms(1,2) by (auto simp: loose_def three_lists_def)
  then show ?thesis
    using assms dchain_relabel [of "nodes s" NULL xs NULL x l m]
    by (auto simp: loose_def three_lists_def free_list_def used_list_def spare_list_def)
qed

lemma put_result_relabel:
  "put_result (s\<lparr>nodes := (nodes s)(x \<mapsto> m)\<rparr>) xs us fs node s' xs' ex \<Longrightarrow> x \<in> set xs \<Longrightarrow>
    put_result s xs us fs node s' xs' ex"
  by (auto simp: put_result_def)

lemma merge_left_ok:
  assumes l: "loose s xs us fs node n" and x: "x \<in> set xs" "nodes s x = Some l"
    and touch: "vn_base l + vn_size l = vn_base n" and n: "vn_size n \<noteq> 0" "KHEAPBASE \<le> vn_base n"
  obtains s' where "merge_left node x s = Some s'" "put_result s xs us fs node s' xs [node]"
    "\<forall>y. reg (nodes s') y = reg ((nodes s)(x \<mapsto> l\<lparr>vn_size := vn_size l + vn_size n\<rparr>)) y"
proof -
  let ?m = "vn_size_update (\<lambda>z. z + vn_size n) l"
  let ?s = "s\<lparr>nodes := (nodes s)(x \<mapsto> ?m)\<rparr>"
  have nn: "x \<noteq> NULL" "node \<noteq> NULL" "nodes s node = Some n" using l x by (auto simp: loose_def three_lists_def)
  have "loose ?s xs us fs node n" by (rule loose_relabel [OF l x]) simp_all
  then obtain s' where s': "freenodes_put node ?s = Some s'" "put_result ?s xs us fs node s' xs [node]"
      "\<forall>y. reg (nodes s') y = reg (nodes ?s) y"
    by (rule spare_put [OF _ n]) auto
  have "merge_left node x s = Some s'"
    using nn x(2) touch s'(1) by (simp add: merge_left_def can_merge_left_def hget_nonNULL vupd_ok)
  then show thesis using s'(2,3) put_result_relabel x(1) by (intro that [of s']) (auto simp: reg_def)
qed

lemma merge_right_ok:
  assumes l: "loose s xs us fs node n" and x: "x \<in> set xs" "nodes s x = Some r"
    and touch: "vn_base n + vn_size n = vn_base r" and n: "vn_size n \<noteq> 0" "KHEAPBASE \<le> vn_base n"
  obtains s' where "merge_right node x s = Some s'" "put_result s xs us fs node s' xs [node]"
    "\<forall>y. reg (nodes s') y = reg ((nodes s)(x \<mapsto> r\<lparr>vn_base := vn_base n, vn_size := vn_size r + vn_size n\<rparr>)) y"
proof -
  let ?m = "vn_size_update (\<lambda>z. z + vn_size n) (vn_base_update (\<lambda>b. b - vn_size n) r)"
  let ?s = "s\<lparr>nodes := (nodes s)(x \<mapsto> ?m)\<rparr>"
  have nn: "x \<noteq> NULL" "node \<noteq> NULL" "nodes s node = Some n" using l x by (auto simp: loose_def three_lists_def)
  have b: "vn_base r - vn_size n = vn_base n" using touch by (simp add: algebra_simps)
  have "loose ?s xs us fs node n" by (rule loose_relabel [OF l x]) simp_all
  then obtain s' where s': "freenodes_put node ?s = Some s'" "put_result ?s xs us fs node s' xs [node]"
      "\<forall>y. reg (nodes s') y = reg (nodes ?s) y"
    by (rule spare_put [OF _ n]) auto
  have "merge_right node x s = Some s'"
    using nn x(2) touch s'(1) by (simp add: merge_right_def can_merge_right_def hget_nonNULL vupd_ok)
  then show thesis using s'(2,3) put_result_relabel x(1) b by (intro that [of s']) (auto simp: reg_def)
qed


lemma concatenate_ok:
  assumes l: "loose s (L @ x # r # R) us fs node n" and x: "nodes s x = Some lx" and r: "nodes s r = Some rn"
    and touch: "vn_base lx + vn_size lx = vn_base n" "vn_base n + vn_size n = vn_base rn"
    and n: "vn_size n \<noteq> 0" "KHEAPBASE \<le> vn_base n" and rs: "vn_size rn \<noteq> 0" "KHEAPBASE \<le> vn_base rn"
  obtains s' where "concatenate x node r s = Some s'"
    "put_result s (L @ x # r # R) us fs node s' (L @ x # R) [node, r]"
    "\<forall>y. reg (nodes s') y = reg ((nodes s)(x \<mapsto> lx\<lparr>vn_size := vn_size lx + (vn_size n + vn_size rn)\<rparr>)) y"
proof -
  let ?xs = "L @ x # r # R"
  let ?lx = "vn_size_update (\<lambda>z. z + (vn_size n + vn_size rn)) lx"
  let ?h = "(nodes s)(x \<mapsto> ?lx)"
  note f = loose_free [of s ?xs "[]", simplified, OF l]
  have d: "distinct L" "distinct R" "x \<notin> set L" "x \<notin> set R" "r \<notin> set L" "r \<notin> set R" "x \<noteq> r" "node \<notin> set ?xs"
      "set L \<inter> set R = {}" "NULL \<notin> set ?xs" "x \<noteq> NULL" "r \<noteq> NULL" "NULL \<notin> set R" "x \<noteq> node" "r \<noteq> node"
    using f(2,3) by auto
  have c: "vchain (nodes s) NULL L x" "vn_prev lx = last_of L NULL" "vn_next rn = first_of R NULL"
      "vchain (nodes s) r R NULL"
    using f(1) x r by (auto simp: dchain_append)
  have c1: "vchain ?h NULL L x" "vchain ?h r R NULL" using c d by auto
  obtain h1 where h1: "hupd_if (first_of R NULL) (vn_prev_update (\<lambda>_. x)) ?h = Some h1"
      "vchain h1 x R NULL" "vn.same_payload ?h h1" "\<forall>y. y \<notin> set R \<longrightarrow> h1 y = ?h y"
    using vn.retarget_first [OF c1(2) d(2,13), of x] by auto
  let ?h2 = "h1(x \<mapsto> ?lx\<lparr>vn_next := first_of R NULL\<rparr>)"
  have hx: "h1 x = Some ?lx" using h1(4) d by simp
  have "vchain h1 NULL L x = vchain ?h NULL L x" by (rule dchain_cong) (use h1(4) d in auto)
  then have cL: "vchain h1 NULL L x" using c1(1) by simp
  have ch: "vchain ?h2 NULL (L @ x # R) NULL" using cL h1(2) c(2) d by (simp add: dchain_append)
  have fr: "\<forall>y. y \<notin> set (x # R) \<longrightarrow> ?h2 y = nodes s y" using h1(4) by auto
  have rg: "\<forall>y. reg ?h2 y = reg ?h y" using reg_same [OF h1(3)] hx by (auto simp: reg_def)
  let ?tl = "if R = [] then x else freevmr_tail s"
  let ?s = "s\<lparr>freevmr_head := freevmr_head s, freevmr_tail := ?tl, nodes := ?h2\<rparr>"
  have t: "three_lists ?s (L @ x # R) us fs"
    by (rule three_lists_free [OF f(8) ch _ _ fr]) (use f in \<open>auto simp: neq_Nil_conv\<close>)
  have "loose ?s (L @ x # R) us fs node n" using t f d fr by (auto simp: loose_def)
  then obtain s1 where s1: "freenodes_put node ?s = Some s1" "put_result ?s (L @ x # R) us fs node s1 (L @ x # R) [node]"
      "\<forall>y. reg (nodes s1) y = reg (nodes ?s) y" "\<forall>y. y \<notin> set (fs @ [node]) \<longrightarrow> nodes s1 y = nodes ?s y"
    by (rule spare_put [OF _ n])
  have rfs: "r \<notin> set (fs @ [node])" "r \<notin> set us" using f(9) d by auto
  have nr: "nodes s1 r = Some rn" using s1(4) rfs(1) fr r d by auto
  have "loose s1 (L @ x # R) us (fs @ [node]) r rn"
    using s1(2) nr d rfs by (auto simp: loose_def put_result_def)
  then obtain s2 where s2: "freenodes_put r s1 = Some s2" "put_result s1 (L @ x # R) us (fs @ [node]) r s2 (L @ x # R) [r]"
      "\<forall>y. reg (nodes s2) y = reg (nodes s1) y" "\<forall>y. y \<notin> set ((fs @ [node]) @ [r]) \<longrightarrow> nodes s2 y = nodes s1 y"
    by (rule spare_put [OF _ rs])
  have Rn: "first_of R NULL = NULL \<longleftrightarrow> R = []" using d(13) by (cases R) auto
  have "concatenate x node r s = Some s2"
    using x r touch d f(6,7) c(3) h1(1) hx s1(1) s2(1) Rn
    by (simp add: concatenate_def can_merge_both_def can_merge_left_def can_merge_right_def hget_nonNULL vupd_ok vupd_if_heap
        Let_def split: if_splits)
  moreover have "put_result s ?xs us fs node s2 (L @ x # R) [node, r]"
    using s1(2,4) s2(2,4) fr by (auto simp: put_result_def)
  ultimately show thesis using s2(3) s1(3) rg by (intro that [of s2]) (auto simp: reg_def)
qed

abbreviation regs :: "vmm \<Rightarrow> ptr list \<Rightarrow> region list" where
  "regs s xs \<equiv> map (reg (nodes s)) xs"

lemma reg_at: "h p = Some n \<Longrightarrow> reg h p = (unat (vn_base n), unat (vn_size n))"
  by (simp add: reg_def)

lemma regs_other: "x \<notin> set xs \<Longrightarrow> map (reg (h(x := v))) xs = map (reg h) xs"
  by (induction xs) (auto simp: reg_def)

lemma in_heap_size: "in_heap r \<Longrightarrow> snd r \<le> 0x100000000"
  by (simp add: in_heap_def heap_consts)

lemma size_add:
  fixes a b :: u64
  assumes "unat a \<le> 0x200000000" "unat b \<le> 0x200000000"
  shows "unat (a + b) = unat a + unat b"
proof -
  have "unat a + unat b < 2 ^ 64" using assms by simp
  then show ?thesis by (simp add: unat_word_ariths)
qed

lemma fits_split:
  assumes "regions_ok rs" "0 < snd r" "span r \<inter> covered rs = {}"
  shows "fits (takeWhile (\<lambda>q. fst q < fst r) rs) r (dropWhile (\<lambda>q. fst q < fst r) rs)"
proof -
  let ?L = "takeWhile (\<lambda>q. fst q < fst r) rs" and ?R = "dropWhile (\<lambda>q. fst q < fst r) rs"
  have ok: "regions_ok (?L @ ?R)" using assms(1) by simp
  have "\<forall>q\<in>set ?R. fst r \<le> fst q"
  proof (cases ?R)
    case (Cons x R)
    then have "\<not> fst x < fst r" by (metis dropWhile_eq_Cons_conv)
    moreover have "\<forall>q\<in>set R. below x q" using ok Cons by (simp add: regions_ok_append regions_ok_Cons)
    ultimately show ?thesis using Cons by (auto simp: below_def)
  next
    case Nil
    show ?thesis unfolding Nil by simp
  qed
  then show ?thesis using assms by (auto simp: fits_def dest: set_takeWhileD)
qed

text \<open>The effect of a merge on the regions of the list.\<close>

definition put_effect :: "vmm \<Rightarrow> ptr list \<Rightarrow> ptr \<Rightarrow> vmm \<Rightarrow> ptr list \<Rightarrow> bool" where
  "put_effect s xs node s' xs' \<longleftrightarrow> regions_ok (regs s' xs')
     \<and> covered (regs s' xs') = covered (regs s xs) \<union> span (reg (nodes s) node)
     \<and> total (regs s' xs') = total (regs s xs) + snd (reg (nodes s) node)"

lemma put_effect_left:
  assumes "fits (map (reg h) L @ [(a, k)]) (b, z) (map (reg h) R)" "a + k = b"
    "R \<noteq> [] \<Longrightarrow> b + z \<noteq> fst (reg h (hd R))"
    and "regs s (L @ x # R) = map (reg h) L @ (a, k) # map (reg h) R" "reg (nodes s) node = (b, z)"
    and "regs s' (L @ x # R) = map (reg h) L @ (a, k + z) # map (reg h) R"
  shows "put_effect s (L @ x # R) node s' (L @ x # R)"
  unfolding put_effect_def assms(4-6)
  using put_left [OF assms(1,2)] assms(3) span_join [OF assms(2), of z] by (auto simp: hd_map)

lemma put_effect_right:
  assumes "fits (map (reg h) L) (b, z) ((c, k) # map (reg h) R)" "b + z = c"
    "L \<noteq> [] \<Longrightarrow> fst (reg h (last L)) + snd (reg h (last L)) \<noteq> b"
    and "regs s (L @ x # R) = map (reg h) L @ (c, k) # map (reg h) R" "reg (nodes s) node = (b, z)"
    and "regs s' (L @ x # R) = map (reg h) L @ (b, z + k) # map (reg h) R"
  shows "put_effect s (L @ x # R) node s' (L @ x # R)"
  unfolding put_effect_def assms(4-6)
  using put_right [OF assms(1,2)] assms(3) span_join [OF assms(2), of k] by (auto simp: last_map)

lemma put_effect_both:
  assumes "fits (map (reg h) L @ [(a, j)]) (b, z) ((c, k) # map (reg h) R)" "a + j = b" "b + z = c"
    and "regs s (L @ x # r # R) = map (reg h) L @ (a, j) # (c, k) # map (reg h) R" "reg (nodes s) node = (b, z)"
    and "regs s' (L @ x # R) = map (reg h) L @ (a, j + (z + k)) # map (reg h) R"
  shows "put_effect s (L @ x # r # R) node s' (L @ x # R)"
  unfolding put_effect_def assms(4-6)
  using put_both [OF assms(1,2,3)] span_join [OF assms(2), of "z + k"] span_join [OF assms(3), of k] by auto

lemma put_effect_alone:
  assumes "fits (regs s L) (reg (nodes s) node) (regs s R)"
    "L \<noteq> [] \<Longrightarrow> fst (reg (nodes s) (last L)) + snd (reg (nodes s) (last L)) \<noteq> fst (reg (nodes s) node)"
    "R \<noteq> [] \<Longrightarrow> fst (reg (nodes s) node) + snd (reg (nodes s) node) \<noteq> fst (reg (nodes s) (hd R))"
    "\<forall>y. reg (nodes s') y = reg (nodes s) y"
  shows "put_effect s (L @ R) node s' (L @ node # R)"
proof -
  have e: "regs s' ys = regs s ys" for ys using assms(4) by simp
  show ?thesis
    unfolding put_effect_def e using put_alone [OF assms(1)] assms(2,3) by (auto simp: last_map hd_map)
qed

lemma touch_iff:
  assumes "h x = Some l" "h y = Some n" "in_heap (reg h x)"
  shows "vn_base l + vn_size l = vn_base n \<longleftrightarrow> fst (reg h x) + snd (reg h x) = fst (reg h y)"
  using assms in_heap_add [of "vn_base l" "vn_size l"] by (auto simp: reg_at unsigned_word_eqI)

lemma in_heap_node:
  assumes "h x = Some l" "in_heap (reg h x)"
  shows "KHEAPBASE \<le> vn_base l" "unat (vn_size l) \<le> 0x100000000"
  using assms in_heap_base [of "vn_base l"] in_heap_size [of "reg h x"] by (auto simp: reg_at)

lemma regs_frame:
  assumes "\<forall>y. reg (nodes s') y = reg ((nodes s)(x := v)) y" "x \<notin> set ys"
  shows "regs s' ys = regs s ys"
  using assms(1) regs_other [OF assms(2), of "nodes s" v] by simp

lemma join_middle:
  assumes l: "loose s (L @ x # r # R) us fs node n"
    and fit: "fits (regs s (L @ [x])) (reg (nodes s) node) (regs s (r # R))"
    and ih: "\<forall>p\<in>set (node # L @ x # r # R). in_heap (reg (nodes s) p)"
  shows "\<exists>s' xs' ex. freevmr_join x node r s = Some s' \<and> put_result s (L @ x # r # R) us fs node s' xs' ex
    \<and> put_effect s (L @ x # r # R) node s' xs'"
proof -
  let ?xs = "L @ x # r # R"
  note f = loose_free [of s ?xs "[]", simplified, OF l]
  have nn: "x \<noteq> NULL" "r \<noteq> NULL" "node \<noteq> NULL" using f(3) by auto
  have d: "x \<notin> set L" "x \<notin> set R" "r \<notin> set L" "r \<notin> set R" "x \<noteq> r" "node \<notin> set ?xs" using f(2) by auto
  obtain lx rn where lx: "nodes s x = Some lx" and rn: "nodes s r = Some rn"
    using f(1) by (auto simp: dchain_append)
  note n = f(6)
  have hx: "in_heap (reg (nodes s) x)" and hr: "in_heap (reg (nodes s) r)" and hn: "in_heap (reg (nodes s) node)"
    using ih by auto
  have pos: "vn_size n \<noteq> 0" "vn_size rn \<noteq> 0"
    using fit n rn by (auto simp: fits_def regions_ok_append regions_ok_Cons reg_at unat_gt_0)
  have ml: "can_merge_left node x s = Some (vn_base lx + vn_size lx = vn_base n)"
    and mr: "can_merge_right node r s = Some (vn_base n + vn_size n = vn_base rn)"
    using nn n lx rn by (simp_all add: can_merge_left_def can_merge_right_def hget_nonNULL)
  note tl = touch_iff [OF lx n hx] and tr = touch_iff [OF n rn hn]
  note kb = in_heap_node [OF n hn] in_heap_node [OF rn hr] in_heap_node [OF lx hx]
  consider (both) "vn_base lx + vn_size lx = vn_base n" "vn_base n + vn_size n = vn_base rn"
    | (left) "vn_base lx + vn_size lx = vn_base n" "vn_base n + vn_size n \<noteq> vn_base rn"
    | (right) "vn_base lx + vn_size lx \<noteq> vn_base n" "vn_base n + vn_size n = vn_base rn"
    | (none) "vn_base lx + vn_size lx \<noteq> vn_base n" "vn_base n + vn_size n \<noteq> vn_base rn" by blast
  then show ?thesis
  proof cases
    case both
    obtain s' where s': "concatenate x node r s = Some s'" "put_result s ?xs us fs node s' (L @ x # R) [node, r]"
        "\<forall>y. reg (nodes s') y = reg ((nodes s)(x \<mapsto> lx\<lparr>vn_size := vn_size lx + (vn_size n + vn_size rn)\<rparr>)) y"
      by (rule concatenate_ok [OF l lx rn both pos(1) kb(1) pos(2) kb(3)])
    note fr = regs_frame [OF s'(3)]
    have "unat (vn_size lx + (vn_size n + vn_size rn)) = unat (vn_size lx) + (unat (vn_size n) + unat (vn_size rn))"
      using size_add [of "vn_size n" "vn_size rn"] size_add [of "vn_size lx" "vn_size n + vn_size rn"] kb by simp
    then have "put_effect s ?xs node s' (L @ x # R)"
      by (intro put_effect_both [of "nodes s" L "unat (vn_base lx)" "unat (vn_size lx)" "unat (vn_base n)" "unat (vn_size n)"
            "unat (vn_base rn)" "unat (vn_size rn)"])
        (use fit both tl tr d s'(3) lx n rn fr [of L] fr [of R] in \<open>simp_all add: reg_at\<close>)
    then show ?thesis using s' ml mr both nn by (auto simp: freevmr_join_def can_merge_both_def)
  next
    case left
    obtain s' where s': "merge_left node x s = Some s'" "put_result s ?xs us fs node s' ?xs [node]"
        "\<forall>y. reg (nodes s') y = reg ((nodes s)(x \<mapsto> lx\<lparr>vn_size := vn_size lx + vn_size n\<rparr>)) y"
      by (rule merge_left_ok [OF l _ lx left(1) pos(1) kb(1)]) simp
    note fr = regs_frame [OF s'(3)]
    have "unat (vn_size lx + vn_size n) = unat (vn_size lx) + unat (vn_size n)"
      using size_add [of "vn_size lx" "vn_size n"] kb by simp
    then have "put_effect s ?xs node s' ?xs"
      by (intro put_effect_left [of "nodes s" L "unat (vn_base lx)" "unat (vn_size lx)" "unat (vn_base n)" "unat (vn_size n)"])
        (use fit left tl tr d s'(3) lx n rn fr [of L] fr [of "r # R"] in \<open>simp_all add: reg_at\<close>)
    then show ?thesis using s' ml mr left nn by (auto simp: freevmr_join_def can_merge_both_def)
  next
    case right
    obtain s' where s': "merge_right node r s = Some s'" "put_result s ?xs us fs node s' ?xs [node]"
        "\<forall>y. reg (nodes s') y = reg ((nodes s)(r \<mapsto> rn\<lparr>vn_base := vn_base n, vn_size := vn_size rn + vn_size n\<rparr>)) y"
      by (rule merge_right_ok [OF l _ rn right(2) pos(1) kb(1)]) simp
    note fr = regs_frame [OF s'(3)]
    have "unat (vn_size rn + vn_size n) = unat (vn_size n) + unat (vn_size rn)"
      using size_add [of "vn_size rn" "vn_size n"] kb by simp
    then have "put_effect s ((L @ [x]) @ r # R) node s' ((L @ [x]) @ r # R)"
      by (intro put_effect_right [of "nodes s" "L @ [x]" "unat (vn_base n)" "unat (vn_size n)" "unat (vn_base rn)" "unat (vn_size rn)"])
        (use fit right tl tr d s'(3) lx n rn fr [of L] fr [of "[x]"] fr [of R] in \<open>simp_all add: reg_at\<close>)
    then show ?thesis using s' ml mr right nn by (auto simp: freevmr_join_def can_merge_both_def)
  next
    case none
    obtain s' where s':
        "do { s \<leftarrow> vupd node (vn_prev_update (\<lambda>_. last_of (L @ [x]) NULL)) s;
              s \<leftarrow> vupd node (vn_next_update (\<lambda>_. first_of (r # R) NULL)) s;
              s \<leftarrow> vupd (last_of (L @ [x]) NULL) (vn_next_update (\<lambda>_. node)) s;
              vupd (first_of (r # R) NULL) (vn_prev_update (\<lambda>_. node)) s } = Some s'"
        "put_result s ((L @ [x]) @ r # R) us fs node s' ((L @ [x]) @ node # r # R) []"
        "\<forall>y. reg (nodes s') y = reg (nodes s) y"
      by (rule link_middle [of s "L @ [x]" "r # R" us fs node n]) (use l in simp_all)
    have "put_effect s ((L @ [x]) @ r # R) node s' ((L @ [x]) @ node # r # R)"
      by (rule put_effect_alone [OF fit]) (use none tl tr s'(3) in simp_all)
    then show ?thesis using s'(1,2) ml mr none nn by (auto simp: freevmr_join_def can_merge_both_def)
  qed
qed

lemma join_last:
  assumes l: "loose s (L @ [x]) us fs node n"
    and fit: "fits (regs s (L @ [x])) (reg (nodes s) node) []"
    and ih: "\<forall>p\<in>set (node # L @ [x]). in_heap (reg (nodes s) p)"
  shows "\<exists>s' xs' ex. freevmr_join x node NULL s = Some s' \<and> put_result s (L @ [x]) us fs node s' xs' ex
    \<and> put_effect s (L @ [x]) node s' xs'"
proof -
  let ?xs = "L @ [x]"
  note f = loose_free [of s ?xs "[]", simplified, OF l]
  have nn: "x \<noteq> NULL" "node \<noteq> NULL" using f(3) by auto
  obtain lx where lx: "nodes s x = Some lx" using f(1) by (auto simp: dchain_append)
  note n = f(6)
  have hx: "in_heap (reg (nodes s) x)" and hn: "in_heap (reg (nodes s) node)" using ih by auto
  have pos: "vn_size n \<noteq> 0" using fit n by (auto simp: fits_def reg_at unat_gt_0)
  have ml: "can_merge_left node x s = Some (vn_base lx + vn_size lx = vn_base n)"
    using nn n lx by (simp add: can_merge_left_def hget_nonNULL)
  note tl = touch_iff [OF lx n hx]
  note kb = in_heap_node [OF n hn] in_heap_node [OF lx hx]
  show ?thesis
  proof (cases "vn_base lx + vn_size lx = vn_base n")
    case left: True
    obtain s' where s': "merge_left node x s = Some s'" "put_result s ?xs us fs node s' ?xs [node]"
        "\<forall>y. reg (nodes s') y = reg ((nodes s)(x \<mapsto> lx\<lparr>vn_size := vn_size lx + vn_size n\<rparr>)) y"
      by (rule merge_left_ok [OF l _ lx left pos(1) kb(1)]) simp
    have "unat (vn_size lx + vn_size n) = unat (vn_size lx) + unat (vn_size n)"
      using size_add [of "vn_size lx" "vn_size n"] kb by simp
    then have "put_effect s ?xs node s' ?xs"
      by (intro put_effect_left [of "nodes s" L "unat (vn_base lx)" "unat (vn_size lx)" "unat (vn_base n)" "unat (vn_size n)"])
        (use fit left tl s'(3) lx n f(2) regs_frame [OF s'(3), of L] in \<open>simp_all add: reg_at\<close>)
    then show ?thesis using s' ml left nn by (auto simp: freevmr_join_def)
  next
    case none: False
    obtain s' where s': "freevmr_linkto_left node (last_of ?xs NULL) s = Some s'"
        "put_result s ?xs us fs node s' (?xs @ [node]) []" "\<forall>y. reg (nodes s') y = reg (nodes s) y"
      by (rule link_last [OF l]) simp_all
    have "put_effect s (?xs @ []) node s' (?xs @ node # [])"
      by (rule put_effect_alone) (use fit none tl s'(3) in simp_all)
    then show ?thesis using s' ml none nn by (auto simp: freevmr_join_def)
  qed
qed

lemma join_first:
  assumes l: "loose s (r # R) us fs node n"
    and fit: "fits [] (reg (nodes s) node) (regs s (r # R))"
    and ih: "\<forall>p\<in>set (node # r # R). in_heap (reg (nodes s) p)"
  shows "\<exists>s' xs' ex. freevmr_join NULL node r s = Some s' \<and> put_result s (r # R) us fs node s' xs' ex
    \<and> put_effect s (r # R) node s' xs'"
proof -
  let ?xs = "r # R"
  note f = loose_free [of s ?xs "[]", simplified, OF l]
  have nn: "r \<noteq> NULL" "node \<noteq> NULL" using f(3) by auto
  obtain rn where rn: "nodes s r = Some rn" using f(1) by auto
  note n = f(6)
  have hr: "in_heap (reg (nodes s) r)" and hn: "in_heap (reg (nodes s) node)" using ih by auto
  have pos: "vn_size n \<noteq> 0" using fit n by (auto simp: fits_def reg_at unat_gt_0)
  have mr: "can_merge_right node r s = Some (vn_base n + vn_size n = vn_base rn)"
    using nn n rn by (simp add: can_merge_right_def hget_nonNULL)
  note tr = touch_iff [OF n rn hn]
  note kb = in_heap_node [OF n hn] in_heap_node [OF rn hr]
  show ?thesis
  proof (cases "vn_base n + vn_size n = vn_base rn")
    case right: True
    obtain s' where s': "merge_right node r s = Some s'" "put_result s ?xs us fs node s' ?xs [node]"
        "\<forall>y. reg (nodes s') y = reg ((nodes s)(r \<mapsto> rn\<lparr>vn_base := vn_base n, vn_size := vn_size rn + vn_size n\<rparr>)) y"
      by (rule merge_right_ok [OF l _ rn right pos(1) kb(1)]) simp
    have "unat (vn_size rn + vn_size n) = unat (vn_size n) + unat (vn_size rn)"
      using size_add [of "vn_size rn" "vn_size n"] kb by simp
    then have "put_effect s ([] @ r # R) node s' ([] @ r # R)"
      by (intro put_effect_right [of "nodes s" "[]" "unat (vn_base n)" "unat (vn_size n)" "unat (vn_base rn)" "unat (vn_size rn)"])
        (use fit right tr s'(3) rn n f(2) regs_frame [OF s'(3), of R] in \<open>simp_all add: reg_at\<close>)
    then show ?thesis using s' mr right nn by (auto simp: freevmr_join_def)
  next
    case none: False
    obtain s' where s': "freevmr_linkto_right node (first_of ?xs NULL) s = Some s'"
        "put_result s ?xs us fs node s' (node # ?xs) []" "\<forall>y. reg (nodes s') y = reg (nodes s) y"
      by (rule link_first [OF l]) simp_all
    have "put_effect s ([] @ ?xs) node s' ([] @ node # ?xs)"
      by (rule put_effect_alone) (use fit none tr s'(3) in simp_all)
    then show ?thesis using s' mr none nn by (auto simp: freevmr_join_def)
  qed
qed

lemma join_any:
  assumes l: "loose s (L @ R) us fs node n" and ne: "L @ R \<noteq> []"
    and fit: "fits (regs s L) (reg (nodes s) node) (regs s R)"
    and ih: "\<forall>p\<in>set (node # L @ R). in_heap (reg (nodes s) p)"
  shows "\<exists>s' xs' ex. freevmr_join (last_of L NULL) node (first_of R NULL) s = Some s'
    \<and> put_result s (L @ R) us fs node s' xs' ex \<and> put_effect s (L @ R) node s' xs'"
proof (cases L rule: rev_cases)
  case Nil
  then obtain r R' where R: "R = r # R'" using ne by (cases R) auto
  show ?thesis using join_first [of s r R' us fs node n] l fit ih Nil R by simp
next
  case L: (snoc L' x)
  show ?thesis
  proof (cases R)
    case Nil
    show ?thesis using join_last [of s L' x us fs node n] l fit ih L Nil by simp
  next
    case (Cons r R')
    show ?thesis using join_middle [of s L' x r R' us fs node n] l fit ih L Cons by simp
  qed
qed

text \<open>\<open>freevmr_put\<close> adds the region to the free ones and keeps them sorted and coalesced.\<close>

lemma freevmr_put_ok:
  assumes l: "loose s xs us fs node n" and ok: "regions_ok (regs s xs)" and sz: "vn_size n \<noteq> 0"
    and ih: "\<forall>p\<in>set (node # xs). in_heap (reg (nodes s) p)"
    and dis: "span (reg (nodes s) node) \<inter> covered (regs s xs) = {}"
  obtains s' xs' ex where "freevmr_put node s = Some s'" "put_result s xs us fs node s' xs' ex"
    "put_effect s xs node s' xs'"
proof -
  let ?n = "n\<lparr>vn_prev := NULL, vn_next := NULL\<rparr>"
  let ?s = "s\<lparr>nodes := (nodes s)(node \<mapsto> ?n)\<rparr>"
  note f = loose_free [of s xs "[]", simplified, OF l]
  have rg': "reg ((nodes s)(node \<mapsto> ?n)) y = reg (nodes s) y" for y using f(6) by (simp add: reg_def)
  have rg: "reg (nodes ?s) y = reg (nodes s) y" for y using rg' by simp
  have l': "loose ?s xs us fs node ?n"
    using l f(9) by (auto simp: loose_def three_lists_def free_list_def used_list_def spare_list_def)
  have as: "assert_region node s = Some ()"
    using f(6,7) sz in_heap_node [of "nodes s" node n] ih by (simp add: assert_region_def hget_nonNULL)
  have pos: "0 < snd (reg (nodes s) node)" using f(6) sz by (simp add: reg_at unat_gt_0)
  have bk: "put_result s xs us fs node s' xs' ex" if "put_result ?s xs us fs node s' xs' ex" for s' xs' ex
    using that by (auto simp: put_result_def)
  have eff: "put_effect s xs node s' xs'" if "put_effect ?s xs node s' xs'" for s' xs'
    using that unfolding put_effect_def rg .
  show thesis
  proof (cases "xs = []")
    case True
    let ?s' = "?s\<lparr>freevmr_head := node, freevmr_tail := node\<rparr>"
    have "freevmr_put node s = Some ?s'"
      using as f True by (simp add: freevmr_put_def vupd_ok)
    moreover have "put_result ?s ([] @ []) us fs node (?s\<lparr>freevmr_head := node, freevmr_tail := node, nodes := nodes ?s\<rparr>) ([] @ node # []) []"
      by (rule put_result_alone) (use l' True in auto)
    then have "put_result ?s xs us fs node ?s' [node] []" using True by simp
    moreover have "put_effect ?s xs node ?s' [node]"
      using pos True by (simp add: put_effect_def rg' regions_ok_Cons)
    ultimately show thesis using bk eff that by blast
  next
    case False
    let ?P = "\<lambda>p. fst (reg (nodes ?s) p) < unat (vn_base ?n)"
    let ?L = "takeWhile ?P xs" and ?R = "dropWhile ?P xs"
    have b: "unat (vn_base ?n) = fst (reg (nodes s) node)" using f(6) by (simp add: reg_at)
    have "fits (takeWhile (\<lambda>q. fst q < fst (reg (nodes s) node)) (regs s xs)) (reg (nodes s) node)
        (dropWhile (\<lambda>q. fst q < fst (reg (nodes s) node)) (regs s xs))"
      by (rule fits_split [OF ok pos dis])
    then have fit: "fits (regs ?s ?L) (reg (nodes ?s) node) (regs ?s ?R)"
      unfolding takeWhile_map dropWhile_map o_def rg b .
    have ch: "vchain (nodes ?s) NULL xs NULL" "NULL \<notin> set xs" "freevmr_head ?s = first_of xs NULL" "first_of xs NULL \<noteq> NULL"
      using loose_free [of ?s xs "[]", simplified, OF l'] first_of_nonNULL [OF False] by auto
    have lp: "freevmr_put_loop (vn_base ?n) NULL (first_of xs NULL) (nodes ?s) = Some (last_of ?L NULL, first_of ?R NULL)"
      by (rule freevmr_put_loop_ok [OF ch(1,2)])
    have "\<exists>s' xs' ex. freevmr_join (last_of ?L NULL) node (first_of ?R NULL) ?s = Some s'
        \<and> put_result ?s (?L @ ?R) us fs node s' xs' ex \<and> put_effect ?s (?L @ ?R) node s' xs'"
      by (rule join_any [OF _ _ fit]) (use l' ih False rg' in auto)
    then obtain s' xs' ex where j: "freevmr_join (last_of ?L NULL) node (first_of ?R NULL) ?s = Some s'"
        "put_result ?s xs us fs node s' xs' ex" "put_effect ?s xs node s' xs'"
      unfolding takeWhile_dropWhile_id by blast
    have "freevmr_put node s = Some s'"
      using as f(6,7) ch(3,4) lp j(1) by (simp add: freevmr_put_def vupd_ok hget_nonNULL)
    then show thesis using bk [OF j(2)] eff [OF j(3)] that by blast
  qed
qed

section \<open>Taking a region out of the free list\<close>

lemma freevmr_get_loop_ok:
  assumes "vchain h pr xs NULL" "NULL \<notin> set xs"
  shows "freevmr_get_loop sz (first_of xs NULL) h = Some (first_of (dropWhile (\<lambda>p. snd (reg h p) < unat sz) xs) NULL)"
  using assms
proof (induction xs arbitrary: pr)
  case Nil
  then show ?case by (simp add: freevmr_get_loop.simps)
next
  case (Cons x xs)
  then obtain n where n: "h x = Some n" "vn_next n = first_of xs NULL" "x \<noteq> NULL" "vchain h x xs NULL" by auto
  have "sz \<le> vn_size n \<longleftrightarrow> \<not> snd (reg h x) < unat sz" using n(1) by (auto simp: reg_at word_le_nat_alt)
  with n Cons.IH [OF n(4)] Cons.prems show ?case
    by (simp add: freevmr_get_loop.simps [of sz x] hget_nonNULL)
qed

text \<open>Both neighbours of a node that leaves a list.\<close>

lemma unlink_both:
  assumes "vchain h NULL (L @ x # R) NULL" "distinct (L @ x # R)" "NULL \<notin> set (L @ x # R)"
  obtains h1 h2 where "hupd_if (last_of L NULL) (vn_next_update (\<lambda>_. first_of R NULL)) (h(x \<mapsto> m)) = Some h1"
    "hupd_if (first_of R NULL) (vn_prev_update (\<lambda>_. last_of L NULL)) h1 = Some h2"
    "vchain h2 NULL (L @ R) NULL" "\<forall>y. reg h2 y = reg (h(x \<mapsto> m)) y"
    "\<forall>y. y \<notin> set (L @ R) \<longrightarrow> h2 y = (h(x \<mapsto> m)) y" "h1 x = Some m"
proof -
  let ?h = "h(x \<mapsto> m)"
  have d: "distinct L" "distinct R" "NULL \<notin> set L" "NULL \<notin> set R" "x \<notin> set L" "x \<notin> set R" "set L \<inter> set R = {}"
    using assms(2,3) by auto
  have cl: "vchain ?h NULL L x" and cr: "vchain ?h x R NULL"
    using assms(1) d by (auto simp: dchain_append)
  obtain h1 where h1: "hupd_if (last_of L NULL) (vn_next_update (\<lambda>_. first_of R NULL)) ?h = Some h1"
      "vchain h1 NULL L (first_of R NULL)" "vn.same_payload ?h h1" "\<forall>y. y \<notin> set L \<longrightarrow> h1 y = ?h y"
    using vn.retarget_last [OF cl d(1,3), of "first_of R NULL"] by auto
  have "vchain h1 x R NULL = vchain ?h x R NULL" by (rule dchain_cong) (use h1(4) d in auto)
  with cr have cr1: "vchain h1 x R NULL" by simp
  obtain h2 where h2: "hupd_if (first_of R NULL) (vn_prev_update (\<lambda>_. last_of L NULL)) h1 = Some h2"
      "vchain h2 (last_of L NULL) R NULL" "vn.same_payload h1 h2" "\<forall>y. y \<notin> set R \<longrightarrow> h2 y = h1 y"
    using vn.retarget_first [OF cr1 d(2,4), of "last_of L NULL"] by auto
  have "vchain h2 NULL L (first_of R NULL) = vchain h1 NULL L (first_of R NULL)"
    by (rule dchain_cong) (use h2(4) d in auto)
  then have "vchain h2 NULL (L @ R) NULL" using h1(2) h2(2) by (simp add: dchain_append)
  moreover have "\<forall>y. reg h2 y = reg ?h y" using reg_same [OF h1(3)] reg_same [OF h2(3)] by simp
  ultimately show thesis
    using h1 h2 d by (intro that [of h1 h2]) auto
qed

text \<open>The state after a node has left the free list.\<close>

definition taken :: "vmm \<Rightarrow> ptr list \<Rightarrow> ptr list \<Rightarrow> ptr list \<Rightarrow> ptr list \<Rightarrow> ptr \<Rightarrow> vmm \<Rightarrow> bool" where
  "taken s xs us xs' fs x s' \<longleftrightarrow> (\<exists>n. loose s' xs' us fs x n) \<and> (\<forall>y. reg (nodes s') y = reg (nodes s) y)
     \<and> (\<forall>y. y \<notin> set xs \<longrightarrow> nodes s' y = nodes s y)
     \<and> used_virtual_mmsz s' = used_virtual_mmsz s \<and> vmm_spinlock s' = vmm_spinlock s \<and> vmm_online s' = vmm_online s"

lemma vupd_if_twice:
  "vupd_if p (vn_prev_update (\<lambda>_. v)) s = Some s' \<Longrightarrow> vupd_if p (vn_prev_update (\<lambda>_. v)) s' = Some s'"
  by (auto simp: vupd_if_def vupd_def hupd_def hget_def split: if_splits option.splits)

lemma freevmr_take_ok:
  assumes t: "three_lists s (L @ x # R) us fs"
  obtains s' where "freevmr_take x s = Some s'" "taken s (L @ x # R) us (L @ R) fs x s'"
proof -
  let ?xs = "L @ x # R"
  have c: "vchain (nodes s) NULL ?xs NULL" "distinct ?xs" "NULL \<notin> set ?xs" "freevmr_head s = first_of ?xs NULL"
      "freevmr_tail s = NULL \<or> freevmr_tail s = last_of ?xs NULL"
    using t by (auto simp: three_lists_def free_list_def)
  obtain n where n: "nodes s x = Some n" "vn_prev n = last_of L NULL" "vn_next n = first_of R NULL"
    using dchain_at [OF c(1)] by auto
  let ?n = "n\<lparr>vn_next := NULL, vn_prev := NULL\<rparr>"
  have nn: "x \<noteq> NULL" using c(3) by simp
  obtain h1 h2 where h: "hupd_if (last_of L NULL) (vn_next_update (\<lambda>_. first_of R NULL)) ((nodes s)(x \<mapsto> ?n)) = Some h1"
      "hupd_if (first_of R NULL) (vn_prev_update (\<lambda>_. last_of L NULL)) h1 = Some h2"
      "vchain h2 NULL (L @ R) NULL" "\<forall>y. reg h2 y = reg ((nodes s)(x \<mapsto> ?n)) y"
      "\<forall>y. y \<notin> set (L @ R) \<longrightarrow> h2 y = ((nodes s)(x \<mapsto> ?n)) y" "h1 x = Some ?n"
    by (rule unlink_both [OF c(1-3)])
  let ?hp = "first_of (L @ R) NULL" and ?tp = "if freevmr_tail s = x then NULL else freevmr_tail s"
  let ?s' = "s\<lparr>freevmr_head := ?hp, freevmr_tail := ?tp, nodes := h2\<rparr>"
  have tl: "freevmr_tail s = x \<longrightarrow> R = []"
    using c(2,5) nn last_of_in [of R NULL] by (cases R) (auto split: if_splits)
  have hd: "freevmr_head s = x \<longleftrightarrow> L = []" using c(2,4) by (cases L) auto
  have p0: "L = [] \<longrightarrow> last_of L NULL = NULL" by simp
  have "freevmr_take x s = Some ?s'"
  proof (cases "L = []")
    case True
    have "vupd_if (first_of R NULL) (vn_prev_update (\<lambda>_. NULL)) (s\<lparr>freevmr_head := first_of R NULL, nodes := h1\<rparr>)
        = Some (s\<lparr>freevmr_head := first_of R NULL, nodes := h2\<rparr>)" (is "_ = Some ?t")
      using vupd_if_heap [of "first_of R NULL" "vn_prev_update (\<lambda>_. NULL)" "s\<lparr>freevmr_head := first_of R NULL, nodes := h1\<rparr>" h2]
        h(2) True by simp
    note this vupd_if_twice [OF this]
    then show ?thesis
      using n nn h(1) hd tl True c(4)
      by (auto simp: freevmr_take_def hget_nonNULL vupd_ok Let_def vupd_if_def [of NULL])
  next
    case False
    then show ?thesis
      using n nn h(1,2) hd tl c(4)
        vupd_if_heap [of "last_of L NULL" "vn_next_update (\<lambda>_. first_of R NULL)" "s\<lparr>nodes := (nodes s)(x \<mapsto> ?n)\<rparr>" h1]
        vupd_if_heap [of "first_of R NULL" "vn_prev_update (\<lambda>_. last_of L NULL)" "s\<lparr>nodes := h1\<rparr>" h2]
      by (cases L) (auto simp: freevmr_take_def hget_nonNULL vupd_ok Let_def vupd_if_def [of NULL])
  qed
  moreover have "three_lists ?s' (L @ R) us fs"
  proof (rule three_lists_free [OF t h(3), of _ _ ?xs])
    show "?tp = NULL \<or> ?tp = last_of (L @ R) NULL" using c(5) by (cases R) auto
  qed (use t h(5) in \<open>auto simp: three_lists_def\<close>)
  moreover have "h2 x = Some ?n" using h(5) c(2) by auto
  ultimately show thesis
    using t nn n(1) h(4,5) by (intro that [of ?s']) (auto simp: taken_def loose_def three_lists_def reg_def)
qed
lemma freevmr_get_ok:
  assumes t: "three_lists s xs us fs" and sz: "sz \<noteq> 0" "sz AND PAGEMASK = 0"
  shows "(\<forall>p\<in>set xs. snd (reg (nodes s) p) < unat sz) \<and> freevmr_get sz s = Some (NULL, s) \<or>
    (\<exists>L x R s'. xs = L @ x # R \<and> (\<forall>p\<in>set L. snd (reg (nodes s) p) < unat sz) \<and> unat sz \<le> snd (reg (nodes s) x)
      \<and> x \<noteq> NULL \<and> freevmr_get sz s = Some (x, s') \<and> taken s xs us (L @ R) fs x s')"
proof -
  let ?P = "\<lambda>p. snd (reg (nodes s) p) < unat sz"
  have c: "vchain (nodes s) NULL xs NULL" "NULL \<notin> set xs" "freevmr_head s = first_of xs NULL"
    using t by (auto simp: three_lists_def free_list_def)
  note lp = freevmr_get_loop_ok [OF c(1,2), of sz]
  show ?thesis
  proof (cases "dropWhile ?P xs")
    case Nil
    then have "\<forall>p\<in>set xs. ?P p" by (simp add: dropWhile_eq_Nil_conv)
    moreover have "freevmr_get sz s = Some (NULL, s)" using lp c(3) sz Nil by (simp add: freevmr_get_def)
    ultimately show ?thesis by blast
  next
    case (Cons x R)
    let ?L = "takeWhile ?P xs"
    have xs: "xs = ?L @ x # R" using Cons by (metis takeWhile_dropWhile_id)
    have L: "\<forall>p\<in>set ?L. ?P p" by (auto dest: set_takeWhileD)
    have x: "\<not> ?P x" using Cons by (metis dropWhile_eq_Cons_conv)
    have nn: "x \<noteq> NULL" using c(2) xs by (metis in_set_conv_decomp)
    obtain s' where s': "freevmr_take x s = Some s'" "taken s (?L @ x # R) us (?L @ R) fs x s'"
      using freevmr_take_ok [of s ?L x R us fs] t xs by auto
    have "freevmr_get sz s = Some (x, s')" using lp c(3) sz Cons nn s'(1) by (simp add: freevmr_get_def)
    then show ?thesis using xs L x nn s'(2) by (intro disjI2 exI [of _ ?L] exI [of _ x] exI [of _ R] exI [of _ s']) auto
  qed
qed

lemma freenodes_get_ok:
  assumes "loose s xs us (f # fs) x n"
  obtains s' where "freenodes_get s = Some (f, s')" "loose s' xs us fs x n" "f \<noteq> NULL" "f \<noteq> x"
    "nodes s' = (nodes s)(f \<mapsto> vnode0)" "f \<notin> set (xs @ us @ fs)"
    "used_virtual_mmsz s' = used_virtual_mmsz s" "vmm_spinlock s' = vmm_spinlock s" "vmm_online s' = vmm_online s"
proof -
  have t: "three_lists s xs us (f # fs)" "x \<notin> set (xs @ us @ f # fs)" "x \<noteq> NULL" "nodes s x = Some n"
    using assms by (auto simp: loose_def)
  then obtain m where m: "nodes s f = Some m" "vn_next m = first_of fs NULL" "freenodes_head s = f" "f \<noteq> NULL"
    by (auto simp: three_lists_def spare_list_def)
  let ?s = "s\<lparr>freenodes_head := first_of fs NULL, freenodes_tail := (if fs = [] then NULL else freenodes_tail s), nodes := (nodes s)(f \<mapsto> vnode0)\<rparr>"
  have e: "first_of fs NULL = NULL \<longleftrightarrow> fs = []" using t(1) by (cases fs) (auto simp: three_lists_def)
  have "freenodes_get s = Some (f, ?s)"
    using m e by (auto simp: freenodes_get_def hget_nonNULL Let_def vupd_ok)
  moreover have "last_of (f # fs) NULL = last_of fs NULL \<or> fs = []" by (cases fs) auto
  then have "loose ?s xs us fs x n"
    using t by (auto simp: loose_def three_lists_def free_list_def used_list_def spare_list_def)
  ultimately show thesis using m t by (intro that [of ?s]) (auto simp: three_lists_def)
qed

lemma usedvmr_put_ok:
  assumes l: "loose s xs us fs x n" and n: "vn_size n \<noteq> 0" "KHEAPBASE \<le> vn_base n"
  obtains s' where "usedvmr_put x s = Some s'" "three_lists s' xs (us @ [x]) fs" "\<forall>y. reg (nodes s') y = reg (nodes s) y"
    "used_virtual_mmsz s' = used_virtual_mmsz s" "vmm_spinlock s' = vmm_spinlock s" "vmm_online s' = vmm_online s"
proof -
  have t: "three_lists s xs us fs" "x \<notin> set (xs @ us @ fs)" "x \<noteq> NULL" "nodes s x = Some n"
    using l by (auto simp: loose_def)
  then have u: "vchain (nodes s) NULL us NULL" "usedvmr_head s = first_of us NULL" "usedvmr_tail s = last_of us NULL"
      "distinct us" "NULL \<notin> set us"
    by (auto simp: three_lists_def used_list_def)
  obtain h1 where h1: "hupd_if (last_of us NULL) (vn_next_update (\<lambda>_. x)) (nodes s) = Some h1"
      "vchain h1 NULL us x" "vn.same_payload (nodes s) h1" "\<forall>y. y \<notin> set us \<longrightarrow> h1 y = nodes s y"
    using vn.retarget_last [OF u(1,4,5), of x] by auto
  have hx: "h1 x = Some n" using h1(4) t by simp
  let ?n = "n\<lparr>vn_next := NULL, vn_prev := last_of us NULL\<rparr>"
  let ?h = "h1(x \<mapsto> ?n)"
  let ?s = "s\<lparr>usedvmr_head := first_of (us @ [x]) NULL, usedvmr_tail := x, nodes := ?h\<rparr>"
  have e: "first_of us NULL = NULL \<longleftrightarrow> us = []" using u(5) by (cases us) auto
  have "usedvmr_put x s = Some ?s"
    using t n u hx e h1(1) by (cases us) (auto simp: usedvmr_put_def assert_region_def hget_nonNULL vupd_ok vupd_if_heap Let_def)
  moreover have "vchain ?h NULL (us @ [x]) NULL" using h1(2) t by (simp add: dchain_append)
  moreover have "vchain ?h NULL xs NULL = vchain (nodes s) NULL xs NULL" "schain ?h fs = schain (nodes s) fs"
    using t h1(4) by (intro dchain_cong schain_cong; auto simp: three_lists_def)+
  ultimately show thesis
    using t reg_same [OF h1(3)] hx
    by (intro that [of ?s]) (auto simp: three_lists_def free_list_def used_list_def spare_list_def reg_def)
qed

lemma usedvmr_lookup_loop_ok:
  assumes "vchain h pr us NULL" "NULL \<notin> set us"
  shows "usedvmr_lookup_loop b (first_of us NULL) h = Some (first_of (dropWhile (\<lambda>p. fst (reg h p) \<noteq> unat b) us) NULL)"
  using assms
proof (induction us arbitrary: pr)
  case Nil
  then show ?case by (simp add: usedvmr_lookup_loop.simps)
next
  case (Cons x xs)
  then obtain n where n: "h x = Some n" "vn_next n = first_of xs NULL" "x \<noteq> NULL" "vchain h x xs NULL" by auto
  have "vn_base n = b \<longleftrightarrow> fst (reg h x) = unat b" using n(1) by (auto simp: reg_at unsigned_word_eqI)
  with n Cons.IH [OF n(4)] Cons.prems show ?case
    by (simp add: usedvmr_lookup_loop.simps [of b x] hget_nonNULL)
qed
lemma usedvmr_unlink_ok:
  assumes t: "three_lists s xs (A @ x # B) fs" and b: "b \<noteq> 0"
    and A: "\<forall>p\<in>set A. fst (reg (nodes s) p) \<noteq> unat b" and x: "fst (reg (nodes s) x) = unat b"
  obtains s' n where "usedvmr_lookup b s = Some (x, s')" "loose s' xs (A @ B) fs x n" "x \<noteq> NULL"
    "\<forall>y. reg (nodes s') y = reg (nodes s) y" "used_virtual_mmsz s' = used_virtual_mmsz s"
    "vmm_spinlock s' = vmm_spinlock s" "vmm_online s' = vmm_online s"
proof -
  let ?us = "A @ x # B"
  have c: "vchain (nodes s) NULL ?us NULL" "distinct ?us" "NULL \<notin> set ?us" "usedvmr_head s = first_of ?us NULL"
      "usedvmr_tail s = last_of ?us NULL"
    using t by (auto simp: three_lists_def used_list_def)
  obtain n where n: "nodes s x = Some n" "vn_prev n = last_of A NULL" "vn_next n = first_of B NULL"
    using dchain_at [OF c(1)] by auto
  have nn: "x \<noteq> NULL" using c(3) by simp
  have same: "(nodes s)(x \<mapsto> n) = nodes s" using n(1) by auto
  obtain h1 h2 where h: "hupd_if (last_of A NULL) (vn_next_update (\<lambda>_. first_of B NULL)) ((nodes s)(x \<mapsto> n)) = Some h1"
      "hupd_if (first_of B NULL) (vn_prev_update (\<lambda>_. last_of A NULL)) h1 = Some h2"
      "vchain h2 NULL (A @ B) NULL" "\<forall>y. reg h2 y = reg ((nodes s)(x \<mapsto> n)) y"
      "\<forall>y. y \<notin> set (A @ B) \<longrightarrow> h2 y = ((nodes s)(x \<mapsto> n)) y" "h1 x = Some n"
    by (rule unlink_both [OF c(1-3)])
  have hx: "h2 x = Some n" using h(5) c(2) by auto
  let ?n = "n\<lparr>vn_next := NULL, vn_prev := NULL\<rparr>"
  let ?h = "h2(x \<mapsto> ?n)"
  let ?s = "s\<lparr>usedvmr_head := first_of (A @ B) NULL, usedvmr_tail := last_of (A @ B) NULL, nodes := ?h\<rparr>"
  have dw: "dropWhile (\<lambda>p. fst (reg (nodes s) p) \<noteq> unat b) ?us = x # B"
    using A x by (simp add: dropWhile_append2)
  have hd: "first_of ?us NULL = x \<longleftrightarrow> A = []" using c(2) by (cases A) auto
  have tl: "last_of ?us NULL = x \<longleftrightarrow> B = []" using c(2) last_of_in [of B x] by (cases "B = []") auto
  have hd': "A \<noteq> [] \<longrightarrow> first_of ?us NULL = first_of (A @ B) NULL" by (cases A) auto
  have tl': "B \<noteq> [] \<longrightarrow> last_of ?us NULL = last_of (A @ B) NULL" by (cases B) auto
  have "usedvmr_lookup b s = Some (x, ?s)"
    using usedvmr_lookup_loop_ok [OF c(1,3), of b] dw b c(4,5) n nn hx hd tl hd' tl'
      vupd_if_heap [OF h(1) [unfolded same]] vupd_if_heap [of "first_of B NULL" "vn_prev_update (\<lambda>_. last_of A NULL)" "s\<lparr>nodes := h1\<rparr>" h2] h(2)
    by (auto simp: usedvmr_lookup_def hget_nonNULL vupd_ok Let_def)
  moreover have "vchain ?h NULL xs NULL = vchain (nodes s) NULL xs NULL" "schain ?h fs = schain (nodes s) fs"
    using t h(5) by (intro dchain_cong schain_cong; auto simp: three_lists_def)+
  then have "loose ?s xs (A @ B) fs x ?n"
    using t h(3) nn by (auto simp: loose_def three_lists_def free_list_def used_list_def spare_list_def)
  ultimately show thesis
    using nn h(4) hx n(1) by (intro that [of ?s ?n]) (auto simp: same reg_def)
qed

lemma usedvmr_lookup_none:
  assumes t: "three_lists s xs us fs" and b: "b \<noteq> 0" and A: "\<forall>p\<in>set us. fst (reg (nodes s) p) \<noteq> unat b"
  shows "usedvmr_lookup b s = Some (NULL, s)"
proof -
  have c: "vchain (nodes s) NULL us NULL" "NULL \<notin> set us" "usedvmr_head s = first_of us NULL"
    using t by (auto simp: three_lists_def used_list_def)
  have dw: "dropWhile (\<lambda>p. fst (reg (nodes s) p) \<noteq> unat b) us = []" using A by (simp add: dropWhile_eq_Nil_conv)
  have "usedvmr_lookup_loop b (usedvmr_head s) (nodes s) = Some NULL"
    using usedvmr_lookup_loop_ok [OF c(1,2), of b] unfolding dw c(3) by simp
  then show ?thesis using b by (simp add: usedvmr_lookup_def)
qed
section \<open>The invariant\<close>

definition heap_range :: "nat set" where
  "heap_range = {unat KHEAPBASE..<unat KHEAPBASE + unat KHEAPSZ}"

definition page_aligned :: "region \<Rightarrow> bool" where
  "page_aligned r \<longleftrightarrow> 4096 dvd fst r \<and> 4096 dvd snd r \<and> 0 < snd r"

text \<open>The free and the used regions divide the heap among them, every node of the array is in
  exactly one list, and the count of used bytes is right.\<close>

definition vmm_inv :: "vmm \<Rightarrow> ptr list \<Rightarrow> ptr list \<Rightarrow> ptr list \<Rightarrow> bool" where
  "vmm_inv s xs us fs \<longleftrightarrow> three_lists s xs us fs \<and> regions_ok (regs s xs) \<and> apart (regs s us)
     \<and> covered (regs s xs) \<inter> covered (regs s us) = {} \<and> covered (regs s xs) \<union> covered (regs s us) = heap_range
     \<and> total (regs s xs) + total (regs s us) = unat KHEAPSZ \<and> (\<forall>r\<in>set (regs s (xs @ us)). page_aligned r)
     \<and> unat (used_virtual_mmsz s) = total (regs s us)
     \<and> length xs + length us + length fs = KHEAP_MAX_NODES \<and> vmm_online s"

lemma in_heap_covered:
  assumes "span r \<subseteq> heap_range" "0 < snd r"
  shows "in_heap r"
proof -
  have "fst r \<in> span r" "fst r + snd r - 1 \<in> span r" using assms(2) by (auto simp: span_def)
  then have "fst r \<in> heap_range" "fst r + snd r - 1 \<in> heap_range" using assms(1) by auto
  then show ?thesis by (auto simp: heap_range_def in_heap_def)
qed

lemma vmm_inv_in_heap:
  assumes "vmm_inv s xs us fs" "p \<in> set (xs @ us)"
  shows "in_heap (reg (nodes s) p)"
proof (rule in_heap_covered)
  show "span (reg (nodes s) p) \<subseteq> heap_range" using assms by (auto simp: vmm_inv_def covered_def)
  show "0 < snd (reg (nodes s) p)" using assms by (auto simp: vmm_inv_def page_aligned_def)
qed

lemma aligned_iff: "sz AND PAGEMASK = 0 \<longleftrightarrow> 4096 dvd unat sz"
proof -
  have "PAGEMASK = mask 12" by (simp add: PAGEMASK_def PAGESZ_def mask_eq_exp_minus_1)
  then have "sz AND PAGEMASK = take_bit 12 sz" by (simp add: take_bit_eq_mask)
  moreover have "unat (take_bit 12 sz) = unat sz mod 4096" by (simp add: take_bit_eq_mod unat_mod)
  ultimately show ?thesis by (simp add: dvd_eq_mod_eq_0 flip: unat_eq_0)
qed

lemma total_lower: "\<forall>r\<in>set rs. page_aligned r \<Longrightarrow> 4096 * length rs \<le> total rs"
proof (induction rs)
  case (Cons r rs)
  then have "4096 \<le> snd r" by (auto simp: page_aligned_def dest: dvd_imp_le)
  with Cons show ?case by simp
qed simp

lemma max_nodes: "4096 * KHEAP_MAX_NODES = unat KHEAPSZ"
  by (simp add: KHEAP_MAX_NODES_def KHEAPSZ_def PAGESZ_def)

text \<open>When a region has a page to spare, a node is left: the assertion of \<open>vmm_alloc\<close> holds.\<close>

lemma spare_node:
  assumes "vmm_inv s (L @ x # R) us fs" "n < snd (reg (nodes s) x)" "4096 dvd n" "0 < n"
  shows "fs \<noteq> []"
proof
  assume fs: "fs = []"
  have al: "\<forall>r\<in>set (regs s (L @ x # R)). page_aligned r" "\<forall>r\<in>set (regs s us). page_aligned r"
    using assms(1) by (auto simp: vmm_inv_def)
  have big: "8192 \<le> snd (reg (nodes s) x)"
  proof -
    have "4096 dvd snd (reg (nodes s) x)" using al(1) by (auto simp: page_aligned_def)
    then obtain k j where "snd (reg (nodes s) x) = 4096 * k" "n = 4096 * j" using assms(3) unfolding dvd_def by blast
    then show ?thesis using assms(2,4) by auto
  qed
  have "4096 * length L + (8192 + 4096 * length R) \<le> total (regs s (L @ x # R))"
    using total_lower [of "regs s L"] total_lower [of "regs s R"] al(1) big by simp
  moreover have "4096 * length us \<le> total (regs s us)" using total_lower [OF al(2)] by simp
  moreover have "total (regs s (L @ x # R)) + total (regs s us) = 4096 * (length L + Suc (length R) + length us)"
    using assms(1) fs max_nodes by (simp add: vmm_inv_def)
  ultimately show False by simp
qed
lemma put_result_length:
  assumes "put_result s xs us fs node s' xs' ex" "distinct xs" "node \<notin> set xs"
  shows "length xs' + length ex = Suc (length xs)"
proof -
  have d: "distinct (xs' @ ex)" and e: "set (xs' @ ex) = insert node (set xs)"
    using assms(1) by (auto simp: put_result_def three_lists_def)
  have "length (xs' @ ex) = card (insert node (set xs))" using distinct_card [OF d] e by simp
  then show ?thesis using distinct_card [OF assms(2)] assms(3) by simp
qed

lemma span_cut: "n \<le> z \<Longrightarrow> span (b, z) = span (b, n) \<union> span (b + n, z - n)" "span (b, n) \<inter> span (b + n, z - n) = {}"
  by (auto simp: span_def)

text \<open>The ends of the regions of an ordered list are ends of any regions that cover the same
  addresses, so alignment is a property of the set that is covered.\<close>

lemma regions_base:
  assumes ok: "regions_ok rs" and cov: "covered rs = covered qs" and r: "r \<in> set rs"
  obtains q where "q \<in> set qs" "fst q = fst r"
proof -
  have "fst r \<in> span r" using r ok by (auto simp: span_def regions_ok_def)
  then have "fst r \<in> covered qs" using r unfolding cov [symmetric] by (auto simp: covered_def)
  then obtain q where q: "q \<in> set qs" "fst r \<in> span q" by (auto simp: covered_def)
  have "fst q = fst r"
  proof (rule ccontr)
    assume "fst q \<noteq> fst r"
    then have "fst r - 1 \<in> span q" "fst r - 1 < fst r" using q(2) by (auto simp: span_def)
    then have "fst r - 1 \<in> covered rs" "fst r - 1 < fst r" using q(1) unfolding cov by (auto simp: covered_def)
    then obtain p where p: "p \<in> set rs" "fst r - 1 \<in> span p" "fst r - 1 < fst r" by (auto simp: covered_def)
    then show False using regions_ok_cases [OF ok r p(1)] by (auto simp: span_def below_def)
  qed
  then show thesis using q that by blast
qed

lemma regions_end:
  assumes ok: "regions_ok rs" and cov: "covered rs = covered qs" and r: "r \<in> set rs"
  obtains q where "q \<in> set qs" "fst q + snd q = fst r + snd r"
proof -
  let ?e = "fst r + snd r"
  have pos: "0 < snd r" using ok r by (auto simp: regions_ok_def)
  have "?e - 1 \<in> span r" using pos by (auto simp: span_def)
  then have "?e - 1 \<in> covered qs" using r unfolding cov [symmetric] by (auto simp: covered_def)
  then obtain q where q: "q \<in> set qs" "?e - 1 \<in> span q" by (auto simp: covered_def)
  have "fst q + snd q = ?e"
  proof (rule ccontr)
    assume "fst q + snd q \<noteq> ?e"
    then have "?e \<in> span q" using q(2) pos by (auto simp: span_def)
    then have "?e \<in> covered rs" using q(1) unfolding cov by (auto simp: covered_def)
    then obtain p where p: "p \<in> set rs" "?e \<in> span p" by (auto simp: covered_def)
    then show False using regions_ok_cases [OF ok r p(1)] by (auto simp: span_def below_def)
  qed
  then show thesis using q that by blast
qed

lemma regions_aligned:
  assumes ok: "regions_ok rs" and cov: "covered rs = covered qs" and al: "\<forall>q\<in>set qs. page_aligned q"
  shows "\<forall>r\<in>set rs. page_aligned r"
proof
  fix r assume r: "r \<in> set rs"
  have "4096 dvd fst r" using regions_base [OF ok cov r] al by (metis page_aligned_def)
  moreover have "4096 dvd fst r + snd r"
  proof (rule regions_end [OF ok cov r])
    fix q assume "q \<in> set qs" "fst q + snd q = fst r + snd r"
    then show ?thesis using al by (metis page_aligned_def dvd_add)
  qed
  ultimately have "4096 dvd snd r" by (simp add: dvd_add_right_iff)
  then show "page_aligned r" using \<open>4096 dvd fst r\<close> ok r by (auto simp: page_aligned_def regions_ok_def)
qed

lemma page_aligned_covered:
  assumes "put_effect s xs node s' xs'" "\<forall>r\<in>set (regs s xs). page_aligned r" "page_aligned (reg (nodes s) node)"
    "regions_ok (regs s xs)" "span (reg (nodes s) node) \<inter> covered (regs s xs) = {}"
  shows "\<forall>r\<in>set (regs s' xs'). page_aligned r"
proof -
  have cov: "covered (regs s' xs') = covered (reg (nodes s) node # regs s xs)" and ok: "regions_ok (regs s' xs')"
    using assms(1) by (auto simp: put_effect_def)
  have al: "\<forall>q\<in>set (reg (nodes s) node # regs s xs). page_aligned q" using assms(2,3) by auto
  show ?thesis using regions_aligned [OF ok cov al] .
qed


text \<open>What \<open>vmm_split\<close> achieves: the node handed out has the requested size and the base of the
  region, and what remains is back in the free list.\<close>

definition split_done :: "vmm \<Rightarrow> ptr list \<Rightarrow> ptr list \<Rightarrow> ptr list \<Rightarrow> ptr \<Rightarrow> nat \<Rightarrow> ptr \<Rightarrow> vmm \<Rightarrow> ptr list \<Rightarrow> ptr list \<Rightarrow> bool" where
  "split_done s xs us fs x n node s' xs' fs' \<longleftrightarrow>
     (\<exists>m. loose s' xs' us fs' node m) \<and> reg (nodes s') node = (fst (reg (nodes s) x), n)
     \<and> regions_ok (regs s' xs') \<and> covered (regs s' xs') = covered (regs s xs) - span (fst (reg (nodes s) x), n)
     \<and> total (regs s' xs') + n = total (regs s xs) \<and> regs s' us = regs s us
     \<and> (\<forall>r\<in>set (regs s' xs'). page_aligned r) \<and> Suc (length xs' + length fs') = length xs + length fs
     \<and> used_virtual_mmsz s' = used_virtual_mmsz s \<and> vmm_spinlock s' = vmm_spinlock s \<and> vmm_online s' = vmm_online s"

lemma covered_remove: "regions_ok (L @ r # R) \<Longrightarrow> covered (L @ R) = covered (L @ r # R) - span r"
  using regions_ok_disjoint [of L r R] by auto

lemma split_whole:
  assumes inv: "vmm_inv s (L @ x # R) us fs" and t: "taken s (L @ x # R) us (L @ R) fs x s1"
  shows "split_done s (L @ x # R) us fs x (snd (reg (nodes s) x)) x s1 (L @ R) fs"
proof -
  have ok: "regions_ok (regs s L @ reg (nodes s) x # regs s R)" using inv by (simp add: vmm_inv_def)
  have rg: "regs s1 ys = regs s ys" for ys using t by (simp add: taken_def)
  show ?thesis
    using t regions_ok_remove [OF ok] covered_remove [OF ok] inv
    unfolding split_done_def rg by (auto simp: taken_def vmm_inv_def)
qed
text \<open>The state just before the rest of the region goes back to the free list: \<open>f\<close> is the node
  handed out, \<open>x\<close> the shortened region.\<close>

definition cut :: "vmm \<Rightarrow> ptr list \<Rightarrow> ptr list \<Rightarrow> ptr list \<Rightarrow> ptr \<Rightarrow> nat \<Rightarrow> ptr \<Rightarrow> vmm \<Rightarrow> bool" where
  "cut s xs us fs x n f s3 \<longleftrightarrow>
     (\<exists>m. loose s3 xs us fs x m \<and> vn_size m \<noteq> 0) \<and> (\<exists>k. nodes s3 f = Some k) \<and> f \<noteq> NULL \<and> f \<noteq> x
     \<and> f \<notin> set (xs @ us @ fs) \<and> reg (nodes s3) f = (fst (reg (nodes s) x), n)
     \<and> reg (nodes s3) x = (fst (reg (nodes s) x) + n, snd (reg (nodes s) x) - n)
     \<and> (\<forall>y. y \<noteq> f \<longrightarrow> y \<noteq> x \<longrightarrow> reg (nodes s3) y = reg (nodes s) y)
     \<and> used_virtual_mmsz s3 = used_virtual_mmsz s \<and> vmm_spinlock s3 = vmm_spinlock s \<and> vmm_online s3 = vmm_online s"

lemma split_prepare:
  assumes inv: "vmm_inv s (L @ x # R) us fs" and t: "taken s (L @ x # R) us (L @ R) fs x s1"
    and sz: "unat sz < snd (reg (nodes s) x)" "4096 dvd unat sz" "sz \<noteq> 0"
  obtains f fs' s3 where "fs = f # fs'" "vmm_split x sz s1 = do { s' \<leftarrow> freevmr_put x s3; Some (f, s') }"
    "cut s (L @ R) us fs' x (unat sz) f s3"
proof -
  obtain sp where l: "loose s1 (L @ R) us fs x sp" using t by (auto simp: taken_def)
  then have sp: "nodes s1 x = Some sp" "x \<noteq> NULL" "x \<notin> set (L @ R)" "x \<notin> set us" by (auto simp: loose_def)
  have rg: "reg (nodes s1) y = reg (nodes s) y" for y using t by (simp add: taken_def)
  have rx: "reg (nodes s) x = (unat (vn_base sp), unat (vn_size sp))" using rg [of x] reg_at [of "nodes s1" x sp] sp(1) by simp
  have n0: "0 < unat sz" using sz(3) by (simp add: unat_gt_0)
  obtain f fs' where fs: "fs = f # fs'" using spare_node [OF inv sz(1,2) n0] by (cases fs) auto
  obtain s2 where s2: "freenodes_get s1 = Some (f, s2)" "loose s2 (L @ R) us fs' x sp" "f \<noteq> NULL" "f \<noteq> x"
      "nodes s2 = (nodes s1)(f \<mapsto> vnode0)" "f \<notin> set ((L @ R) @ us @ fs')"
      "used_virtual_mmsz s2 = used_virtual_mmsz s1" "vmm_spinlock s2 = vmm_spinlock s1" "vmm_online s2 = vmm_online s1"
    using freenodes_get_ok [OF l [unfolded fs]] .
  let ?fn = "vnode0\<lparr>vn_base := vn_base sp, vn_size := sz\<rparr>"
  let ?sp = "vn_size_update (\<lambda>z. z - sz) (vn_base_update (\<lambda>b. b + sz) sp)"
  let ?s3 = "s2\<lparr>nodes := (nodes s2)(f \<mapsto> ?fn, x \<mapsto> ?sp)\<rparr>"
  have lt: "unat sz < unat (vn_size sp)" using sz(1) rx by simp
  have "in_heap (unat (vn_base sp), unat (vn_size sp))" using vmm_inv_in_heap [OF inv, of x] rx by simp
  then have "unat (vn_base sp) + unat sz < 2 ^ 64" using lt by (simp add: in_heap_def heap_consts)
  then have u1: "unat (vn_base sp + sz) = unat (vn_base sp) + unat sz" by (simp add: unat_word_ariths)
  have u2: "unat (vn_size sp - sz) = unat (vn_size sp) - unat sz"
    using lt by (intro unat_sub) (simp add: word_le_nat_alt)
  have "f \<notin> set (L @ R)" "f \<notin> set us" "f \<notin> set fs'" using s2(6) by auto
  then have "loose ?s3 (L @ R) us fs' x ?sp"
    using s2(2) sp by (auto simp: loose_def three_lists_def free_list_def used_list_def spare_list_def)
  moreover have "vn_size ?sp \<noteq> 0" using u2 lt by (auto simp: unat_eq_0 [symmetric])
  moreover have "\<forall>y. y \<noteq> f \<longrightarrow> y \<noteq> x \<longrightarrow> reg (nodes ?s3) y = reg (nodes s) y"
    using rg s2(5) by (auto simp: reg_def)
  moreover have "reg (nodes ?s3) f = (unat (vn_base sp), unat sz)"
      "reg (nodes ?s3) x = (unat (vn_base sp) + unat sz, unat (vn_size sp) - unat sz)"
    using s2(4) u1 u2 by (simp_all add: reg_def)
  moreover have "used_virtual_mmsz ?s3 = used_virtual_mmsz s" "vmm_spinlock ?s3 = vmm_spinlock s" "vmm_online ?s3 = vmm_online s"
    using s2(7-9) t by (simp_all add: taken_def)
  moreover have "nodes ?s3 f = Some ?fn" using s2(4) by simp
  ultimately have "cut s (L @ R) us fs' x (unat sz) f ?s3"
    unfolding cut_def rx fst_conv snd_conv using s2(3,4,6) by blast
  moreover have "vmm_split x sz s1 = do { s' \<leftarrow> freevmr_put x ?s3; Some (f, s') }"
    using sp s2(1,3,4,5) lt by (simp add: vmm_split_def hget_nonNULL word_less_nat_alt vupd_ok)
  ultimately show thesis using fs that by blast
qed

lemma cut_regs: "cut s xs us fs x n f s3 \<Longrightarrow> f \<notin> set ys \<Longrightarrow> x \<notin> set ys \<Longrightarrow> regs s3 ys = regs s ys"
  by (rule map_cong [OF refl]) (metis cut_def)

lemma split_finish:
  assumes c: "cut s (L @ R) us fs' x n f s3" and l: "loose s3 (L @ R) us fs' x m"
    and pr: "put_result s3 (L @ R) us fs' x s4 xs' ex" and pe: "put_effect s3 (L @ R) x s4 xs'"
    and r: "reg (nodes s) x = (b, z)" "n < z" and ok: "regions_ok (regs s L @ (b, z) # regs s R)"
    and al: "\<forall>r\<in>set (regs s (L @ x # R)). page_aligned r" "page_aligned (reg (nodes s3) x)"
    and dis: "span (reg (nodes s3) x) \<inter> covered (regs s3 (L @ R)) = {}" and fs: "fs = f # fs'"
  shows "split_done s (L @ x # R) us fs x n f s4 xs' (fs' @ ex)"
proof -
  have xf: "x \<notin> set (L @ R)" "x \<notin> set us" "f \<notin> set (L @ R)" "f \<notin> set us" "f \<notin> set fs'" "f \<noteq> x" "f \<noteq> NULL" "distinct (L @ R)"
    and dj: "set us \<inter> set (L @ R) = {}" "set us \<inter> set fs' = {}"
    using l c by (auto simp: loose_def cut_def three_lists_def)
  have LR: "regs s3 (L @ R) = regs s L @ regs s R" using cut_regs [OF c xf(3,1)] by simp
  have r3: "reg (nodes s3) x = (b + n, z - n)" using c r(1) by (simp add: cut_def)
  have fr: "nodes s4 y = nodes s3 y" if "y \<notin> set (x # (L @ R) @ fs')" for y using pr that by (simp add: put_result_def)
  have f4: "nodes s4 f = nodes s3 f" using fr [of f] xf by auto
  have "\<exists>k. loose s4 xs' us (fs' @ ex) f k"
  proof -
    have "f \<notin> set xs' \<union> set ex" using pr xf by (auto simp: put_result_def)
    then show ?thesis using pr c xf f4 by (auto simp: loose_def put_result_def cut_def)
  qed
  moreover have "reg (nodes s4) f = (b, n)" using c r(1) f4 by (simp add: cut_def reg_def)
  moreover have "covered (regs s4 xs') = covered (regs s (L @ x # R)) - span (b, n)"
  proof -
    have "covered (regs s4 xs') = covered (regs s L @ regs s R) \<union> span (b + n, z - n)"
      using pe unfolding put_effect_def LR r3 by simp
    moreover have "span (b, z) = span (b, n) \<union> span (b + n, z - n)" "span (b, n) \<inter> span (b + n, z - n) = {}"
      using span_cut r(2) less_imp_le by metis+
    moreover have "span (b, z) \<inter> covered (regs s L @ regs s R) = {}" using regions_ok_disjoint [OF ok] .
    ultimately show ?thesis using r(1) by auto
  qed
  moreover have "total (regs s4 xs') + n = total (regs s (L @ x # R))"
    using pe r unfolding put_effect_def LR r3 by simp
  moreover have "regs s4 us = regs s us"
  proof -
    have "nodes s4 y = nodes s3 y" if "y \<in> set us" for y
      by (rule fr) (use that dj xf in auto)
    then have "regs s4 us = regs s3 us" by (simp add: reg_def)
    then show ?thesis using cut_regs [OF c xf(4,2)] by simp
  qed
  moreover have "\<forall>r\<in>set (regs s4 xs'). page_aligned r"
    by (rule page_aligned_covered [OF pe _ al(2) _ dis]) (use al(1) regions_ok_remove [OF ok] in \<open>auto simp: LR simp del: map_append\<close>)
  moreover have "Suc (length xs' + length (fs' @ ex)) = length (L @ x # R) + length fs"
    using put_result_length [OF pr xf(8,1)] fs by simp
  ultimately show ?thesis
    using pr pe c r(1) by (simp add: split_done_def put_effect_def put_result_def cut_def)
qed

lemma split_part:
  assumes inv: "vmm_inv s (L @ x # R) us fs" and t: "taken s (L @ x # R) us (L @ R) fs x s1"
    and sz: "unat sz < snd (reg (nodes s) x)" "4096 dvd unat sz" "sz \<noteq> 0"
  obtains node s' xs' fs' where "vmm_split x sz s1 = Some (node, s')" "node \<noteq> NULL"
    "split_done s (L @ x # R) us fs x (unat sz) node s' xs' fs'"
proof -
  let ?n = "unat sz"
  obtain b z where r: "reg (nodes s) x = (b, z)" by fastforce
  obtain f fs' s3 where p: "fs = f # fs'" "vmm_split x sz s1 = do { s' \<leftarrow> freevmr_put x s3; Some (f, s') }"
      "cut s (L @ R) us fs' x ?n f s3"
    by (rule split_prepare [OF inv t sz])
  then obtain m where m: "loose s3 (L @ R) us fs' x m" "vn_size m \<noteq> 0" by (auto simp: cut_def)
  have xf: "x \<notin> set (L @ R)" "x \<notin> set us" "f \<notin> set (L @ R)" "f \<notin> set us" "f \<notin> set fs'" "f \<noteq> x" "f \<noteq> NULL"
    using m(1) p(3) by (auto simp: loose_def cut_def)
  have LR: "regs s3 (L @ R) = regs s L @ regs s R" using cut_regs [OF p(3) xf(3,1)] by simp
  have r3: "reg (nodes s3) x = (b + ?n, z - ?n)" using p(3) r by (simp add: cut_def)
  have lt: "?n < z" using sz(1) r by simp
  have ok: "regions_ok (regs s L @ (b, z) # regs s R)" using inv r by (simp add: vmm_inv_def)
  note sh = regions_ok_shrink [OF ok lt]
  have dis: "span (reg (nodes s3) x) \<inter> covered (regs s3 (L @ R)) = {}"
    using regions_ok_disjoint [OF sh(1)] unfolding r3 LR .
  have al: "\<forall>r\<in>set (regs s (L @ x # R)). page_aligned r" using inv by (auto simp: vmm_inv_def)
  then have al3: "page_aligned (reg (nodes s3) x)" using sz(2) lt by (simp add: r3 r page_aligned_def)
  have "in_heap (b + ?n, z - ?n)" using vmm_inv_in_heap [OF inv, of x] r lt by (simp add: in_heap_def)
  moreover have "in_heap (reg (nodes s3) p)" if "p \<in> set (L @ R)" for p
    using that vmm_inv_in_heap [OF inv, of p] p(3) xf by (auto simp: cut_def)
  ultimately have ih: "\<forall>p\<in>set (x # L @ R). in_heap (reg (nodes s3) p)" using r3 by auto
  have ok3: "regions_ok (regs s3 (L @ R))" using regions_ok_remove [OF ok] unfolding LR .
  obtain s4 xs' ex where s4: "freevmr_put x s3 = Some s4" "put_result s3 (L @ R) us fs' x s4 xs' ex"
      "put_effect s3 (L @ R) x s4 xs'"
    by (rule freevmr_put_ok [OF m(1) ok3 m(2) ih dis])
  have "split_done s (L @ x # R) us fs x ?n f s4 xs' (fs' @ ex)"
    by (rule split_finish [OF p(3) m(1) s4(2,3) r lt ok al al3 dis p(1)])
  then show thesis using p(2) s4(1) xf(7) that by simp
qed
section \<open>Allocation and release\<close>

lemma three_lists_other [simp]:
  "three_lists (s\<lparr>vmm_spinlock := lk\<rparr>) xs us fs = three_lists s xs us fs"
  "three_lists (s\<lparr>used_virtual_mmsz := m\<rparr>) xs us fs = three_lists s xs us fs"
  "three_lists (s\<lparr>vmm_online := o'\<rparr>) xs us fs = three_lists s xs us fs"
  by (auto simp: three_lists_def free_list_def used_list_def spare_list_def)

lemma vmm_inv_lock [simp]: "vmm_inv (s\<lparr>vmm_spinlock := lk\<rparr>) xs us fs = vmm_inv s xs us fs"
  by (simp add: vmm_inv_def)

lemma alloc_finish:
  assumes inv: "vmm_inv s xs us fs" and x: "x \<in> set xs" and n: "unat sz \<le> snd (reg (nodes s) x)" "4096 dvd unat sz" "sz \<noteq> 0"
    and d: "split_done s xs us fs x (unat sz) node s2 xs' fs'" "node \<noteq> NULL"
  obtains s3 m where "hget (nodes s2) node = Some m" "unat (vn_base m) = fst (reg (nodes s) x)"
    "usedvmr_put node (s2\<lparr>used_virtual_mmsz := used_virtual_mmsz s2 + sz\<rparr>) = Some s3"
    "vmm_inv s3 xs' (us @ [node]) fs'" "regs s3 (us @ [node]) = regs s us @ [(fst (reg (nodes s) x), unat sz)]"
    "vmm_spinlock s3 = vmm_spinlock s"
proof -
  let ?b = "fst (reg (nodes s) x)" and ?s2 = "s2\<lparr>used_virtual_mmsz := used_virtual_mmsz s2 + sz\<rparr>"
  obtain m where l: "loose s2 xs' us fs' node m" using d(1) by (auto simp: split_done_def)
  then have l': "loose ?s2 xs' us fs' node m" by (simp add: loose_def)
  have m: "nodes s2 node = Some m" using l by (simp add: loose_def)
  have rm: "unat (vn_base m) = ?b" "vn_size m = sz"
    using d(1) m by (auto simp: split_done_def reg_def unsigned_word_eqI)
  have sub: "span (?b, unat sz) \<subseteq> span (reg (nodes s) x)" using n(1) by (auto simp: span_def)
  have cx: "span (reg (nodes s) x) \<subseteq> covered (regs s xs)" using x by (auto simp: covered_def)
  have kb: "KHEAPBASE \<le> vn_base m"
    using vmm_inv_in_heap [OF inv, of x] x rm(1) by (simp add: in_heap_def word_le_nat_alt)
  obtain s3 where s3: "usedvmr_put node ?s2 = Some s3" "three_lists s3 xs' (us @ [node]) fs'"
      "\<forall>y. reg (nodes s3) y = reg (nodes ?s2) y" "used_virtual_mmsz s3 = used_virtual_mmsz ?s2"
      "vmm_spinlock s3 = vmm_spinlock ?s2" "vmm_online s3 = vmm_online ?s2"
    by (rule usedvmr_put_ok [OF l']) (use rm n(3) kb in auto)
  have rg: "regs s3 ys = regs s2 ys" for ys using s3(3) by simp
  have ru: "regs s3 (us @ [node]) = regs s us @ [(?b, unat sz)]"
    using d(1) unfolding rg by (simp add: split_done_def)
  have tot: "total (regs s us) + unat sz \<le> unat KHEAPSZ"
    using inv d(1) by (simp add: vmm_inv_def split_done_def)
  then have "unat (used_virtual_mmsz s + sz) = total (regs s us) + unat sz"
    using inv by (simp add: vmm_inv_def unat_word_ariths heap_consts)
  moreover have "page_aligned (?b, unat sz)"
    using inv x n(2,3) by (auto simp: vmm_inv_def page_aligned_def unat_gt_0)
  moreover have "apart (regs s us @ [(?b, unat sz)])"
    using inv sub cx by (auto simp: vmm_inv_def apart_snoc)
  ultimately have "vmm_inv s3 xs' (us @ [node]) fs'"
    unfolding vmm_inv_def ru map_append [of _ xs'] using s3(2,4,6) d(1) inv sub cx
    by (auto simp: vmm_inv_def split_done_def rg)
  then show thesis using that m rm s3(1,5) ru d by (simp add: hget_nonNULL split_done_def)
qed

text \<open>What the allocator promises is said over the list \<open>bs\<close> of its live blocks, oldest first.\<close>

definition vmm_rep :: "vmm \<Rightarrow> region list \<Rightarrow> bool" where
  "vmm_rep s bs \<longleftrightarrow> (\<exists>xs us fs. vmm_inv s xs us fs \<and> regs s us = bs) \<and> lk_free (vmm_spinlock s)"

lemma vmm_rep_unlocked: "vmm_inv s xs us fs \<Longrightarrow> lk_free lk \<Longrightarrow> vmm_rep (s\<lparr>vmm_spinlock := lk\<rparr>) (regs s us)"
  unfolding vmm_rep_def by (intro conjI exI [of _ xs] exI [of _ us] exI [of _ fs]) simp_all

lemma gap_iff: "vmm_inv s xs us fs \<Longrightarrow> gap heap_range (regs s us) a n \<longleftrightarrow> {a..<a + n} \<subseteq> covered (regs s xs)"
  by (auto simp: gap_def vmm_inv_def)

lemma alloc_split:
  assumes inv: "vmm_inv s (L @ x # R) us fs" and t: "taken s (L @ x # R) us (L @ R) fs x s1" and nn: "x \<noteq> NULL"
    and sz: "unat sz \<le> snd (reg (nodes s) x)" "4096 dvd unat sz" "sz \<noteq> 0"
  obtains node s' xs' fs' where "vmm_split x sz s1 = Some (node, s')" "node \<noteq> NULL"
    "split_done s (L @ x # R) us fs x (unat sz) node s' xs' fs'"
proof (cases "unat sz = snd (reg (nodes s) x)")
  case True
  obtain n where n: "nodes s1 x = Some n" "reg (nodes s1) x = reg (nodes s) x"
    using t by (auto simp: taken_def loose_def)
  then have "vn_size n = sz" using True by (metis reg_at snd_conv unsigned_word_eqI)
  then have "vmm_split x sz s1 = Some (x, s1)" using n(1) nn by (simp add: vmm_split_def hget_nonNULL)
  with split_whole [OF inv t] nn True show ?thesis by (auto intro: that)
next
  case False
  then show ?thesis using split_part [OF inv t _ sz(2,3)] sz(1) that by auto
qed

lemma vmm_alloc_ok:
  assumes r: "vmm_rep s bs" and sz: "sz \<noteq> 0" "4096 dvd unat sz"
  shows "\<exists>a s'. vmm_alloc me sz s = Some (a, s') \<and>
    (a = 0 \<and> vmm_rep s' bs \<and> (\<forall>c. \<not> gap heap_range bs c (unat sz)) \<or>
     a \<noteq> 0 \<and> vmm_rep s' (bs @ [(unat a, unat sz)]) \<and> gap heap_range bs (unat a) (unat sz) \<and> (\<forall>c. gap heap_range bs c (unat sz) \<longrightarrow> unat a \<le> c))"
proof -
  obtain xs us fs where inv: "vmm_inv s xs us fs" and bs: "regs s us = bs" using r by (auto simp: vmm_rep_def)
  obtain l1 l2 where lk: "lk_acquire me (vmm_spinlock s) = Some l1" "lk_held me l1" "lk_release me l1 = Some l2" "lk_free l2"
    using lk_acquire_release r vmm_rep_def by metis
  let ?s = "s\<lparr>vmm_spinlock := l1\<rparr>"
  have inv': "vmm_inv ?s xs us fs" using inv by simp
  have on: "vmm_online s" and t: "three_lists ?s xs us fs" and ok: "regions_ok (regs s xs)"
    using inv inv' by (auto simp: vmm_inv_def)
  have n0: "0 < unat sz" using sz(1) by (simp add: unat_gt_0)
  have al: "sz AND PAGEMASK = 0" using sz(2) by (simp add: aligned_iff)
  note g = gap_iff [OF inv, unfolded bs]
  from freevmr_get_ok [OF t sz(1) al]
  consider (full) "\<forall>p\<in>set xs. snd (reg (nodes s) p) < unat sz" "freevmr_get sz ?s = Some (NULL, ?s)" |
    (found) L x R s1 where "xs = L @ x # R" "\<forall>p\<in>set L. snd (reg (nodes s) p) < unat sz" "unat sz \<le> snd (reg (nodes s) x)"
      "x \<noteq> NULL" "freevmr_get sz ?s = Some (x, s1)" "taken ?s xs us (L @ R) fs x s1"
    by auto
  then show ?thesis
  proof cases
    case full
    have "\<not> gap heap_range bs c (unat sz)" for c using no_fit [OF ok _ n0] full(1) by (auto simp: g)
    with full lk on vmm_rep_unlocked [OF inv lk(4)] bs show ?thesis
      by (simp add: vmm_alloc_def vmm_lock_def vmm_unlock_def)
  next
    case found
    have le: "unat sz \<le> snd (reg (nodes ?s) x)" using found(3) by simp
    obtain node s2 xs' fs' where s2: "vmm_split x sz s1 = Some (node, s2)" "node \<noteq> NULL"
        "split_done ?s (L @ x # R) us fs x (unat sz) node s2 xs' fs'"
      by (rule alloc_split [OF _ _ found(4) le sz(2,1)]) (use inv' found in auto)
    obtain s3 m where s3: "hget (nodes s2) node = Some m" "unat (vn_base m) = fst (reg (nodes s) x)"
        "usedvmr_put node (s2\<lparr>used_virtual_mmsz := used_virtual_mmsz s2 + sz\<rparr>) = Some s3"
        "vmm_inv s3 xs' (us @ [node]) fs'" "regs s3 (us @ [node]) = bs @ [(fst (reg (nodes s) x), unat sz)]"
        "vmm_spinlock s3 = l1"
      by (rule alloc_finish [OF inv' _ le sz(2,1) _ s2(2)]) (use s2 found(1) bs in auto)
    let ?s4 = "s3\<lparr>vmm_spinlock := l2\<rparr>"
    have ev: "vmm_alloc me sz s = Some (vn_base m, ?s4)"
      using on lk found(4,5) s2 s3 by (simp add: vmm_alloc_def vmm_lock_def vmm_unlock_def)
    have rep: "vmm_rep ?s4 (bs @ [(unat (vn_base m), unat sz)])"
      using vmm_rep_unlocked [OF s3(4) lk(4)] s3(2,5) by simp
    have "in_heap (reg (nodes s) x)" using vmm_inv_in_heap [OF inv, of x] found(1) by simp
    then have "vn_base m \<noteq> 0" using s3(2) by (auto simp: in_heap_def heap_consts)
    moreover have "gap heap_range bs (unat (vn_base m)) (unat sz)"
      unfolding g s3(2) found(1) using found(3) by (auto simp: span_def)
    moreover have "unat (vn_base m) \<le> c" if "gap heap_range bs c (unat sz)" for c
      unfolding s3(2) by (rule first_fit_lowest [OF _ _ n0]) (use ok found that in \<open>auto simp: g\<close>)
    ultimately show ?thesis using ev rep by auto
  qed
qed

lemma vmm_free_finish:
  assumes inv: "vmm_inv s xs (A @ x # B) fs"
    and l: "loose s1 xs (A @ B) fs x n" and rg1: "\<forall>y. reg (nodes s1) y = reg (nodes s) y"
    and e: "used_virtual_mmsz s1 = used_virtual_mmsz s - vn_size n" "vmm_online s1 = vmm_online s" "vmm_spinlock s1 = lk"
  obtains s2 xs' ex where "freevmr_put x s1 = Some s2" "vmm_inv s2 xs' (A @ B) (fs @ ex)"
    "regs s2 (A @ B) = regs s (A @ B)" "vmm_spinlock s2 = lk"
proof -
  have rg: "regs s1 ys = regs s ys" for ys using rg1 by simp
  have pa: "\<forall>r\<in>set (regs s (xs @ A @ x # B)). page_aligned r" using inv by (simp add: vmm_inv_def)
  have "nodes s1 x = Some n" using l by (simp add: loose_def)
  then have n2: "unat (vn_size n) = snd (reg (nodes s) x)" using rg1 reg_at by (metis snd_conv)
  moreover have px: "page_aligned (reg (nodes s) x)" using pa by simp
  ultimately have n1: "vn_size n \<noteq> 0" by (auto simp: page_aligned_def)
  obtain s2 xs' ex where s2: "freevmr_put x s1 = Some s2" "put_result s1 xs (A @ B) fs x s2 xs' ex" "put_effect s1 xs x s2 xs'"
  proof (rule freevmr_put_ok [OF l _ n1])
    show "regions_ok (regs s1 xs)" unfolding rg using inv by (simp add: vmm_inv_def)
    show "\<forall>p\<in>set (x # xs). in_heap (reg (nodes s1) p)" using vmm_inv_in_heap [OF inv] rg1 by auto
    show "span (reg (nodes s1) x) \<inter> covered (regs s1 xs) = {}" unfolding rg rg1 [rule_format] using inv by (auto simp: vmm_inv_def)
  qed
  have dis: "span (reg (nodes s) x) \<inter> covered (regs s xs) = {}" using inv by (auto simp: vmm_inv_def)
  have "nodes s2 y = nodes s1 y" if "y \<in> set (A @ B)" for y
    using s2(2) l that by (auto simp: put_result_def loose_def three_lists_def)
  then have "reg (nodes s2) y = reg (nodes s) y" if "y \<in> set (A @ B)" for y
    using rg1 that by (simp add: reg_def)
  then have r2: "regs s2 (A @ B) = regs s (A @ B)" by simp
  have ap: "apart (regs s (A @ B))" "span (reg (nodes s) x) \<inter> covered (regs s (A @ B)) = {}"
    using apart_middle [of "regs s A" "reg (nodes s) x" "regs s B"] inv by (auto simp: vmm_inv_def)
  have cov: "covered (regs s2 xs') = covered (regs s xs) \<union> span (reg (nodes s) x)" 
    and tot: "total (regs s2 xs') = total (regs s xs) + snd (reg (nodes s) x)" and ok: "regions_ok (regs s2 xs')"
    using s2(3) unfolding put_effect_def rg rg1 [rule_format] by auto
  have al: "\<forall>r\<in>set (regs s2 xs'). page_aligned r"
    by (rule page_aligned_covered [OF s2(3)]) (use pa px dis inv in \<open>auto simp: vmm_inv_def rg rg1 simp del: map_eq_conv\<close>)
  have len: "length xs' + length ex = Suc (length xs)"
    using put_result_length [OF s2(2)] l by (simp add: loose_def three_lists_def)
  have used: "unat (used_virtual_mmsz s - vn_size n) = total (regs s (A @ B))"
    using inv n2 by (simp add: vmm_inv_def unat_sub_if')
  have "vmm_inv s2 xs' (A @ B) (fs @ ex)"
    unfolding vmm_inv_def map_append [of _ xs'] r2
    using s2(2) ok cov tot al len used ap inv pa e by (auto simp: vmm_inv_def put_result_def)
  then show thesis using that s2(1,2) r2 e by (simp add: put_result_def)
qed

lemma vmm_free_ok:
  assumes r: "vmm_rep s (A @ (unat b, n) # B)"
  shows "\<exists>s'. vmm_free me b s = Some s' \<and> vmm_rep s' (A @ B)"
proof -
  obtain xs us fs where inv: "vmm_inv s xs us fs" and bs: "regs s us = A @ (unat b, n) # B"
    using r by (auto simp: vmm_rep_def)
  obtain us1 x us2 where us: "us = us1 @ x # us2" "regs s us1 = A" "reg (nodes s) x = (unat b, n)" "regs s us2 = B"
    using bs by (auto simp: map_eq_append_conv map_eq_Cons_conv)
  obtain l1 l2 where lk: "lk_acquire me (vmm_spinlock s) = Some l1" "lk_held me l1" "lk_release me l1 = Some l2" "lk_free l2"
    using lk_acquire_release r vmm_rep_def by metis
  let ?s = "s\<lparr>vmm_spinlock := l1\<rparr>"
  have inv': "vmm_inv ?s xs (us1 @ x # us2) fs" using inv us(1) by simp
  have ap: "apart (A @ (unat b, n) # B)" and pa: "\<forall>q\<in>set (A @ (unat b, n) # B). page_aligned q"
    using inv bs by (auto simp: vmm_inv_def)
  have "in_heap (reg (nodes s) x)" using vmm_inv_in_heap [OF inv, of x] us(1) by simp
  then have b0: "b \<noteq> 0" using us(3) by (auto simp: in_heap_def heap_consts)
  have "\<forall>q\<in>set A. fst q \<noteq> unat b" using apart_bases [OF ap] pa by (auto simp: page_aligned_def)
  then have nb: "\<forall>p\<in>set us1. fst (reg (nodes ?s) p) \<noteq> unat b" using us(2) by auto
  have t: "three_lists ?s xs (us1 @ x # us2) fs" using inv' by (simp add: vmm_inv_def)
  obtain s1 m where s1: "usedvmr_lookup b ?s = Some (x, s1)" "loose s1 xs (us1 @ us2) fs x m" "x \<noteq> NULL"
      "\<forall>y. reg (nodes s1) y = reg (nodes ?s) y" "used_virtual_mmsz s1 = used_virtual_mmsz ?s"
      "vmm_spinlock s1 = vmm_spinlock ?s" "vmm_online s1 = vmm_online ?s"
    using usedvmr_unlink_ok [OF t b0 nb] us(3) by auto
  let ?s1 = "s1\<lparr>used_virtual_mmsz := used_virtual_mmsz s1 - vn_size m\<rparr>"
  have "loose ?s1 xs (us1 @ us2) fs x m" using s1(2) by (simp add: loose_def)
  then obtain s2 xs' ex where s2: "freevmr_put x ?s1 = Some s2" "vmm_inv s2 xs' (us1 @ us2) (fs @ ex)"
      "regs s2 (us1 @ us2) = regs ?s (us1 @ us2)" "vmm_spinlock s2 = l1"
    by (rule vmm_free_finish [OF inv']) (use s1 in auto)
  have "hget (nodes s1) x = Some m" using s1(2,3) by (simp add: loose_def hget_nonNULL)
  then have "vmm_free me b s = Some (s2\<lparr>vmm_spinlock := l2\<rparr>)"
    using lk b0 s1(1,3) s2(1,4) by (simp add: vmm_free_def vmm_lock_def vmm_unlock_def)
  moreover have "vmm_rep (s2\<lparr>vmm_spinlock := l2\<rparr>) (A @ B)"
    using vmm_rep_unlocked [OF s2(2) lk(4)] us(2,4) unfolding s2(3) by simp
  ultimately show ?thesis by blast
qed

lemma vmm_free_unknown:
  assumes r: "vmm_rep s bs" and b: "unat b \<notin> fst ` set bs"
  shows "vmm_free me b s = None"
proof (cases "b = 0")
  case False
  obtain xs us fs where inv: "vmm_inv s xs us fs" and bs: "regs s us = bs" using r by (auto simp: vmm_rep_def)
  obtain l1 where lk: "lk_acquire me (vmm_spinlock s) = Some l1"
    using lk_acquire_free r by (auto simp: vmm_rep_def)
  have "three_lists (s\<lparr>vmm_spinlock := l1\<rparr>) xs us fs" using inv by (simp add: vmm_inv_def)
  from usedvmr_lookup_none [OF this False] have "usedvmr_lookup b (s\<lparr>vmm_spinlock := l1\<rparr>) = Some (NULL, s\<lparr>vmm_spinlock := l1\<rparr>)"
    using b bs by force
  then show ?thesis using lk False by (simp add: vmm_free_def vmm_lock_def)
qed (simp add: vmm_free_def)

section \<open>Initialisation\<close>

lemma vmm_init_loop_at:
  "i < k \<Longrightarrow> \<exists>n. vmm_init_loop k h (node_ptr i) = Some n \<and> vn_next n = node_ptr (Suc i)"
  by (induction k) (auto simp: node_ptr_def less_Suc_eq)

lemma vmm_init_loop_above: "k \<le> i \<Longrightarrow> vmm_init_loop k h (node_ptr i) = h (node_ptr i)"
  by (induction k) (auto simp: node_ptr_def)

lemma schain_upt:
  assumes "\<And>i. a \<le> i \<Longrightarrow> i < b \<Longrightarrow> \<exists>n. h (node_ptr i) = Some n \<and> vn_next n = (if Suc i = b then NULL else node_ptr (Suc i))"
  shows "schain h (map node_ptr [a..<b])"
  using assms
proof (induction "b - a" arbitrary: a)
  case (Suc d)
  then have ab: "a < b" and IH: "schain h (map node_ptr [Suc a..<b])" by auto
  have "first_of (map node_ptr [Suc a..<b]) NULL = (if Suc a = b then NULL else node_ptr (Suc a))"
    using ab by (simp add: upt_rec [of "Suc a"])
  then show ?case using IH Suc.prems [of a] ab by (simp add: upt_rec [of a])
qed simp

text \<open>The state the kernel image starts with: all the static pointers are null.\<close>

definition vmm_boot :: "vmm \<Rightarrow> bool" where
  "vmm_boot s \<longleftrightarrow> \<not> vmm_online s \<and> used_virtual_mmsz s = 0 \<and> usedvmr_head s = NULL \<and> usedvmr_tail s = NULL
     \<and> freevmr_head s = NULL \<and> freevmr_tail s = NULL \<and> lk_free (vmm_spinlock s)"

lemma many_nodes: "2 < KHEAP_MAX_NODES"
  using max_nodes by (simp add: heap_consts)

lemma vmm_init_nodes:
  assumes "s1 = s\<lparr>nodes := vmm_init_loop (KHEAP_MAX_NODES - 1)
      (\<lambda>p. if node_ptr 0 \<le> p \<and> p < node_ptr KHEAP_MAX_NODES then Some vnode0 else nodes s p)\<rparr>"
  obtains s2 s3 s4 where "vupd (node_ptr 0) (vn_prev_update (\<lambda>_. NULL)) s1 = Some s2"
    "vupd (node_ptr (KHEAP_MAX_NODES - 1)) (vn_next_update (\<lambda>_. NULL)) s2 = Some s3"
    "vupd (node_ptr (KHEAP_MAX_NODES - 1)) (vn_prev_update (\<lambda>_. node_ptr (KHEAP_MAX_NODES - 1 - 1))) s3 = Some s4"
    "schain (nodes s4) (map node_ptr [0..<KHEAP_MAX_NODES])" "s4 = s\<lparr>nodes := nodes s4\<rparr>"
proof -
  let ?k = "KHEAP_MAX_NODES - 1"
  have N: "0 < ?k" using many_nodes by simp
  obtain n0 where n0: "nodes s1 (node_ptr 0) = Some n0" "vn_next n0 = node_ptr (Suc 0)"
    using vmm_init_loop_at [OF N] assms by auto
  have nk: "nodes s1 (node_ptr ?k) = Some vnode0"
    using vmm_init_loop_above [of ?k ?k] N assms by (simp add: node_ptr_def)
  let ?n0 = "n0\<lparr>vn_prev := NULL\<rparr>" and ?nk = "vnode0\<lparr>vn_next := NULL, vn_prev := node_ptr (?k - 1)\<rparr>"
  let ?h = "(nodes s1)(node_ptr 0 \<mapsto> ?n0, node_ptr ?k \<mapsto> ?nk)"
  have ne: "node_ptr 0 \<noteq> node_ptr ?k" "node_ptr i \<noteq> NULL" for i using N by (simp_all add: node_ptr_def)
  show thesis
  proof (rule that)
    show "vupd (node_ptr 0) (vn_prev_update (\<lambda>_. NULL)) s1 = Some (s1\<lparr>nodes := (nodes s1)(node_ptr 0 \<mapsto> ?n0)\<rparr>)"
      using n0(1) ne(2) by (simp add: vupd_def hupd_def hget_nonNULL)
    show "vupd (node_ptr ?k) (vn_next_update (\<lambda>_. NULL)) (s1\<lparr>nodes := (nodes s1)(node_ptr 0 \<mapsto> ?n0)\<rparr>) =
        Some (s1\<lparr>nodes := (nodes s1)(node_ptr 0 \<mapsto> ?n0, node_ptr ?k \<mapsto> vnode0\<lparr>vn_next := NULL\<rparr>)\<rparr>)"
      using nk ne by (simp add: vupd_def hupd_def hget_nonNULL)
    show "vupd (node_ptr ?k) (vn_prev_update (\<lambda>_. node_ptr (?k - 1)))
        (s1\<lparr>nodes := (nodes s1)(node_ptr 0 \<mapsto> ?n0, node_ptr ?k \<mapsto> vnode0\<lparr>vn_next := NULL\<rparr>)\<rparr>) = Some (s1\<lparr>nodes := ?h\<rparr>)"
      using ne(2) by (simp add: vupd_def hupd_def hget_nonNULL)
    show "schain (nodes (s1\<lparr>nodes := ?h\<rparr>)) (map node_ptr [0..<KHEAP_MAX_NODES])"
    proof (rule schain_upt)
      fix i assume i: "i < KHEAP_MAX_NODES"
      then consider "i = 0" | "0 < i" "i < ?k" | "i = ?k" by linarith
      then show "\<exists>n. nodes (s1\<lparr>nodes := ?h\<rparr>) (node_ptr i) = Some n
          \<and> vn_next n = (if Suc i = KHEAP_MAX_NODES then NULL else node_ptr (Suc i))"
      proof cases
        case 2
        then show ?thesis using vmm_init_loop_at [of i ?k] assms by (auto simp: node_ptr_def)
      qed (use n0 ne N in \<open>auto simp: node_ptr_def\<close>)
    qed
  qed (simp add: assms)
qed

lemma vmm_first_region:
  assumes b: "vmm_boot s" and l: "loose s [] [] fs x n" and n: "vn_base n = KHEAPBASE" "vn_size n = KHEAPSZ"
    and len: "Suc (length fs) = KHEAP_MAX_NODES"
  obtains s' where "freevmr_put x s = Some s'" "vmm_rep (s'\<lparr>vmm_online := True\<rparr>) []"
proof -
  have rx: "reg (nodes s) x = (unat KHEAPBASE, unat KHEAPSZ)" using l n by (simp add: loose_def reg_def)
  obtain s' xs' ex where s': "freevmr_put x s = Some s'" "put_result s [] [] fs x s' xs' ex" "put_effect s [] x s' xs'"
    by (rule freevmr_put_ok [OF l]) (use n rx in \<open>auto simp: in_heap_def heap_consts KHEAPSZ_def\<close>)
  have "\<forall>r\<in>set (regs s' xs'). page_aligned r"
    by (rule page_aligned_covered [OF s'(3)]) (use rx in \<open>auto simp: page_aligned_def heap_consts\<close>)
  moreover have "length xs' + length ex = 1" using put_result_length [OF s'(2)] by simp
  moreover have "covered (regs s' xs') = heap_range" "total (regs s' xs') = unat KHEAPSZ"
    using s'(3) rx by (simp_all add: put_effect_def span_def heap_range_def)
  ultimately have "vmm_inv (s'\<lparr>vmm_online := True\<rparr>) xs' [] (fs @ ex)"
    using s'(2,3) b len by (auto simp: vmm_inv_def put_result_def put_effect_def vmm_boot_def apart_def)
  moreover have "lk_free (vmm_spinlock s')" using s'(2) b by (simp add: put_result_def vmm_boot_def)
  ultimately show thesis using that s'(1) unfolding vmm_rep_def by fastforce
qed

lemma vmm_init_ok:
  assumes b: "vmm_boot s"
  shows "\<exists>s'. vmm_init s = Some (0, s') \<and> vmm_rep s' []"
proof -
  let ?k = "KHEAP_MAX_NODES - 1"
  let ?s1 = "s\<lparr>nodes := vmm_init_loop (KHEAP_MAX_NODES - 1)
      (\<lambda>p. if node_ptr 0 \<le> p \<and> p < node_ptr KHEAP_MAX_NODES then Some vnode0 else nodes s p)\<rparr>"
  obtain s2 s3 s4 where u: "vupd (node_ptr 0) (vn_prev_update (\<lambda>_. NULL)) ?s1 = Some s2"
      "vupd (node_ptr ?k) (vn_next_update (\<lambda>_. NULL)) s2 = Some s3"
      "vupd (node_ptr ?k) (vn_prev_update (\<lambda>_. node_ptr (?k - 1))) s3 = Some s4"
      "schain (nodes s4) (map node_ptr [0..<KHEAP_MAX_NODES])" "s4 = s\<lparr>nodes := nodes s4\<rparr>"
    by (rule vmm_init_nodes [OF refl])
  let ?fs = "map node_ptr [1..<KHEAP_MAX_NODES]" and ?n = "vnode0\<lparr>vn_base := KHEAPBASE, vn_size := KHEAPSZ\<rparr>"
  have up: "[0..<KHEAP_MAX_NODES] = 0 # 1 # [2..<KHEAP_MAX_NODES]" using many_nodes by (simp add: upt_conv_Cons numeral_2_eq_2)
  obtain m where m: "nodes s4 (node_ptr 0) = Some m" "vn_next m = node_ptr 1" 
    using u(4) unfolding up by auto
  have fs0: "schain (nodes s4) ?fs" "node_ptr 0 \<notin> set ?fs" "distinct ?fs" "NULL \<notin> set ?fs"
    using u(4) many_nodes by (auto simp: node_ptr_def distinct_map inj_on_def upt_rec [of 0])
  let ?s5 = "s4\<lparr>freenodes_head := node_ptr 1, freenodes_tail := node_ptr ?k, nodes := (nodes s4)(node_ptr 0 \<mapsto> vnode0)\<rparr>"
  have get: "freenodes_get (s4\<lparr>freenodes_head := node_ptr 0, freenodes_tail := node_ptr ?k\<rparr>) = Some (node_ptr 0, ?s5)"
    using m by (simp add: freenodes_get_def vupd_def hupd_def hget_nonNULL node_ptr_def)
  let ?s6 = "?s5\<lparr>nodes := (nodes s4)(node_ptr 0 \<mapsto> ?n)\<rparr>"
  have put: "vupd (node_ptr 0) (\<lambda>_. ?n) ?s5 = Some ?s6"
    by (simp add: vupd_def hupd_def hget_nonNULL node_ptr_def)
  have s4: "freevmr_head s4 = NULL" "freevmr_tail s4 = NULL" "usedvmr_head s4 = NULL" "usedvmr_tail s4 = NULL" "vmm_boot s4"
    using b by (subst u(5); simp add: vmm_boot_def)+
  have boot: "vmm_boot ?s6" using s4(5) by (simp add: vmm_boot_def)
  have up1: "[1..<KHEAP_MAX_NODES] = [1..<?k] @ [?k]"
    using many_nodes upt_Suc_append [of 1 ?k] by simp
  have ends: "first_of ?fs NULL = node_ptr 1" using many_nodes by (simp add: upt_conv_Cons)
  have ends': "last_of ?fs NULL = node_ptr ?k" unfolding up1 by simp
  have l: "loose ?s6 [] [] ?fs (node_ptr 0) ?n"
    using s4 fs0 ends ends' by (simp add: loose_def three_lists_def free_list_def used_list_def spare_list_def node_ptr_def)
  obtain s7 where s7: "freevmr_put (node_ptr 0) ?s6 = Some s7" "vmm_rep (s7\<lparr>vmm_online := True\<rparr>) []"
    by (rule vmm_first_region [OF boot l]) (use many_nodes in simp_all)
  have "vmm_init s = Some (0, s7\<lparr>vmm_online := True\<rparr>)"
    unfolding vmm_init_def Let_def using u(1-3) get put s7(1) by simp
  then show ?thesis using s7(2) by blast
qed

section \<open>The contract\<close>

definition vmm_good :: "nat \<Rightarrow> bool" where
  "vmm_good n \<longleftrightarrow> 0 < n \<and> 4096 dvd n \<and> n < 2 ^ 64"

definition vmm_request :: "ctx \<Rightarrow> nat \<Rightarrow> vmm \<Rightarrow> (nat option \<times> vmm) option" where
  "vmm_request me n s = do {
     (a, s) \<leftarrow> vmm_alloc me (of_nat n) s;
     Some (if a = 0 then None else Some (unat a), s)
   }"

definition vmm_release :: "ctx \<Rightarrow> nat \<Rightarrow> vmm \<Rightarrow> vmm option" where
  "vmm_release me a s = vmm_free me (of_nat a) s"

lemma vmm_good_word: "vmm_good n \<Longrightarrow> unat (of_nat n :: u64) = n \<and> (of_nat n :: u64) \<noteq> 0 \<and> 4096 dvd unat (of_nat n :: u64)"
  by (auto simp: vmm_good_def unat_of_nat unat_gt_0 simp flip: unat_gt_0)

lemma in_heap_word: "a \<in> heap_range \<Longrightarrow> unat (of_nat a :: u64) = a"
  by (simp add: heap_range_def heap_consts unat_of_nat)

lemma vmm_rep_sound:
  assumes "vmm_rep s bs"
  shows "apart bs" "covered bs \<subseteq> heap_range" "\<forall>r\<in>set bs. page_aligned r" "\<forall>r\<in>set bs. vmm_good (snd r)"
    "unat (used_virtual_mmsz s) = total bs" "total bs \<le> unat KHEAPSZ"
proof -
  obtain xs us fs where inv: "vmm_inv s xs us fs" and bs: "regs s us = bs" using assms by (auto simp: vmm_rep_def)
  show "apart bs" "covered bs \<subseteq> heap_range" and pa: "\<forall>r\<in>set bs. page_aligned r" and "unat (used_virtual_mmsz s) = total bs"
    and tot: "total bs \<le> unat KHEAPSZ"
    using inv bs by (auto simp: vmm_inv_def)
  show "\<forall>r\<in>set bs. vmm_good (snd r)"
  proof
    fix r assume r: "r \<in> set bs"
    then have "snd r \<le> total bs" by (simp add: total_def member_le_sum_list)
    then show "vmm_good (snd r)" using pa r tot by (auto simp: vmm_good_def page_aligned_def heap_consts)
  qed
qed

lemma vmm_rep_base:
  assumes "vmm_rep s bs" "(a, n) \<in> set bs"
  shows "unat (of_nat a :: u64) = a"
proof -
  have "a \<in> span (a, n)" using vmm_rep_sound(3) [OF assms(1)] assms(2) by (auto simp: page_aligned_def span_def)
  then have "a \<in> heap_range" using vmm_rep_sound(2) [OF assms(1)] assms(2) by (auto simp: covered_def)
  then show ?thesis by (rule in_heap_word)
qed

interpretation vmm_blocks: region_allocator heap_range vmm_good vmm_rep "vmm_request me" "vmm_release me" for me
proof
  fix s bs n
  assume r: "vmm_rep s bs" and n: "vmm_good n"
  note w = vmm_good_word [OF n]
  obtain a s' where "vmm_alloc me (of_nat n) s = Some (a, s')"
      "a = 0 \<and> vmm_rep s' bs \<and> (\<forall>c. \<not> gap heap_range bs c n) \<or>
       a \<noteq> 0 \<and> vmm_rep s' (bs @ [(unat a, n)]) \<and> gap heap_range bs (unat a) n \<and> (\<forall>c. gap heap_range bs c n \<longrightarrow> unat a \<le> c)"
    using vmm_alloc_ok [OF r, of "of_nat n" me] w by auto
  then show "\<exists>r s'. vmm_request me n s = Some (r, s') \<and>
      (case r of None \<Rightarrow> vmm_rep s' bs \<and> (\<forall>c. \<not> gap heap_range bs c n)
       | Some a \<Rightarrow> vmm_rep s' (bs @ [(a, n)]) \<and> gap heap_range bs a n \<and> (\<forall>c. gap heap_range bs c n \<longrightarrow> a \<le> c))"
    by (auto simp: vmm_request_def)
next
  fix s A a n B
  assume r: "vmm_rep s (A @ (a, n) # B)"
  have "unat (of_nat a :: u64) = a" by (rule vmm_rep_base [OF r, of a n]) simp
  with r vmm_free_ok [of s A "of_nat a" n B me] show "\<exists>s'. vmm_release me a s = Some s' \<and> vmm_rep s' (A @ B)"
    by (simp add: vmm_release_def)
qed (use vmm_rep_sound in blast)

lemma vmm_counts:
  assumes "vmm_rep s bs"
  shows "\<exists>f s1 u s2. vmm_getfreesize me s = Some (f, s1) \<and> vmm_getinuse me s = Some (u, s2) \<and> vmm_rep s1 bs \<and> vmm_rep s2 bs
    \<and> unat u = total bs div 1024 \<and> unat f + unat u = unat KHEAPSZ div 1024"
proof -
  obtain xs us fs where inv: "vmm_inv s xs us fs" and bs: "regs s us = bs" using assms by (auto simp: vmm_rep_def)
  obtain l1 l2 where lk: "lk_acquire me (vmm_spinlock s) = Some l1" "lk_held me l1" "lk_release me l1 = Some l2" "lk_free l2"
    using lk_acquire_release assms vmm_rep_def by metis
  have t: "unat (used_virtual_mmsz s) = total bs" "total bs \<le> unat KHEAPSZ" "1024 dvd total bs"
  proof -
    have "1024 dvd total rs" if "\<forall>r\<in>set rs. page_aligned r" for rs
      using that
    proof (induction rs)
      case (Cons r rs)
      then have "4096 dvd snd r" by (simp add: page_aligned_def)
      then have "1024 dvd snd r" by (rule dvd_trans [rotated]) simp
      then show ?case using Cons by simp
    qed simp
    then show "1024 dvd total bs" using vmm_rep_sound(3) [OF assms] by simp
  qed (use vmm_rep_sound [OF assms] in auto)
  have "unat (KHEAPSZ - used_virtual_mmsz s) = unat KHEAPSZ - total bs"
    using t by (simp add: unat_sub word_le_nat_alt)
  then have "unat ((KHEAPSZ - used_virtual_mmsz s) div 1024) + unat (used_virtual_mmsz s div 1024) = unat KHEAPSZ div 1024"
    using t by (auto simp: unat_div heap_consts elim!: dvdE)
  moreover have "vmm_rep (s\<lparr>vmm_spinlock := l2\<rparr>) bs" using vmm_rep_unlocked [OF inv lk(4)] bs by simp
  ultimately show ?thesis
    using lk t(1) by (simp add: vmm_getfreesize_def vmm_getinuse_def vmm_lock_def vmm_unlock_def unat_div Let_def)
qed

section \<open>Properties\<close>

definition vmm_start :: vmm where
  "vmm_start = \<lparr>vmm_online = False, used_virtual_mmsz = 0, vmm_spinlock = SPINLOCK_INIT, usedvmr_head = NULL,
     usedvmr_tail = NULL, freevmr_head = NULL, freevmr_tail = NULL, freenodes_head = NULL, freenodes_tail = NULL,
     nodes = (\<lambda>_. None)\<rparr>"

lemma vmm_start_boot: "vmm_boot vmm_start"
  by (simp add: vmm_boot_def vmm_start_def)

definition vmm_ready :: vmm where
  "vmm_ready = snd (the (vmm_init vmm_start))"

lemma vmm_ready_rep: "vmm_init vmm_start = Some (0, vmm_ready) \<and> vmm_rep vmm_ready []"
  using vmm_init_ok [OF vmm_start_boot] by (auto simp: vmm_ready_def)

lemma vmm_one_block: "\<exists>s. vmm_rep s [(unat KHEAPBASE, 4096)]"
proof -
  have g: "gap heap_range [] (unat KHEAPBASE) 4096" by (auto simp: gap_def heap_range_def heap_consts)
  have lo: "unat KHEAPBASE \<le> c" if "gap heap_range [] c 4096" for c using that by (auto simp: gap_def heap_range_def)
  have "\<exists>(a::u64) s. vmm_rep s [(unat a, 4096)] \<and> gap heap_range [] (unat a) 4096 \<and> (\<forall>c. gap heap_range [] c 4096 \<longrightarrow> unat a \<le> c)"
    using vmm_alloc_ok [of vmm_ready "[]" 4096 "\<lparr>self_tid = 1, self_cpu = 0\<rparr>"] vmm_ready_rep g by auto
  then obtain a :: u64 and s where s: "vmm_rep s [(unat a, 4096)]" "gap heap_range [] (unat a) 4096"
      "\<forall>c. gap heap_range [] c 4096 \<longrightarrow> unat a \<le> c" by blast
  then have "unat a \<le> unat KHEAPBASE" using g by blast
  then show ?thesis using lo [of "unat a"] s by (metis le_antisym)
qed

text \<open>C10: \<open>vmm_alloc\<close> is an exact first fit. On any consistent state with live blocks \<open>bs\<close> and any
  non-zero page-aligned size it returns without panicking: it returns 0 and changes no block when no
  gap of the kernel heap is large enough, and otherwise the lowest address at which the size fits,
  which is then a live block.\<close>

theorem vmm_alloc_first_fit:
  assumes "vmm_rep s bs" "sz \<noteq> 0" "4096 dvd unat sz"
  shows "\<exists>a s'. vmm_alloc me sz s = Some (a, s') \<and>
    (a = 0 \<and> vmm_rep s' bs \<and> (\<forall>c. \<not> gap heap_range bs c (unat sz)) \<or>
     a \<noteq> 0 \<and> vmm_rep s' (bs @ [(unat a, unat sz)]) \<and> gap heap_range bs (unat a) (unat sz)
       \<and> (\<forall>c. gap heap_range bs c (unat sz) \<longrightarrow> unat a \<le> c))"
  using vmm_alloc_ok [OF assms] .

theorem vmm_alloc_first_fit_witness:
  "\<exists>s'. vmm_alloc \<lparr>self_tid = 1, self_cpu = 0\<rparr> 8192 vmm_ready = Some (KHEAPBASE, s') \<and> vmm_rep s' [(unat KHEAPBASE, 8192)]"
proof -
  have g: "gap heap_range [] (unat KHEAPBASE) 8192" by (auto simp: gap_def heap_range_def heap_consts)
  have lo: "unat KHEAPBASE \<le> c" if "gap heap_range [] c 8192" for c using that by (auto simp: gap_def heap_range_def)
  obtain a s' where "vmm_alloc \<lparr>self_tid = 1, self_cpu = 0\<rparr> 8192 vmm_ready = Some (a, s')" "vmm_rep s' [(unat a, 8192)]"
      "gap heap_range [] (unat a) 8192" "unat a \<le> unat KHEAPBASE"
    using vmm_alloc_first_fit [of vmm_ready "[]" 8192 "\<lparr>self_tid = 1, self_cpu = 0\<rparr>"] vmm_ready_rep g by auto
  moreover from this have "a = KHEAPBASE" using lo [of "unat a"] by (simp add: word_unat_eq_iff)
  ultimately show ?thesis by auto
qed

text \<open>C25: \<open>vmm_free\<close> gives back exactly the block whose base it is passed, leaves the others as they are,
  and merges it with the free neighbours; an address that is not the base of a live block (a double
  free, an interior pointer) ends in the panic of \<open>usedvmr_lookup\<close>'s caller.\<close>

theorem vmm_free_exact:
  assumes "vmm_rep s bs"
  shows "(unat b \<notin> fst ` set bs \<longrightarrow> vmm_free me b s = None) \<and>
    (\<forall>A n B. bs = A @ (unat b, n) # B \<longrightarrow> (\<exists>s'. vmm_free me b s = Some s' \<and> vmm_rep s' (A @ B)))"
  using vmm_free_ok vmm_free_unknown assms by blast

theorem vmm_free_exact_witness:
  "\<exists>s s'. vmm_rep s [(unat KHEAPBASE, 4096)] \<and> vmm_free \<lparr>self_tid = 1, self_cpu = 0\<rparr> (KHEAPBASE + 8) s = None
     \<and> vmm_free \<lparr>self_tid = 1, self_cpu = 0\<rparr> KHEAPBASE s = Some s' \<and> vmm_rep s' []"
proof -
  obtain s where r: "vmm_rep s [(unat KHEAPBASE, 4096)]" using vmm_one_block by blast
  have "vmm_free \<lparr>self_tid = 1, self_cpu = 0\<rparr> (KHEAPBASE + 8) s = None"
    using vmm_free_exact [OF r, of "KHEAPBASE + 8"] by (simp add: KHEAPBASE_def)
  then show ?thesis using vmm_free_exact [OF r, of KHEAPBASE] r by force
qed

text \<open>C3: from the boot state, \<open>vmm_init\<close> succeeds and then no sequence of allocations of page-aligned
  sizes and releases of held blocks makes the manager panic; the blocks held at the end are pairwise
  disjoint, page-aligned and inside the kernel heap, and \<open>vmm_getinuse\<close> and \<open>vmm_getfreesize\<close> report
  their size and the rest of the heap, in KiB.\<close>

theorem vmm_heap_safe:
  assumes "vmm_boot s" "\<forall>n. Request n \<in> set rs \<longrightarrow> vmm_good n"
  shows "\<exists>s0 bs s'. vmm_init s = Some (0, s0) \<and> run_areqs (vmm_request me) (vmm_release me) rs ([], s0) = Some (bs, s')
    \<and> apart bs \<and> covered bs \<subseteq> heap_range \<and> (\<forall>r\<in>set bs. page_aligned r)
    \<and> (\<exists>f s1 u s2. vmm_getfreesize me s' = Some (f, s1) \<and> vmm_getinuse me s' = Some (u, s2)
         \<and> unat u = total bs div 1024 \<and> unat f + unat u = unat KHEAPSZ div 1024)"
proof -
  obtain s0 where s0: "vmm_init s = Some (0, s0)" "vmm_rep s0 []" using vmm_init_ok [OF assms(1)] by blast
  obtain bs s' where "run_areqs (vmm_request me) (vmm_release me) rs ([], s0) = Some (bs, s')" and r: "vmm_rep s' bs"
    using vmm_blocks.run_areqs_ok [OF s0(2) assms(2)] by blast
  with s0(1) vmm_rep_sound(1-3) [OF r] vmm_counts [OF r, of me] show ?thesis by blast
qed

theorem vmm_heap_safe_witness:
  "\<exists>bs s'. run_areqs (vmm_request \<lparr>self_tid = 1, self_cpu = 0\<rparr>) (vmm_release \<lparr>self_tid = 1, self_cpu = 0\<rparr>)
     [Request 4096, Request 8192, Release 0, Request 4096] ([], vmm_ready) = Some (bs, s') \<and> apart bs"
proof -
  have "\<forall>n. Request n \<in> set [Request 4096, Request 8192, Release 0, Request 4096] \<longrightarrow> vmm_good n"
    by (auto simp: vmm_good_def)
  from vmm_heap_safe [OF vmm_start_boot this] show ?thesis using vmm_ready_rep by fastforce
qed

text \<open>C26: nothing is lost by giving a block back: the very next allocation of its size succeeds, at its
  address or at a lower one.\<close>

theorem vmm_free_then_alloc:
  assumes "vmm_rep s (A @ (a, n) # B)"
  shows "\<exists>s1 b s2. vmm_release me a s = Some s1 \<and> vmm_request me n s1 = Some (Some b, s2) \<and> b \<le> a
    \<and> vmm_rep s2 (A @ B @ [(b, n)])"
  by (rule vmm_blocks.realloc_released [OF assms, of me]) blast

theorem vmm_free_then_alloc_witness:
  "\<exists>s a s1 b s2. vmm_rep s [(a, 4096)] \<and> vmm_release \<lparr>self_tid = 1, self_cpu = 0\<rparr> a s = Some s1
     \<and> vmm_request \<lparr>self_tid = 1, self_cpu = 0\<rparr> 4096 s1 = Some (Some b, s2) \<and> b \<le> a \<and> vmm_rep s2 [(b, 4096)]"
proof -
  obtain s where s: "vmm_rep s ([] @ (unat KHEAPBASE, 4096) # [])" using vmm_one_block by auto
  from vmm_free_then_alloc [OF this] s show ?thesis by fastforce
qed

end
