(* ===== verification/Mmap.thy ===== *)
theory Mmap
  imports Spinlock Regions
begin

unbundle bit_operations_syntax

text \<open>
  User address spaces (\<open>mm/mmap.c\<close>, \<open>include/mm/mmap.h\<close>). An address space keeps its memory
  regions in a doubly linked list sorted by address; the regions and the address spaces are
  objects of two typed heaps. The bounds of a region are both part of it, and addresses are
  64-bit words that wrap around.

  The routines of the paging layer that this code calls are not modelled: the calls are
  recorded in \<open>pg_log\<close>, and the results of those that may fail are the next elements of
  \<open>pg_ret\<close> (success when the list is used up). Where a C function takes the address of a
  variable for a second result, the definition has a boolean that is \<open>False\<close> when the caller
  passes NULL, and returns the value stored there beside the function's own result.
\<close>

section \<open>State\<close>

record vmr =
  v_refs :: int
  v_flags :: u32
  v_vflags :: u32
  v_priv :: ptr
  v_file :: ptr
  v_filesz :: u64
  v_memsz :: u64
  v_file_pos :: u64
  v_mmap :: ptr
  v_vmops :: ptr
  v_paddr :: u64
  v_start :: u64
  v_end :: u64
  v_prev :: ptr
  v_next :: ptr

definition vmr0 :: vmr where
  "vmr0 = \<lparr>v_refs = 0, v_flags = 0, v_vflags = 0, v_priv = NULL, v_file = NULL, v_filesz = 0, v_memsz = 0,
     v_file_pos = 0, v_mmap = NULL, v_vmops = NULL, v_paddr = 0, v_start = 0, v_end = 0, v_prev = NULL, v_next = NULL\<rparr>"

record mmap =
  m_flags :: u32
  m_refs :: int
  m_priv :: ptr
  m_arg :: ptr
  m_env :: ptr
  m_heap :: ptr
  m_brk :: u64
  m_pgdir :: u64
  m_limit :: u64
  m_guard_len :: u64
  m_used_space :: u64
  vmr_head :: ptr
  vmr_tail :: ptr
  m_lock :: spinlock

text \<open>The calls of the paging layer and of the page allocator.\<close>

datatype pg_call =
    Pg_unmap u64 u64        \<comment> \<open>\<open>arch_unmap_n\<close>: address and size\<close>
  | Pg_protect u64 u64 u32  \<comment> \<open>\<open>arch_mprotect\<close>: address, size and flags\<close>
  | Pg_fullvm_unmap u64
  | Pg_lazycpy u64 u64      \<comment> \<open>destination and source directory\<close>
  | Pg_putpgdir u64
  | Pg_free u64             \<comment> \<open>\<open>pmman.free\<close>\<close>
  | Pg_swtchvm u64

record mm =
  vmrs :: "vmr heap"
  maps :: "mmap heap"
  mm_mem :: "ptr list"            \<comment> \<open>the answers \<open>kmalloc\<close> is going to give\<close>
  pg_log :: "pg_call list"
  pg_ret :: "int list"
  pg_dirs :: "(int \<times> u64) list"  \<comment> \<open>the answers of \<open>arch_getpgdir\<close>\<close>

definition mm_used :: "mm \<Rightarrow> ptr \<Rightarrow> bool" where
  "mm_used s p \<longleftrightarrow> vmrs s p \<noteq> None \<or> maps s p \<noteq> None"

definition rupd :: "ptr \<Rightarrow> (vmr \<Rightarrow> vmr) \<Rightarrow> mm \<Rightarrow> mm option" where
  "rupd p f s = do { h \<leftarrow> hupd p f (vmrs s); Some (s\<lparr>vmrs := h\<rparr>) }"

definition mupd :: "ptr \<Rightarrow> (mmap \<Rightarrow> mmap) \<Rightarrow> mm \<Rightarrow> mm option" where
  "mupd p f s = do { h \<leftarrow> hupd p f (maps s); Some (s\<lparr>maps := h\<rparr>) }"

definition pg_do :: "pg_call \<Rightarrow> mm \<Rightarrow> mm" where
  "pg_do c s = s\<lparr>pg_log := pg_log s @ [c]\<rparr>"

definition pg_try :: "pg_call \<Rightarrow> mm \<Rightarrow> int \<times> mm" where
  "pg_try c s = (case pg_ret s of [] \<Rightarrow> (0, pg_do c s) | e # es \<Rightarrow> (e, (pg_do c s)\<lparr>pg_ret := es\<rparr>))"

text \<open>The macros of the header.\<close>

definition mmap_limit :: u64 where "mmap_limit = 0x800000000000 - 1"

definition isaligned :: "u64 \<Rightarrow> bool" where "isaligned p \<longleftrightarrow> p AND PAGEMASK = 0"

definition vmr_size :: "vmr \<Rightarrow> u64" where "vmr_size r = (v_end r - v_start r) + 1"

definition upper_bound :: "vmr \<Rightarrow> u64" where "upper_bound r = v_end r + 1"

definition lower_bound :: "vmr \<Rightarrow> u64" where "lower_bound r = v_start r - 1"

definition valid_addr :: "u64 \<Rightarrow> bool" where "valid_addr a \<longleftrightarrow> a \<le> mmap_limit"

definition MMAP_USER :: u32 where "MMAP_USER = 1"

definition MAP_PRIVATE :: u32 where "MAP_PRIVATE = 0x0001"
definition MAP_SHARED :: u32 where "MAP_SHARED = 0x0002"
definition MAP_DONTEXPAND :: u32 where "MAP_DONTEXPAND = 0x0004"
definition MAP_ZERO :: u32 where "MAP_ZERO = 0x0010"
definition MAP_STACK :: u32 where "MAP_STACK = 0x0100"
definition MAP_FIXED :: u32 where "MAP_FIXED = 0x1000"

definition PROT_READ :: u32 where "PROT_READ = 0x0001"
definition PROT_WRITE :: u32 where "PROT_WRITE = 0x0002"
definition PROT_EXEC :: u32 where "PROT_EXEC = 0x0004"

definition VM_EXEC :: u32 where "VM_EXEC = 0x0001"
definition VM_WRITE :: u32 where "VM_WRITE = 0x0002"
definition VM_READ :: u32 where "VM_READ = 0x0004"
definition VM_ZERO :: u32 where "VM_ZERO = 0x0008"
definition VM_SHARED :: u32 where "VM_SHARED = 0x0010"
definition VM_GROWSDOWN :: u32 where "VM_GROWSDOWN = 0x0100"
definition VM_DONTEXPAND :: u32 where "VM_DONTEXPAND = 0x0200"

definition PTE_P :: u32 where "PTE_P = 1"
definition PTE_W :: u32 where "PTE_W = 2"
definition PTE_U :: u32 where "PTE_U = 4"
definition PTE_R :: u32 where "PTE_R = PTE_P"
definition PTE_X :: u32 where "PTE_X = PTE_P"

text \<open>The test macros, \<open>__flags_fixed(flags)\<close>, \<open>__prot_read(prot)\<close>, \<open>__vmr_read(r)\<close> and so on, all
  test one flag, and \<open>c ? F : 0\<close> chooses one.\<close>

definition has :: "u32 \<Rightarrow> u32 \<Rightarrow> bool" where "has flags f \<longleftrightarrow> flags AND f \<noteq> 0"

definition flag_if :: "bool \<Rightarrow> u32 \<Rightarrow> u32" where "flag_if c f = (if c then f else 0)"

definition growsdown :: "vmr \<Rightarrow> bool" where "growsdown r \<longleftrightarrow> has (v_flags r) VM_GROWSDOWN"

text \<open>\<open>mmap_assert_locked\<close>, \<open>mmap_lock\<close> and \<open>mmap_unlock\<close>.\<close>

definition mmap_assert_locked :: "ctx \<Rightarrow> ptr \<Rightarrow> mm \<Rightarrow> unit option" where
  "mmap_assert_locked me m s = do { mp \<leftarrow> hget (maps s) m; lk_assert me (m_lock mp) }"

definition mmap_lock :: "ctx \<Rightarrow> ptr \<Rightarrow> mm \<Rightarrow> mm option" where
  "mmap_lock me m s = do {
     mp \<leftarrow> hget (maps s) m;
     lk \<leftarrow> lk_acquire me (m_lock mp);
     mupd m (m_lock_update (\<lambda>_. lk)) s
   }"

definition mmap_unlock :: "ctx \<Rightarrow> ptr \<Rightarrow> mm \<Rightarrow> mm option" where
  "mmap_unlock me m s = do {
     mp \<leftarrow> hget (maps s) m;
     lk \<leftarrow> lk_release me (m_lock mp);
     mupd m (m_lock_update (\<lambda>_. lk)) s
   }"

section \<open>Memory regions\<close>

definition vmr_free :: "ptr \<Rightarrow> mm \<Rightarrow> mm option" where
  "vmr_free r s =
     (if r = NULL then Some s
      else do {
        v \<leftarrow> hget (vmrs s) r;
        if v_refs v \<le> 0 then do { h \<leftarrow> kfree r (vmrs s); Some (s\<lparr>vmrs := h\<rparr>) } else Some s
      })"

definition vmr_alloc :: "mm \<Rightarrow> int \<times> ptr \<times> mm" where
  "vmr_alloc s =
     (let (r, ps) = kmalloc (mm_used s) (mm_mem s); s = s\<lparr>mm_mem := ps\<rparr> in
      if r = NULL then (- ENOMEM, NULL, s) else (0, r, s\<lparr>vmrs := (vmrs s)(r \<mapsto> vmr0)\<rparr>))"

definition vmr_can_split :: "ptr \<Rightarrow> u64 \<Rightarrow> mm \<Rightarrow> bool option" where
  "vmr_can_split r addr s =
     (if r = NULL then Some False
      else do { v \<leftarrow> hget (vmrs s) r; Some (v_start v < addr \<and> addr < v_end v) })"

definition vmr_copy :: "ptr \<Rightarrow> ptr \<Rightarrow> mm \<Rightarrow> (int \<times> mm) option" where
  "vmr_copy rdst rsrc s =
     (if rdst = NULL \<or> rsrc = NULL then Some (- EINVAL, s)
      else do {
        d \<leftarrow> hget (vmrs s) rdst;
        v \<leftarrow> hget (vmrs s) rsrc;
        if v_mmap d \<noteq> NULL \<and> v_mmap d = v_mmap v then Some (- EINVAL, s)
        else do {
          s \<leftarrow> rupd rdst (\<lambda>_. v) s;
          s \<leftarrow> rupd rdst (v_refs_update (\<lambda>_. 0)) s;
          s \<leftarrow> rupd rdst (v_mmap_update (\<lambda>_. NULL)) s;
          s \<leftarrow> rupd rdst (v_priv_update (\<lambda>_. NULL)) s;
          s \<leftarrow> rupd rdst (v_prev_update (\<lambda>_. NULL)) s;
          s \<leftarrow> rupd rdst (v_next_update (\<lambda>_. NULL)) s;
          Some (0, s)
        }
      })"

definition vmr_clone :: "ptr \<Rightarrow> bool \<Rightarrow> mm \<Rightarrow> (int \<times> ptr \<times> mm) option" where
  "vmr_clone src pclone s =
     (if src = NULL \<or> \<not> pclone then Some (- EINVAL, NULL, s)
      else case vmr_alloc s of (err, clone, s) \<Rightarrow>
        if err \<noteq> 0 then Some (err, NULL, s)
        else do {
          (err, s) \<leftarrow> vmr_copy clone src s;
          if err \<noteq> 0 then do { s \<leftarrow> vmr_free clone s; Some (err, NULL, s) } else Some (0, clone, s)
        })"

section \<open>Searching\<close>

text \<open>The macro \<open>forlinked\<close> with a body that returns the element when a condition holds; NULL when
  the loop runs out.\<close>

partial_function (option) forlinked :: "(vmr \<Rightarrow> ptr) \<Rightarrow> (ptr \<Rightarrow> vmr \<Rightarrow> bool) \<Rightarrow> ptr \<Rightarrow> vmr heap \<Rightarrow> ptr option" where
  "forlinked iter c tmp h =
     (if tmp = NULL then Some NULL
      else do {
        r \<leftarrow> hget h tmp;
        if c tmp r then Some tmp else forlinked iter c (iter r) h
      })"

definition mmap_contains :: "ctx \<Rightarrow> ptr \<Rightarrow> ptr \<Rightarrow> mm \<Rightarrow> int option" where
  "mmap_contains me m r s =
     (if m = NULL \<or> r = NULL then Some (- EINVAL)
      else do {
        mmap_assert_locked me m s;
        mp \<leftarrow> hget (maps s) m;
        t \<leftarrow> forlinked v_next (\<lambda>tmp _. tmp = r) (vmr_head mp) (vmrs s);
        Some (if t \<noteq> NULL then 1 else 0)
      })"

definition mmap_find :: "ctx \<Rightarrow> ptr \<Rightarrow> u64 \<Rightarrow> mm \<Rightarrow> ptr option" where
  "mmap_find me m addr s =
     (if m = NULL then Some NULL
      else do {
        mmap_assert_locked me m s;
        mp \<leftarrow> hget (maps s) m;
        forlinked v_next (\<lambda>_ r. v_start r \<le> addr \<and> addr \<le> v_end r) (vmr_head mp) (vmrs s)
      })"

definition mmap_find_exact :: "ctx \<Rightarrow> ptr \<Rightarrow> u64 \<Rightarrow> u64 \<Rightarrow> mm \<Rightarrow> ptr option" where
  "mmap_find_exact me m start e s =
     (if m = NULL then Some NULL
      else do {
        mmap_assert_locked me m s;
        r \<leftarrow> mmap_find me m start s;
        if r = NULL then Some NULL
        else do {
          v \<leftarrow> hget (vmrs s) r;
          Some (if start \<noteq> v_start v \<or> e \<noteq> v_end v then NULL else r)
        }
      })"

text \<open>Results: the region that contains the address, and its neighbour.\<close>

definition mmap_find_vmr_next :: "ctx \<Rightarrow> ptr \<Rightarrow> u64 \<Rightarrow> bool \<Rightarrow> mm \<Rightarrow> (ptr \<times> ptr) option" where
  "mmap_find_vmr_next me m addr pnext s =
     (if m = NULL \<or> \<not> pnext then Some (NULL, NULL)
      else do {
        mmap_assert_locked me m s;
        mp \<leftarrow> hget (maps s) m;
        r \<leftarrow> mmap_find me m addr s;
        if r \<noteq> NULL then do { v \<leftarrow> hget (vmrs s) r; Some (r, v_next v) }
        else do {
          t \<leftarrow> forlinked v_next (\<lambda>_ r. addr < v_start r) (vmr_head mp) (vmrs s);
          Some (NULL, t)
        }
      })"

definition mmap_find_vmr_prev :: "ctx \<Rightarrow> ptr \<Rightarrow> u64 \<Rightarrow> bool \<Rightarrow> mm \<Rightarrow> (ptr \<times> ptr) option" where
  "mmap_find_vmr_prev me m addr pprev s =
     (if m = NULL \<or> \<not> pprev then Some (NULL, NULL)
      else do {
        mmap_assert_locked me m s;
        mp \<leftarrow> hget (maps s) m;
        r \<leftarrow> mmap_find me m addr s;
        if r \<noteq> NULL then do { v \<leftarrow> hget (vmrs s) r; Some (r, v_prev v) }
        else do {
          t \<leftarrow> forlinked v_prev (\<lambda>_ r. v_end r < addr) (vmr_tail mp) (vmrs s);
          Some (NULL, t)
        }
      })"

definition mmap_find_vmr_overlap :: "ctx \<Rightarrow> ptr \<Rightarrow> u64 \<Rightarrow> u64 \<Rightarrow> mm \<Rightarrow> ptr option" where
  "mmap_find_vmr_overlap me m start e s =
     (if m = NULL then Some NULL
      else do {
        mmap_assert_locked me m s;
        r \<leftarrow> mmap_find me m start s;
        if r = NULL then Some NULL
        else do { v \<leftarrow> hget (vmrs s) r; Some (if e \<le> v_end v then r else NULL) }
      })"

definition mmap_holesize :: "ctx \<Rightarrow> ptr \<Rightarrow> u64 \<Rightarrow> bool \<Rightarrow> mm \<Rightarrow> (int \<times> u64) option" where
  "mmap_holesize me m addr plen s =
     (if m = NULL \<or> \<not> plen then Some (- EINVAL, 0)
      else do {
        mmap_assert_locked me m s;
        mp \<leftarrow> hget (maps s) m;
        if m_limit mp < addr then Some (- EINVAL, 0)
        else do {
          r \<leftarrow> mmap_find me m addr s;
          if r \<noteq> NULL then Some (- EINVAL, 0)
          else do {
            (_, next) \<leftarrow> mmap_find_vmr_next me m addr True s;
            if next = NULL then Some (0, (m_limit mp + 1) - addr)
            else do { n \<leftarrow> hget (vmrs s) next; Some (0, v_start n - addr) }
          }
        }
      })"

section \<open>Mapping and unmapping\<close>

text \<open>The loop of \<open>mmap_mapin\<close> that looks for an overlap: 0 when there is none.\<close>

partial_function (option) mapin_check :: "ctx \<Rightarrow> ptr \<Rightarrow> u64 \<Rightarrow> u64 \<Rightarrow> mm \<Rightarrow> int option" where
  "mapin_check me m addr e s =
     (if addr \<le> e then do {
        f \<leftarrow> mmap_find me m addr s;
        if f \<noteq> NULL then Some (- EEXIST)
        else do {
          (_, holesz) \<leftarrow> mmap_holesize me m addr True s;
          if holesz = 0 then None else mapin_check me m (addr + holesz) e s
        }
      }
      else Some 0)"

text \<open>The loop that looks for the neighbours.\<close>

partial_function (option) mapin_search :: "u64 \<Rightarrow> ptr \<Rightarrow> ptr \<Rightarrow> vmr heap \<Rightarrow> (ptr \<times> ptr) option" where
  "mapin_search start left right h =
     (if right = NULL then Some (left, right)
      else do {
        r \<leftarrow> hget h right;
        if v_start r < start
        then mapin_search start (if upper_bound r \<le> start then right else left) (v_next r) h
        else Some (left, right)
      })"

definition refs_inc :: "ptr \<Rightarrow> mm \<Rightarrow> mm option" where
  "refs_inc p s = rupd p (\<lambda>v. v\<lparr>v_refs := v_refs v + 1\<rparr>) s"

definition refs_dec :: "ptr \<Rightarrow> mm \<Rightarrow> mm option" where
  "refs_dec p s = rupd p (\<lambda>v. v\<lparr>v_refs := v_refs v - 1\<rparr>) s"

definition mapin_left :: "ptr \<Rightarrow> ptr \<Rightarrow> ptr \<Rightarrow> mm \<Rightarrow> mm option" where
  "mapin_left m r left s = do {
     s \<leftarrow> rupd r (v_prev_update (\<lambda>_. left)) s;
     l \<leftarrow> hget (vmrs s) left;
     s \<leftarrow> (if v_next l = NULL then refs_inc left s else Some s);
     s \<leftarrow> rupd r (v_next_update (\<lambda>_. v_next l)) s;
     s \<leftarrow> (if v_next l \<noteq> NULL then do {
            s \<leftarrow> rupd (v_next l) (v_prev_update (\<lambda>_. r)) s;
            refs_inc r s
          }
          else do {
            mp \<leftarrow> hget (maps s) m;
            s \<leftarrow> refs_dec (vmr_tail mp) s;
            s \<leftarrow> mupd m (vmr_tail_update (\<lambda>_. r)) s;
            refs_inc r s
          });
     s \<leftarrow> rupd left (v_next_update (\<lambda>_. r)) s;
     refs_inc r s
   }"

definition mapin_right :: "ptr \<Rightarrow> ptr \<Rightarrow> ptr \<Rightarrow> mm \<Rightarrow> mm option" where
  "mapin_right m r right s = do {
     s \<leftarrow> rupd r (v_next_update (\<lambda>_. right)) s;
     t \<leftarrow> hget (vmrs s) right;
     s \<leftarrow> (if v_prev t = NULL then refs_inc right s else Some s);
     s \<leftarrow> rupd r (v_prev_update (\<lambda>_. v_prev t)) s;
     s \<leftarrow> (if v_prev t \<noteq> NULL then do {
            s \<leftarrow> rupd (v_prev t) (v_next_update (\<lambda>_. r)) s;
            refs_inc r s
          }
          else do {
            mp \<leftarrow> hget (maps s) m;
            s \<leftarrow> refs_dec (vmr_head mp) s;
            s \<leftarrow> mupd m (vmr_head_update (\<lambda>_. r)) s;
            refs_inc r s
          });
     s \<leftarrow> rupd right (v_prev_update (\<lambda>_. r)) s;
     refs_inc r s
   }"

definition mapin_link :: "ptr \<Rightarrow> ptr \<Rightarrow> mm \<Rightarrow> mm option" where
  "mapin_link m r s = do {
     s \<leftarrow> rupd r (v_next_update (\<lambda>_. NULL)) s;
     s \<leftarrow> rupd r (v_prev_update (\<lambda>_. NULL)) s;
     mp \<leftarrow> hget (maps s) m;
     if vmr_head mp = NULL then do {
       s \<leftarrow> mupd m (vmr_tail_update (\<lambda>_. r)) s;
       s \<leftarrow> mupd m (vmr_head_update (\<lambda>_. r)) s;
       s \<leftarrow> refs_inc r s;
       refs_inc r s
     }
     else do {
       v \<leftarrow> hget (vmrs s) r;
       (left, right) \<leftarrow> mapin_search (v_start v) NULL (vmr_head mp) (vmrs s);
       left \<leftarrow> (if left \<noteq> NULL then do { l \<leftarrow> hget (vmrs s) left; Some (if v_start v < v_start l then NULL else left) }
               else Some left);
       if left \<noteq> NULL then mapin_left m r left s
       else if right \<noteq> NULL then mapin_right m r right s
       else Some s
     }
   }"

definition mmap_mapin :: "ctx \<Rightarrow> ptr \<Rightarrow> ptr \<Rightarrow> mm \<Rightarrow> (int \<times> mm) option" where
  "mmap_mapin me m r s =
     (if m = NULL \<or> r = NULL then Some (- EINVAL, s)
      else do {
        mmap_assert_locked me m s;
        v \<leftarrow> hget (vmrs s) r;
        if vmr_size v = 0 then Some (- EINVAL, s)
        else if mmap_limit < v_end v then Some (- EINVAL, s)
        else do {
          c \<leftarrow> mmap_contains me m r s;
          if c \<noteq> 0 then Some (- EEXIST, s)
          else do {
            err \<leftarrow> mapin_check me m (v_start v) (v_end v) s;
            if err \<noteq> 0 then Some (err, s)
            else do {
              s \<leftarrow> mapin_link m r s;
              s \<leftarrow> rupd r (v_mmap_update (\<lambda>_. m)) s;
              s \<leftarrow> mupd m (\<lambda>mp. mp\<lparr>m_refs := m_refs mp + 1\<rparr>) s;
              s \<leftarrow> mupd m (\<lambda>mp. mp\<lparr>m_used_space := m_used_space mp + vmr_size v\<rparr>) s;
              Some (0, s)
            }
          }
        }
      })"

definition vmr_split :: "ctx \<Rightarrow> ptr \<Rightarrow> u64 \<Rightarrow> bool \<Rightarrow> mm \<Rightarrow> (int \<times> ptr \<times> mm) option" where
  "vmr_split me r addr pvmr s =
     (if r = NULL then Some (- EINVAL, NULL, s)
      else do {
        c \<leftarrow> vmr_can_split r addr s;
        if \<not> c then Some (- EINVAL, NULL, s)
        else if \<not> pvmr then None \<comment> \<open>\<open>*pvmr = NULL\<close> faults\<close>
        else case vmr_alloc s of (err, new, s) \<Rightarrow>
          if err \<noteq> 0 then Some (err, NULL, s)
          else do {
            v \<leftarrow> hget (vmrs s) r;
            s \<leftarrow> rupd new (v_start_update (\<lambda>_. addr)) s;
            s \<leftarrow> rupd new (v_end_update (\<lambda>_. v_end v)) s;
            s \<leftarrow> rupd new (v_file_update (\<lambda>_. v_file v)) s;
            s \<leftarrow> rupd new (v_flags_update (\<lambda>_. v_flags v)) s;
            s \<leftarrow> rupd new (v_vflags_update (\<lambda>_. v_vflags v)) s;
            s \<leftarrow> (if v_file v \<noteq> NULL then rupd new (\<lambda>n. n\<lparr>v_file_pos := v_file_pos n + (addr - v_start v)\<rparr>) s else Some s);
            s \<leftarrow> rupd r (v_end_update (\<lambda>_. addr - 1)) s;
            (err, s) \<leftarrow> mmap_mapin me (v_mmap v) new s;
            if err \<noteq> 0 then do { s \<leftarrow> vmr_free new s; Some (err, NULL, s) } else Some (0, new, s)
          }
      })"

text \<open>The part of \<open>mmap_remove\<close> that takes the region out of the list.\<close>

definition remove_unlink :: "ptr \<Rightarrow> ptr \<Rightarrow> mm \<Rightarrow> mm option" where
  "remove_unlink m r s = do {
     v \<leftarrow> hget (vmrs s) r;
     s \<leftarrow> (if v_prev v \<noteq> NULL then do { s \<leftarrow> rupd (v_prev v) (v_next_update (\<lambda>_. v_next v)) s; refs_dec r s } else Some s);
     s \<leftarrow> (if v_next v \<noteq> NULL then do { s \<leftarrow> rupd (v_next v) (v_prev_update (\<lambda>_. v_prev v)) s; refs_dec r s } else Some s);
     mp \<leftarrow> hget (maps s) m;
     s \<leftarrow> (if vmr_head mp = r then do {
            s \<leftarrow> mupd m (vmr_head_update (\<lambda>_. v_next v)) s;
            if v_next v \<noteq> NULL then do {
              s \<leftarrow> rupd (v_next v) (v_prev_update (\<lambda>_. NULL)) s;
              n \<leftarrow> hget (vmrs s) (v_next v);
              if v_next n = NULL then refs_dec (v_next v) s else Some s
            } else Some s
          } else Some s);
     mp \<leftarrow> hget (maps s) m;
     if vmr_tail mp = r then do {
       s \<leftarrow> mupd m (vmr_tail_update (\<lambda>_. v_prev v)) s;
       if v_prev v \<noteq> NULL then do {
         s \<leftarrow> rupd (v_prev v) (v_next_update (\<lambda>_. NULL)) s;
         n \<leftarrow> hget (vmrs s) (v_prev v);
         if v_prev n = NULL then refs_dec (v_prev v) s else Some s
       } else Some s
     } else Some s
   }"

definition mmap_remove :: "ctx \<Rightarrow> ptr \<Rightarrow> ptr \<Rightarrow> mm \<Rightarrow> (int \<times> mm) option" where
  "mmap_remove me m r s =
     (if m = NULL \<or> r = NULL then Some (- EINVAL, s)
      else do {
        mmap_assert_locked me m s;
        c \<leftarrow> mmap_contains me m r s;
        if c = 0 then Some (- ENOENT, s)
        else do {
          s \<leftarrow> remove_unlink m r s;
          s \<leftarrow> refs_dec r s;
          s \<leftarrow> rupd r (v_mmap_update (\<lambda>_. NULL)) s;
          s \<leftarrow> mupd m (\<lambda>mp. mp\<lparr>m_refs := m_refs mp - 1\<rparr>) s;
          v \<leftarrow> hget (vmrs s) r;
          s \<leftarrow> vmr_free r (pg_do (Pg_unmap (v_start v) (vmr_size v)) s);
          Some (0, s)
        }
      })"

text \<open>The loop of \<open>mmap_unmap\<close>.\<close>

partial_function (option) mmap_unmap_loop :: "ctx \<Rightarrow> ptr \<Rightarrow> u64 \<Rightarrow> u64 \<Rightarrow> mm \<Rightarrow> mm option" where
  "mmap_unmap_loop me m start len s =
     (if len = 0 then Some s
      else do {
        let e = start + len - 1;
        x \<leftarrow> mmap_find_exact me m start e s;
        if x \<noteq> NULL then do {
          (_, s) \<leftarrow> mmap_remove me m x s;
          mmap_unmap_loop me m (start + (e - start)) (len - (e - start)) s
        }
        else do {
          x \<leftarrow> mmap_find me m start s;
          if x \<noteq> NULL then do {
            v \<leftarrow> hget (vmrs s) x;
            if v_start v = start then
              if len < vmr_size v then do {
                s \<leftarrow> rupd x (\<lambda>v. v\<lparr>v_start := v_start v + len\<rparr>) s;
                mmap_unmap_loop me m start 0 s
              }
              else if vmr_size v < len then do {
                (_, s) \<leftarrow> mmap_remove me m x s;
                mmap_unmap_loop me m (upper_bound v) (len - vmr_size v) s
              }
              else mmap_unmap_loop me m start len s
            else if v_end v = start then do {
              s \<leftarrow> rupd x (\<lambda>v. v\<lparr>v_end := v_end v - 1\<rparr>) s;
              mmap_unmap_loop me m start len s
            }
            else do {
              (_, _, s) \<leftarrow> vmr_split me x start False s;
              mmap_unmap_loop me m start len s
            }
          }
          else do {
            (_, holesz) \<leftarrow> mmap_holesize me m start True s;
            if holesz = 0 then Some s
            else do {
              let holesz = (if len < holesz then len else holesz);
              mmap_unmap_loop me m (start + holesz) (len - holesz) s
            }
          }
        }
      })"

definition mmap_unmap :: "ctx \<Rightarrow> ptr \<Rightarrow> u64 \<Rightarrow> u64 \<Rightarrow> mm \<Rightarrow> (int \<times> mm) option" where
  "mmap_unmap me m start len s =
     (if m = NULL \<or> len = 0 then Some (- EINVAL, s)
      else do {
        mmap_assert_locked me m s;
        if \<not> valid_addr (start + len - 1) then Some (- EINVAL, s)
        else do { s \<leftarrow> mmap_unmap_loop me m start len s; Some (0, s) }
      })"

definition mmap_forced_mapin :: "ctx \<Rightarrow> ptr \<Rightarrow> ptr \<Rightarrow> mm \<Rightarrow> (int \<times> mm) option" where
  "mmap_forced_mapin me m r s =
     (if m = NULL \<or> r = NULL then Some (- EINVAL, s)
      else do {
        mmap_assert_locked me m s;
        v \<leftarrow> hget (vmrs s) r;
        (err, s) \<leftarrow> mmap_unmap me m (v_start v) (vmr_size v) s;
        if err \<noteq> 0 then Some (err, s) else mmap_mapin me m r s
      })"

section \<open>Placing regions\<close>

text \<open>The loops over the gaps, upwards and downwards: the address found, if any.\<close>

partial_function (option) hole_up_loop :: "ctx \<Rightarrow> ptr \<Rightarrow> u64 \<Rightarrow> ptr \<Rightarrow> mm \<Rightarrow> u64 option option" where
  "hole_up_loop me m sz tmp s =
     (if tmp = NULL then Some None
      else do {
        t \<leftarrow> hget (vmrs s) tmp;
        if v_next t \<noteq> NULL then do {
          n \<leftarrow> hget (vmrs s) (v_next t);
          if sz \<le> v_start n - upper_bound t then Some (Some (upper_bound t))
          else hole_up_loop me m sz (v_next t) s
        }
        else do {
          (_, holesz) \<leftarrow> mmap_holesize me m (upper_bound t) True s;
          Some (if sz \<le> holesz then Some (upper_bound t) else None)
        }
      })"

partial_function (option) hole_down_loop :: "u64 \<Rightarrow> ptr \<Rightarrow> mm \<Rightarrow> u64 option option" where
  "hole_down_loop sz tmp s =
     (if tmp = NULL then Some None
      else do {
        t \<leftarrow> hget (vmrs s) tmp;
        if v_prev t \<noteq> NULL then do {
          p \<leftarrow> hget (vmrs s) (v_prev t);
          if sz \<le> v_start t - upper_bound p then Some (Some (v_start t - sz))
          else hole_down_loop sz (v_prev t) s
        }
        else if 0 < lower_bound t \<and> sz \<le> v_start t then Some (Some (v_start t - sz))
        else hole_down_loop sz (v_prev t) s
      })"

definition whence_start :: int where "whence_start = 0"
definition whence_end :: int where "whence_end = 1"

definition mmap_find_hole :: "ctx \<Rightarrow> ptr \<Rightarrow> u64 \<Rightarrow> bool \<Rightarrow> int \<Rightarrow> mm \<Rightarrow> (int \<times> u64) option" where
  "mmap_find_hole me m sz paddr whence s =
     (if m = NULL \<or> \<not> paddr \<or> sz = 0 then Some (- EINVAL, 0)
      else do {
        mmap_assert_locked me m s;
        mp \<leftarrow> hget (maps s) m;
        found \<leftarrow>
          (if whence = whence_start then do {
             (_, holesz) \<leftarrow> mmap_holesize me m 0 True s;
             if sz \<le> holesz then Some (Some 0) else hole_up_loop me m sz (vmr_head mp) s
           }
           else if whence = whence_end then do {
             (_, holesz) \<leftarrow> mmap_holesize me m ((m_limit mp + 1) - sz) True s;
             if sz \<le> holesz then Some (Some ((m_limit mp + 1) - sz)) else hole_down_loop sz (vmr_tail mp) s
           }
           else Some None);
        Some (case found of Some a \<Rightarrow> (0, a) | None \<Rightarrow> (- ENOMEM, 0))
      })"

text \<open>The two halves of \<open>mmap_find_holeat\<close>: the search near a given address.\<close>

definition holeat_up :: "ctx \<Rightarrow> ptr \<Rightarrow> u64 \<Rightarrow> u64 \<Rightarrow> ptr \<Rightarrow> mm \<Rightarrow> u64 option option" where
  "holeat_up me m addr sz near s = do {
     mp \<leftarrow> hget (maps s) m;
     (_, holesz) \<leftarrow> mmap_holesize me m addr True s;
     if sz \<le> holesz then Some (Some addr)
     else do {
       let near = (if near \<noteq> NULL then near else vmr_head mp);
       below \<leftarrow>
         (if near = NULL then Some None
          else do {
            n \<leftarrow> hget (vmrs s) near;
            if v_prev n = NULL then Some None
            else do {
              p \<leftarrow> hget (vmrs s) (v_prev n);
              Some (if sz \<le> v_start n - upper_bound p then Some (upper_bound p) else None)
            }
          });
       if below \<noteq> None then Some below else hole_up_loop me m sz near s
     }
   }"

text \<open>The gap above the region \<open>x\<close>, as \<open>mmap_find_holeat\<close> looks at it from the top.\<close>

definition hole_above :: "ctx \<Rightarrow> ptr \<Rightarrow> u64 \<Rightarrow> vmr \<Rightarrow> mm \<Rightarrow> u64 option option" where
  "hole_above me m sz v s =
     (if v_next v \<noteq> NULL then do {
        t \<leftarrow> hget (vmrs s) (v_next v);
        Some (if sz \<le> v_start t - upper_bound v then Some (v_start t - sz) else None)
      }
      else do {
        (_, holesz) \<leftarrow> mmap_holesize me m (upper_bound v) True s;
        Some (if sz < holesz then Some (upper_bound v + holesz - sz)
              else if holesz = sz then Some (upper_bound v) else None)
      })"

definition holeat_down :: "ctx \<Rightarrow> ptr \<Rightarrow> u64 \<Rightarrow> ptr \<Rightarrow> mm \<Rightarrow> u64 option option" where
  "holeat_down me m sz near s = do {
     mp \<leftarrow> hget (maps s) m;
     let near = (if near \<noteq> NULL then near else vmr_tail mp);
     above \<leftarrow>
       (if near = NULL then do {
          (_, holesz) \<leftarrow> mmap_holesize me m ((m_limit mp + 1) - sz) True s;
          Some (if sz \<le> holesz then Some ((m_limit mp + 1) - sz) else None)
        }
        else do { n \<leftarrow> hget (vmrs s) near; hole_above me m sz n s });
     if above \<noteq> None then Some above else hole_down_loop sz near s
   }"

definition mmap_find_holeat :: "ctx \<Rightarrow> ptr \<Rightarrow> u64 \<Rightarrow> u64 \<Rightarrow> bool \<Rightarrow> int \<Rightarrow> mm \<Rightarrow> (int \<times> u64) option" where
  "mmap_find_holeat me m addr sz paddr whence s =
     (if m = NULL \<or> \<not> paddr \<or> sz = 0 then Some (- EINVAL, 0)
      else do {
        mmap_assert_locked me m s;
        near \<leftarrow>
          (if addr = 0 then Some NULL
           else if whence = whence_start then do { (_, n) \<leftarrow> mmap_find_vmr_next me m addr True s; Some n }
           else if whence = whence_end then do { (_, n) \<leftarrow> mmap_find_vmr_prev me m addr True s; Some n }
           else Some NULL);
        found \<leftarrow>
          (if whence = whence_start then holeat_up me m addr sz near s
           else if whence = whence_end then holeat_down me m sz near s
           else Some None);
        case found of Some a \<Rightarrow> Some (0, a) | None \<Rightarrow> mmap_find_hole me m sz True whence s
      })"

text \<open>The flags that \<open>mmap_map_region\<close> gives a new region.\<close>

definition vm_flags_of :: "u32 \<Rightarrow> u32 \<Rightarrow> u32" where
  "vm_flags_of prot flags =
     flag_if (has prot PROT_EXEC) VM_EXEC OR flag_if (has prot PROT_READ) VM_READ
     OR flag_if (has prot PROT_WRITE) VM_WRITE OR flag_if (has flags MAP_ZERO) VM_ZERO
     OR flag_if (has flags MAP_SHARED) VM_SHARED OR flag_if (has flags MAP_STACK) VM_GROWSDOWN
     OR flag_if (has flags MAP_DONTEXPAND) VM_DONTEXPAND"

definition pte_flags_of :: "u32 \<Rightarrow> u32 \<Rightarrow> u32" where
  "pte_flags_of vm mflags =
     flag_if (has vm VM_READ) PTE_R OR flag_if (has vm VM_WRITE) PTE_W OR flag_if (has vm VM_EXEC) PTE_X
     OR flag_if (has mflags MMAP_USER) PTE_U"

text \<open>The tests \<open>mmap_map_region\<close> makes on its arguments.\<close>

definition map_region_args :: "u64 \<Rightarrow> u64 \<Rightarrow> u32 \<Rightarrow> u32 \<Rightarrow> bool" where
  "map_region_args addr len prot flags \<longleftrightarrow>
     \<not> (has flags MAP_FIXED \<and> \<not> isaligned addr)
     \<and> \<not> (has flags MAP_FIXED \<and> \<not> valid_addr addr)
     \<and> \<not> (has flags MAP_STACK \<and> (\<not> isaligned addr \<or> \<not> isaligned len))
     \<and> \<not> (has flags MAP_PRIVATE \<and> has flags MAP_SHARED \<or> \<not> has flags MAP_PRIVATE \<and> \<not> has flags MAP_SHARED)
     \<and> \<not> (has flags MAP_STACK \<and> \<not> (has prot PROT_READ \<and> has prot PROT_WRITE))"

definition mmap_map_region :: "ctx \<Rightarrow> ptr \<Rightarrow> u64 \<Rightarrow> u64 \<Rightarrow> u32 \<Rightarrow> u32 \<Rightarrow> bool \<Rightarrow> mm \<Rightarrow> (int \<times> ptr \<times> mm) option" where
  "mmap_map_region me m addr len prot flags pvmr s =
     (if m = NULL \<or> (\<not> has flags MAP_FIXED \<and> \<not> pvmr) \<or> len = 0 then Some (- EINVAL, NULL, s)
      else do {
        mmap_assert_locked me m s;
        mp \<leftarrow> hget (maps s) m;
        if \<not> map_region_args addr len prot flags then Some (- EINVAL, NULL, s)
        else do {
          let len = (if has flags MAP_STACK then len + m_guard_len mp else len);
          let whence = (if has flags MAP_STACK then whence_end else whence_start);
          (err, addr) \<leftarrow> (if has flags MAP_FIXED then Some (0, addr)
                           else mmap_find_holeat me m addr len True whence s);
          if err \<noteq> 0 then Some (err, NULL, s)
          else case vmr_alloc s of (err, r, s) \<Rightarrow>
            if err \<noteq> 0 then Some (err, NULL, s)
            else do {
              s \<leftarrow> rupd r (v_start_update (\<lambda>_. addr)) s;
              s \<leftarrow> rupd r (v_end_update (\<lambda>_. addr + len - 1)) s;
              s \<leftarrow> rupd r (\<lambda>v. v\<lparr>v_flags := v_flags v OR vm_flags_of prot flags\<rparr>) s;
              v \<leftarrow> hget (vmrs s) r;
              s \<leftarrow> rupd r (\<lambda>w. w\<lparr>v_vflags := v_vflags w OR pte_flags_of (v_flags v) (m_flags mp)\<rparr>) s;
              (err, s) \<leftarrow> (if has flags MAP_FIXED then mmap_forced_mapin me m r s else mmap_mapin me m r s);
              if err \<noteq> 0 then do { s \<leftarrow> vmr_free r s; Some (err, NULL, s) } else Some (0, r, s)
            }
        }
      })"

definition mmap_alloc_vmr :: "ctx \<Rightarrow> ptr \<Rightarrow> u64 \<Rightarrow> u32 \<Rightarrow> u32 \<Rightarrow> bool \<Rightarrow> mm \<Rightarrow> (int \<times> ptr \<times> mm) option" where
  "mmap_alloc_vmr me m sz prot flags pvmr s =
     (if m = NULL \<or> \<not> pvmr then Some (- EINVAL, NULL, s)
      else do {
        mmap_assert_locked me m s;
        if has flags MAP_FIXED then Some (- EINVAL, NULL, s)
        else mmap_map_region me m 0 sz prot flags True s
      })"

definition mmap_alloc_stack :: "ctx \<Rightarrow> ptr \<Rightarrow> u64 \<Rightarrow> bool \<Rightarrow> mm \<Rightarrow> (int \<times> ptr \<times> mm) option" where
  "mmap_alloc_stack me m sz pstack s =
     (if m = NULL \<or> \<not> pstack then Some (- EINVAL, NULL, s)
      else do {
        mmap_assert_locked me m s;
        mmap_map_region me m 0 sz (PROT_READ OR PROT_WRITE) (MAP_STACK OR MAP_PRIVATE) True s
      })"

section \<open>Resizing and protection\<close>

definition mmap_vmr_expand :: "ctx \<Rightarrow> ptr \<Rightarrow> ptr \<Rightarrow> u64 \<Rightarrow> mm \<Rightarrow> (int \<times> mm) option" where
  "mmap_vmr_expand me m r incr s =
     (if m = NULL \<or> r = NULL \<or> incr = 0 then Some (- EINVAL, s)
      else do {
        mmap_assert_locked me m s;
        v \<leftarrow> hget (vmrs s) r;
        if has (v_flags v) VM_DONTEXPAND then Some (- EINVAL, s)
        else do {
          let oldsz = vmr_size v;
          let newsz = oldsz + incr;
          let hole_addr = (if growsdown v then v_start v - incr else upper_bound v);
          if sint oldsz < sint newsz then do {
            (err, holesz) \<leftarrow> mmap_holesize me m hole_addr True s;
            if err \<noteq> 0 then Some (err, s)
            else if incr \<le> holesz then do {
              s \<leftarrow> (if growsdown v then rupd r (v_start_update (\<lambda>_. hole_addr)) s
                   else rupd r (v_end_update (\<lambda>_. v_start v + newsz - 1)) s);
              Some (0, s)
            }
            else Some (- ENOMEM, s)
          }
          else if sint newsz < 0 then Some (- EINVAL, s)
          else if newsz = 0 then mmap_remove me m r s
          else do {
            s \<leftarrow> (if growsdown v then rupd r (\<lambda>v. v\<lparr>v_start := v_start v + (oldsz - newsz)\<rparr>) s
                 else rupd r (\<lambda>v. v\<lparr>v_end := v_end v - (oldsz - newsz)\<rparr>) s);
            Some (0, s)
          }
        }
      })"

text \<open>The part of \<open>mmap_protect\<close> that cuts the range out of its region.\<close>

definition protect_split :: "ctx \<Rightarrow> ptr \<Rightarrow> ptr \<Rightarrow> u64 \<Rightarrow> u64 \<Rightarrow> mm \<Rightarrow> (int \<times> mm) option" where
  "protect_split me m r addr e s =
     (case vmr_alloc s of (err, split0, s) \<Rightarrow>
      if err \<noteq> 0 then Some (err, s)
      else do {
        tmp \<leftarrow> hget (vmrs s) r;
        s \<leftarrow> rupd split0 (\<lambda>_. tmp) s;
        s \<leftarrow> rupd split0 (v_refs_update (\<lambda>_. 0)) s;
        s \<leftarrow> rupd split0 (v_next_update (\<lambda>_. NULL)) s;
        s \<leftarrow> rupd split0 (v_prev_update (\<lambda>_. NULL)) s;
        if v_start tmp = addr then do {
          s \<leftarrow> rupd r (v_end_update (\<lambda>_. e)) s;
          v \<leftarrow> hget (vmrs s) r;
          s \<leftarrow> rupd split0 (v_start_update (\<lambda>_. upper_bound v)) s;
          (err, s) \<leftarrow> mmap_mapin me m split0 s;
          if err \<noteq> 0 then do {
            v0 \<leftarrow> hget (vmrs s) split0;
            s \<leftarrow> rupd r (v_end_update (\<lambda>_. v_end v0)) s;
            s \<leftarrow> vmr_free split0 s;
            Some (err, s)
          } else Some (0, s)
        }
        else if v_end tmp = e then do {
          s \<leftarrow> rupd r (v_start_update (\<lambda>_. addr)) s;
          v \<leftarrow> hget (vmrs s) r;
          s \<leftarrow> rupd split0 (v_end_update (\<lambda>_. lower_bound v)) s;
          (err, s) \<leftarrow> mmap_mapin me m split0 s;
          if err \<noteq> 0 then do {
            v0 \<leftarrow> hget (vmrs s) split0;
            s \<leftarrow> rupd r (v_start_update (\<lambda>_. v_start v0)) s;
            s \<leftarrow> vmr_free split0 s;
            Some (err, s)
          } else Some (0, s)
        }
        else case vmr_alloc s of (err, split1, s) \<Rightarrow>
          if err \<noteq> 0 then do { s \<leftarrow> vmr_free split0 s; Some (err, s) }
          else do {
            s \<leftarrow> rupd split1 (\<lambda>_. tmp) s;
            s \<leftarrow> rupd split0 (v_refs_update (\<lambda>_. 0)) s;
            s \<leftarrow> rupd split1 (v_next_update (\<lambda>_. NULL)) s;
            s \<leftarrow> rupd split1 (v_prev_update (\<lambda>_. NULL)) s;
            s \<leftarrow> rupd r (v_start_update (\<lambda>_. addr)) s;
            v \<leftarrow> hget (vmrs s) r;
            s \<leftarrow> rupd split0 (v_end_update (\<lambda>_. lower_bound v)) s;
            s \<leftarrow> rupd r (v_end_update (\<lambda>_. e)) s;
            v \<leftarrow> hget (vmrs s) r;
            s \<leftarrow> rupd split1 (v_start_update (\<lambda>_. upper_bound v)) s;
            (err, s) \<leftarrow> mmap_mapin me m split0 s;
            if err \<noteq> 0 then do {
              s \<leftarrow> rupd r (\<lambda>_. tmp) s;
              s \<leftarrow> vmr_free split0 s;
              s \<leftarrow> vmr_free split1 s;
              Some (err, s)
            }
            else do {
              (err, s) \<leftarrow> mmap_mapin me m split1 s;
              if err \<noteq> 0 then do {
                s \<leftarrow> rupd r (\<lambda>_. tmp) s;
                (_, s) \<leftarrow> mmap_remove me m split0 s;
                s \<leftarrow> vmr_free split0 s;
                s \<leftarrow> vmr_free split1 s;
                Some (err, s)
              } else Some (0, s)
            }
          }
      })"

text \<open>The protection that a region's flags stand for, and the flags for a protection.\<close>

definition prot_of_vm :: "u32 \<Rightarrow> u32" where
  "prot_of_vm vm = flag_if (has vm VM_READ) PROT_READ OR flag_if (has vm VM_WRITE) PROT_WRITE
     OR flag_if (has vm VM_EXEC) PROT_EXEC"

definition vm_of_prot :: "u32 \<Rightarrow> u32" where
  "vm_of_prot prot = flag_if (has prot PROT_READ) VM_READ OR flag_if (has prot PROT_EXEC) VM_EXEC
     OR flag_if (has prot PROT_WRITE) VM_WRITE"

definition mmap_protect :: "ctx \<Rightarrow> ptr \<Rightarrow> u64 \<Rightarrow> u64 \<Rightarrow> u32 \<Rightarrow> mm \<Rightarrow> (int \<times> mm) option" where
  "mmap_protect me m addr len prot s =
     (if m = NULL \<or> len = 0 then Some (- EINVAL, s)
      else do {
        mmap_assert_locked me m s;
        if \<not> isaligned addr \<or> \<not> isaligned len then Some (- EINVAL, s)
        else if \<not> valid_addr addr then Some (- ENOMEM, s)
        else do {
          let e = addr + len - 1;
          r \<leftarrow> mmap_find_vmr_overlap me m addr e s;
          if r = NULL then Some (- ENOMEM, s)
          else do {
            v \<leftarrow> hget (vmrs s) r;
            let forge_prot = prot_of_vm (v_flags v);
            if growsdown v then Some (- EACCES, s)
            else if forge_prot = prot then Some (0, s)
            else if has prot PROT_WRITE \<and> has prot PROT_EXEC then Some (- EACCES, s)
            else if has prot PROT_WRITE \<and> has forge_prot PROT_EXEC then Some (- EACCES, s)
            else if has prot PROT_EXEC \<and> has forge_prot PROT_WRITE then Some (- EACCES, s)
            else do {
              (err, s) \<leftarrow> (if len < vmr_size v then protect_split me m r addr e s else Some (0, s));
              if err \<noteq> 0 then Some (err, s)
              else do {
                mp \<leftarrow> hget (maps s) m;
                s \<leftarrow> rupd r (\<lambda>v. v\<lparr>v_flags := v_flags v AND NOT VM_EXEC AND NOT VM_WRITE AND NOT VM_READ\<rparr>) s;
                s \<leftarrow> rupd r (v_flags_update (\<lambda>_. vm_of_prot prot)) s;
                v \<leftarrow> hget (vmrs s) r;
                s \<leftarrow> rupd r (v_vflags_update (\<lambda>_. pte_flags_of (v_flags v) (m_flags mp))) s;
                v \<leftarrow> hget (vmrs s) r;
                Some (pg_try (Pg_protect (v_start v) (vmr_size v) (v_vflags v)) s)
              }
            }
          }
        }
      })"

section \<open>Whole address spaces\<close>

definition mmap_clean :: "ctx \<Rightarrow> ptr \<Rightarrow> mm \<Rightarrow> (int \<times> mm) option" where
  "mmap_clean me m s =
     (if m = NULL then Some (- EINVAL, s)
      else do {
        mmap_assert_locked me m s;
        mp \<leftarrow> hget (maps s) m;
        (err, s) \<leftarrow> mmap_unmap me m 0 (m_limit mp + 1) s;
        if err \<noteq> 0 then Some (err, s)
        else do {
          let s = pg_do (Pg_fullvm_unmap (m_pgdir mp)) s;
          s \<leftarrow> mupd m (\<lambda>mp. mp\<lparr>m_refs := 0, m_used_space := 0, m_brk := 0, m_arg := NULL, m_env := NULL,
                 m_heap := NULL, m_priv := NULL, vmr_head := NULL, vmr_tail := NULL,
                 m_flags := MMAP_USER, m_guard_len := PAGESZ, m_limit := mmap_limit\<rparr>) s;
          Some (0, s)
        }
      })"

definition mmap_init :: "ctx \<Rightarrow> ptr \<Rightarrow> mm \<Rightarrow> (int \<times> mm) option" where
  "mmap_init me m s =
     (if m = NULL then Some (- EINVAL, s)
      else do {
        mmap_assert_locked me m s;
        (err, s) \<leftarrow> mmap_clean me m s;
        if err \<noteq> 0 then Some (err, s)
        else do {
          (err, _, s) \<leftarrow> mmap_map_region me m 0 0x1000000 0 (MAP_FIXED OR MAP_PRIVATE OR MAP_DONTEXPAND) False s;
          Some (err, s)
        }
      })"

definition mmap0 :: mmap where
  "mmap0 = \<lparr>m_flags = 0, m_refs = 0, m_priv = NULL, m_arg = NULL, m_env = NULL, m_heap = NULL, m_brk = 0,
     m_pgdir = 0, m_limit = 0, m_guard_len = 0, m_used_space = 0, vmr_head = NULL, vmr_tail = NULL,
     m_lock = SPINLOCK_INIT\<rparr>"

text \<open>\<open>arch_getpgdir\<close> gives an error or a page directory.\<close>

definition arch_getpgdir :: "mm \<Rightarrow> int \<times> u64 \<times> mm" where
  "arch_getpgdir s = (case pg_dirs s of [] \<Rightarrow> (- ENOMEM, 0, s) | (e, d) # ds \<Rightarrow> (e, d, s\<lparr>pg_dirs := ds\<rparr>))"

definition mmap_alloc :: "ctx \<Rightarrow> bool \<Rightarrow> mm \<Rightarrow> (int \<times> ptr \<times> mm) option" where
  "mmap_alloc me ref s =
     (if \<not> ref then Some (- EINVAL, NULL, s)
      else case arch_getpgdir s of (err, pgdir, s) \<Rightarrow>
        if err \<noteq> 0 then Some (err, NULL, s)
        else let (m, ps) = kmalloc (mm_used s) (mm_mem s); s = s\<lparr>mm_mem := ps\<rparr> in
          if m = NULL then Some (- ENOMEM, NULL, pg_do (Pg_free pgdir) s)
          else do {
            let s = s\<lparr>maps := (maps s)(m \<mapsto> mmap0\<lparr>m_pgdir := pgdir, m_flags := MMAP_USER, m_guard_len := PAGESZ,
                      m_lock := SPINLOCK_INIT, m_limit := mmap_limit\<rparr>)\<rparr>;
            s \<leftarrow> mmap_lock me m s;
            (err, s) \<leftarrow> mmap_init me m s;
            if err \<noteq> 0 then do {
              s \<leftarrow> mmap_unlock me m s;
              h \<leftarrow> kfree m (maps s);
              Some (err, NULL, pg_do (Pg_putpgdir pgdir) (s\<lparr>maps := h\<rparr>))
            }
            else Some (0, m, s)
          })"

definition mmap_free :: "ctx \<Rightarrow> ptr \<Rightarrow> mm \<Rightarrow> mm option" where
  "mmap_free me m s =
     (if m = NULL then Some s
      else do {
        mp \<leftarrow> hget (maps s) m;
        s \<leftarrow> (if lk_held me (m_lock mp) then Some s else mmap_lock me m s);
        (_, s) \<leftarrow> mmap_clean me m s;
        mp \<leftarrow> hget (maps s) m;
        if m_refs mp \<le> 0 then do {
          let s = (if m_pgdir mp \<noteq> 0 then pg_do (Pg_free (m_pgdir mp)) s else s);
          s \<leftarrow> mmap_unlock me m s;
          h \<leftarrow> kfree m (maps s);
          Some (s\<lparr>maps := h\<rparr>)
        }
        else mmap_unlock me m s
      })"

partial_function (option) mmap_copy_loop :: "ctx \<Rightarrow> ptr \<Rightarrow> ptr \<Rightarrow> mm \<Rightarrow> (int \<times> mm) option" where
  "mmap_copy_loop me dst tmp s =
     (if tmp = NULL then Some (0, s)
      else do {
        (err, x, s) \<leftarrow> vmr_clone tmp True s;
        if err \<noteq> 0 then Some (err, s)
        else do {
          (err, s) \<leftarrow> mmap_mapin me dst x s;
          if err \<noteq> 0 then do { s \<leftarrow> vmr_free x s; Some (err, s) }
          else do { t \<leftarrow> hget (vmrs s) tmp; mmap_copy_loop me dst (v_next t) s }
        }
      })"

definition copy_of :: "ctx \<Rightarrow> ptr \<Rightarrow> ptr \<Rightarrow> mm \<Rightarrow> ptr option" where
  "copy_of me dst r s = (if r = NULL then Some NULL else do { v \<leftarrow> hget (vmrs s) r; mmap_find me dst (v_start v) s })"

definition mmap_copy :: "ctx \<Rightarrow> ptr \<Rightarrow> ptr \<Rightarrow> mm \<Rightarrow> (int \<times> mm) option" where
  "mmap_copy me dst src s =
     (if dst = NULL \<or> src = NULL then Some (- EINVAL, s)
      else do {
        mmap_assert_locked me src s;
        mmap_assert_locked me dst s;
        sp \<leftarrow> hget (maps s) src;
        s \<leftarrow> mupd dst (\<lambda>d. d\<lparr>m_flags := m_flags sp, m_limit := m_limit sp, m_guard_len := m_guard_len sp,
               m_refs := 0, m_used_space := 0, m_priv := NULL, vmr_tail := NULL, vmr_head := NULL,
               m_env := NULL, m_arg := NULL, m_heap := NULL\<rparr>) s;
        sp \<leftarrow> hget (maps s) src;
        (err, s) \<leftarrow> mmap_copy_loop me dst (vmr_head sp) s;
        if err \<noteq> 0 then Some (err, s)
        else do {
          sp \<leftarrow> hget (maps s) src;
          a \<leftarrow> copy_of me dst (m_arg sp) s;
          s \<leftarrow> mupd dst (m_arg_update (\<lambda>_. a)) s;
          sp \<leftarrow> hget (maps s) src;
          a \<leftarrow> copy_of me dst (m_env sp) s;
          s \<leftarrow> mupd dst (m_env_update (\<lambda>_. a)) s;
          sp \<leftarrow> hget (maps s) src;
          a \<leftarrow> copy_of me dst (m_heap sp) s;
          s \<leftarrow> mupd dst (m_heap_update (\<lambda>_. a)) s;
          dp \<leftarrow> hget (maps s) dst;
          sp \<leftarrow> hget (maps s) src;
          Some (pg_try (Pg_lazycpy (m_pgdir dp) (m_pgdir sp)) s)
        }
      })"

definition mmap_clone :: "ctx \<Rightarrow> ptr \<Rightarrow> bool \<Rightarrow> mm \<Rightarrow> (int \<times> ptr \<times> mm) option" where
  "mmap_clone me m pclone s =
     (if m = NULL \<or> \<not> pclone then Some (- EINVAL, NULL, s)
      else do {
        mmap_assert_locked me m s;
        (err, clone, s) \<leftarrow> mmap_alloc me True s;
        if err \<noteq> 0 then Some (err, NULL, s)
        else do {
          s \<leftarrow> mmap_lock me clone s;
          (err, s) \<leftarrow> mmap_copy me clone m s;
          if err \<noteq> 0 then do { s \<leftarrow> mmap_free me clone s; Some (err, NULL, s) }
          else do { s \<leftarrow> mmap_unlock me clone s; Some (0, clone, s) }
        }
      })"

definition mmap_focus :: "ctx \<Rightarrow> ptr \<Rightarrow> mm \<Rightarrow> (int \<times> mm) option" where
  "mmap_focus me m s =
     (if m = NULL then Some (- EINVAL, s)
      else do {
        mmap_assert_locked me m s;
        mp \<leftarrow> hget (maps s) m;
        if m_pgdir mp = 0 then Some (- EINVAL, s) else Some (0, pg_do (Pg_swtchvm (m_pgdir mp)) s)
      })"

interpretation vr: dll_node v_next v_prev v_next_update v_prev_update
  by unfold_locales simp_all

section \<open>The invariant\<close>

text \<open>A region of an address space as base and size, and the addresses a user may map.\<close>

definition vreg :: "vmr \<Rightarrow> region" where
  "vreg v = (unat (v_start v), Suc (unat (v_end v)) - unat (v_start v))"

definition vreg_at :: "vmr heap \<Rightarrow> ptr \<Rightarrow> region" where
  "vreg_at h x = (case h x of None \<Rightarrow> (0, 0) | Some v \<Rightarrow> vreg v)"

abbreviation vregs :: "mm \<Rightarrow> ptr list \<Rightarrow> region list" where
  "vregs s xs \<equiv> map (vreg_at (vmrs s)) xs"

definition ulimit :: nat where "ulimit = Suc (unat mmap_limit)"

abbreviation user_range :: "nat set" where "user_range \<equiv> {..<ulimit}"

definition vmr_in :: "ptr \<Rightarrow> vmr \<Rightarrow> bool" where
  "vmr_in m v \<longleftrightarrow> v_mmap v = m \<and> v_start v \<le> v_end v \<and> v_end v \<le> mmap_limit"

definition mmap_list :: "mm \<Rightarrow> ptr \<Rightarrow> ptr list \<Rightarrow> bool" where
  "mmap_list s m xs \<longleftrightarrow> m \<noteq> NULL \<and> (\<exists>mp. maps s m = Some mp \<and> m_limit mp = mmap_limit
     \<and> dlist v_next v_prev (vmrs s) (vmr_head mp) (vmr_tail mp) xs)"

definition mmap_inv :: "mm \<Rightarrow> ptr \<Rightarrow> ptr list \<Rightarrow> bool" where
  "mmap_inv s m xs \<longleftrightarrow> mmap_list s m xs \<and> (\<forall>x\<in>set xs. \<exists>v. vmrs s x = Some v \<and> vmr_in m v) \<and> ordered (vregs s xs)"

definition mmap_locked :: "ctx \<Rightarrow> mm \<Rightarrow> ptr \<Rightarrow> bool" where
  "mmap_locked me s m \<longleftrightarrow> (\<exists>mp. maps s m = Some mp \<and> lk_held me (m_lock mp))"

lemma ulimit_eq: "ulimit = 0x800000000000" "unat mmap_limit = 0x7FFFFFFFFFFF"
  by (simp_all add: ulimit_def mmap_limit_def)

lemma vreg_at: "h x = Some v \<Longrightarrow> vreg_at h x = vreg v"
  by (simp add: vreg_at_def)

lemma span_vreg: "v_start v \<le> v_end v \<Longrightarrow> unat a \<in> span (vreg v) \<longleftrightarrow> v_start v \<le> a \<and> a \<le> v_end v"
  by (auto simp: span_def vreg_def word_le_nat_alt)

lemma vreg_end: "v_start v \<le> v_end v \<Longrightarrow> fst (vreg v) + snd (vreg v) = Suc (unat (v_end v))"
  by (simp add: vreg_def word_le_nat_alt)

lemma vmr_in_bounds:
  assumes "vmr_in m v"
  shows "unat (upper_bound v) = Suc (unat (v_end v))" "unat (vmr_size v) = snd (vreg v)" "Suc (unat (v_end v)) \<le> ulimit"
    "0 < snd (vreg v)" "span (vreg v) \<subseteq> user_range"
proof -
  have le: "unat (v_start v) \<le> unat (v_end v)" "unat (v_end v) < ulimit"
    using assms by (auto simp: vmr_in_def word_le_nat_alt ulimit_def)
  then show "unat (upper_bound v) = Suc (unat (v_end v))" "Suc (unat (v_end v)) \<le> ulimit" "0 < snd (vreg v)"
      "span (vreg v) \<subseteq> user_range"
    by (auto simp: upper_bound_def unat_word_ariths ulimit_eq vreg_def span_def)
  show "unat (vmr_size v) = snd (vreg v)"
    using assms le by (simp add: vmr_size_def vreg_def vmr_in_def unat_word_ariths unat_sub ulimit_eq)
qed

lemma mmap_inv_at:
  assumes "mmap_inv s m xs" "x \<in> set xs"
  obtains v where "vmrs s x = Some v" "vmr_in m v" "vreg_at (vmrs s) x = vreg v" "x \<noteq> NULL"
  using assms by (auto simp: mmap_inv_def mmap_list_def dlist_def vreg_at)

lemma mmap_inv_covered: "mmap_inv s m xs \<Longrightarrow> covered (vregs s xs) \<subseteq> user_range"
  using vmr_in_bounds(5) by (fastforce simp: covered_def elim: mmap_inv_at)

lemma mmap_inv_list:
  assumes "mmap_inv s m xs"
  obtains mp where "maps s m = Some mp" "m \<noteq> NULL" "m_limit mp = mmap_limit" "dchain v_next v_prev (vmrs s) NULL xs NULL"
    "distinct xs" "NULL \<notin> set xs" "vmr_head mp = first_of xs NULL" "vmr_tail mp = last_of xs NULL"
  using assms by (auto simp: mmap_inv_def mmap_list_def dlist_def)

lemma assert_locked [simp]: "mmap_locked me s m \<Longrightarrow> m \<noteq> NULL \<Longrightarrow> mmap_assert_locked me m s = Some ()"
  by (auto simp: mmap_locked_def mmap_assert_locked_def hget_nonNULL)

section \<open>Searching the list\<close>

lemma forlinked_next:
  assumes "dchain v_next v_prev h pr xs NULL" "NULL \<notin> set xs"
  shows "forlinked v_next c (first_of xs NULL) h = Some (first_of (dropWhile (\<lambda>x. \<not> c x (the (h x))) xs) NULL)"
  using assms
proof (induction xs arbitrary: pr)
  case (Cons x xs)
  then obtain v where v: "h x = Some v" "v_next v = first_of xs NULL" "x \<noteq> NULL" "dchain v_next v_prev h x xs NULL" by auto
  with Cons.IH [OF v(4)] Cons.prems(2) show ?case by (simp add: forlinked.simps [of _ _ x] hget_nonNULL)
qed (simp add: forlinked.simps)

lemma forlinked_prev:
  assumes "dchain v_next v_prev h NULL xs nx" "NULL \<notin> set xs"
  shows "forlinked v_prev c (last_of xs NULL) h = Some (first_of (dropWhile (\<lambda>x. \<not> c x (the (h x))) (rev xs)) NULL)"
  using assms
proof (induction xs arbitrary: nx rule: rev_induct)
  case (snoc x xs)
  then obtain v where v: "h x = Some v" "v_prev v = last_of xs NULL" "x \<noteq> NULL" "dchain v_next v_prev h NULL xs x"
    by (auto simp: dchain_append)
  with snoc.IH [OF v(4)] snoc.prems(2) show ?case by (simp add: forlinked.simps [of _ _ x] hget_nonNULL)
qed (simp add: forlinked.simps)

lemma first_of_dropWhile:
  assumes "NULL \<notin> set xs"
  shows "(\<forall>x\<in>set xs. P x) \<and> first_of (dropWhile P xs) NULL = NULL \<or>
    (\<exists>A x B. xs = A @ x # B \<and> (\<forall>y\<in>set A. P y) \<and> \<not> P x \<and> first_of (dropWhile P xs) NULL = x \<and> x \<noteq> NULL)"
proof (cases "dropWhile P xs")
  case Nil
  then have "\<forall>x\<in>set xs. P x" by (simp add: dropWhile_eq_Nil_conv)
  moreover have "first_of (dropWhile P xs) NULL = NULL" unfolding Nil by simp
  ultimately show ?thesis by blast
next
  case (Cons x B)
  then have "xs = takeWhile P xs @ x # B" by (metis takeWhile_dropWhile_id)
  moreover have "\<not> P x" using Cons hd_dropWhile [of P xs] by simp
  moreover have "\<forall>y\<in>set (takeWhile P xs). P y" using set_takeWhileD by fast
  moreover have "first_of (dropWhile P xs) NULL = x" unfolding Cons by simp
  moreover have "x \<noteq> NULL" using Cons set_dropWhileD [of x P xs] assms by (metis list.set_intros(1))
  ultimately show ?thesis by blast
qed

lemma mmap_find_ok:
  assumes inv: "mmap_inv s m xs" and lk: "mmap_locked me s m"
  shows "(\<exists>A x B v. xs = A @ x # B \<and> vmrs s x = Some v \<and> v_start v \<le> a \<and> a \<le> v_end v \<and> mmap_find me m a s = Some x \<and> x \<noteq> NULL) \<or>
    unat a \<notin> covered (vregs s xs) \<and> mmap_find me m a s = Some NULL"
proof -
  obtain mp where mp: "maps s m = Some mp" "m \<noteq> NULL" "dchain v_next v_prev (vmrs s) NULL xs NULL" "NULL \<notin> set xs"
      "vmr_head mp = first_of xs NULL"
    using mmap_inv_list [OF inv] by metis
  let ?P = "\<lambda>x. \<not> (v_start (the (vmrs s x)) \<le> a \<and> a \<le> v_end (the (vmrs s x)))"
  have f: "mmap_find me m a s = Some (first_of (dropWhile ?P xs) NULL)"
    using forlinked_next [OF mp(3,4), of "\<lambda>_ v. v_start v \<le> a \<and> a \<le> v_end v"] mp lk
    by (simp add: mmap_find_def hget_nonNULL)
  have P: "?P x \<longleftrightarrow> unat a \<notin> span (vreg_at (vmrs s) x)" if x: "x \<in> set xs" for x
  proof -
    obtain v where "vmrs s x = Some v" "vmr_in m v" "vreg_at (vmrs s) x = vreg v" using mmap_inv_at [OF inv x] by metis
    then show ?thesis by (simp add: span_vreg vmr_in_def)
  qed
  from first_of_dropWhile [OF mp(4), of ?P] show ?thesis
  proof
    assume "(\<forall>x\<in>set xs. ?P x) \<and> first_of (dropWhile ?P xs) NULL = NULL"
    then show ?thesis using P f by (auto simp: covered_def)
  next
    assume "\<exists>A x B. xs = A @ x # B \<and> (\<forall>y\<in>set A. ?P y) \<and> \<not> ?P x \<and> first_of (dropWhile ?P xs) NULL = x \<and> x \<noteq> NULL"
    then obtain A x B where x: "xs = A @ x # B" "\<not> ?P x" "first_of (dropWhile ?P xs) NULL = x" "x \<noteq> NULL" by blast
    obtain v where "vmrs s x = Some v" using mmap_inv_at [OF inv, of x] x(1) by auto
    then show ?thesis using x f by auto
  qed
qed

text \<open>An address in a hole splits the list of regions.\<close>

lemma hole_split:
  assumes inv: "mmap_inv s m xs" and a: "unat a \<notin> covered (vregs s xs)"
  obtains A B where "xs = A @ B" "\<forall>x\<in>set A. \<forall>v. vmrs s x = Some v \<longrightarrow> v_start v \<le> a \<and> v_end v < a"
    "\<forall>x\<in>set B. \<forall>v. vmrs s x = Some v \<longrightarrow> a < v_start v"
    "\<forall>q\<in>set (vregs s A). fst q + snd q \<le> unat a" "\<forall>q\<in>set (vregs s B). unat a < fst q"
proof -
  have ord: "ordered (vregs s xs)" using inv by (simp add: mmap_inv_def)
  obtain RA RB where r: "vregs s xs = RA @ RB" "\<forall>q\<in>set RA. fst q + snd q \<le> unat a" "\<forall>q\<in>set RB. unat a < fst q"
    by (rule ordered_split [OF ord a])
  obtain A B where ab: "xs = A @ B" "vregs s A = RA" "vregs s B = RB" using r(1) by (auto simp: map_eq_append_conv)
  have "v_start v \<le> a \<and> v_end v < a" if x: "x \<in> set A" and v: "vmrs s x = Some v" for x v
  proof -
    have "vmr_in m v" using mmap_inv_at [OF inv, of x] x ab(1) v by auto
    then have "v_start v \<le> v_end v" by (simp add: vmr_in_def)
    moreover have "vreg v \<in> set RA" using x ab(2) v vreg_at [of "vmrs s" x v] by force
    then have "fst (vreg v) + snd (vreg v) \<le> unat a" using r(2) by simp
    ultimately show ?thesis using vreg_end [of v] by (auto simp: word_less_nat_alt word_le_nat_alt)
  qed
  moreover have "a < v_start v" if x: "x \<in> set B" and v: "vmrs s x = Some v" for x v
  proof -
    have "vreg v \<in> set RB" using x ab(3) v vreg_at [of "vmrs s" x v] by force
    then show ?thesis using r(3) by (auto simp: vreg_def word_less_nat_alt)
  qed
  ultimately show thesis using that [OF ab(1)] ab(2,3) r(2,3) by simp
qed

lemma dropWhile_split: "\<forall>x\<in>set A. P x \<Longrightarrow> B = [] \<or> \<not> P (hd B) \<Longrightarrow> dropWhile P (A @ B) = B"
  by (cases B) (auto simp: dropWhile_append)

lemma find_neighbours:
  assumes inv: "mmap_inv s m (A @ B)" and lk: "mmap_locked me s m" and f: "mmap_find me m a s = Some NULL"
    and A: "\<forall>x\<in>set A. \<forall>v. vmrs s x = Some v \<longrightarrow> v_start v \<le> a \<and> v_end v < a"
    and B: "\<forall>x\<in>set B. \<forall>v. vmrs s x = Some v \<longrightarrow> a < v_start v"
  shows "mmap_find_vmr_next me m a True s = Some (NULL, first_of B NULL)"
    "mmap_find_vmr_prev me m a True s = Some (NULL, last_of A NULL)"
proof -
  obtain mp where mp: "maps s m = Some mp" "m \<noteq> NULL" "dchain v_next v_prev (vmrs s) NULL (A @ B) NULL" "NULL \<notin> set (A @ B)"
      "vmr_head mp = first_of (A @ B) NULL" "vmr_tail mp = last_of (A @ B) NULL"
    using mmap_inv_list [OF inv] by metis
  have sm: "\<exists>v. vmrs s x = Some v \<and> vmr_in m v" if "x \<in> set (A @ B)" for x using inv that by (simp add: mmap_inv_def)
  have "dropWhile (\<lambda>x. \<not> a < v_start (the (vmrs s x))) (A @ B) = B"
  proof (rule dropWhile_split)
    show "\<forall>x\<in>set A. \<not> a < v_start (the (vmrs s x))"
    proof
      fix x assume x: "x \<in> set A"
      then obtain v where v: "vmrs s x = Some v" using sm by auto
      then have "v_start v \<le> a" using A x by simp
      then show "\<not> a < v_start (the (vmrs s x))" using v by simp
    qed
    show "B = [] \<or> \<not> \<not> a < v_start (the (vmrs s (hd B)))"
    proof (cases B)
      case (Cons x B')
      then obtain v where v: "vmrs s x = Some v" using sm by auto
      then have "a < v_start v" using B Cons by simp
      then show ?thesis using v Cons by simp
    qed simp
  qed
  then show "mmap_find_vmr_next me m a True s = Some (NULL, first_of B NULL)"
    using forlinked_next [OF mp(3,4), of "\<lambda>_ v. a < v_start v"] mp f lk by (simp add: mmap_find_vmr_next_def hget_nonNULL)
  have "dropWhile (\<lambda>x. \<not> v_end (the (vmrs s x)) < a) (rev B @ rev A) = rev A"
  proof (rule dropWhile_split)
    show "\<forall>x\<in>set (rev B). \<not> v_end (the (vmrs s x)) < a"
    proof
      fix x assume x: "x \<in> set (rev B)"
      then obtain v where v: "vmrs s x = Some v" "vmr_in m v" using sm by auto
      then have "a < v_start v" using B x by simp
      then show "\<not> v_end (the (vmrs s x)) < a" using v by (auto simp: vmr_in_def)
    qed
    show "rev A = [] \<or> \<not> \<not> v_end (the (vmrs s (hd (rev A)))) < a"
    proof (cases "rev A")
      case (Cons x A')
      then have x: "x \<in> set A" by (metis list.set_intros(1) set_rev)
      then obtain v where v: "vmrs s x = Some v" using sm by auto
      then have "v_end v < a" using A x by simp
      then show ?thesis using v Cons by simp
    qed simp
  qed
  moreover have "first_of (rev A) NULL = last_of A NULL" by (cases A rule: rev_cases) auto
  ultimately show "mmap_find_vmr_prev me m a True s = Some (NULL, last_of A NULL)"
    using forlinked_prev [OF mp(3,4), of "\<lambda>_ v. v_end v < a"] mp f lk by (simp add: mmap_find_vmr_prev_def hget_nonNULL)
qed

text \<open>\<open>mmap_holesize\<close> measures the gap that begins at an address.\<close>

lemma mmap_holesize_ok:
  assumes inv: "mmap_inv s m xs" and lk: "mmap_locked me s m"
  obtains err n where "mmap_holesize me m a True s = Some (err, n)" "\<forall>k. gap user_range (vregs s xs) (unat a) k \<longleftrightarrow> k \<le> unat n"
    "err = (if n = 0 then - EINVAL else 0)" "unat a + unat n < 2 ^ 64"
proof -
  obtain mp where mp: "maps s m = Some mp" "m \<noteq> NULL" "m_limit mp = mmap_limit" "NULL \<notin> set xs"
    using mmap_inv_list [OF inv] by metis
  show thesis
  proof (cases "mmap_limit < a")
    case True
    then have "unat a \<notin> user_range" by (simp add: ulimit_def word_less_nat_alt)
    then show ?thesis using True mp lk gap_inside [of "unat a" "vregs s xs" user_range] unat_u64_lt [of a]
      by (intro that [of "- EINVAL" 0]) (auto simp: mmap_holesize_def hget_nonNULL)
  next
    case lim: False
    then have al: "unat a < ulimit" by (simp add: ulimit_def word_less_nat_alt)
    from mmap_find_ok [OF inv lk, of a] show ?thesis
    proof
      assume "\<exists>A x B v. xs = A @ x # B \<and> vmrs s x = Some v \<and> v_start v \<le> a \<and> a \<le> v_end v \<and> mmap_find me m a s = Some x \<and> x \<noteq> NULL"
      then obtain A x B v where x: "xs = A @ x # B" "vmrs s x = Some v" "v_start v \<le> a" "a \<le> v_end v"
          "mmap_find me m a s = Some x" "x \<noteq> NULL" by blast
      then have "unat a \<in> covered (vregs s xs)" by (simp add: vreg_at span_vreg)
      then show ?thesis using x(5,6) lim mp lk gap_inside [of "unat a" "vregs s xs" user_range] unat_u64_lt [of a]
        by (intro that [of "- EINVAL" 0]) (auto simp: mmap_holesize_def hget_nonNULL)
    next
      assume h: "unat a \<notin> covered (vregs s xs) \<and> mmap_find me m a s = Some NULL"
      obtain A B where ab: "xs = A @ B" "\<forall>x\<in>set A. \<forall>v. vmrs s x = Some v \<longrightarrow> v_start v \<le> a \<and> v_end v < a"
          "\<forall>x\<in>set B. \<forall>v. vmrs s x = Some v \<longrightarrow> a < v_start v"
          "\<forall>q\<in>set (vregs s A). fst q + snd q \<le> unat a" "\<forall>q\<in>set (vregs s B). unat a < fst q"
        by (rule hole_split [OF inv, of a]) (use h in auto)
      note nx = find_neighbours(1) [OF inv [unfolded ab(1)] lk _ ab(2,3)]
      have "ordered (vregs s A @ vregs s B)" using inv ab(1) by (simp add: mmap_inv_def)
      note g = gap_reach [OF this ab(4,5) _ al]
      have cov: "covered (vregs s A @ vregs s B) \<subseteq> user_range" using mmap_inv_covered [OF inv] ab(1) by simp
      have gk: "gap user_range (vregs s xs) (unat a) k \<longleftrightarrow> unat a + k \<le> gap_end ulimit (vregs s B)" for k
        using g [OF cov, of k] ab(1) by simp
      show ?thesis
      proof (cases B)
        case Nil
        then have ge: "gap_end ulimit (vregs s B) = ulimit" by (simp add: gap_end_def)
        have n: "unat (mmap_limit + 1 - a) = ulimit - unat a"
          using lim by (simp add: ulimit_eq unat_sub mmap_limit_def word_le_nat_alt word_less_nat_alt)
        show ?thesis
        proof (rule that)
          show "mmap_holesize me m a True s = Some (0, mmap_limit + 1 - a)"
            using lim mp lk h nx Nil by (simp add: mmap_holesize_def hget_nonNULL)
          show "\<forall>k. gap user_range (vregs s xs) (unat a) k \<longleftrightarrow> k \<le> unat (mmap_limit + 1 - a)"
            unfolding n gk ge using al by auto
          show "0 = (if mmap_limit + 1 - a = 0 then - EINVAL else 0)" using n al by (metis diff_is_0_eq not_less unat_0)
          show "unat a + unat (mmap_limit + 1 - a) < 2 ^ 64" unfolding n using al by (simp add: ulimit_eq)
        qed
      next
        case (Cons b B')
        then obtain v where v: "vmrs s b = Some v" "vmr_in m v" "vreg_at (vmrs s) b = vreg v" "b \<noteq> NULL"
          using mmap_inv_at [OF inv, of b] ab(1) by auto
        then have av: "a < v_start v" using ab(3) Cons by simp
        have ge: "gap_end ulimit (vregs s B) = unat (v_start v)" using Cons v(3) by (simp add: gap_end_def vreg_def)
        have n: "unat (v_start v - a) = unat (v_start v) - unat a" using av by (simp add: unat_sub)
        show ?thesis
        proof (rule that)
          show "mmap_holesize me m a True s = Some (0, v_start v - a)"
            using lim mp lk h nx Cons v by (simp add: mmap_holesize_def hget_nonNULL)
          show "\<forall>k. gap user_range (vregs s xs) (unat a) k \<longleftrightarrow> k \<le> unat (v_start v - a)"
            unfolding n gk ge using av by (auto simp: word_less_nat_alt)
          show "0 = (if v_start v - a = 0 then - EINVAL else 0)" using av by auto
          show "unat a + unat (v_start v - a) < 2 ^ 64" unfolding n using av unat_u64_lt [of "v_start v"] by (simp add: word_less_nat_alt)
        qed
      qed
    qed
  qed
qed

text \<open>The check of \<open>mmap_mapin\<close> ends, does not panic, and decides whether the range is free.\<close>

lemma mapin_check_ok:
  assumes inv: "mmap_inv s m xs" and lk: "mmap_locked me s m" and e: "e \<le> mmap_limit"
  shows "mapin_check me m a e s = Some (if {unat a..<Suc (unat e)} \<inter> covered (vregs s xs) = {} then 0 else - EEXIST)"
proof (induction "Suc (unat e) - unat a" arbitrary: a rule: less_induct)
  case less
  let ?c = "covered (vregs s xs)"
  show ?case
  proof (cases "a \<le> e")
    case False
    then have "{unat a..<Suc (unat e)} = {}" by (simp add: word_le_nat_alt)
    then show ?thesis using False by (simp add: mapin_check.simps [of me m a])
  next
    case ae: True
    from mmap_find_ok [OF inv lk, of a] show ?thesis
    proof
      assume "\<exists>A x B v. xs = A @ x # B \<and> vmrs s x = Some v \<and> v_start v \<le> a \<and> a \<le> v_end v \<and> mmap_find me m a s = Some x \<and> x \<noteq> NULL"
      then obtain A x B v where x: "xs = A @ x # B" "vmrs s x = Some v" "v_start v \<le> a" "a \<le> v_end v"
          "mmap_find me m a s = Some x" "x \<noteq> NULL" by blast
      then have "unat a \<in> ?c" by (simp add: vreg_at span_vreg)
      moreover have "unat a \<in> {unat a..<Suc (unat e)}" using ae by (simp add: word_le_nat_alt)
      ultimately have "{unat a..<Suc (unat e)} \<inter> ?c \<noteq> {}" by blast
      then show ?thesis using x(5,6) ae by (simp add: mapin_check.simps [of me m a])
    next
      assume h: "unat a \<notin> ?c \<and> mmap_find me m a s = Some NULL"
      obtain err n where n: "mmap_holesize me m a True s = Some (err, n)" "\<forall>k. gap user_range (vregs s xs) (unat a) k \<longleftrightarrow> k \<le> unat n"
          "unat a + unat n < 2 ^ 64"
        by (rule mmap_holesize_ok [OF inv lk])
      have "unat a < ulimit" using ae e by (simp add: word_le_nat_alt ulimit_def)
      then have "gap user_range (vregs s xs) (unat a) 1" using h by (auto simp: gap_def)
      then have n1: "1 \<le> unat n" using n(2) by blast
      then have n0: "n \<noteq> 0" by auto
      have an: "unat (a + n) = unat a + unat n" using n(3) by (simp add: unat_word_ariths)
      have "{unat a..<unat a + unat n} \<inter> ?c = {}" using n(2) by (auto simp: gap_def)
      then have eq: "{unat a..<Suc (unat e)} \<inter> ?c = {unat (a + n)..<Suc (unat e)} \<inter> ?c" unfolding an by force
      have "mapin_check me m (a + n) e s = Some (if {unat (a + n)..<Suc (unat e)} \<inter> ?c = {} then 0 else - EEXIST)"
        by (rule less.hyps) (use an n1 ae in \<open>simp add: word_le_nat_alt\<close>)
      then show ?thesis unfolding eq using h n(1) n0 ae by (simp add: mapin_check.simps [of me m a])
    qed
  qed
qed

text \<open>The search for the place of a new region.\<close>

lemma mapin_search_ok:
  assumes "dchain v_next v_prev h pr xs NULL" "NULL \<notin> set xs"
    and "\<forall>x\<in>set A. \<forall>v. h x = Some v \<longrightarrow> v_start v < a \<and> upper_bound v \<le> a" "\<forall>x\<in>set B. \<forall>v. h x = Some v \<longrightarrow> a \<le> v_start v"
    and "xs = A @ B"
  shows "mapin_search a l (first_of xs NULL) h = Some (last_of A l, first_of B NULL)"
  using assms
proof (induction A arbitrary: xs pr l)
  case Nil
  then show ?case
  proof (cases B)
    case (Cons b B')
    then obtain v where "h b = Some v" "b \<noteq> NULL" using Nil.prems(1,2,5) by auto
    then show ?thesis using Nil.prems(4,5) Cons by (auto simp: mapin_search.simps [of a l b] hget_nonNULL)
  qed (simp add: mapin_search.simps)
next
  case (Cons x A)
  then obtain v where v: "h x = Some v" "v_next v = first_of (A @ B) NULL" "x \<noteq> NULL" "dchain v_next v_prev h x (A @ B) NULL" by auto
  have "mapin_search a x (first_of (A @ B) NULL) h = Some (last_of A x, first_of B NULL)"
    by (rule Cons.IH [OF v(4)]) (use Cons.prems in auto)
  then show ?case using v Cons.prems(3,5) by (simp add: mapin_search.simps [of a l x] hget_nonNULL)
qed

end
