(* ===== verification/MmapList.thy ===== *)
theory MmapList
  imports Mmap
begin

text \<open>
  The list of an address space under insertion and removal: \<open>mmap_mapin\<close> puts a region at its
  place when its range is free, and \<open>mmap_remove\<close> takes one out; both change no other region
  but for its links and, on removal, the reference count of a last remaining one.
\<close>

section \<open>Linking a region into the list\<close>

text \<open>What linking the region \<open>r\<close> between \<open>A\<close> and \<open>B\<close> leaves: the other regions change their links only,
  and \<open>r\<close> has gained two references.\<close>

definition linked :: "mm \<Rightarrow> ptr \<Rightarrow> ptr list \<Rightarrow> ptr \<Rightarrow> ptr list \<Rightarrow> mm \<Rightarrow> bool" where
  "linked s m A r B s' \<longleftrightarrow> mmap_list s' m (A @ r # B)
     \<and> (\<forall>y. y \<noteq> r \<longrightarrow> map_option vr.payload (vmrs s' y) = map_option vr.payload (vmrs s y))
     \<and> (\<forall>y. y \<notin> set (A @ r # B) \<longrightarrow> vmrs s' y = vmrs s y)
     \<and> (\<exists>v p n. vmrs s r = Some v \<and> vmrs s' r = Some (v\<lparr>v_prev := p, v_next := n, v_refs := 2 + v_refs v\<rparr>))
     \<and> (\<exists>mp h t. maps s m = Some mp \<and> maps s' = (maps s)(m \<mapsto> mp\<lparr>vmr_head := h, vmr_tail := t\<rparr>))
     \<and> mm_mem s' = mm_mem s \<and> pg_log s' = pg_log s \<and> pg_ret s' = pg_ret s \<and> pg_dirs s' = pg_dirs s"

lemmas upd_defs = rupd_def mupd_def refs_inc_def refs_dec_def hupd_def

lemma linkedI:
  assumes "maps s m = Some mp" "m \<noteq> NULL" "m_limit mp = mmap_limit"
    "maps s' = (maps s)(m \<mapsto> mp\<lparr>vmr_head := first_of (A @ r # B) NULL, vmr_tail := last_of (A @ r # B) NULL\<rparr>)"
    "dchain v_next v_prev (vmrs s') NULL (A @ r # B) NULL" "distinct (A @ r # B)" "NULL \<notin> set (A @ r # B)"
    "\<forall>y. y \<noteq> r \<longrightarrow> map_option vr.payload (vmrs s' y) = map_option vr.payload (vmrs s y)"
    "\<forall>y. y \<notin> set (A @ r # B) \<longrightarrow> vmrs s' y = vmrs s y"
    "vmrs s r = Some v" "vmrs s' r = Some (v\<lparr>v_prev := p, v_next := n, v_refs := 2 + v_refs v\<rparr>)"
    "mm_mem s' = mm_mem s" "pg_log s' = pg_log s" "pg_ret s' = pg_ret s" "pg_dirs s' = pg_dirs s"
  shows "linked s m A r B s'"
proof -
  have "mmap_list s' m (A @ r # B)" unfolding mmap_list_def dlist_def using assms(2-7) by simp
  then show ?thesis unfolding linked_def using assms by blast
qed

lemma same_ends [simp]: "vmr_head mp = p \<Longrightarrow> mp\<lparr>vmr_head := p\<rparr> = mp" "vmr_tail mp = p \<Longrightarrow> mp\<lparr>vmr_tail := p\<rparr> = mp"
  by auto

lemma same_at: "f p = Some x \<Longrightarrow> f(p \<mapsto> x) = f"
  by auto

lemma payload_links [simp]: "vr.payload (v\<lparr>v_prev := p\<rparr>) = vr.payload v" "vr.payload (v\<lparr>v_next := p\<rparr>) = vr.payload v"
  by (simp_all add: vr.payload_def)

lemma mapin_left_ok:
  assumes l: "mmap_list s m (A @ l # B)" and r: "vmrs s r = Some v" "r \<notin> set (A @ l # B)" "r \<noteq> NULL"
  obtains s' where "mapin_left m r l s = Some s'" "linked s m (A @ [l]) r B s'"
proof -
  obtain mp where mp: "maps s m = Some mp" "m \<noteq> NULL" "m_limit mp = mmap_limit" "dchain v_next v_prev (vmrs s) NULL (A @ l # B) NULL"
      "distinct (A @ l # B)" "NULL \<notin> set (A @ l # B)" "vmr_head mp = first_of (A @ l # B) NULL" "vmr_tail mp = last_of (A @ l # B) NULL"
    using l by (auto simp: mmap_list_def dlist_def)
  then obtain lv where lv: "vmrs s l = Some lv" "v_next lv = first_of B NULL" "v_prev lv = last_of A NULL" "l \<noteq> NULL"
    by (auto simp: dchain_append)
  have ch: "dchain v_next v_prev (vmrs s) NULL A l" "dchain v_next v_prev (vmrs s) l B NULL"
    using mp(4) by (simp_all add: dchain_append)
  have ne: "r \<noteq> l" "l \<noteq> r" using r(2) by auto
  let ?v = "v\<lparr>v_prev := l, v_next := first_of B NULL, v_refs := 2 + v_refs v\<rparr>"
  show thesis
  proof (cases B)
    case Nil
    let ?h = "(vmrs s)(r \<mapsto> ?v, l \<mapsto> lv\<lparr>v_next := r\<rparr>)"
    let ?s = "s\<lparr>maps := (maps s)(m \<mapsto> mp\<lparr>vmr_tail := r\<rparr>), vmrs := ?h\<rparr>"
    have "mapin_left m r l s = Some ?s"
      using r lv mp Nil ne by (simp add: mapin_left_def upd_defs hget_nonNULL fun_upd_twist)
    moreover have "linked s m (A @ [l]) r B ?s"
    proof (rule linkedI [OF mp(1-3)])
      show "dchain v_next v_prev (vmrs ?s) NULL ((A @ [l]) @ r # B) NULL"
        using ch mp(5) lv r Nil ne by (simp add: dchain_append)
    qed (use mp lv r Nil ne in simp_all)
    ultimately show ?thesis using that by blast
  next
    case (Cons b B')
    then obtain bv where bv: "vmrs s b = Some bv" "v_next bv = first_of B' NULL" "v_prev bv = l" "b \<noteq> NULL" "b \<noteq> l" "b \<noteq> r" "r \<noteq> b" "l \<noteq> b"
      using mp r(2) by (auto simp: dchain_append)
    let ?h = "(vmrs s)(r \<mapsto> ?v, b \<mapsto> bv\<lparr>v_prev := r\<rparr>, l \<mapsto> lv\<lparr>v_next := r\<rparr>)"
    let ?s = "s\<lparr>vmrs := ?h\<rparr>"
    have "mapin_left m r l s = Some ?s"
      using r lv mp Cons ne bv by (simp add: mapin_left_def upd_defs hget_nonNULL fun_upd_twist)
    moreover have "linked s m (A @ [l]) r B ?s"
    proof (rule linkedI [OF mp(1-3)])
      show "dchain v_next v_prev (vmrs ?s) NULL ((A @ [l]) @ r # B) NULL"
        using ch mp(5) lv r Cons ne bv by (simp add: dchain_append)
      show "maps ?s = (maps s)(m \<mapsto> mp\<lparr>vmr_head := first_of ((A @ [l]) @ r # B) NULL, vmr_tail := last_of ((A @ [l]) @ r # B) NULL\<rparr>)"
        using mp Cons by (simp add: same_at)
    qed (use mp lv r Cons ne bv in simp_all)
    ultimately show ?thesis using that by blast
  qed
qed

lemma links_swap: "v\<lparr>v_next := b, v_prev := a\<rparr> = v\<lparr>v_prev := a, v_next := b\<rparr>"
    "mp\<lparr>vmr_tail := p, vmr_head := q\<rparr> = mp\<lparr>vmr_head := q, vmr_tail := p\<rparr>"
  by simp_all

lemma mapin_right_ok:
  assumes l: "mmap_list s m (b # B)" and r: "vmrs s r = Some v" "r \<notin> set (b # B)" "r \<noteq> NULL"
  obtains s' where "mapin_right m r b s = Some s'" "linked s m [] r (b # B) s'"
proof -
  obtain mp where mp: "maps s m = Some mp" "m \<noteq> NULL" "m_limit mp = mmap_limit" "dchain v_next v_prev (vmrs s) NULL (b # B) NULL"
      "distinct (b # B)" "NULL \<notin> set (b # B)" "vmr_head mp = b" "vmr_tail mp = last_of (b # B) NULL"
    using l by (auto simp: mmap_list_def dlist_def)
  then obtain bv where bv: "vmrs s b = Some bv" "v_next bv = first_of B NULL" "v_prev bv = NULL" "b \<noteq> NULL" by auto
  have ne: "r \<noteq> b" "b \<noteq> r" using r(2) by auto
  let ?v = "v\<lparr>v_prev := NULL, v_next := b, v_refs := 2 + v_refs v\<rparr>"
  let ?s = "s\<lparr>maps := (maps s)(m \<mapsto> mp\<lparr>vmr_head := r\<rparr>), vmrs := (vmrs s)(r \<mapsto> ?v, b \<mapsto> bv\<lparr>v_prev := r\<rparr>)\<rparr>"
  have "mapin_right m r b s = Some ?s"
    using r bv mp ne by (simp add: mapin_right_def upd_defs links_swap hget_nonNULL fun_upd_twist)
  moreover have "linked s m [] r (b # B) ?s"
  proof (rule linkedI [OF mp(1-3)])
    show "dchain v_next v_prev (vmrs ?s) NULL ([] @ r # b # B) NULL" using mp(4,5) bv r ne by simp
  qed (use mp bv r ne in simp_all)
  ultimately show ?thesis using that by blast
qed

lemma mmap_list_frame:
  assumes "mmap_list s m xs" "r \<notin> set xs"
  shows "mmap_list (s\<lparr>vmrs := (vmrs s)(r := w)\<rparr>) m xs"
  using assms by (auto simp: mmap_list_def)

lemma linked_relink:
  assumes "linked (s\<lparr>vmrs := (vmrs s)(r \<mapsto> v\<lparr>v_prev := p, v_next := n\<rparr>)\<rparr>) m A r B s'" "vmrs s r = Some v"
  shows "linked s m A r B s'"
proof -
  obtain p' n' where "vmrs s' r = Some (v\<lparr>v_prev := p', v_next := n', v_refs := 2 + v_refs v\<rparr>)"
    using assms(1) by (auto simp: linked_def)
  then show ?thesis using assms unfolding linked_def by simp
qed

lemma mapin_link_ok:
  assumes l: "mmap_list s m (A @ B)" and r: "vmrs s r = Some v" "r \<notin> set (A @ B)" "r \<noteq> NULL"
    and A: "\<forall>x\<in>set A. \<forall>w. vmrs s x = Some w \<longrightarrow> v_start w < v_start v \<and> upper_bound w \<le> v_start v"
    and B: "\<forall>x\<in>set B. \<forall>w. vmrs s x = Some w \<longrightarrow> v_start v \<le> v_start w"
  obtains s' where "mapin_link m r s = Some s'" "linked s m A r B s'"
proof -
  let ?v = "v\<lparr>v_prev := NULL, v_next := NULL\<rparr>"
  let ?s = "s\<lparr>vmrs := (vmrs s)(r \<mapsto> ?v)\<rparr>"
  have l': "mmap_list ?s m (A @ B)" using mmap_list_frame [OF l r(2)] by simp
  then obtain mp where mp: "maps s m = Some mp" "m \<noteq> NULL" "m_limit mp = mmap_limit" "dchain v_next v_prev (vmrs ?s) NULL (A @ B) NULL"
      "distinct (A @ B)" "NULL \<notin> set (A @ B)" "vmr_head mp = first_of (A @ B) NULL" "vmr_tail mp = last_of (A @ B) NULL"
    by (auto simp: mmap_list_def dlist_def)
  have r': "vmrs ?s r = Some ?v" by simp
  show thesis
  proof (cases "A @ B = []")
    case True
    let ?s' = "s\<lparr>maps := (maps s)(m \<mapsto> mp\<lparr>vmr_head := r, vmr_tail := r\<rparr>), vmrs := (vmrs s)(r \<mapsto> ?v\<lparr>v_refs := 2 + v_refs v\<rparr>)\<rparr>"
    have "mapin_link m r s = Some ?s'"
      using True r mp by (simp add: mapin_link_def upd_defs links_swap hget_nonNULL)
    moreover have "linked s m A r B ?s'"
      by (rule linkedI [OF mp(1-3)]) (use True r mp in simp_all)
    ultimately show ?thesis using that by blast
  next
    case False
    have srch: "mapin_search (v_start v) NULL (first_of (A @ B) NULL) (vmrs ?s) = Some (last_of A NULL, first_of B NULL)"
      by (rule mapin_search_ok [OF mp(4,6)]) (use A B r(2) in auto)
    have hd: "first_of (A @ B) NULL \<noteq> NULL" using first_of_nonNULL [OF False mp(6)] .
    show ?thesis
    proof (cases A rule: rev_cases)
      case Nil
      then obtain b B' where b: "B = b # B'" using False by (cases B) auto
      obtain s' where s': "mapin_right m r b ?s = Some s'" "linked ?s m [] r B s'"
        by (rule mapin_right_ok [of ?s m b B']) (use l' r r' Nil b in auto)
      have "mapin_link m r s = Some s'"
        using s'(1) srch hd r mp(1,2,7) Nil b mp(6) by (simp add: mapin_link_def upd_defs links_swap hget_nonNULL)
      moreover have "linked s m A r B s'" using linked_relink [OF s'(2) r(1)] Nil by simp
      ultimately show ?thesis using that by blast
    next
      case (snoc A' l)
      have rl: "r \<noteq> l" "l \<noteq> NULL" using r(2) snoc mp(6) by auto
      obtain lv where lv: "vmrs s l = Some lv" using mp(4) snoc rl(1) by (auto simp: dchain_append)
      then have "v_start lv < v_start v" using A snoc by simp
      then have ok: "\<not> v_start v < v_start lv" by simp
      obtain s' where s': "mapin_left m r l ?s = Some s'" "linked ?s m (A' @ [l]) r B s'"
        by (rule mapin_left_ok [of ?s m A' l B]) (use l' r r' snoc in auto)
      have "mapin_link m r s = Some s'"
        using s'(1) srch hd r mp(1,2,7) snoc lv ok rl by (simp add: mapin_link_def upd_defs links_swap hget_nonNULL)
      moreover have "linked s m A r B s'" using linked_relink [OF s'(2) r(1)] snoc by simp
      ultimately show ?thesis using that by blast
    qed
  qed
qed

section \<open>\<open>mmap_mapin\<close>\<close>

lemma payload_fields:
  assumes "map_option vr.payload (h' y) = map_option vr.payload (h y)"
  shows "vreg_at h' y = vreg_at h y" "h y = Some v \<Longrightarrow> \<exists>p n. h' y = Some (v\<lparr>v_prev := p, v_next := n\<rparr>)"
proof -
  have "vreg v = vreg w" if "vr.payload v = vr.payload w" for v w
    using arg_cong [OF that, of v_start] arg_cong [OF that, of v_end] by (simp add: vr.payload_def vreg_def)
  note pl = this
  show "vreg_at h' y = vreg_at h y"
  proof (cases "h y")
    case (Some v)
    obtain w where "h' y = Some w" "vr.payload w = vr.payload v" using assms Some by (cases "h' y") auto
    then show ?thesis using Some pl [of w v] by (simp add: vreg_at_def)
  qed (use assms in \<open>simp add: vreg_at_def\<close>)
  show "\<exists>p n. h' y = Some (v\<lparr>v_prev := p, v_next := n\<rparr>)" if hy: "h y = Some v"
  proof -
    obtain w where w: "h' y = Some w" "vr.payload w = vr.payload v" using assms hy by (cases "h' y") auto
    then have "w = v\<lparr>v_prev := v_prev w, v_next := v_next w\<rparr>"
      unfolding vr.payload_def by (cases v, cases w) simp
    then show ?thesis using w(1) by metis
  qed
qed

text \<open>The state after the region \<open>r\<close> was mapped between \<open>A\<close> and \<open>B\<close>.\<close>

definition mapped :: "mm \<Rightarrow> ptr \<Rightarrow> ptr list \<Rightarrow> ptr \<Rightarrow> ptr list \<Rightarrow> mm \<Rightarrow> bool" where
  "mapped s m A r B s' \<longleftrightarrow> mmap_inv s' m (A @ r # B)
     \<and> (\<forall>y. y \<noteq> r \<longrightarrow> map_option vr.payload (vmrs s' y) = map_option vr.payload (vmrs s y))
     \<and> (\<forall>y. y \<notin> set (A @ r # B) \<longrightarrow> vmrs s' y = vmrs s y)
     \<and> (\<exists>v p n. vmrs s r = Some v \<and> vmrs s' r = Some (v\<lparr>v_prev := p, v_next := n, v_refs := 2 + v_refs v, v_mmap := m\<rparr>)
          \<and> (\<exists>mp h t. maps s m = Some mp \<and> maps s' = (maps s)(m \<mapsto> mp\<lparr>vmr_head := h, vmr_tail := t,
               m_refs := m_refs mp + 1, m_used_space := m_used_space mp + vmr_size v\<rparr>)))
     \<and> mm_mem s' = mm_mem s \<and> pg_log s' = pg_log s \<and> pg_ret s' = pg_ret s \<and> pg_dirs s' = pg_dirs s"

lemma mapin_finish:
  assumes inv: "mmap_inv s m (A @ B)" and l: "linked s m A r B s1" and v: "vmrs s r = Some v" "v_start v \<le> v_end v" "v_end v \<le> mmap_limit"
    and r: "r \<noteq> NULL" "r \<notin> set (A @ B)"
    and o: "ordered (vregs s A @ vreg v # vregs s B)"
  obtains s2 s3 s4 where "rupd r (v_mmap_update (\<lambda>_. m)) s1 = Some s2"
    "mupd m (\<lambda>mp. mp\<lparr>m_refs := m_refs mp + 1\<rparr>) s2 = Some s3"
    "mupd m (\<lambda>mp. mp\<lparr>m_used_space := m_used_space mp + vmr_size v\<rparr>) s3 = Some s4" "mapped s m A r B s4"
proof -
  obtain p n where v1: "vmrs s1 r = Some (v\<lparr>v_prev := p, v_next := n, v_refs := 2 + v_refs v\<rparr>)"
    using l v(1) by (auto simp: linked_def)
  obtain mp h t where mp: "maps s m = Some mp" "maps s1 = (maps s)(m \<mapsto> mp\<lparr>vmr_head := h, vmr_tail := t\<rparr>)"
    using l by (auto simp: linked_def)
  have m0: "m \<noteq> NULL" using inv by (simp add: mmap_inv_def mmap_list_def)
  let ?v = "v\<lparr>v_prev := p, v_next := n, v_refs := 2 + v_refs v, v_mmap := m\<rparr>"
  let ?mp = "mp\<lparr>vmr_head := h, vmr_tail := t, m_refs := m_refs mp + 1, m_used_space := m_used_space mp + vmr_size v\<rparr>"
  let ?s2 = "s1\<lparr>vmrs := (vmrs s1)(r \<mapsto> ?v)\<rparr>"
  let ?s4 = "?s2\<lparr>maps := (maps s)(m \<mapsto> ?mp)\<rparr>"
  have pl: "map_option vr.payload (vmrs ?s4 y) = map_option vr.payload (vmrs s y)" if "y \<noteq> r" for y
    using l that by (simp add: linked_def)
  have "dlist v_next v_prev (vmrs s1) h t (A @ r # B)" and lim: "m_limit mp = mmap_limit"
    using l mp by (auto simp: linked_def mmap_list_def)
  moreover have "dchain v_next v_prev (vmrs ?s4) pr xs nx = dchain v_next v_prev (vmrs s1) pr xs nx" for pr xs nx
    using v1 by (induction xs arbitrary: pr) auto
  ultimately have "mmap_list ?s4 m (A @ r # B)" using m0 by (simp add: mmap_list_def dlist_def)
  moreover have "\<exists>v. vmrs ?s4 x = Some v \<and> vmr_in m v" if x: "x \<in> set (A @ r # B)" for x
  proof (cases "x = r")
    case True
    then show ?thesis using v by (simp add: vmr_in_def)
  next
    case False
    then obtain w where w: "vmrs s x = Some w" "vmr_in m w" using inv x by (auto simp: mmap_inv_def)
    then show ?thesis using payload_fields(2) [of "vmrs ?s4" x "vmrs s" w, OF pl [OF False] w(1)] False by (auto simp: vmr_in_def)
  qed
  moreover have rg: "vregs ?s4 (A @ r # B) = vregs s A @ vreg v # vregs s B"
  proof -
    have "vreg_at (vmrs ?s4) x = vreg_at (vmrs s) x" if "x \<in> set (A @ B)" for x
      using payload_fields(1) [of "vmrs ?s4" x "vmrs s", OF pl] that r(2) by blast
    moreover have "vreg_at (vmrs ?s4) r = vreg v" by (simp add: vreg_at_def vreg_def)
    ultimately show ?thesis by simp
  qed
  ultimately have "mmap_inv ?s4 m (A @ r # B)" unfolding mmap_inv_def rg using o by blast
  then have "mapped s m A r B ?s4"
    unfolding mapped_def using pl l v(1) mp(1) by (auto simp: linked_def)
  moreover have "rupd r (v_mmap_update (\<lambda>_. m)) s1 = Some ?s2" using v1 r by (simp add: upd_defs hget_nonNULL)
  moreover have "mupd m (\<lambda>mp. mp\<lparr>m_refs := m_refs mp + 1\<rparr>) ?s2 = Some (?s2\<lparr>maps := (maps s)(m \<mapsto> mp\<lparr>vmr_head := h, vmr_tail := t, m_refs := m_refs mp + 1\<rparr>)\<rparr>)"
    using mp m0 by (simp add: upd_defs hget_nonNULL)
  moreover have "mupd m (\<lambda>mp. mp\<lparr>m_used_space := m_used_space mp + vmr_size v\<rparr>)
      (?s2\<lparr>maps := (maps s)(m \<mapsto> mp\<lparr>vmr_head := h, vmr_tail := t, m_refs := m_refs mp + 1\<rparr>)\<rparr>) = Some ?s4"
    using m0 by (simp add: upd_defs hget_nonNULL)
  ultimately show thesis using that by blast
qed

lemma mmap_contains_ok:
  assumes inv: "mmap_inv s m xs" and lk: "mmap_locked me s m" and r: "r \<noteq> NULL"
  shows "mmap_contains me m r s = Some (if r \<in> set xs then 1 else 0)"
proof -
  obtain mp where mp: "maps s m = Some mp" "m \<noteq> NULL" "dchain v_next v_prev (vmrs s) NULL xs NULL" "NULL \<notin> set xs"
      "vmr_head mp = first_of xs NULL"
    using mmap_inv_list [OF inv] by metis
  have f: "forlinked v_next (\<lambda>tmp _. tmp = r) (first_of xs NULL) (vmrs s) = Some (first_of (dropWhile (\<lambda>x. \<not> x = r) xs) NULL)"
    by (rule forlinked_next [OF mp(3,4)])
  have "first_of (dropWhile (\<lambda>x. \<not> x = r) xs) NULL \<noteq> NULL \<longleftrightarrow> r \<in> set xs"
    using first_of_dropWhile [OF mp(4), of "\<lambda>x. \<not> x = r"] by auto
  then show ?thesis using mp lk r f by (simp add: mmap_contains_def hget_nonNULL)
qed

lemma vmr_size_nonzero: "v_start v \<le> v_end v \<Longrightarrow> v_end v \<le> mmap_limit \<Longrightarrow> vmr_size v \<noteq> 0"
  using vmr_in_bounds(2,4) [of "v_mmap v" v] by (auto simp: vmr_in_def)

lemma mmap_mapin_limit:
  assumes inv: "mmap_inv s m xs" and lk: "mmap_locked me s m" and r: "vmrs s r = Some v" "r \<noteq> NULL" and e: "mmap_limit < v_end v"
  shows "mmap_mapin me m r s = Some (- EINVAL, s)"
proof -
  have "m \<noteq> NULL" using inv by (simp add: mmap_inv_def mmap_list_def)
  then show ?thesis using r lk e by (simp add: mmap_mapin_def hget_nonNULL)
qed

lemma mmap_mapin_overlap:
  assumes inv: "mmap_inv s m xs" and lk: "mmap_locked me s m" and r: "vmrs s r = Some v" "r \<noteq> NULL" "r \<notin> set xs"
    and v: "v_start v \<le> v_end v" "v_end v \<le> mmap_limit" and c: "span (vreg v) \<inter> covered (vregs s xs) \<noteq> {}"
  shows "mmap_mapin me m r s = Some (- EEXIST, s)"
proof -
  have m0: "m \<noteq> NULL" using inv by (simp add: mmap_inv_def mmap_list_def)
  have "span (vreg v) = {unat (v_start v)..<Suc (unat (v_end v))}" using vreg_end [OF v(1)] by (simp add: span_def vreg_def)
  then have "mapin_check me m (v_start v) (v_end v) s = Some (- EEXIST)"
    using mapin_check_ok [OF inv lk v(2), of "v_start v"] c by simp
  moreover have "\<not> mmap_limit < v_end v" using v(2) by simp
  ultimately show ?thesis using m0 r lk vmr_size_nonzero [OF v] mmap_contains_ok [OF inv lk r(2)]
    by (simp add: mmap_mapin_def hget_nonNULL EEXIST_def)
qed

lemma ordered_insert:
  assumes "ordered (A @ B)" "\<forall>q\<in>set A. fst q + snd q \<le> fst r" "\<forall>q\<in>set B. fst r < fst q"
    "span r \<inter> covered (A @ B) = {}" "0 < snd r"
  shows "ordered (A @ r # B)"
proof -
  have "fst r + snd r \<le> fst q" if q: "q \<in> set B" for q
  proof (rule span_disjoint_order)
    show "span r \<inter> span q = {}" using assms(4) q by (auto simp: covered_def)
    show "0 < snd q" using assms(1) q by (auto simp: ordered_def)
  qed (use assms q in auto)
  then show ?thesis using assms by (auto simp: ordered_append ordered_Cons upto_start_def)
qed

lemma mmap_mapin_ok:
  assumes inv: "mmap_inv s m xs" and lk: "mmap_locked me s m" and r: "vmrs s r = Some v" "r \<noteq> NULL" "r \<notin> set xs"
    and v: "v_start v \<le> v_end v" "v_end v \<le> mmap_limit" and c: "span (vreg v) \<inter> covered (vregs s xs) = {}"
  obtains s' A B where "mmap_mapin me m r s = Some (0, s')" "xs = A @ B" "mapped s m A r B s'"
proof -
  have m0: "m \<noteq> NULL" using inv by (simp add: mmap_inv_def mmap_list_def)
  have sp: "span (vreg v) = {unat (v_start v)..<Suc (unat (v_end v))}" using vreg_end [OF v(1)] by (simp add: span_def vreg_def)
  then have chk: "mapin_check me m (v_start v) (v_end v) s = Some 0"
    using mapin_check_ok [OF inv lk v(2), of "v_start v"] c by simp
  have "unat (v_start v) \<in> span (vreg v)" using v(1) by (simp add: span_vreg)
  then have h: "unat (v_start v) \<notin> covered (vregs s xs)" using c by blast
  obtain A B where ab: "xs = A @ B" "\<forall>x\<in>set A. \<forall>w. vmrs s x = Some w \<longrightarrow> v_start w \<le> v_start v \<and> v_end w < v_start v"
      "\<forall>x\<in>set B. \<forall>w. vmrs s x = Some w \<longrightarrow> v_start v < v_start w"
      "\<forall>q\<in>set (vregs s A). fst q + snd q \<le> unat (v_start v)" "\<forall>q\<in>set (vregs s B). unat (v_start v) < fst q"
    by (rule hole_split [OF inv h])
  have l: "mmap_list s m (A @ B)" and ord: "ordered (vregs s A @ vregs s B)" using inv ab(1) by (auto simp: mmap_inv_def)
  have "v_start w < v_start v \<and> upper_bound w \<le> v_start v" if x: "x \<in> set A" and w: "vmrs s x = Some w" for x w
  proof -
    have "vmr_in m w" using mmap_inv_at [OF inv, of x] x w ab(1) by auto
    moreover have "v_end w < v_start v" using ab(2) x w by simp
    ultimately show ?thesis using vmr_in_bounds(1) [of m w] by (auto simp: vmr_in_def word_le_nat_alt word_less_nat_alt)
  qed
  then obtain s1 where s1: "mapin_link m r s = Some s1" "linked s m A r B s1"
    using mapin_link_ok [OF l r(1) _ r(2), of thesis] r(3) ab(1,3) by (auto simp: order_less_imp_le)
  have o: "ordered (vregs s A @ vreg v # vregs s B)"
    by (rule ordered_insert [OF ord]) (use ab(1,4,5) c v in \<open>auto simp: vreg_def word_le_nat_alt\<close>)
  obtain s2 s3 s4 where s4: "rupd r (v_mmap_update (\<lambda>_. m)) s1 = Some s2"
      "mupd m (\<lambda>mp. mp\<lparr>m_refs := m_refs mp + 1\<rparr>) s2 = Some s3"
      "mupd m (\<lambda>mp. mp\<lparr>m_used_space := m_used_space mp + vmr_size v\<rparr>) s3 = Some s4" "mapped s m A r B s4"
    by (rule mapin_finish [OF inv [unfolded ab(1)] s1(2) r(1) v r(2) _ o]) (use r(3) ab(1) in auto)
  have "\<not> mmap_limit < v_end v" using v(2) by simp
  then have "mmap_mapin me m r s = Some (0, s4)"
    using m0 r lk vmr_size_nonzero [OF v] mmap_contains_ok [OF inv lk r(2)] chk s1(1) s4(1-3)
    by (simp add: mmap_mapin_def hget_nonNULL)
  then show thesis using that ab(1) s4(4) by blast
qed

section \<open>\<open>mmap_remove\<close>\<close>

text \<open>A region up to its links and its reference count.\<close>

definition vcore :: "vmr \<Rightarrow> vmr" where
  "vcore v = v\<lparr>v_prev := NULL, v_next := NULL, v_refs := 0\<rparr>"

lemma vcore_simps [simp]:
  "vcore (v\<lparr>v_prev := p\<rparr>) = vcore v" "vcore (v\<lparr>v_next := p\<rparr>) = vcore v" "vcore (v\<lparr>v_refs := k\<rparr>) = vcore v"
  by (simp_all add: vcore_def)

lemma vcore_eq:
  assumes "vcore w = vcore v"
  shows "w = v\<lparr>v_prev := v_prev w, v_next := v_next w, v_refs := v_refs w\<rparr>" "vreg w = vreg v" "vmr_in m w = vmr_in m v"
proof -
  show w: "w = v\<lparr>v_prev := v_prev w, v_next := v_next w, v_refs := v_refs w\<rparr>"
    using assms unfolding vcore_def by (cases v, cases w) simp
  show "vreg w = vreg v" by (subst w) (simp add: vreg_def)
  show "vmr_in m w = vmr_in m v" by (subst w) (simp add: vmr_in_def)
qed

text \<open>What taking \<open>r\<close> out of the list leaves; \<open>k\<close> is the number of its neighbours.\<close>

definition unlinked :: "mm \<Rightarrow> ptr \<Rightarrow> ptr list \<Rightarrow> ptr \<Rightarrow> ptr list \<Rightarrow> mm \<Rightarrow> bool" where
  "unlinked s m A r B s' \<longleftrightarrow> mmap_list s' m (A @ B)
     \<and> (\<forall>y. y \<noteq> r \<longrightarrow> map_option vcore (vmrs s' y) = map_option vcore (vmrs s y))
     \<and> (\<forall>y. y \<notin> set (A @ r # B) \<longrightarrow> vmrs s' y = vmrs s y)
     \<and> (\<exists>v. vmrs s r = Some v \<and> vmrs s' r = Some (v\<lparr>v_refs := v_refs v - of_bool (A \<noteq> []) - of_bool (B \<noteq> [])\<rparr>))
     \<and> (\<exists>mp h t. maps s m = Some mp \<and> maps s' = (maps s)(m \<mapsto> mp\<lparr>vmr_head := h, vmr_tail := t\<rparr>))
     \<and> mm_mem s' = mm_mem s \<and> pg_log s' = pg_log s \<and> pg_ret s' = pg_ret s \<and> pg_dirs s' = pg_dirs s"

lemma unlinkedI:
  assumes "maps s m = Some mp" "m \<noteq> NULL" "m_limit mp = mmap_limit"
    "maps s' = (maps s)(m \<mapsto> mp\<lparr>vmr_head := first_of (A @ B) NULL, vmr_tail := last_of (A @ B) NULL\<rparr>)"
    "dchain v_next v_prev (vmrs s') NULL (A @ B) NULL" "distinct (A @ B)" "NULL \<notin> set (A @ B)"
    "\<forall>y. y \<noteq> r \<longrightarrow> map_option vcore (vmrs s' y) = map_option vcore (vmrs s y)"
    "\<forall>y. y \<notin> set (A @ r # B) \<longrightarrow> vmrs s' y = vmrs s y"
    "vmrs s r = Some v" "vmrs s' r = Some (v\<lparr>v_refs := v_refs v - of_bool (A \<noteq> []) - of_bool (B \<noteq> [])\<rparr>)"
    "mm_mem s' = mm_mem s" "pg_log s' = pg_log s" "pg_ret s' = pg_ret s" "pg_dirs s' = pg_dirs s"
  shows "unlinked s m A r B s'"
proof -
  have "mmap_list s' m (A @ B)" unfolding mmap_list_def dlist_def using assms(2-7) by simp
  then show ?thesis unfolding unlinked_def using assms by blast
qed

lemma remove_unlink_middle:
  assumes l: "mmap_list s m ((A @ [a]) @ r # b # B)"
  obtains s' where "remove_unlink m r s = Some s'" "unlinked s m (A @ [a]) r (b # B) s'"
proof -
  obtain mp where mp: "maps s m = Some mp" "m \<noteq> NULL" "m_limit mp = mmap_limit" "dchain v_next v_prev (vmrs s) NULL ((A @ [a]) @ r # b # B) NULL"
      "distinct ((A @ [a]) @ r # b # B)" "NULL \<notin> set ((A @ [a]) @ r # b # B)" "vmr_head mp = first_of A a" "vmr_tail mp = last_of B b"
    using l by (auto simp: mmap_list_def dlist_def)
  then obtain av v bv where n: "vmrs s a = Some av" "v_next av = r" "v_prev av = last_of A NULL" "vmrs s r = Some v" "v_prev v = a" "v_next v = b"
      "vmrs s b = Some bv" "v_prev bv = r" "v_next bv = first_of B NULL"
    by (auto simp: dchain_append)
  have ne: "a \<noteq> NULL" "b \<noteq> NULL" "r \<noteq> NULL" "a \<noteq> b" "a \<noteq> r" "b \<noteq> r" "r \<noteq> a" "r \<noteq> b" "b \<noteq> a" using mp(5,6) by auto
  have hd: "first_of A a \<noteq> r" using mp(5) first_of_in [of A a] by (cases A) auto
  have tl: "last_of B b \<noteq> r" using mp(5) last_of_in [of B b] by (cases B) auto
  let ?h = "(vmrs s)(a \<mapsto> av\<lparr>v_next := b\<rparr>, r \<mapsto> v\<lparr>v_refs := v_refs v - 1 - 1\<rparr>, b \<mapsto> bv\<lparr>v_prev := a\<rparr>)"
  have "remove_unlink m r s = Some (s\<lparr>vmrs := ?h\<rparr>)"
    using n mp ne hd tl by (simp add: remove_unlink_def upd_defs hget_nonNULL fun_upd_twist)
  moreover have "unlinked s m (A @ [a]) r (b # B) (s\<lparr>vmrs := ?h\<rparr>)"
  proof (rule unlinkedI [OF mp(1-3)])
    show "dchain v_next v_prev (vmrs (s\<lparr>vmrs := ?h\<rparr>)) NULL ((A @ [a]) @ b # B) NULL"
      using mp(4,5) n ne by (simp add: dchain_append)
    show "maps (s\<lparr>vmrs := ?h\<rparr>) = (maps s)(m \<mapsto> mp\<lparr>vmr_head := first_of ((A @ [a]) @ b # B) NULL,
        vmr_tail := last_of ((A @ [a]) @ b # B) NULL\<rparr>)"
      using mp(1,7,8) by (simp add: same_at)
  qed (use mp(5,6) n ne in simp_all)
  ultimately show thesis using that by blast
qed

lemma remove_unlink_first:
  assumes l: "mmap_list s m (r # b # B)"
  obtains s' where "remove_unlink m r s = Some s'" "unlinked s m [] r (b # B) s'"
proof -
  obtain mp where mp: "maps s m = Some mp" "m \<noteq> NULL" "m_limit mp = mmap_limit" "dchain v_next v_prev (vmrs s) NULL (r # b # B) NULL"
      "distinct (r # b # B)" "NULL \<notin> set (r # b # B)" "vmr_head mp = r" "vmr_tail mp = last_of B b"
    using l by (auto simp: mmap_list_def dlist_def)
  then obtain v bv where n: "vmrs s r = Some v" "v_prev v = NULL" "v_next v = b"
      "vmrs s b = Some bv" "v_prev bv = r" "v_next bv = first_of B NULL"
    by auto
  have ne: "b \<noteq> NULL" "r \<noteq> NULL" "b \<noteq> r" "r \<noteq> b" using mp(5,6) by auto
  have tl: "last_of B b \<noteq> r" using mp(5) last_of_in [of B b] by (cases B) auto
  have B0: "first_of B NULL = NULL \<longleftrightarrow> B = []" using mp(6) by (cases B) auto
  let ?b = "if B = [] then bv\<lparr>v_prev := NULL, v_refs := v_refs bv - 1\<rparr> else bv\<lparr>v_prev := NULL\<rparr>"
  let ?h = "(vmrs s)(r \<mapsto> v\<lparr>v_refs := v_refs v - 1\<rparr>, b \<mapsto> ?b)"
  let ?s = "s\<lparr>maps := (maps s)(m \<mapsto> mp\<lparr>vmr_head := b\<rparr>), vmrs := ?h\<rparr>"
  have "remove_unlink m r s = Some ?s"
    using n mp ne tl B0 by (simp add: remove_unlink_def upd_defs hget_nonNULL fun_upd_twist)
  moreover have "unlinked s m [] r (b # B) ?s"
  proof (rule unlinkedI [OF mp(1-3)])
    show "dchain v_next v_prev (vmrs ?s) NULL ([] @ b # B) NULL" using mp(4,5) n ne by simp
    show "maps ?s = (maps s)(m \<mapsto> mp\<lparr>vmr_head := first_of ([] @ b # B) NULL, vmr_tail := last_of ([] @ b # B) NULL\<rparr>)"
      using mp(8) by simp
  qed (use mp(5,6) n ne in simp_all)
  ultimately show thesis using that by blast
qed

lemma remove_unlink_last:
  assumes l: "mmap_list s m ((A @ [a]) @ [r])"
  obtains s' where "remove_unlink m r s = Some s'" "unlinked s m (A @ [a]) r [] s'"
proof -
  obtain mp where mp: "maps s m = Some mp" "m \<noteq> NULL" "m_limit mp = mmap_limit" "dchain v_next v_prev (vmrs s) NULL ((A @ [a]) @ [r]) NULL"
      "distinct ((A @ [a]) @ [r])" "NULL \<notin> set ((A @ [a]) @ [r])" "vmr_head mp = first_of A a" "vmr_tail mp = r"
    using l by (auto simp: mmap_list_def dlist_def)
  then obtain v av where n: "vmrs s r = Some v" "v_prev v = a" "v_next v = NULL"
      "vmrs s a = Some av" "v_next av = r" "v_prev av = last_of A NULL"
    by (auto simp: dchain_append)
  have ne: "a \<noteq> NULL" "r \<noteq> NULL" "a \<noteq> r" "r \<noteq> a" using mp(5,6) by auto
  have hd: "first_of A a \<noteq> r" using mp(5) first_of_in [of A a] by (cases A) auto
  have A0: "last_of A NULL = NULL \<longleftrightarrow> A = []" using mp(6) by (cases A rule: rev_cases) auto
  let ?a = "if A = [] then av\<lparr>v_next := NULL, v_refs := v_refs av - 1\<rparr> else av\<lparr>v_next := NULL\<rparr>"
  let ?h = "(vmrs s)(r \<mapsto> v\<lparr>v_refs := v_refs v - 1\<rparr>, a \<mapsto> ?a)"
  let ?s = "s\<lparr>maps := (maps s)(m \<mapsto> mp\<lparr>vmr_tail := a\<rparr>), vmrs := ?h\<rparr>"
  have "remove_unlink m r s = Some ?s"
    using n mp ne hd A0 by (simp add: remove_unlink_def upd_defs hget_nonNULL fun_upd_twist)
  moreover have "unlinked s m (A @ [a]) r [] ?s"
  proof (rule unlinkedI [OF mp(1-3)])
    show "dchain v_next v_prev (vmrs ?s) NULL ((A @ [a]) @ []) NULL" using mp(4,5) n ne by (simp add: dchain_append)
    show "maps ?s = (maps s)(m \<mapsto> mp\<lparr>vmr_head := first_of ((A @ [a]) @ []) NULL, vmr_tail := last_of ((A @ [a]) @ []) NULL\<rparr>)"
      using mp(7) by simp
  qed (use mp(5,6) n ne in simp_all)
  ultimately show thesis using that by blast
qed

lemma remove_unlink_only:
  assumes l: "mmap_list s m [r]"
  obtains s' where "remove_unlink m r s = Some s'" "unlinked s m [] r [] s'"
proof -
  obtain mp v where mp: "maps s m = Some mp" "m \<noteq> NULL" "m_limit mp = mmap_limit" "vmrs s r = Some v" "v_prev v = NULL" "v_next v = NULL"
      "r \<noteq> NULL" "vmr_head mp = r" "vmr_tail mp = r"
    using l by (auto simp: mmap_list_def dlist_def)
  let ?s = "s\<lparr>maps := (maps s)(m \<mapsto> mp\<lparr>vmr_head := NULL, vmr_tail := NULL\<rparr>)\<rparr>"
  have "remove_unlink m r s = Some ?s" using mp by (simp add: remove_unlink_def upd_defs hget_nonNULL)
  moreover have "unlinked s m [] r [] ?s" by (rule unlinkedI [OF mp(1-3)]) (use mp in simp_all)
  ultimately show thesis using that by blast
qed

lemma remove_unlink_ok:
  assumes l: "mmap_list s m (A @ r # B)"
  obtains s' where "remove_unlink m r s = Some s'" "unlinked s m A r B s'"
proof (cases A rule: rev_cases)
  case Nil
  show ?thesis
  proof (cases B)
    case B: Nil
    then show ?thesis using l Nil by (metis append_Nil remove_unlink_only that)
  next
    case (Cons b B')
    then show ?thesis using l Nil by (metis append_Nil remove_unlink_first that)
  qed
next
  case (snoc A' a)
  show ?thesis
  proof (cases B)
    case Nil
    then show ?thesis using l snoc by (metis remove_unlink_last that)
  next
    case (Cons b B')
    then show ?thesis using l snoc by (metis remove_unlink_middle that)
  qed
qed

text \<open>The state after \<open>r\<close> was removed from between \<open>A\<close> and \<open>B\<close>. The region is freed when no
  reference is left.\<close>

definition removed :: "mm \<Rightarrow> ptr \<Rightarrow> ptr list \<Rightarrow> ptr \<Rightarrow> ptr list \<Rightarrow> mm \<Rightarrow> bool" where
  "removed s m A r B s' \<longleftrightarrow> mmap_inv s' m (A @ B)
     \<and> (\<forall>y. y \<noteq> r \<longrightarrow> map_option vcore (vmrs s' y) = map_option vcore (vmrs s y))
     \<and> (\<forall>y. y \<notin> set (A @ r # B) \<longrightarrow> vmrs s' y = vmrs s y)
     \<and> (\<exists>v. vmrs s r = Some v \<and> (vmrs s' r = None \<longleftrightarrow> v_refs v \<le> of_bool (A \<noteq> []) + of_bool (B \<noteq> []) + 1)
          \<and> pg_log s' = pg_log s @ [Pg_unmap (v_start v) (vmr_size v)])
     \<and> (\<exists>mp h t. maps s m = Some mp \<and> maps s' = (maps s)(m \<mapsto> mp\<lparr>vmr_head := h, vmr_tail := t, m_refs := m_refs mp - 1\<rparr>))
     \<and> mm_mem s' = mm_mem s \<and> pg_ret s' = pg_ret s \<and> pg_dirs s' = pg_dirs s"

lemma vcore_fields:
  assumes "map_option vcore (h' y) = map_option vcore (h y)"
  shows "vreg_at h' y = vreg_at h y" "h y = Some v \<Longrightarrow> \<exists>w. h' y = Some w \<and> vcore w = vcore v \<and> vmr_in m w = vmr_in m v"
proof -
  show "vreg_at h' y = vreg_at h y"
  proof (cases "h y")
    case (Some v)
    obtain w where "h' y = Some w" "vcore w = vcore v" using assms Some by (cases "h' y") auto
    then show ?thesis using Some vcore_eq(2) [of w v] by (simp add: vreg_at_def)
  qed (use assms in \<open>simp add: vreg_at_def\<close>)
  show "\<exists>w. h' y = Some w \<and> vcore w = vcore v \<and> vmr_in m w = vmr_in m v" if hy: "h y = Some v"
  proof -
    obtain w where "h' y = Some w" "vcore w = vcore v" using assms hy by (cases "h' y") auto
    then show ?thesis using vcore_eq(3) [of w v m] by simp
  qed
qed

lemma mmap_inv_vcore:
  assumes inv: "mmap_inv s m xs" and l: "mmap_list s' m ys" and sub: "set ys \<subseteq> set xs" and ord: "ordered (vregs s ys)"
    and c: "\<forall>y\<in>set ys. map_option vcore (vmrs s' y) = map_option vcore (vmrs s y)"
  shows "mmap_inv s' m ys"
proof -
  have "\<exists>w. vmrs s' x = Some w \<and> vmr_in m w" if x: "x \<in> set ys" for x
  proof -
    obtain v where v: "vmrs s x = Some v" "vmr_in m v" using inv sub x by (auto simp: mmap_inv_def)
    then show ?thesis using vcore_fields(2) [of "vmrs s'" x "vmrs s" v m] c x by auto
  qed
  moreover have rg: "vregs s' ys = vregs s ys" using vcore_fields(1) [of "vmrs s'" _ "vmrs s"] c by simp
  ultimately show ?thesis unfolding mmap_inv_def rg using l ord by simp
qed

lemma ordered_remove: "ordered (A @ r # B) \<Longrightarrow> ordered (A @ B)"
  by (auto simp: ordered_append ordered_Cons)

lemma mmap_remove_ok:
  assumes inv: "mmap_inv s m (A @ r # B)" and lk: "mmap_locked me s m"
  obtains s' where "mmap_remove me m r s = Some (0, s')" "removed s m A r B s'"
proof -
  obtain v where v: "vmrs s r = Some v" "vmr_in m v" "r \<noteq> NULL" using mmap_inv_at [OF inv, of r] by auto
  have m0: "m \<noteq> NULL" and l: "mmap_list s m (A @ r # B)" using inv by (auto simp: mmap_inv_def mmap_list_def)
  have d: "distinct (A @ r # B)" using l by (auto simp: mmap_list_def dlist_def)
  obtain s1 where s1: "remove_unlink m r s = Some s1" "unlinked s m A r B s1" by (rule remove_unlink_ok [OF l])
  let ?k = "v_refs v - of_bool (A \<noteq> []) - of_bool (B \<noteq> [])"
  have r1: "vmrs s1 r = Some (v\<lparr>v_refs := ?k\<rparr>)" using s1(2) v(1) by (simp add: unlinked_def)
  obtain mp h t where mp: "maps s m = Some mp" "maps s1 = (maps s)(m \<mapsto> mp\<lparr>vmr_head := h, vmr_tail := t\<rparr>)"
    using s1(2) by (auto simp: unlinked_def)
  let ?v = "v\<lparr>v_refs := ?k - 1, v_mmap := NULL\<rparr>"
  let ?w = "if ?k - 1 \<le> 0 then None else Some ?v"
  let ?s = "s1\<lparr>vmrs := (vmrs s1)(r := ?w), maps := (maps s)(m \<mapsto> mp\<lparr>vmr_head := h, vmr_tail := t, m_refs := m_refs mp - 1\<rparr>),
      pg_log := pg_log s @ [Pg_unmap (v_start v) (vmr_size v)]\<rparr>"
  have sz: "vmr_size ?v = vmr_size v" by (simp add: vmr_size_def)
  have pg: "pg_log s1 = pg_log s" using s1(2) by (simp add: unlinked_def)
  have "mmap_remove me m r s = Some (0, ?s)"
    using m0 v lk mmap_contains_ok [OF inv lk v(3)] s1(1) r1 mp sz pg
    by (simp add: mmap_remove_def upd_defs hget_nonNULL vmr_free_def pg_do_def kfree_def)
  moreover have "removed s m A r B ?s"
  proof -
    have c: "map_option vcore (vmrs ?s y) = map_option vcore (vmrs s y)" if "y \<noteq> r" for y
      using s1(2) that by (simp add: unlinked_def)
    have "mmap_list s1 m (A @ B)" using s1(2) by (simp add: unlinked_def)
    then have l': "mmap_list ?s m (A @ B)" using d mp by (auto simp: mmap_list_def)
    have o: "ordered (vregs s (A @ B))" using inv ordered_remove [of "vregs s A" "vreg_at (vmrs s) r" "vregs s B"] by (simp add: mmap_inv_def)
    have "\<forall>y\<in>set (A @ B). y \<noteq> r" using d by auto
    then have cc: "\<forall>y\<in>set (A @ B). map_option vcore (vmrs ?s y) = map_option vcore (vmrs s y)" using c by blast
    have "set (A @ B) \<subseteq> set (A @ r # B)" by auto
    note mmap_inv_vcore [OF inv l' this o cc]
    then show ?thesis unfolding removed_def using c s1(2) v(1) mp(1) by (auto simp: unlinked_def)
  qed
  ultimately show thesis using that by blast
qed

section \<open>Changing the bounds of a region\<close>

lemma mmap_list_same_links:
  assumes "mmap_list s m xs" "vmrs s x = Some v" "v_prev w = v_prev v" "v_next w = v_next v"
  shows "mmap_list (s\<lparr>vmrs := (vmrs s)(x \<mapsto> w)\<rparr>) m xs"
proof -
  have "dchain v_next v_prev ((vmrs s)(x \<mapsto> w)) pr ys nx = dchain v_next v_prev (vmrs s) pr ys nx" for pr ys nx
    using assms(2-4) by (induction ys arbitrary: pr) auto
  then show ?thesis using assms(1) by (simp add: mmap_list_def dlist_def)
qed

lemma resize_ok:
  assumes inv: "mmap_inv s m (A @ x # B)" and v: "vmrs s x = Some v"
    and w: "v_prev w = v_prev v" "v_next w = v_next v" "vmr_in m w" "ordered (vregs s A @ vreg w # vregs s B)"
  shows "mmap_inv (s\<lparr>vmrs := (vmrs s)(x \<mapsto> w)\<rparr>) m (A @ x # B)"
    "vregs (s\<lparr>vmrs := (vmrs s)(x \<mapsto> w)\<rparr>) (A @ x # B) = vregs s A @ vreg w # vregs s B"
proof -
  let ?s = "s\<lparr>vmrs := (vmrs s)(x \<mapsto> w)\<rparr>"
  have d: "distinct (A @ x # B)" using inv by (auto simp: mmap_inv_def mmap_list_def dlist_def)
  show rg: "vregs ?s (A @ x # B) = vregs s A @ vreg w # vregs s B"
    using d by (auto simp: vreg_at_def)
  have "mmap_list ?s m (A @ x # B)" using mmap_list_same_links [OF _ v w(1,2)] inv by (simp add: mmap_inv_def)
  moreover have "\<forall>y\<in>set (A @ x # B). \<exists>v. vmrs ?s y = Some v \<and> vmr_in m v" using inv w(3) by (auto simp: mmap_inv_def)
  ultimately show "mmap_inv ?s m (A @ x # B)" unfolding mmap_inv_def rg using w(4) by blast
qed

lemma ordered_within:
  assumes "ordered (A @ r # B)" "fst r \<le> fst q" "fst q + snd q \<le> fst r + snd r" "0 < snd q"
  shows "ordered (A @ q # B)"
  using assms by (auto simp: ordered_append ordered_Cons upto_start_def)

section \<open>Operations that only take addresses away\<close>

text \<open>A region up to its place, and what such an operation leaves as it was.\<close>

definition vattr :: "vmr \<Rightarrow> vmr" where
  "vattr v = (vcore v)\<lparr>v_start := 0, v_end := 0\<rparr>"

definition same_space :: "mmap \<Rightarrow> mmap \<Rightarrow> bool" where
  "same_space mp mp' \<longleftrightarrow> m_lock mp' = m_lock mp \<and> m_flags mp' = m_flags mp \<and> m_limit mp' = m_limit mp
     \<and> m_guard_len mp' = m_guard_len mp \<and> m_pgdir mp' = m_pgdir mp"

definition shrunk :: "mm \<Rightarrow> ptr \<Rightarrow> ptr list \<Rightarrow> mm \<Rightarrow> ptr list \<Rightarrow> bool" where
  "shrunk s m xs s' ys \<longleftrightarrow> mmap_inv s' m ys \<and> set ys \<subseteq> set xs
     \<and> (\<forall>y\<in>set ys. map_option vattr (vmrs s' y) = map_option vattr (vmrs s y))
     \<and> (\<forall>y. y \<notin> set xs \<longrightarrow> vmrs s' y = vmrs s y)
     \<and> (\<exists>mp mp'. maps s m = Some mp \<and> maps s' = (maps s)(m \<mapsto> mp') \<and> same_space mp mp')
     \<and> mm_mem s' = mm_mem s \<and> pg_ret s' = pg_ret s \<and> pg_dirs s' = pg_dirs s"

lemma same_space_refl:
  assumes "mmap_inv s m xs"
  shows "\<exists>mp mp'. maps s m = Some mp \<and> maps s = (maps s)(m \<mapsto> mp') \<and> same_space mp mp'"
proof -
  obtain mp where "maps s m = Some mp" using assms by (auto simp: mmap_inv_def mmap_list_def)
  then show ?thesis by (intro exI [of _ mp]) (simp add: same_space_def fun_upd_idem)
qed

lemma shrunk_refl: "mmap_inv s m xs \<Longrightarrow> shrunk s m xs s xs"
  unfolding shrunk_def using same_space_refl by blast

lemma shrunk_trans:
  assumes "shrunk s m xs s1 ys" "shrunk s1 m ys s2 zs"
  shows "shrunk s m xs s2 zs"
proof -
  obtain mp mp1 where 1: "maps s m = Some mp" "maps s1 = (maps s)(m \<mapsto> mp1)" "same_space mp mp1"
    using assms(1) by (auto simp: shrunk_def)
  obtain mp2 where 2: "maps s2 = (maps s1)(m \<mapsto> mp2)" "same_space mp1 mp2"
    using assms(2) 1(2) by (auto simp: shrunk_def)
  have "maps s2 = (maps s)(m \<mapsto> mp2)" "same_space mp mp2" using 1 2 by (auto simp: same_space_def)
  moreover have "\<forall>y\<in>set zs. map_option vattr (vmrs s2 y) = map_option vattr (vmrs s y)"
    using assms by (auto simp: shrunk_def)
  moreover have "\<forall>y. y \<notin> set xs \<longrightarrow> vmrs s2 y = vmrs s y"
    using assms unfolding shrunk_def by (metis subsetD)
  ultimately show ?thesis using assms 1(1) unfolding shrunk_def by (intro conjI exI) auto
qed

lemma shrunk_locked: "shrunk s m xs s' ys \<Longrightarrow> mmap_locked me s m \<Longrightarrow> mmap_locked me s' m"
  by (auto simp: shrunk_def mmap_locked_def same_space_def)

lemma vattr_vcore: "map_option vcore x = map_option vcore y \<Longrightarrow> map_option vattr x = map_option vattr y"
  by (cases x; cases y) (simp_all add: vattr_def)

lemma removed_shrunk:
  assumes "removed s m A r B s'" "mmap_inv s m (A @ r # B)"
  shows "shrunk s m (A @ r # B) s' (A @ B)" "vregs s' (A @ B) = vregs s (A @ B)"
    "covered (vregs s' (A @ B)) = covered (vregs s (A @ r # B)) - span (vreg_at (vmrs s) r)"
proof -
  have d: "r \<notin> set (A @ B)" using assms(2) by (auto simp: mmap_inv_def mmap_list_def dlist_def)
  have c: "map_option vcore (vmrs s' y) = map_option vcore (vmrs s y)" if "y \<in> set (A @ B)" for y
    using assms(1) that d by (auto simp: removed_def)
  have a: "map_option vattr (vmrs s' y) = map_option vattr (vmrs s y)" if "y \<in> set (A @ B)" for y
    using vattr_vcore [OF c [OF that]] .
  show rg: "vregs s' (A @ B) = vregs s (A @ B)" using vcore_fields(1) [of "vmrs s'" _ "vmrs s"] c by simp
  obtain mp h t where "maps s m = Some mp" "maps s' = (maps s)(m \<mapsto> mp\<lparr>vmr_head := h, vmr_tail := t, m_refs := m_refs mp - 1\<rparr>)"
    using assms(1) by (auto simp: removed_def)
  moreover have "same_space mp (mp\<lparr>vmr_head := h, vmr_tail := t, m_refs := m_refs mp - 1\<rparr>)" by (simp add: same_space_def)
  ultimately have "\<exists>mp mp'. maps s m = Some mp \<and> maps s' = (maps s)(m \<mapsto> mp') \<and> same_space mp mp'" by blast
  then show "shrunk s m (A @ r # B) s' (A @ B)"
    unfolding shrunk_def using assms(1) a by (auto simp: removed_def)
  have "ordered (vregs s A @ vreg_at (vmrs s) r # vregs s B)" using assms(2) by (simp add: mmap_inv_def)
  from ordered_disjoint [OF this] show "covered (vregs s' (A @ B)) = covered (vregs s (A @ r # B)) - span (vreg_at (vmrs s) r)"
    unfolding rg by auto
qed

lemma resize_shrunk:
  assumes inv: "mmap_inv s m (A @ x # B)" and v: "vmrs s x = Some v" and w: "vattr w = vattr v"
      "mmap_inv (s\<lparr>vmrs := (vmrs s)(x \<mapsto> w)\<rparr>) m (A @ x # B)"
  shows "shrunk s m (A @ x # B) (s\<lparr>vmrs := (vmrs s)(x \<mapsto> w)\<rparr>) (A @ x # B)"
  unfolding shrunk_def using v w same_space_refl [OF inv] by simp

end
