(* ===== verification/MmapSpace.thy ===== *)
theory MmapSpace
  imports MmapList
begin

text \<open>
  What the operations on an address space do to the set of mapped addresses: unmapping, the
  search for holes, from either end or near an address.
\<close>

section \<open>\<open>mmap_unmap\<close>\<close>

text \<open>An address strictly inside a region, where unmapping would have to split it.\<close>

definition inside :: "region list \<Rightarrow> nat \<Rightarrow> bool" where
  "inside rs a \<longleftrightarrow> (\<exists>r\<in>set rs. fst r < a \<and> Suc a < fst r + snd r)"

lemma inside_covered: "inside rs a \<Longrightarrow> a \<in> covered rs"
  unfolding inside_def covered_def span_def by (meson Suc_lessD UN_I atLeastLessThan_iff less_imp_le_nat)

definition unmap_range :: "u64 \<Rightarrow> u64 \<Rightarrow> nat set" where
  "unmap_range start len = {unat start..<unat start + unat len}"

text \<open>One round of the loop of \<open>mmap_unmap\<close>.\<close>

definition unmap_step :: "ctx \<Rightarrow> ptr \<Rightarrow> u64 \<Rightarrow> u64 \<Rightarrow> mm \<Rightarrow> ptr list \<Rightarrow> u64 \<Rightarrow> u64 \<Rightarrow> mm \<Rightarrow> ptr list \<Rightarrow> bool" where
  "unmap_step me m start len s xs start' len' s' ys \<longleftrightarrow>
     mmap_unmap_loop me m start len s = mmap_unmap_loop me m start' len' s' \<and> shrunk s m xs s' ys
     \<and> covered (vregs s' ys) - unmap_range start' len' = covered (vregs s xs) - unmap_range start len
     \<and> \<not> inside (vregs s' ys) (unat start') \<and> unat start' + unat len' \<le> ulimit
     \<and> 2 * unat len' + of_bool (unat start' \<in> covered (vregs s' ys)) < 2 * unat len + of_bool (unat start \<in> covered (vregs s xs))"

lemma find_exact_ok:
  assumes "mmap_inv s m xs" "mmap_locked me s m" "mmap_find me m a s = Some x" "x \<noteq> NULL \<Longrightarrow> vmrs s x = Some v"
  shows "mmap_find_exact me m a e s = Some (if x = NULL \<or> a \<noteq> v_start v \<or> e \<noteq> v_end v then NULL else x)"
proof -
  have "m \<noteq> NULL" using assms(1) by (simp add: mmap_inv_def mmap_list_def)
  then show ?thesis using assms(2-4) by (simp add: mmap_find_exact_def hget_nonNULL)
qed

lemma unmap_exact:
  assumes inv: "mmap_inv s m (A @ x # B)" and lk: "mmap_locked me s m" and f: "mmap_find me m start s = Some x" "x \<noteq> NULL"
    and v: "vmrs s x = Some v" "v_start v = start" "v_end v = start + len - 1" and b: "unat start + unat len \<le> ulimit" "len \<noteq> 0"
  obtains s' where "unmap_step me m start len s (A @ x # B) (start + (start + len - 1 - start)) (len - (start + len - 1 - start)) s' (A @ B)"
proof -
  obtain s' where s': "mmap_remove me m x s = Some (0, s')" "removed s m A x B s'" by (rule mmap_remove_ok [OF inv lk])
  note sh = removed_shrunk [OF s'(2) inv]
  have l1: "1 \<le> unat len" using b(2) by (simp add: unat_gt_0 Suc_leI)
  have e: "unat (start + len - 1) = unat start + unat len - 1"
    using b(1) l1 by (simp add: unat_word_ariths unat_sub_if' ulimit_eq)
  have d: "start + len - 1 - start = len - 1" by simp
  have ls: "unat (start + (len - 1)) = unat start + unat len - 1" "unat (len - (len - 1)) = 1" using e by (simp_all add: algebra_simps)
  have inv1: "v_start v \<le> v_end v" using mmap_inv_at [OF inv, of x] v(1) by (auto simp: vmr_in_def)
  have sp: "span (vreg_at (vmrs s) x) = unmap_range start len"
    using vreg_end [OF inv1] v e l1 by (simp add: vreg_at span_def unmap_range_def) (simp add: vreg_def)
  have nc: "unat start + unat len - 1 \<notin> covered (vregs s' (A @ B))"
    unfolding sh(3) sp unmap_range_def using l1 by auto
  have "mmap_unmap_loop me m start len s = mmap_unmap_loop me m (start + (len - 1)) (len - (len - 1)) s'"
    using find_exact_ok [OF inv lk f(1) v(1), of "start + len - 1"] f(2) v b(2) s'(1) d
    by (simp add: mmap_unmap_loop.simps [of me m start len s] Let_def)
  moreover have "covered (vregs s' (A @ B)) - unmap_range (start + (len - 1)) (len - (len - 1)) =
      covered (vregs s (A @ x # B)) - unmap_range start len"
    unfolding sh(3) sp unmap_range_def ls using l1 by auto
  moreover have "\<not> inside (vregs s' (A @ B)) (unat (start + (len - 1)))"
    unfolding ls using nc inside_covered by blast
  moreover have "unat start \<in> covered (vregs s (A @ x # B))" using v inv1 by (simp add: vreg_at span_vreg)
  ultimately show thesis
    using that [of s'] sh(1) nc b(1) l1 unfolding unmap_step_def d ls by simp
qed

lemma measure_less: "k < n \<Longrightarrow> 2 * (k :: nat) + of_bool P < 2 * n + of_bool Q"
  by (cases P; cases Q) auto

lemma unmap_front:
  assumes inv: "mmap_inv s m (A @ x # B)" and lk: "mmap_locked me s m" and f: "mmap_find me m start s = Some x" "x \<noteq> NULL"
    and v: "vmrs s x = Some v" "v_start v = start" and len: "len < vmr_size v" "len \<noteq> 0"
  obtains s' where "unmap_step me m start len s (A @ x # B) start 0 s' (A @ x # B)"
proof -
  have vi: "vmr_in m v" using mmap_inv_at [OF inv, of x] v(1) by auto
  then have inv1: "v_start v \<le> v_end v" by (simp add: vmr_in_def)
  have sz: "unat len < snd (vreg v)" using len(1) vmr_in_bounds(2) [OF vi] by (simp add: word_less_nat_alt)
  have en: "Suc (unat (v_end v)) = unat start + snd (vreg v)" using vreg_end [OF inv1] v(2) by (simp add: vreg_def)
  have lim: "Suc (unat (v_end v)) \<le> ulimit" using vmr_in_bounds(3) [OF vi] .
  let ?w = "v\<lparr>v_start := start + len\<rparr>"
  let ?s = "s\<lparr>vmrs := (vmrs s)(x \<mapsto> ?w)\<rparr>"
  have sl: "unat (start + len) = unat start + unat len" using sz en lim by (simp add: unat_word_ariths ulimit_eq)
  have vw: "vreg ?w = (unat start + unat len, snd (vreg v) - unat len)" using sl en by (simp add: vreg_def)
  have "unat (start + len) \<le> unat (v_end v)" unfolding sl using sz en by linarith
  then have wi: "vmr_in m ?w" using vi by (simp add: vmr_in_def word_le_nat_alt)
  have rx: "vreg_at (vmrs s) x = vreg v" using v(1) by (rule vreg_at)
  have "ordered (vregs s (A @ x # B))" using inv by (simp only: mmap_inv_def)
  then have ord: "ordered (vregs s A @ vreg v # vregs s B)" using rx by simp
  have fv: "fst (vreg v) = unat start" using v(2) by (simp add: vreg_def)
  have o: "ordered (vregs s A @ vreg ?w # vregs s B)"
    by (rule ordered_within [OF ord]) (use vw sz fv in simp_all)
  have links: "v_prev ?w = v_prev v" "v_next ?w = v_next v" by simp_all
  note rs = resize_ok [OF inv v(1) links wi o]
  have "e \<noteq> v_end v" if "e = start + len - 1" for e
  proof
    assume "e = v_end v"
    then have "v_end v + 1 = start + len" using that by (simp add: algebra_simps)
    then have "vmr_size v = len" using v(2) by (simp add: vmr_size_def algebra_simps)
    then show False using len(1) by simp
  qed
  then have ex: "mmap_find_exact me m start (start + len - 1) s = Some NULL"
    using find_exact_ok [OF inv lk f(1) v(1), of "start + len - 1"] f(2) by simp
  have "mmap_unmap_loop me m start len s = mmap_unmap_loop me m start 0 ?s"
    using ex f v len by (simp add: mmap_unmap_loop.simps [of me m start len s] Let_def upd_defs hget_nonNULL)
  moreover have "shrunk s m (A @ x # B) ?s (A @ x # B)"
    by (rule resize_shrunk [OF inv v(1)]) (use rs(1) in \<open>simp_all add: vattr_def vcore_def\<close>)
  moreover have "covered (vregs ?s (A @ x # B)) - unmap_range start 0 = covered (vregs s (A @ x # B)) - unmap_range start len"
  proof -
    have sp: "span (vreg v) = unmap_range start len \<union> span (vreg ?w)" "span (vreg ?w) \<inter> unmap_range start len = {}"
      unfolding span_def unmap_range_def vw fv using sz by auto
    have c: "covered (vregs ?s (A @ x # B)) = covered (vregs s A) \<union> span (vreg ?w) \<union> covered (vregs s B)"
      unfolding rs(2) by auto
    have "unmap_range start len \<inter> covered (vregs s A @ vregs s B) = {}" using ordered_disjoint [OF ord] sp(1) by auto
    then show ?thesis unfolding c using sp rx by (auto simp: unmap_range_def)
  qed
  moreover have "\<not> inside (vregs ?s (A @ x # B)) (unat start)"
  proof
    have "unat start \<notin> span (vreg ?w)" using vw len(2) by (simp add: span_def unat_gt_0 flip: unat_gt_0)
    moreover have "unat start \<notin> covered (vregs s A @ vregs s B)"
    proof -
      have "unat start \<in> span (vreg v)" using v(2) inv1 span_vreg [of v start] by simp
      then show ?thesis using ordered_disjoint [OF ord] by blast
    qed
    moreover assume "inside (vregs ?s (A @ x # B)) (unat start)"
    then have "unat start \<in> covered (vregs ?s (A @ x # B))" by (rule inside_covered)
    ultimately show False unfolding rs(2) by auto
  qed
  moreover have "unat start + unat (0 :: u64) \<le> ulimit" using en lim by simp
  moreover have "2 * unat (0 :: u64) + of_bool (unat start \<in> covered (vregs ?s (A @ x # B)))
      < 2 * unat len + of_bool (unat start \<in> covered (vregs s (A @ x # B)))"
    by (rule measure_less) (use len(2) in \<open>simp add: unat_gt_0\<close>)
  ultimately have "unmap_step me m start len s (A @ x # B) start 0 ?s (A @ x # B)" unfolding unmap_step_def by blast
  then show thesis by (rule that)
qed

lemma ordered_at:
  assumes "mmap_inv s m (A @ x # B)" "vmrs s x = Some v"
  shows "ordered (vregs s A @ vreg v # vregs s B)" "vreg_at (vmrs s) x = vreg v" "vmr_in m v"
proof -
  show rx: "vreg_at (vmrs s) x = vreg v" using assms(2) by (rule vreg_at)
  have "ordered (vregs s (A @ x # B))" using assms(1) by (simp only: mmap_inv_def)
  then show "ordered (vregs s A @ vreg v # vregs s B)" using rx by simp
  show "vmr_in m v" using mmap_inv_at [OF assms(1), of x] assms(2) by auto
qed

text \<open>The address behind a region is not inside another one.\<close>

lemma not_inside_after:
  assumes "ordered (A @ r # B)" "a = fst r + snd r"
  shows "\<not> inside (A @ B) a"
  using ordered_cut [OF assms(1)] assms(2) by (fastforce simp: inside_def)

lemma unmap_whole:
  assumes inv: "mmap_inv s m (A @ x # B)" and lk: "mmap_locked me s m" and f: "mmap_find me m start s = Some x" "x \<noteq> NULL"
    and v: "vmrs s x = Some v" "v_start v = start" and len: "vmr_size v < len" and b: "unat start + unat len \<le> ulimit"
  obtains s' where "unmap_step me m start len s (A @ x # B) (upper_bound v) (len - vmr_size v) s' (A @ B)"
proof -
  obtain s' where s': "mmap_remove me m x s = Some (0, s')" "removed s m A x B s'" by (rule mmap_remove_ok [OF inv lk])
  note sh = removed_shrunk [OF s'(2) inv] and oa = ordered_at [OF inv v(1)]
  have inv1: "v_start v \<le> v_end v" using oa(3) by (simp add: vmr_in_def)
  have sz: "unat (vmr_size v) = snd (vreg v)" "0 < snd (vreg v)" using vmr_in_bounds(2,4) [OF oa(3)] .
  have fv: "fst (vreg v) = unat start" using v(2) by (simp add: vreg_def)
  have ub: "unat (upper_bound v) = unat start + snd (vreg v)" using vmr_in_bounds(1) [OF oa(3)] vreg_end [OF inv1] fv by simp
  have l: "unat (len - vmr_size v) = unat len - snd (vreg v)" "snd (vreg v) < unat len"
    using len sz(1) by (auto simp: unat_sub word_less_nat_alt order_less_imp_le)
  have ne: "start + len - 1 \<noteq> v_end v"
  proof
    assume "start + len - 1 = v_end v"
    then have "vmr_size v = len" using v(2) by (simp add: vmr_size_def algebra_simps)
    then show False using len by simp
  qed
  then have ex: "mmap_find_exact me m start (start + len - 1) s = Some NULL"
    using find_exact_ok [OF inv lk f(1) v(1), of "start + len - 1"] f(2) by simp
  have l0: "len \<noteq> 0" "\<not> len < vmr_size v" using len by auto
  have "mmap_unmap_loop me m start len s = mmap_unmap_loop me m (upper_bound v) (len - vmr_size v) s'"
    using ex f v len l0 s'(1) by (simp add: mmap_unmap_loop.simps [of me m start len s] Let_def hget_nonNULL)
  moreover have "covered (vregs s' (A @ B)) - unmap_range (upper_bound v) (len - vmr_size v) =
      covered (vregs s (A @ x # B)) - unmap_range start len"
  proof -
    have "unmap_range start len = span (vreg v) \<union> unmap_range (upper_bound v) (len - vmr_size v)"
      unfolding unmap_range_def span_def fv ub l(1) using l(2) by auto
    then show ?thesis unfolding sh(3) oa(2) by auto
  qed
  moreover have "\<not> inside (vregs s' (A @ B)) (unat (upper_bound v))"
    using not_inside_after [OF oa(1)] ub fv unfolding sh(2) by simp
  moreover have "unat (upper_bound v) + unat (len - vmr_size v) \<le> ulimit" using ub l b by simp
  moreover have "2 * unat (len - vmr_size v) + of_bool (unat (upper_bound v) \<in> covered (vregs s' (A @ B)))
      < 2 * unat len + of_bool (unat start \<in> covered (vregs s (A @ x # B)))"
    by (rule measure_less) (use l sz(2) in simp)
  ultimately have "unmap_step me m start len s (A @ x # B) (upper_bound v) (len - vmr_size v) s' (A @ B)"
    unfolding unmap_step_def using sh(1) by blast
  then show thesis by (rule that)
qed

lemma unmap_last:
  assumes inv: "mmap_inv s m (A @ x # B)" and lk: "mmap_locked me s m" and f: "mmap_find me m start s = Some x" "x \<noteq> NULL"
    and v: "vmrs s x = Some v" "v_start v < start" "v_end v = start" and len: "len \<noteq> 0" and b: "unat start + unat len \<le> ulimit"
  obtains s' where "unmap_step me m start len s (A @ x # B) start len s' (A @ x # B)"
proof -
  note oa = ordered_at [OF inv v(1)]
  let ?w = "v\<lparr>v_end := start - 1\<rparr>"
  let ?s = "s\<lparr>vmrs := (vmrs s)(x \<mapsto> ?w)\<rparr>"
  have lt: "unat (v_start v) < unat start" using v(2) by (simp add: word_less_nat_alt)
  then have sm: "unat (start - 1) = unat start - 1" by (metis gr_implies_not0 not_gr0 unat_0 unat_minus_one)
  have vv: "vreg v = (unat (v_start v), Suc (unat start) - unat (v_start v))" using v(3) by (simp add: vreg_def)
  have vw: "vreg ?w = (unat (v_start v), unat start - unat (v_start v))" using sm lt by (simp add: vreg_def)
  have wi: "vmr_in m ?w" using oa(3) sm lt v(3) by (simp add: vmr_in_def word_le_nat_alt) linarith
  have o: "ordered (vregs s A @ vreg ?w # vregs s B)"
    by (rule ordered_within [OF oa(1)]) (use vw vv lt in simp_all)
  have links: "v_prev ?w = v_prev v" "v_next ?w = v_next v" by simp_all
  note rs = resize_ok [OF inv v(1) links wi o]
  have ex: "mmap_find_exact me m start (start + len - 1) s = Some NULL"
    using find_exact_ok [OF inv lk f(1) v(1), of "start + len - 1"] f(2) v(2) by auto
  have ns: "v_start v \<noteq> start" using v(2) by auto
  have "rupd x (\<lambda>v. v\<lparr>v_end := v_end v - 1\<rparr>) s = Some ?s" using v(1,3) f(2) by (simp add: upd_defs hget_nonNULL)
  then have "mmap_unmap_loop me m start len s = mmap_unmap_loop me m start len ?s"
    using ex f v(1,3) ns len by (simp add: mmap_unmap_loop.simps [of me m start len s] Let_def hget_nonNULL)
  moreover have "shrunk s m (A @ x # B) ?s (A @ x # B)"
    by (rule resize_shrunk [OF inv v(1)]) (use rs(1) in \<open>simp_all add: vattr_def vcore_def\<close>)
  moreover have c: "covered (vregs ?s (A @ x # B)) = covered (vregs s (A @ x # B)) - {unat start}"
  proof -
    have sp: "span (vreg v) = insert (unat start) (span (vreg ?w))" "unat start \<notin> span (vreg ?w)"
      unfolding span_def vv vw using lt by auto
    have "unat start \<notin> covered (vregs s A @ vregs s B)" using ordered_disjoint [OF oa(1)] sp(1) by auto
    then show ?thesis unfolding rs(2) using sp oa(2) by auto
  qed
  moreover have "unat start \<in> unmap_range start len" using len by (simp add: unmap_range_def unat_gt_0)
  then have "covered (vregs ?s (A @ x # B)) - unmap_range start len = covered (vregs s (A @ x # B)) - unmap_range start len"
    unfolding c by auto
  moreover have "\<not> inside (vregs ?s (A @ x # B)) (unat start)" using c inside_covered by fastforce
  moreover have "2 * unat len + of_bool (unat start \<in> covered (vregs ?s (A @ x # B)))
      < 2 * unat len + of_bool (unat start \<in> covered (vregs s (A @ x # B)))"
  proof -
    have "unat start \<in> covered (vregs s (A @ x # B))" using oa(2) vv lt by (simp add: span_def)
    then show ?thesis unfolding c by simp
  qed
  ultimately have "unmap_step me m start len s (A @ x # B) start len ?s (A @ x # B)"
    unfolding unmap_step_def using b by blast
  then show thesis by (rule that)
qed

lemma unmap_hole:
  assumes inv: "mmap_inv s m xs" and lk: "mmap_locked me s m" and f: "mmap_find me m start s = Some NULL"
    and h: "unat start \<notin> covered (vregs s xs)" and len: "len \<noteq> 0" and b: "unat start + unat len \<le> ulimit"
  obtains n where "unmap_step me m start len s xs (start + n) (len - n) s xs"
proof -
  obtain err n where n: "mmap_holesize me m start True s = Some (err, n)" "\<forall>k. gap user_range (vregs s xs) (unat start) k \<longleftrightarrow> k \<le> unat n"
      "unat start + unat n < 2 ^ 64"
    by (rule mmap_holesize_ok [OF inv lk])
  have l1: "0 < unat len" using len by (simp add: unat_gt_0)
  then have "gap user_range (vregs s xs) (unat start) 1" using h b by (auto simp: gap_def)
  then have n1: "1 \<le> unat n" using n(2) by blast
  let ?n = "if len < n then len else n"
  have nn: "unat ?n = min (unat len) (unat n)" by (auto simp: word_less_nat_alt)
  have s1: "unat (start + ?n) = unat start + unat ?n" using n(3) nn by (simp add: unat_word_ariths)
  have l: "unat (len - ?n) = unat len - unat ?n" by (auto simp: unat_sub word_less_nat_alt word_le_nat_alt)
  have g: "gap user_range (vregs s xs) (unat start) (unat ?n)" using n(2) nn by simp
  have ex: "mmap_find_exact me m start (start + len - 1) s = Some NULL"
    using find_exact_ok [OF inv lk f, of _ "start + len - 1"] by simp
  have n0: "n \<noteq> 0" using n1 by auto
  have "mmap_unmap_loop me m start len s = mmap_unmap_loop me m (start + ?n) (len - ?n) s"
    using ex f len n(1) n0 by (simp add: mmap_unmap_loop.simps [of me m start len s] Let_def)
  moreover have "covered (vregs s xs) - unmap_range (start + ?n) (len - ?n) = covered (vregs s xs) - unmap_range start len"
  proof -
    have "unmap_range start len = {unat start..<unat start + unat ?n} \<union> unmap_range (start + ?n) (len - ?n)"
      unfolding unmap_range_def s1 l using nn by auto
    moreover have "{unat start..<unat start + unat ?n} \<inter> covered (vregs s xs) = {}" using g by (simp add: gap_def)
    ultimately show ?thesis by auto
  qed
  moreover have "\<not> inside (vregs s xs) (unat (start + ?n))"
  proof
    assume "inside (vregs s xs) (unat (start + ?n))"
    then obtain r where r: "r \<in> set (vregs s xs)" "fst r < unat start + unat ?n" "Suc (unat start + unat ?n) < fst r + snd r"
      unfolding s1 inside_def by blast
    have "unat start + unat ?n - 1 \<in> span r" using r(2,3) by (auto simp: span_def)
    moreover have "unat start + unat ?n - 1 \<in> {unat start..<unat start + unat ?n}" using nn n1 l1 by auto
    ultimately show False using g r(1) by (auto simp: gap_def covered_def)
  qed
  moreover have "unat (start + ?n) + unat (len - ?n) \<le> ulimit" unfolding s1 l using nn b by simp
  moreover have "2 * unat (len - ?n) + of_bool (unat (start + ?n) \<in> covered (vregs s xs))
      < 2 * unat len + of_bool (unat start \<in> covered (vregs s xs))"
    by (rule measure_less) (use l nn n1 l1 in simp)
  ultimately have "unmap_step me m start len s xs (start + ?n) (len - ?n) s xs"
    unfolding unmap_step_def using shrunk_refl [OF inv] by blast
  then show thesis by (rule that)
qed

lemma unmap_step_exists:
  assumes inv: "mmap_inv s m xs" and lk: "mmap_locked me s m" and ni: "\<not> inside (vregs s xs) (unat start)"
    and len: "len \<noteq> 0" and b: "unat start + unat len \<le> ulimit"
  obtains start' len' s' ys where "unmap_step me m start len s xs start' len' s' ys"
proof -
  from mmap_find_ok [OF inv lk, of start] show ?thesis
  proof
    assume "\<exists>A x B v. xs = A @ x # B \<and> vmrs s x = Some v \<and> v_start v \<le> start \<and> start \<le> v_end v \<and> mmap_find me m start s = Some x \<and> x \<noteq> NULL"
    then obtain A x B v where x: "xs = A @ x # B" "vmrs s x = Some v" "v_start v \<le> start" "start \<le> v_end v"
        "mmap_find me m start s = Some x" "x \<noteq> NULL" by blast
    note inv' = inv [unfolded x(1)]
    have fin: ?thesis if "unmap_step me m start len s (A @ x # B) a n s' ys" for a n s' ys
      using that \<open>\<And>start' len' s' ys. unmap_step me m start len s xs start' len' s' ys \<Longrightarrow> thesis\<close> x(1) by simp
    have vi: "vmr_in m v" "vreg_at (vmrs s) x = vreg v" using ordered_at [OF inv' x(2)] by auto
    show ?thesis
    proof (cases "v_start v = start")
      case True
      consider "len < vmr_size v" | "vmr_size v < len" | "vmr_size v = len" by (metis linorder_cases)
      then show ?thesis
      proof cases
        case 1
        show ?thesis by (rule unmap_front [OF inv' lk x(5,6,2) True 1 len]) (rule fin)
      next
        case 2
        show ?thesis by (rule unmap_whole [OF inv' lk x(5,6,2) True 2 b]) (rule fin)
      next
        case 3
        then have ve: "v_end v = start + len - 1" using True by (auto simp: vmr_size_def)
        show ?thesis by (rule unmap_exact [OF inv' lk x(5,6,2) True ve b len]) (rule fin)
      qed
    next
      case False
      then have lt: "v_start v < start" using x(3) by simp
      have ve: "v_end v = start"
      proof (rule ccontr)
        assume "v_end v \<noteq> start"
        then have "start < v_end v" using x(4) by simp
        then have "fst (vreg v) < unat start" "Suc (unat start) < fst (vreg v) + snd (vreg v)"
          using vreg_end [of v] lt vi(1) by (auto simp: vreg_def vmr_in_def word_less_nat_alt)
        then have "inside (vregs s xs) (unat start)" using x(1) vi(2) by (auto simp: inside_def)
        then show False using ni by simp
      qed
      show ?thesis by (rule unmap_last [OF inv' lk x(5,6,2) lt ve len b]) (rule fin)
    qed
  next
    assume h: "unat start \<notin> covered (vregs s xs) \<and> mmap_find me m start s = Some NULL"
    show ?thesis by (rule unmap_hole [OF inv lk conjunct2 [OF h] conjunct1 [OF h] len b]) (rule that)
  qed
qed

lemma unmap_loop_ok:
  assumes "mmap_inv s m xs" "mmap_locked me s m" "\<not> inside (vregs s xs) (unat start)" "unat start + unat len \<le> ulimit"
  shows "\<exists>s' ys. mmap_unmap_loop me m start len s = Some s' \<and> shrunk s m xs s' ys
    \<and> covered (vregs s' ys) = covered (vregs s xs) - unmap_range start len"
  using assms
proof (induction "2 * unat len + of_bool (unat start \<in> covered (vregs s xs))" arbitrary: start len s xs rule: less_induct)
  case less
  show ?case
  proof (cases "len = 0")
    case True
    then show ?thesis using shrunk_refl [OF less.prems(1)] by (auto simp: mmap_unmap_loop.simps unmap_range_def)
  next
    case False
    obtain start' len' s1 ys where st: "unmap_step me m start len s xs start' len' s1 ys"
      by (rule unmap_step_exists [OF less.prems(1-3) False less.prems(4)])
    then have sh: "shrunk s m xs s1 ys" by (simp add: unmap_step_def)
    have "\<exists>s' zs. mmap_unmap_loop me m start' len' s1 = Some s' \<and> shrunk s1 m ys s' zs
        \<and> covered (vregs s' zs) = covered (vregs s1 ys) - unmap_range start' len'"
      by (rule less.hyps) (use st sh shrunk_locked [OF sh less.prems(2)] in \<open>simp_all add: unmap_step_def shrunk_def\<close>)
    then show ?thesis using st shrunk_trans [OF sh] unfolding unmap_step_def by metis
  qed
qed

lemma range_end:
  fixes start len :: u64
  assumes "unat start + unat len \<le> 2 ^ 64" "len \<noteq> 0"
  shows "unat (start + len - 1) = unat start + unat len - 1"
proof -
  have s: "start + len - 1 = start + (len - 1)" by simp
  have "unat (len - 1) = unat len - 1" using assms(2) by (simp add: unat_minus_one)
  moreover have "0 < unat len" using assms(2) by (simp add: unat_gt_0)
  ultimately show ?thesis unfolding s using assms(1) by (simp add: unat_word_ariths)
qed

lemma mmap_unmap_ok:
  assumes inv: "mmap_inv s m xs" and lk: "mmap_locked me s m" and ni: "\<not> inside (vregs s xs) (unat start)"
    and len: "len \<noteq> 0" and b: "unat start + unat len \<le> ulimit"
  obtains s' ys where "mmap_unmap me m start len s = Some (0, s')" "shrunk s m xs s' ys"
    "covered (vregs s' ys) = covered (vregs s xs) - unmap_range start len"
proof -
  have m0: "m \<noteq> NULL" using inv by (simp add: mmap_inv_def mmap_list_def)
  have "unat (start + len - 1) = unat start + unat len - 1" using range_end len b by (simp add: ulimit_eq)
  then have "valid_addr (start + len - 1)" using b by (simp add: valid_addr_def word_le_nat_alt ulimit_def)
  then show thesis using unmap_loop_ok [OF inv lk ni b] that m0 lk len by (auto simp: mmap_unmap_def)
qed

lemma mmap_unmap_outside:
  assumes "mmap_inv s m xs" "mmap_locked me s m" "len \<noteq> 0" "unat start + unat len \<le> 2 ^ 64" "ulimit < unat start + unat len"
  shows "mmap_unmap me m start len s = Some (- EINVAL, s)"
proof -
  have "m \<noteq> NULL" using assms(1) by (simp add: mmap_inv_def mmap_list_def)
  moreover have "\<not> valid_addr (start + len - 1)"
    using range_end [OF assms(4,3)] assms(5) by (simp add: valid_addr_def word_le_nat_alt ulimit_def)
  ultimately show ?thesis using assms(2,3) by (simp add: mmap_unmap_def)
qed

text \<open>Inside a region the code faults: \<open>vmr_split\<close> stores through the NULL that \<open>mmap_unmap\<close> passes.\<close>

lemma mmap_unmap_inside:
  assumes inv: "mmap_inv s m xs" and lk: "mmap_locked me s m" and i: "inside (vregs s xs) (unat start)"
    and len: "len \<noteq> 0" and b: "unat start + unat len \<le> ulimit"
  shows "mmap_unmap me m start len s = None"
proof -
  have m0: "m \<noteq> NULL" using inv by (simp add: mmap_inv_def mmap_list_def)
  obtain y where y: "y \<in> set xs" "fst (vreg_at (vmrs s) y) < unat start" "Suc (unat start) < fst (vreg_at (vmrs s) y) + snd (vreg_at (vmrs s) y)"
    using i by (auto simp: inside_def)
  have cov: "unat start \<in> covered (vregs s xs)" using inside_covered [OF i] .
  then obtain A x B v where x: "xs = A @ x # B" "vmrs s x = Some v" "v_start v \<le> start" "start \<le> v_end v"
      "mmap_find me m start s = Some x" "x \<noteq> NULL" using mmap_find_ok [OF inv lk, of start] by blast
  note inv' = inv [unfolded x(1)] and oa = ordered_at [OF inv [unfolded x(1)] x(2)]
  have "unat start \<in> span (vreg v)" using x(3,4) by (simp add: span_vreg)
  moreover have "unat start \<in> span (vreg_at (vmrs s) y)" using y(2,3) by (auto simp: span_def)
  ultimately have "y = x" using ordered_disjoint [OF oa(1)] y(1) x(1) by (auto simp: covered_def)
  then have lt: "v_start v < start" "start < v_end v"
    using y(2,3) oa(2) vreg_end [of v] oa(3) by (auto simp: vreg_def vmr_in_def word_less_nat_alt)
  then have ne: "v_start v \<noteq> start" "v_end v \<noteq> start" by auto
  then have "mmap_find_exact me m start (start + len - 1) s = Some NULL"
    using find_exact_ok [OF inv lk x(5,2), of "start + len - 1"] by auto
  then have "mmap_unmap_loop me m start len s = None"
    using x(2,5,6) len lt ne by (simp add: mmap_unmap_loop.simps [of me m start len s] Let_def hget_nonNULL vmr_split_def vmr_can_split_def)
  moreover have "valid_addr (start + len - 1)"
    using range_end [of start len] len b by (simp add: valid_addr_def word_le_nat_alt ulimit_eq)
  ultimately show ?thesis using m0 lk len by (simp add: mmap_unmap_def)
qed

section \<open>Holes\<close>

lemma gap_ends:
  assumes "gap arena rs c n" "r \<in> set rs" "0 < n" "0 < snd r"
  shows "c + n \<le> fst r \<or> fst r + snd r \<le> c"
proof (rule ccontr)
  assume "\<not> ?thesis"
  then have "max c (fst r) \<in> {c..<c + n}" "max c (fst r) \<in> span r" using assms(3,4) by (auto simp: span_def max_def)
  then show False using assms(1,2) unfolding gap_def covered_def by blast
qed

lemma gapI: "{c..<c + n} \<subseteq> arena \<Longrightarrow> (\<And>p. p \<in> set rs \<Longrightarrow> {c..<c + n} \<inter> span p = {}) \<Longrightarrow> gap arena rs c n"
  unfolding gap_def covered_def by blast

lemma gap_between:
  assumes "ordered (A @ r # q # B)" "fst q \<le> lim" "fst r + snd r \<le> c" "c + n \<le> fst q"
  shows "gap {..<lim} (A @ r # q # B) c n"
proof -
  have "\<forall>p\<in>set A. fst p + snd p \<le> fst r" using ordered_cut(1) [OF assms(1)] .
  moreover have "\<forall>p\<in>set B. fst q + snd q \<le> fst p" using ordered_cut(2) [of "A @ [r]" q B] assms(1) by simp
  ultimately have "{c..<c + n} \<inter> span p = {}" if "p \<in> set (A @ r # q # B)" for p
    using that assms(3,4) by (auto simp: span_def)
  moreover have "{c..<c + n} \<subseteq> {..<lim}" using assms(2,4) by auto
  ultimately show ?thesis by (intro gapI)
qed

lemma mmap_ordered: "mmap_inv s m xs \<Longrightarrow> ordered (vregs s xs)"
  by (simp add: mmap_inv_def)

lemma neighbour_gap:
  assumes inv: "mmap_inv s m (A @ x # y # B)" and v: "vmrs s x = Some v" "vmrs s y = Some w"
  shows "unat (v_start w - upper_bound v) = unat (v_start w) - unat (upper_bound v)" "upper_bound v \<le> v_start w"
    "gap user_range (vregs s (A @ x # y # B)) c n \<Longrightarrow> unat (v_start v) \<le> c \<Longrightarrow> 0 < n \<Longrightarrow>
      unat (upper_bound v) \<le> c \<and> (c + n \<le> unat (v_start w) \<or> unat (upper_bound w) \<le> c)"
    "unat (upper_bound v) \<le> c \<Longrightarrow> c + n \<le> unat (v_start w) \<Longrightarrow> gap user_range (vregs s (A @ x # y # B)) c n"
proof -
  have vi: "vmr_in m v" "vreg_at (vmrs s) x = vreg v" using ordered_at [OF inv v(1)] by auto
  have wi: "vmr_in m w" "vreg_at (vmrs s) y = vreg w" using ordered_at [of s m "A @ [x]" y B w] inv v(2) by auto
  have rs: "vregs s (A @ x # y # B) = vregs s A @ vreg v # vreg w # vregs s B" using vi(2) wi(2) by simp
  have ord: "ordered (vregs s A @ vreg v # vreg w # vregs s B)" using mmap_ordered [OF inv] unfolding rs .
  have ub: "unat (upper_bound v) = fst (vreg v) + snd (vreg v)" "unat (upper_bound w) = fst (vreg w) + snd (vreg w)"
    using vmr_in_bounds(1) [OF vi(1)] vmr_in_bounds(1) [OF wi(1)] vreg_end [of v] vreg_end [of w] vi(1) wi(1)
    by (simp_all add: vmr_in_def)
  have st: "fst (vreg w) = unat (v_start w)" "fst (vreg v) = unat (v_start v)" by (simp_all add: vreg_def)
  have "fst (vreg v) + snd (vreg v) \<le> fst (vreg w)" using ordered_cut(2) [OF ord] by simp
  then show le: "upper_bound v \<le> v_start w" by (simp add: word_le_nat_alt ub st)
  then show "unat (v_start w - upper_bound v) = unat (v_start w) - unat (upper_bound v)" by (simp add: unat_sub)
  have pos: "0 < snd (vreg v)" "0 < snd (vreg w)" using vmr_in_bounds(4) vi(1) wi(1) by auto
  show "unat (upper_bound v) \<le> c \<and> (c + n \<le> unat (v_start w) \<or> unat (upper_bound w) \<le> c)"
    if "gap user_range (vregs s (A @ x # y # B)) c n" "unat (v_start v) \<le> c" "0 < n"
    using gap_ends [OF that(1) _ that(3) pos(1)] gap_ends [OF that(1) _ that(3) pos(2)] that(2,3) pos
    unfolding rs ub st by auto
  have "unat (v_start w) \<le> ulimit" using wi(1) by (auto simp: vmr_in_def ulimit_def word_le_nat_alt)
  then show "gap user_range (vregs s (A @ x # y # B)) c n" if "unat (upper_bound v) \<le> c" "c + n \<le> unat (v_start w)"
    using gap_between [OF ord] that unfolding rs ub st by simp
qed

lemma start_le_upper:
  assumes "mmap_inv s m xs" "x \<in> set xs" "vmrs s x = Some v"
  shows "unat (v_start v) \<le> unat (upper_bound v)"
proof -
  have "vmr_in m v" using assms by (auto simp: mmap_inv_def)
  then show ?thesis using vmr_in_bounds(1) [of m v] by (simp add: vmr_in_def word_le_nat_alt)
qed

lemma hole_up_loop_ok:
  assumes "mmap_inv s m (A @ x # B)" "mmap_locked me s m" "vmrs s x = Some v" "sz \<noteq> 0"
  shows "\<exists>r. hole_up_loop me m sz x s = Some r \<and>
    (case r of None \<Rightarrow> \<forall>c\<ge>unat (v_start v). \<not> gap user_range (vregs s (A @ x # B)) c (unat sz)
     | Some a \<Rightarrow> gap user_range (vregs s (A @ x # B)) (unat a) (unat sz)
         \<and> (\<forall>c\<ge>unat (v_start v). gap user_range (vregs s (A @ x # B)) c (unat sz) \<longrightarrow> unat a \<le> c))"
  using assms
proof (induction B arbitrary: A x v)
  case Nil
  note inv = Nil.prems(1)
  have vi: "vmr_in m v" "vreg_at (vmrs s) x = vreg v" using ordered_at [OF inv Nil.prems(3)] by auto
  have x: "v_next v = NULL" "x \<noteq> NULL"
    using inv Nil.prems(3) by (auto simp: mmap_inv_def mmap_list_def dlist_def dchain_append)
  obtain err n where n: "mmap_holesize me m (upper_bound v) True s = Some (err, n)"
      "\<forall>k. gap user_range (vregs s (A @ [x])) (unat (upper_bound v)) k \<longleftrightarrow> k \<le> unat n"
    by (rule mmap_holesize_ok [OF inv Nil.prems(2)])
  have ub: "unat (upper_bound v) = fst (vreg v) + snd (vreg v)"
    using vmr_in_bounds(1) [OF vi(1)] vreg_end [of v] vi(1) by (simp add: vmr_in_def)
  have pos: "0 < snd (vreg v)" "0 < unat sz" using vmr_in_bounds(4) [OF vi(1)] Nil.prems(4) by (auto simp: unat_gt_0)
  have key: "unat (upper_bound v) \<le> c \<and> sz \<le> n" if g: "gap user_range (vregs s (A @ [x])) c (unat sz)" and c: "unat (v_start v) \<le> c" for c
  proof -
    have c1: "unat (upper_bound v) \<le> c" using gap_ends [OF g _ pos(2,1)] c pos vi(2) unfolding ub by (auto simp: vreg_def)
    have "c + unat sz - 1 \<in> {c..<c + unat sz}" using pos(2) by simp
    then have "c + unat sz - 1 \<in> user_range" using g unfolding gap_def by blast
    then have "c + unat sz \<le> ulimit" by auto
    moreover have "{unat (upper_bound v)..<unat (upper_bound v) + unat sz} \<inter> span p = {}" if p: "p \<in> set (vregs s (A @ [x]))" for p
      using ordered_cut(1) [of "vregs s A" "vreg v" "[]"] mmap_ordered [OF inv] p vi(2) ub by (auto simp: span_def)
    moreover from calculation have "{unat (upper_bound v)..<unat (upper_bound v) + unat sz} \<subseteq> user_range" using c1 by auto
    ultimately have "gap user_range (vregs s (A @ [x])) (unat (upper_bound v)) (unat sz)" by (intro gapI)
    then show ?thesis using n(2) c1 by (simp add: word_le_nat_alt)
  qed
  have ev: "hole_up_loop me m sz x s = Some (if sz \<le> n then Some (upper_bound v) else None)"
    using x n(1) Nil.prems(3) by (simp add: hole_up_loop.simps [of me m sz x s] hget_nonNULL)
  show ?case
  proof (cases "sz \<le> n")
    case True
    then have "gap user_range (vregs s (A @ [x])) (unat (upper_bound v)) (unat sz)" using n(2) by (simp add: word_le_nat_alt)
    then show ?thesis using ev True key by simp
  next
    case False
    then show ?thesis using ev key by auto
  qed
next
  case (Cons y B)
  note inv = Cons.prems(1)
  obtain w where w: "vmrs s y = Some w" using mmap_inv_at [OF inv, of y] by auto
  have x: "v_next v = y" "x \<noteq> NULL" "y \<noteq> NULL"
    using inv Cons.prems(3) by (auto simp: mmap_inv_def mmap_list_def dlist_def dchain_append)
  note ng = neighbour_gap [OF inv Cons.prems(3) w]
  have sz0: "0 < unat sz" using Cons.prems(4) by (simp add: unat_gt_0)
  show ?case
  proof (cases "sz \<le> v_start w - upper_bound v")
    case True
    then have "hole_up_loop me m sz x s = Some (Some (upper_bound v))"
      using x Cons.prems(3) w by (simp add: hole_up_loop.simps [of me m sz x s] hget_nonNULL)
    moreover have "unat (upper_bound v) + unat sz \<le> unat (v_start w)"
      using True ng(1,2) by (simp add: word_le_nat_alt) 
    ultimately show ?thesis using ng(3,4) sz0 by auto
  next
    case False
    then have "hole_up_loop me m sz x s = hole_up_loop me m sz y s"
      using x Cons.prems(3) w by (simp add: hole_up_loop.simps [of me m sz x s] hget_nonNULL)
    moreover have up: "unat (v_start w) \<le> c" if "gap user_range (vregs s (A @ x # y # B)) c (unat sz)" "unat (v_start v) \<le> c" for c
    proof -
      have "\<not> (unat (upper_bound v) \<le> c \<and> c + unat sz \<le> unat (v_start w))"
        using False ng(1) by (auto simp: word_le_nat_alt)
      then have "unat (upper_bound w) \<le> c" using ng(3) [OF that sz0] by auto
      moreover have "unat (v_start w) \<le> unat (upper_bound w)" by (rule start_le_upper [OF inv _ w]) simp
      ultimately show ?thesis by simp
    qed
    moreover have "unat (v_start v) \<le> unat (v_start w)"
    proof -
      have "unat (v_start v) \<le> unat (upper_bound v)" by (rule start_le_upper [OF inv _ Cons.prems(3)]) simp
      then show ?thesis using ng(2) by (simp add: word_le_nat_alt)
    qed
    moreover obtain r where "hole_up_loop me m sz y s = Some r" "case r of None \<Rightarrow> \<forall>c\<ge>unat (v_start w). \<not> gap user_range (vregs s (A @ x # y # B)) c (unat sz)
       | Some a \<Rightarrow> gap user_range (vregs s (A @ x # y # B)) (unat a) (unat sz)
         \<and> (\<forall>c\<ge>unat (v_start w). gap user_range (vregs s (A @ x # y # B)) c (unat sz) \<longrightarrow> unat a \<le> c)"
      using Cons.IH [of "A @ [x]" y w, unfolded append_assoc append_Cons append_Nil] inv Cons.prems(2,4) w by auto
    ultimately show ?thesis by (cases r) auto
  qed
qed

lemma gap_before_first:
  assumes "ordered (r # B)" "c + n \<le> fst r" "fst r \<le> lim"
  shows "gap {..<lim} (r # B) c n"
proof (rule gapI)
  show "{c..<c + n} \<subseteq> {..<lim}" using assms(2,3) by auto
  show "{c..<c + n} \<inter> span p = {}" if "p \<in> set (r # B)" for p
    using ordered_cut(2) [of "[]" r B] assms(1,2) that by (auto simp: span_def)
qed

lemma hole_down_loop_ok:
  assumes "mmap_inv s m (A @ x # B)" "vmrs s x = Some v" "sz \<noteq> 0" "\<forall>r\<in>set (vregs s (A @ x # B)). fst r \<noteq> 1"
  shows "\<exists>r. hole_down_loop sz x s = Some r \<and>
    (case r of None \<Rightarrow> \<forall>c. c + unat sz \<le> unat (v_start v) \<longrightarrow> \<not> gap user_range (vregs s (A @ x # B)) c (unat sz)
     | Some a \<Rightarrow> gap user_range (vregs s (A @ x # B)) (unat a) (unat sz)
         \<and> (\<forall>c. c + unat sz \<le> unat (v_start v) \<longrightarrow> gap user_range (vregs s (A @ x # B)) c (unat sz) \<longrightarrow> c \<le> unat a))"
  using assms
proof (induction A arbitrary: x B v rule: rev_induct)
  case Nil
  note inv = Nil.prems(1)
  have vi: "vmr_in m v" "vreg_at (vmrs s) x = vreg v" using ordered_at [OF inv Nil.prems(2)] by auto
  have x: "v_prev v = NULL" "x \<noteq> NULL" using inv Nil.prems(2) by (auto simp: mmap_inv_def mmap_list_def dlist_def)
  have n1: "unat (v_start v) \<noteq> 1" using Nil.prems(4) vi(2) by (auto simp: vreg_def)
  have lim: "unat (v_start v) \<le> ulimit" using vi(1) by (auto simp: vmr_in_def ulimit_def word_le_nat_alt)
  have nil: "hole_down_loop sz NULL s = Some None" by (simp add: hole_down_loop.simps)
  show ?case
  proof (cases "sz \<le> v_start v")
    case True
    have "lower_bound v \<noteq> 0"
    proof
      assume "lower_bound v = 0"
      then have "v_start v = 1" by (simp add: lower_bound_def)
      then show False using n1 by simp
    qed
    then have "0 < lower_bound v" by (simp add: word_gt_0)
    then have "hole_down_loop sz x s = Some (Some (v_start v - sz))"
      using True x Nil.prems(2) by (simp add: hole_down_loop.simps [of sz x s] hget_nonNULL)
    moreover have u: "unat (v_start v - sz) + unat sz = unat (v_start v)" using True by (simp add: unat_sub word_le_nat_alt)
    moreover have "gap user_range (vregs s ([] @ x # B)) (unat (v_start v - sz)) (unat sz)"
      using gap_before_first [of "vreg v" "vregs s B" "unat (v_start v - sz)" "unat sz" ulimit] mmap_ordered [OF inv] vi(2) u lim
      by (simp add: vreg_def)
    ultimately show ?thesis by auto
  next
    case False
    then have "hole_down_loop sz x s = Some None"
      using nil x Nil.prems(2) by (simp add: hole_down_loop.simps [of sz x s] hget_nonNULL)
    then show ?thesis using False by (auto simp: word_le_nat_alt)
  qed
next
  case (snoc p A)
  have inv: "mmap_inv s m (A @ p # x # B)" using snoc.prems(1) by simp
  obtain w where w: "vmrs s p = Some w" using mmap_inv_at [OF inv, of p] by auto
  have x: "v_prev v = p" "x \<noteq> NULL" "p \<noteq> NULL"
    using inv snoc.prems(2) by (auto simp: mmap_inv_def mmap_list_def dlist_def dchain_append)
  note ng = neighbour_gap [OF inv w snoc.prems(2)]
  have sz0: "0 < unat sz" using snoc.prems(3) by (simp add: unat_gt_0)
  show ?case
  proof (cases "sz \<le> v_start v - upper_bound w")
    case True
    then have le: "unat (upper_bound w) + unat sz \<le> unat (v_start v)" using ng(1,2) by (simp add: word_le_nat_alt)
    then have "sz \<le> v_start v" by (simp add: word_le_nat_alt)
    then have u: "unat (v_start v - sz) = unat (v_start v) - unat sz" by (simp add: unat_sub)
    have "hole_down_loop sz x s = Some (Some (v_start v - sz))"
      using True x snoc.prems(2) w by (simp add: hole_down_loop.simps [of sz x s] hget_nonNULL)
    moreover have "gap user_range (vregs s (A @ p # x # B)) (unat (v_start v - sz)) (unat sz)"
      by (rule ng(4)) (use le u in simp_all)
    ultimately show ?thesis using u by auto
  next
    case False
    then have "hole_down_loop sz x s = hole_down_loop sz p s"
      using x snoc.prems(2) w by (simp add: hole_down_loop.simps [of sz x s] hget_nonNULL)
    moreover have "c + unat sz \<le> unat (v_start w)" if g: "gap user_range (vregs s (A @ p # x # B)) c (unat sz)" and c: "c + unat sz \<le> unat (v_start v)" for c
    proof (rule ccontr)
      assume n: "\<not> c + unat sz \<le> unat (v_start w)"
      have wi: "vmr_in m w" "vreg_at (vmrs s) p = vreg w" using ordered_at [OF inv w] by auto
      have "unat (upper_bound w) = fst (vreg w) + snd (vreg w)" "0 < snd (vreg w)"
        using vmr_in_bounds(1,4) [OF wi(1)] vreg_end [of w] wi(1) by (auto simp: vmr_in_def)
      then have "unat (upper_bound w) \<le> c" using gap_ends [OF g, of "vreg w"] sz0 n wi(2) by (simp add: vreg_def)
      then show False using False ng(1) c by (simp add: word_le_nat_alt)
    qed
    moreover have "unat (v_start w) \<le> unat (v_start v)"
    proof -
      have "unat (v_start w) \<le> unat (upper_bound w)" by (rule start_le_upper [OF inv _ w]) simp
      then show ?thesis using ng(2) by (simp add: word_le_nat_alt)
    qed
    moreover obtain r where "hole_down_loop sz p s = Some r"
        "case r of None \<Rightarrow> \<forall>c. c + unat sz \<le> unat (v_start w) \<longrightarrow> \<not> gap user_range (vregs s (A @ p # x # B)) c (unat sz)
         | Some a \<Rightarrow> gap user_range (vregs s (A @ p # x # B)) (unat a) (unat sz)
           \<and> (\<forall>c. c + unat sz \<le> unat (v_start w) \<longrightarrow> gap user_range (vregs s (A @ p # x # B)) c (unat sz) \<longrightarrow> c \<le> unat a)"
      using snoc.IH [OF inv w snoc.prems(3)] snoc.prems(4) by auto
    ultimately show ?thesis by (cases r) auto
  qed
qed

lemma gap_limit: "gap {..<lim} rs c n \<Longrightarrow> 0 < n \<Longrightarrow> c + n \<le> lim"
proof -
  assume g: "gap {..<lim} rs c n" and n: "0 < n"
  have "c + n - 1 \<in> {c..<c + n}" using n by simp
  then have "c + n - 1 \<in> {..<lim}" using g unfolding gap_def by blast
  then show ?thesis using n by auto
qed

lemma gap_after_last:
  assumes "ordered (A @ [r])" "fst r + snd r \<le> c" "c + n \<le> lim"
  shows "gap {..<lim} (A @ [r]) c n"
proof (rule gapI)
  show "{c..<c + n} \<subseteq> {..<lim}" using assms(3) by auto
  show "{c..<c + n} \<inter> span p = {}" if "p \<in> set (A @ [r])" for p
    using ordered_cut(1) [of A r "[]"] assms(1,2) that by (auto simp: span_def)
qed

definition lowest_gap :: "region list \<Rightarrow> nat \<Rightarrow> nat option \<Rightarrow> bool" where
  "lowest_gap rs n r \<longleftrightarrow> (case r of None \<Rightarrow> \<forall>c. \<not> gap user_range rs c n
     | Some a \<Rightarrow> gap user_range rs a n \<and> (\<forall>c. gap user_range rs c n \<longrightarrow> a \<le> c))"

definition highest_gap :: "region list \<Rightarrow> nat \<Rightarrow> nat option \<Rightarrow> bool" where
  "highest_gap rs n r \<longleftrightarrow> (case r of None \<Rightarrow> \<forall>c. \<not> gap user_range rs c n
     | Some a \<Rightarrow> gap user_range rs a n \<and> (\<forall>c. gap user_range rs c n \<longrightarrow> c \<le> a))"

definition hole_answer :: "u64 option \<Rightarrow> int \<times> u64" where
  "hole_answer r = (case r of Some a \<Rightarrow> (0, a) | None \<Rightarrow> (- ENOMEM, 0))"

lemma find_hole_start_ok:
  assumes inv: "mmap_inv s m xs" and lk: "mmap_locked me s m" and sz: "sz \<noteq> 0"
  shows "\<exists>r. mmap_find_hole me m sz True whence_start s = Some (hole_answer r) \<and> lowest_gap (vregs s xs) (unat sz) (map_option unat r)"
proof -
  obtain mp where mp: "maps s m = Some mp" "m \<noteq> NULL" "NULL \<notin> set xs" "vmr_head mp = first_of xs NULL"
    using mmap_inv_list [OF inv] by metis
  obtain err n where n: "mmap_holesize me m 0 True s = Some (err, n)" "\<forall>k. gap user_range (vregs s xs) (unat (0 :: u64)) k \<longleftrightarrow> k \<le> unat n"
    by (rule mmap_holesize_ok [OF inv lk])
  have sz0: "0 < unat sz" using sz by (simp add: unat_gt_0)
  let ?f = "if sz \<le> n then Some (Some 0) else hole_up_loop me m sz (vmr_head mp) s"
  have ev: "mmap_find_hole me m sz True whence_start s = do { found \<leftarrow> ?f; Some (hole_answer found) }"
    using mp lk sz n(1) by (simp add: mmap_find_hole_def hget_nonNULL hole_answer_def)
  have "\<exists>r. ?f = Some r \<and> lowest_gap (vregs s xs) (unat sz) (map_option unat r)"
  proof (cases "sz \<le> n")
    case True
    then have "gap user_range (vregs s xs) 0 (unat sz)" using n(2) by (simp add: word_le_nat_alt)
    then show ?thesis using True by (auto simp: lowest_gap_def)
  next
    case no: False
    then have n0: "\<not> gap user_range (vregs s xs) 0 (unat sz)" using n(2) by (simp add: word_le_nat_alt)
    show ?thesis
    proof (cases xs)
      case Nil
      have "\<not> gap user_range [] c (unat sz)" for c
      proof
        assume "gap user_range [] c (unat sz)"
        then have "c + unat sz \<le> ulimit" using gap_limit sz0 by blast
        then have "gap user_range [] 0 (unat sz)" by (auto simp: gap_def)
        then show False using n0 Nil by simp
      qed
      then show ?thesis using no Nil mp by (simp add: hole_up_loop.simps lowest_gap_def)
    next
      case (Cons x B)
      then obtain v where v: "vmrs s x = Some v" "vmr_in m v" "vreg_at (vmrs s) x = vreg v" using mmap_inv_at [OF inv, of x] by auto
      have st: "unat (v_start v) \<le> c" if g: "gap user_range (vregs s xs) c (unat sz)" for c
      proof -
        have "c + unat sz \<le> fst (vreg v) \<or> fst (vreg v) + snd (vreg v) \<le> c"
          by (rule gap_ends [OF g _ sz0]) (use Cons v(3) vmr_in_bounds(4) [OF v(2)] in simp_all)
        moreover have "\<not> c + unat sz \<le> fst (vreg v)"
        proof
          assume "c + unat sz \<le> fst (vreg v)"
          moreover have "fst (vreg v) \<le> ulimit" using v(2) by (auto simp: vreg_def vmr_in_def ulimit_def word_le_nat_alt)
          ultimately have "gap user_range (vregs s xs) 0 (unat sz)"
            using gap_before_first [of "vreg v" "vregs s B" 0 "unat sz" ulimit] mmap_ordered [OF inv] Cons v(3) by simp
          then show False using n0 by simp
        qed
        ultimately show ?thesis by (simp add: vreg_def)
      qed
      obtain r where "hole_up_loop me m sz x s = Some r" "case r of None \<Rightarrow> \<forall>c\<ge>unat (v_start v). \<not> gap user_range (vregs s xs) c (unat sz)
         | Some a \<Rightarrow> gap user_range (vregs s xs) (unat a) (unat sz)
           \<and> (\<forall>c\<ge>unat (v_start v). gap user_range (vregs s xs) c (unat sz) \<longrightarrow> unat a \<le> c)"
        using hole_up_loop_ok [of s m "[]" x B me v sz, unfolded append_Nil] inv lk v(1) sz Cons by auto
      then show ?thesis using st no mp Cons by (cases r) (auto simp: lowest_gap_def)
    qed
  qed
  then show ?thesis using ev by auto
qed

lemma find_hole_end_ok:
  assumes inv: "mmap_inv s m xs" and lk: "mmap_locked me s m" and sz: "sz \<noteq> 0" and st: "\<forall>r\<in>set (vregs s xs). fst r \<noteq> 1"
  shows "\<exists>r. mmap_find_hole me m sz True whence_end s = Some (hole_answer r) \<and> highest_gap (vregs s xs) (unat sz) (map_option unat r)"
proof -
  obtain mp where mp: "maps s m = Some mp" "m \<noteq> NULL" "m_limit mp = mmap_limit" "NULL \<notin> set xs" "vmr_tail mp = last_of xs NULL"
    using mmap_inv_list [OF inv] by metis
  let ?a = "mmap_limit + 1 - sz"
  obtain err n where n: "mmap_holesize me m ?a True s = Some (err, n)" "\<forall>k. gap user_range (vregs s xs) (unat ?a) k \<longleftrightarrow> k \<le> unat n"
    by (rule mmap_holesize_ok [OF inv lk])
  have sz0: "0 < unat sz" using sz by (simp add: unat_gt_0)
  let ?f = "if sz \<le> n then Some (Some ?a) else hole_down_loop sz (vmr_tail mp) s"
  have ev: "mmap_find_hole me m sz True whence_end s = do { found \<leftarrow> ?f; Some (hole_answer found) }"
    using mp lk sz n(1) by (simp add: mmap_find_hole_def hget_nonNULL hole_answer_def whence_start_def whence_end_def)
  have top: "unat ?a = ulimit - unat sz" if "c + unat sz \<le> ulimit" for c
  proof -
    have "sz \<le> mmap_limit + 1" using that by (simp add: word_le_nat_alt ulimit_eq mmap_limit_def)
    then show ?thesis by (simp add: unat_sub ulimit_eq mmap_limit_def)
  qed
  have "\<exists>r. ?f = Some r \<and> highest_gap (vregs s xs) (unat sz) (map_option unat r)"
  proof (cases "sz \<le> n")
    case True
    then have g: "gap user_range (vregs s xs) (unat ?a) (unat sz)" using n(2) by (simp add: word_le_nat_alt)
    have "c \<le> unat ?a" if "gap user_range (vregs s xs) c (unat sz)" for c
      using gap_limit [OF that sz0] top [of c] by simp
    then show ?thesis using True g by (auto simp: highest_gap_def)
  next
    case no: False
    then have n0: "\<not> gap user_range (vregs s xs) (unat ?a) (unat sz)" using n(2) by (simp add: word_le_nat_alt)
    show ?thesis
    proof (cases xs rule: rev_cases)
      case Nil
      have "\<not> gap user_range [] c (unat sz)" for c
      proof
        assume "gap user_range [] c (unat sz)"
        then have "c + unat sz \<le> ulimit" using gap_limit sz0 by blast
        then have "gap user_range [] (unat ?a) (unat sz)" using top [of c] by (auto simp: gap_def)
        then show False using n0 Nil by simp
      qed
      then show ?thesis using no Nil mp by (simp add: hole_down_loop.simps highest_gap_def)
    next
      case (snoc A x)
      then obtain v where v: "vmrs s x = Some v" "vmr_in m v" "vreg_at (vmrs s) x = vreg v" using mmap_inv_at [OF inv, of x] by auto
      have le: "c + unat sz \<le> unat (v_start v)" if g: "gap user_range (vregs s xs) c (unat sz)" for c
      proof -
        have lim: "c + unat sz \<le> ulimit" using gap_limit [OF g sz0] .
        have "c + unat sz \<le> fst (vreg v) \<or> fst (vreg v) + snd (vreg v) \<le> c"
          by (rule gap_ends [OF g _ sz0]) (use snoc v(3) vmr_in_bounds(4) [OF v(2)] in simp_all)
        moreover have "\<not> fst (vreg v) + snd (vreg v) \<le> c"
        proof
          assume "fst (vreg v) + snd (vreg v) \<le> c"
          then have "gap user_range (vregs s xs) (unat ?a) (unat sz)"
            using gap_after_last [of "vregs s A" "vreg v" "unat ?a" "unat sz" ulimit] mmap_ordered [OF inv] snoc v(3) top [OF lim] lim by simp
          then show False using n0 by simp
        qed
        ultimately show ?thesis by (simp add: vreg_def)
      qed
      obtain r where "hole_down_loop sz x s = Some r" "case r of None \<Rightarrow> \<forall>c. c + unat sz \<le> unat (v_start v) \<longrightarrow> \<not> gap user_range (vregs s xs) c (unat sz)
         | Some a \<Rightarrow> gap user_range (vregs s xs) (unat a) (unat sz)
           \<and> (\<forall>c. c + unat sz \<le> unat (v_start v) \<longrightarrow> gap user_range (vregs s xs) c (unat sz) \<longrightarrow> c \<le> unat a)"
        using hole_down_loop_ok [of s m A x "[]" v sz] inv v(1) sz st snoc by auto
      then show ?thesis using le no mp snoc by (cases r) (auto simp: highest_gap_def)
    qed
  qed
  then show ?thesis using ev by auto
qed

text \<open>The searches near an address only return gaps.\<close>

definition some_gap :: "region list \<Rightarrow> nat \<Rightarrow> u64 option \<Rightarrow> bool" where
  "some_gap rs n r \<longleftrightarrow> (case r of None \<Rightarrow> True | Some a \<Rightarrow> gap user_range rs (unat a) n)"

lemma neighbours_at:
  assumes inv: "mmap_inv s m xs" and x: "x \<in> set xs"
  obtains A B v where "xs = A @ x # B" "vmrs s x = Some v" "x \<noteq> NULL" "v_prev v = last_of A NULL" "v_next v = first_of B NULL"
proof -
  obtain A B where ab: "xs = A @ x # B" using x by (auto simp: in_set_conv_decomp)
  obtain v where "vmrs s x = Some v" "v_prev v = last_of A NULL" "v_next v = first_of B NULL"
    using inv ab dlist_at [of v_next v_prev "vmrs s" _ _ A x B] by (auto simp: mmap_inv_def mmap_list_def)
  moreover have "x \<noteq> NULL" using mmap_inv_at [OF inv x] by metis
  ultimately show thesis using that ab by blast
qed

lemma hole_up_loop_gap:
  assumes inv: "mmap_inv s m xs" and lk: "mmap_locked me s m" and x: "x \<in> set xs" and sz: "sz \<noteq> 0"
  obtains r where "hole_up_loop me m sz x s = Some r" "some_gap (vregs s xs) (unat sz) r"
proof -
  obtain A B v where ab: "xs = A @ x # B" "vmrs s x = Some v" using neighbours_at [OF inv x] by metis
  from hole_up_loop_ok [of s m A x B me v sz] inv lk ab sz that show thesis
    by (auto simp: some_gap_def split: option.splits)
qed

lemma below_gap:
  assumes inv: "mmap_inv s m xs" and x: "x \<in> set xs" and v: "vmrs s x = Some v" "v_prev v \<noteq> NULL"
  obtains p where "vmrs s (v_prev v) = Some p" "\<forall>c n. unat (upper_bound p) \<le> c \<longrightarrow> c + n \<le> unat (v_start v) \<longrightarrow> gap user_range (vregs s xs) c n"
    "unat (v_start v - upper_bound p) = unat (v_start v) - unat (upper_bound p)" "upper_bound p \<le> v_start v"
proof -
  obtain A B v' where ab: "xs = A @ x # B" "vmrs s x = Some v'" "v_prev v' = last_of A NULL" using neighbours_at [OF inv x] by metis
  then obtain A' a where a: "A = A' @ [a]" "v_prev v = a" using v by (cases A rule: rev_cases) auto
  have inv': "mmap_inv s m (A' @ a # x # B)" using inv ab(1) a(1) by simp
  obtain p where p: "vmrs s a = Some p" using mmap_inv_at [OF inv', of a] by auto
  show thesis using neighbour_gap [OF inv' p v(1)] that p a ab(1) by simp
qed

lemma holeat_up_ok:
  assumes inv: "mmap_inv s m xs" and lk: "mmap_locked me s m" and sz: "sz \<noteq> 0" and near: "near = NULL \<or> near \<in> set xs"
  obtains r where "holeat_up me m addr sz near s = Some r" "some_gap (vregs s xs) (unat sz) r"
proof -
  obtain mp where mp: "maps s m = Some mp" "m \<noteq> NULL" "NULL \<notin> set xs" "vmr_head mp = first_of xs NULL"
    using mmap_inv_list [OF inv] by metis
  obtain err n where n: "mmap_holesize me m addr True s = Some (err, n)" "\<forall>k. gap user_range (vregs s xs) (unat addr) k \<longleftrightarrow> k \<le> unat n"
    by (rule mmap_holesize_ok [OF inv lk])
  let ?x = "if near \<noteq> NULL then near else vmr_head mp"
  show thesis
  proof (cases "sz \<le> n")
    case True
    then show ?thesis using that [of "Some addr"] n mp by (simp add: holeat_up_def hget_nonNULL some_gap_def word_le_nat_alt)
  next
    case no: False
    show ?thesis
    proof (cases "?x = NULL")
      case True
      then show ?thesis using that [of None] no n mp by (simp add: holeat_up_def hget_nonNULL some_gap_def hole_up_loop.simps)
    next
      case False
      then have x: "?x \<in> set xs" using near mp(4) first_of_in [of xs NULL] by (cases xs) (auto split: if_splits)
      obtain v where v: "vmrs s ?x = Some v" using mmap_inv_at [OF inv x] by metis
      obtain r where r: "hole_up_loop me m sz ?x s = Some r" "some_gap (vregs s xs) (unat sz) r"
        by (rule hole_up_loop_gap [OF inv lk x sz])
      show ?thesis
      proof (cases "v_prev v = NULL")
        case True
        then show ?thesis using that [OF _ r(2)] False no n(1) mp(1,2) v r(1) by (simp add: holeat_up_def hget_nonNULL Let_def)
      next
        case pv: False
        obtain p where p: "vmrs s (v_prev v) = Some p" "\<forall>c n. unat (upper_bound p) \<le> c \<longrightarrow> c + n \<le> unat (v_start v) \<longrightarrow> gap user_range (vregs s xs) c n"
            "unat (v_start v - upper_bound p) = unat (v_start v) - unat (upper_bound p)" "upper_bound p \<le> v_start v"
          by (rule below_gap [OF inv x v pv])
        show ?thesis
        proof (cases "sz \<le> v_start v - upper_bound p")
          case True
          then have "gap user_range (vregs s xs) (unat (upper_bound p)) (unat sz)" using p(2-4) by (simp add: word_le_nat_alt)
          then show ?thesis using that [of "Some (upper_bound p)"] True False no n(1) mp(1,2) v pv p(1)
            by (simp add: holeat_up_def hget_nonNULL Let_def some_gap_def)
        next
          case nf: False
          then show ?thesis using that [OF _ r(2)] False no n(1) mp(1,2) v pv p(1) r(1)
            by (simp add: holeat_up_def hget_nonNULL Let_def)
        qed
      qed
    qed
  qed
qed

lemma hole_down_loop_gap:
  assumes inv: "mmap_inv s m xs" and x: "x \<in> set xs" and sz: "sz \<noteq> 0" and st: "\<forall>r\<in>set (vregs s xs). fst r \<noteq> 1"
  obtains r where "hole_down_loop sz x s = Some r" "some_gap (vregs s xs) (unat sz) r"
proof -
  obtain A B v where ab: "xs = A @ x # B" "vmrs s x = Some v" using neighbours_at [OF inv x] by metis
  from hole_down_loop_ok [of s m A x B v sz] inv ab sz st that show thesis
    by (auto simp: some_gap_def split: option.splits)
qed

lemma gap_sub:
  assumes "gap arena rs a n" "a \<le> c" "c + k \<le> a + n"
  shows "gap arena rs c k"
proof -
  have "{c..<c + k} \<subseteq> {a..<a + n}" using assms(2,3) by auto
  then show ?thesis using assms(1) unfolding gap_def by blast
qed

lemma hole_above_ok:
  assumes inv: "mmap_inv s m xs" and lk: "mmap_locked me s m" and x: "x \<in> set xs" "vmrs s x = Some v" and sz: "sz \<noteq> 0"
  obtains r where "hole_above me m sz v s = Some r" "some_gap (vregs s xs) (unat sz) r"
    "v_next v = NULL \<longrightarrow> (case r of None \<Rightarrow> \<forall>c\<ge>unat (upper_bound v). \<not> gap user_range (vregs s xs) c (unat sz)
       | Some a \<Rightarrow> \<forall>c. gap user_range (vregs s xs) c (unat sz) \<longrightarrow> c \<le> unat a)"
proof -
  obtain A B v' where ab: "xs = A @ x # B" "vmrs s x = Some v'" "v_next v' = first_of B NULL" using neighbours_at [OF inv x(1)] by metis
  have sz0: "0 < unat sz" using sz by (simp add: unat_gt_0)
  show thesis
  proof (cases B)
    case (Cons y B')
    then have vy: "v_next v = y" using ab x by simp
    have inv': "mmap_inv s m (A @ x # y # B')" using inv ab(1) Cons by simp
    obtain t where t: "vmrs s y = Some t" "y \<noteq> NULL" using mmap_inv_at [OF inv', of y] by auto
    note ng = neighbour_gap [OF inv' x(2) t(1)]
    show ?thesis
    proof (cases "sz \<le> v_start t - upper_bound v")
      case True
      then have le: "unat (upper_bound v) + unat sz \<le> unat (v_start t)" using ng(1,2) by (simp add: word_le_nat_alt)
      then have "unat (v_start t - sz) = unat (v_start t) - unat sz" by (simp add: unat_sub word_le_nat_alt)
      then have "gap user_range (vregs s (A @ x # y # B')) (unat (v_start t - sz)) (unat sz)" by (intro ng(4)) (use le in simp_all)
      then show ?thesis using that [of "Some (v_start t - sz)"] True vy t ab(1) Cons by (simp add: hole_above_def hget_nonNULL some_gap_def)
    next
      case False
      then show ?thesis using that [of None] vy t by (simp add: hole_above_def hget_nonNULL some_gap_def)
    qed
  next
    case Nil
    then have vn: "v_next v = NULL" using ab x by simp
    obtain err n where n: "mmap_holesize me m (upper_bound v) True s = Some (err, n)"
        "\<forall>k. gap user_range (vregs s xs) (unat (upper_bound v)) k \<longleftrightarrow> k \<le> unat n" "unat (upper_bound v) + unat n < 2 ^ 64"
      by (rule mmap_holesize_ok [OF inv lk])
    let ?a = "upper_bound v + n - sz"
    have ev: "hole_above me m sz v s = Some (if sz \<le> n then Some ?a else None)"
      using vn n(1) by (auto simp: hole_above_def)
    have reach: "c + unat sz \<le> unat (upper_bound v) + unat n" if g: "gap user_range (vregs s xs) c (unat sz)" and c: "unat (upper_bound v) \<le> c" for c
    proof -
      have vi: "vmr_in m v" "vreg_at (vmrs s) x = vreg v" and ord: "ordered (vregs s A @ [vreg v])"
        using ordered_at [of s m A x B v] inv ab(1) x(2) Nil by auto
      have ub: "unat (upper_bound v) = fst (vreg v) + snd (vreg v)"
        using vmr_in_bounds(1) [OF vi(1)] vreg_end [of v] vi(1) by (simp add: vmr_in_def)
      have "gap user_range (vregs s xs) (unat (upper_bound v)) (c + unat sz - unat (upper_bound v))"
        using gap_after_last [OF ord, of "unat (upper_bound v)" "c + unat sz - unat (upper_bound v)" ulimit] gap_limit [OF g sz0] c ub ab(1) Nil vi(2)
        by simp
      then show ?thesis using n(2) by auto
    qed
    show ?thesis
    proof (cases "sz \<le> n")
      case True
      have u: "unat ?a = unat (upper_bound v) + unat n - unat sz"
      proof -
        have "unat (upper_bound v + n) = unat (upper_bound v) + unat n" using n(3) by (simp add: unat_word_ariths)
        moreover have "sz \<le> upper_bound v + n" using True calculation by (simp add: word_le_nat_alt)
        ultimately show ?thesis by (simp add: unat_sub)
      qed
      have g: "gap user_range (vregs s xs) (unat ?a) (unat sz)"
        by (rule gap_sub [of _ _ "unat (upper_bound v)" "unat n"]) (use n(2) u True in \<open>auto simp: word_le_nat_alt\<close>)
      moreover have "c \<le> unat ?a" if c: "gap user_range (vregs s xs) c (unat sz)" for c
      proof (cases "unat (upper_bound v) \<le> c")
        case True
        then show ?thesis using reach [OF c] u by simp
      next
        case False
        then show ?thesis using u True by (simp add: word_le_nat_alt)
      qed
      ultimately show ?thesis using that [of "Some ?a"] ev True by (auto simp: some_gap_def)
    next
      case False
      then have "\<not> gap user_range (vregs s xs) c (unat sz)" if "unat (upper_bound v) \<le> c" for c
        using reach [of c] that by (auto simp: word_le_nat_alt)
      then show ?thesis using that [of None] ev False by (simp add: some_gap_def)
    qed
  qed
qed

lemma holeat_down_ok:
  assumes inv: "mmap_inv s m xs" and lk: "mmap_locked me s m" and sz: "sz \<noteq> 0" and near: "near = NULL \<or> near \<in> set xs"
    and st: "\<forall>r\<in>set (vregs s xs). fst r \<noteq> 1"
  obtains r where "holeat_down me m sz near s = Some r" "some_gap (vregs s xs) (unat sz) r"
    "near = NULL \<longrightarrow> r = None \<or> highest_gap (vregs s xs) (unat sz) (map_option unat r)"
proof -
  obtain mp where mp: "maps s m = Some mp" "m \<noteq> NULL" "m_limit mp = mmap_limit" "NULL \<notin> set xs" "vmr_tail mp = last_of xs NULL"
    using mmap_inv_list [OF inv] by metis
  have sz0: "0 < unat sz" using sz by (simp add: unat_gt_0)
  define y where "y = (if near \<noteq> NULL then near else vmr_tail mp)"
  have ev0: "holeat_down me m sz near s = do {
       above \<leftarrow> (if y = NULL then do {
                  (_, holesz) \<leftarrow> mmap_holesize me m ((m_limit mp + 1) - sz) True s;
                  Some (if sz \<le> holesz then Some ((m_limit mp + 1) - sz) else None)
                }
                else do { n \<leftarrow> hget (vmrs s) y; hole_above me m sz n s });
       if above \<noteq> None then Some above else hole_down_loop sz y s
     }"
    unfolding y_def holeat_down_def Let_def using mp(1,2) by (simp add: hget_nonNULL)
  show thesis
  proof (cases "y = NULL")
    case True
    let ?a = "mmap_limit + 1 - sz"
    have nn: "near = NULL" using True by (auto simp: y_def split: if_splits)
    obtain err n where n: "mmap_holesize me m ?a True s = Some (err, n)" "\<forall>k. gap user_range (vregs s xs) (unat ?a) k \<longleftrightarrow> k \<le> unat n"
      by (rule mmap_holesize_ok [OF inv lk])
    have ev: "holeat_down me m sz near s = Some (if sz \<le> n then Some ?a else None)"
      using True mp n(1) by (simp add: ev0 hget_nonNULL hole_down_loop.simps)
    show ?thesis
    proof (cases "sz \<le> n")
      case True
      then have g: "gap user_range (vregs s xs) (unat ?a) (unat sz)" using n(2) by (simp add: word_le_nat_alt)
      have "c \<le> unat ?a" if "gap user_range (vregs s xs) c (unat sz)" for c
      proof -
        have c: "c + unat sz \<le> ulimit" using gap_limit [OF that sz0] .
        then have "sz \<le> mmap_limit + 1" by (simp add: word_le_nat_alt ulimit_eq mmap_limit_def)
        then show ?thesis using c by (simp add: unat_sub ulimit_eq mmap_limit_def)
      qed
      then show ?thesis using that [of "Some ?a"] ev True g by (simp add: some_gap_def highest_gap_def)
    qed (use that [of None] ev in \<open>simp add: some_gap_def\<close>)
  next
    case False
    then have x: "y \<in> set xs" using near mp(5) last_of_in [of xs NULL] by (cases "xs = []") (auto simp: y_def split: if_splits)
    obtain A B v where ab: "xs = A @ y # B" "vmrs s y = Some v" "v_next v = first_of B NULL" using neighbours_at [OF inv x] by metis
    obtain r where r: "hole_above me m sz v s = Some r" "some_gap (vregs s xs) (unat sz) r"
        "v_next v = NULL \<longrightarrow> (case r of None \<Rightarrow> \<forall>c\<ge>unat (upper_bound v). \<not> gap user_range (vregs s xs) c (unat sz)
           | Some a \<Rightarrow> \<forall>c. gap user_range (vregs s xs) c (unat sz) \<longrightarrow> c \<le> unat a)"
      by (rule hole_above_ok [OF inv lk x ab(2) sz])
    have vn: "v_next v = NULL" if "near = NULL"
    proof -
      have "vmr_tail mp = last_of (A @ y # B) NULL" using mp(5) ab(1) by simp
      then have "last_of B y = y" using that by (simp add: y_def)
      moreover have "distinct (A @ y # B)" using inv ab(1) by (auto simp: mmap_inv_def mmap_list_def dlist_def)
      ultimately have "B = []" using last_of_in [of B y] by (metis distinct.simps(2) distinct_append)
      then show ?thesis using ab(3) by simp
    qed
    show ?thesis
    proof (cases r)
      case (Some a)
      then have "holeat_down me m sz near s = Some r" using False ab(2) r(1) mp(1,2) by (simp add: ev0 hget_nonNULL)
      then show ?thesis using that [of r] r(2,3) vn Some by (auto simp: some_gap_def highest_gap_def)
    next
      case None
      then have ev: "holeat_down me m sz near s = hole_down_loop sz y s"
        using False ab(2) r(1) mp(1,2) by (simp add: ev0 hget_nonNULL)
      obtain r2 where r2: "hole_down_loop sz y s = Some r2"
          "case r2 of None \<Rightarrow> \<forall>c. c + unat sz \<le> unat (v_start v) \<longrightarrow> \<not> gap user_range (vregs s xs) c (unat sz)
           | Some a \<Rightarrow> gap user_range (vregs s xs) (unat a) (unat sz)
             \<and> (\<forall>c. c + unat sz \<le> unat (v_start v) \<longrightarrow> gap user_range (vregs s xs) c (unat sz) \<longrightarrow> c \<le> unat a)"
        using hole_down_loop_ok [of s m A y B v sz, folded ab(1)] inv ab(2) sz st by blast
      have "c + unat sz \<le> unat (v_start v)" if nn: "near = NULL" and g: "gap user_range (vregs s xs) c (unat sz)" for c
      proof -
        have vi: "vmr_in m v" "vreg_at (vmrs s) y = vreg v" using ordered_at [of s m A y B v] inv ab by auto
        have ub: "unat (upper_bound v) = fst (vreg v) + snd (vreg v)"
          using vmr_in_bounds(1) [OF vi(1)] vreg_end [of v] vi(1) by (simp add: vmr_in_def)
        have "vreg v \<in> set (vregs s xs)" using x vi(2) by (metis image_eqI list.set_map)
        then have "c + unat sz \<le> fst (vreg v) \<or> fst (vreg v) + snd (vreg v) \<le> c"
          using gap_ends [OF g _ sz0] vmr_in_bounds(4) [OF vi(1)] by blast
        then show ?thesis using r(3) vn [OF nn] None g ub by (auto simp: vreg_def)
      qed
      then show ?thesis using that [of r2] ev r2 by (cases r2) (auto simp: some_gap_def highest_gap_def)
    qed
  qed
qed

lemma end_cases: "first_of B NULL = NULL \<or> first_of B NULL \<in> set B" "last_of A NULL = NULL \<or> last_of A NULL \<in> set A"
  by (metis first_of.simps(1) first_of_in) (metis last_of.simps(1) last_of_in)

lemma near_ok:
  assumes inv: "mmap_inv s m xs" and lk: "mmap_locked me s m"
  shows "\<exists>p n. mmap_find_vmr_next me m a True s = Some (p, n) \<and> (n = NULL \<or> n \<in> set xs)"
    "\<exists>p n. mmap_find_vmr_prev me m a True s = Some (p, n) \<and> (n = NULL \<or> n \<in> set xs)"
proof -
  obtain mp where mp: "maps s m = Some mp" "m \<noteq> NULL" using mmap_inv_list [OF inv] by metis
  have "(\<exists>p n. mmap_find_vmr_next me m a True s = Some (p, n) \<and> (n = NULL \<or> n \<in> set xs)) \<and>
    (\<exists>p n. mmap_find_vmr_prev me m a True s = Some (p, n) \<and> (n = NULL \<or> n \<in> set xs))"
    using mmap_find_ok [OF inv lk, of a]
  proof
    assume "\<exists>A x B v. xs = A @ x # B \<and> vmrs s x = Some v \<and> v_start v \<le> a \<and> a \<le> v_end v \<and> mmap_find me m a s = Some x \<and> x \<noteq> NULL"
    then obtain x v where x: "x \<in> set xs" "vmrs s x = Some v" "mmap_find me m a s = Some x" "x \<noteq> NULL" by auto
    obtain A B v' where ab: "xs = A @ x # B" "vmrs s x = Some v'" "v_prev v' = last_of A NULL" "v_next v' = first_of B NULL"
      using neighbours_at [OF inv x(1)] by metis
    have "v_next v = NULL \<or> v_next v \<in> set xs" "v_prev v = NULL \<or> v_prev v \<in> set xs"
      using ab x(2) end_cases(1) [of B] end_cases(2) [of A] by auto
    then show ?thesis using x mp lk by (simp add: mmap_find_vmr_next_def mmap_find_vmr_prev_def hget_nonNULL)
  next
    assume h: "unat a \<notin> covered (vregs s xs) \<and> mmap_find me m a s = Some NULL"
    obtain A B where ab: "xs = A @ B" "\<forall>x\<in>set A. \<forall>v. vmrs s x = Some v \<longrightarrow> v_start v \<le> a \<and> v_end v < a"
        "\<forall>x\<in>set B. \<forall>v. vmrs s x = Some v \<longrightarrow> a < v_start v"
      using hole_split [OF inv conjunct1 [OF h]] by metis
    have "first_of B NULL = NULL \<or> first_of B NULL \<in> set xs" "last_of A NULL = NULL \<or> last_of A NULL \<in> set xs"
      using end_cases(1) [of B] end_cases(2) [of A] ab(1) by auto
    then show ?thesis using find_neighbours [OF inv [unfolded ab(1)] lk conjunct2 [OF h] ab(2,3)] by blast
  qed
  then show "\<exists>p n. mmap_find_vmr_next me m a True s = Some (p, n) \<and> (n = NULL \<or> n \<in> set xs)"
    "\<exists>p n. mmap_find_vmr_prev me m a True s = Some (p, n) \<and> (n = NULL \<or> n \<in> set xs)" by auto
qed

definition gap_answer :: "region list \<Rightarrow> nat \<Rightarrow> u64 option \<Rightarrow> bool" where
  "gap_answer rs n r \<longleftrightarrow> (case r of None \<Rightarrow> \<forall>c. \<not> gap user_range rs c n | Some a \<Rightarrow> gap user_range rs (unat a) n)"

lemma gap_answer_lowest: "lowest_gap rs n (map_option unat r) \<Longrightarrow> gap_answer rs n r"
  and gap_answer_highest: "highest_gap rs n (map_option unat r) \<Longrightarrow> gap_answer rs n r"
  by (cases r; simp add: lowest_gap_def highest_gap_def gap_answer_def)+

lemma hole_answer_inj: "hole_answer r = hole_answer r' \<Longrightarrow> r = r'"
  by (auto simp: hole_answer_def ENOMEM_def split: option.splits)

lemma find_hole_up:
  assumes inv: "mmap_inv s m xs" and lk: "mmap_locked me s m" and sz: "sz \<noteq> 0"
  shows "mmap_find_hole me m sz True whence_start s = do { found \<leftarrow> holeat_up me m 0 sz NULL s; Some (hole_answer found) }"
proof -
  obtain mp where mp: "maps s m = Some mp" "m \<noteq> NULL" "NULL \<notin> set xs" "vmr_head mp = first_of xs NULL"
    using mmap_inv_list [OF inv] by metis
  obtain err n where n: "mmap_holesize me m 0 True s = Some (err, n)" using mmap_holesize_ok [OF inv lk] by metis
  have "vmr_head mp = NULL \<or> (\<exists>v. vmrs s (vmr_head mp) = Some v \<and> v_prev v = NULL)"
    using inv mp by (cases xs) (auto simp: mmap_inv_def mmap_list_def dlist_def)
  then have "holeat_up me m 0 sz NULL s = (if sz \<le> n then Some (Some 0) else hole_up_loop me m sz (vmr_head mp) s)"
    using mp(1,2) n by (auto simp: holeat_up_def hget_nonNULL Let_def)
  then show ?thesis using mp(1,2) lk sz n by (simp add: mmap_find_hole_def hget_nonNULL hole_answer_def)
qed

lemma find_holeat_start_ok:
  assumes inv: "mmap_inv s m xs" and lk: "mmap_locked me s m" and sz: "sz \<noteq> 0"
  shows "\<exists>r. mmap_find_holeat me m addr sz True whence_start s = Some (hole_answer r) \<and> gap_answer (vregs s xs) (unat sz) r
    \<and> (addr = 0 \<longrightarrow> lowest_gap (vregs s xs) (unat sz) (map_option unat r))"
proof -
  obtain mp where mp: "maps s m = Some mp" "m \<noteq> NULL" "NULL \<notin> set xs" "vmr_head mp = first_of xs NULL"
    using mmap_inv_list [OF inv] by metis
  obtain near where near: "addr = 0 \<and> near = NULL \<or> addr \<noteq> 0 \<and> (\<exists>p. mmap_find_vmr_next me m addr True s = Some (p, near))"
      "near = NULL \<or> near \<in> set xs" "addr = 0 \<longrightarrow> near = NULL"
    using near_ok(1) [OF inv lk, of addr] by (cases "addr = 0") auto
  obtain r where r: "holeat_up me m addr sz near s = Some r" "some_gap (vregs s xs) (unat sz) r"
    by (rule holeat_up_ok [OF inv lk sz near(2)])
  obtain r2 where r2: "mmap_find_hole me m sz True whence_start s = Some (hole_answer r2)" "lowest_gap (vregs s xs) (unat sz) (map_option unat r2)"
    using find_hole_start_ok [OF inv lk sz] by blast
  have ev: "mmap_find_holeat me m addr sz True whence_start s =
      (case r of Some a \<Rightarrow> Some (0, a) | None \<Rightarrow> mmap_find_hole me m sz True whence_start s)"
    using near(1) mp(1,2) lk sz r(1) by (auto simp: mmap_find_holeat_def)
  show ?thesis
  proof (cases r)
    case None
    then show ?thesis using ev r2 gap_answer_lowest by auto
  next
    case (Some a)
    have "r2 = r" if "addr = 0"
      using find_hole_up [OF inv lk sz] r(1) r2(1) near(3) that by (auto intro: hole_answer_inj)
    then show ?thesis using ev r(2) Some r2(2) by (intro exI [of _ r]) (auto simp: hole_answer_def gap_answer_def some_gap_def)
  qed
qed

lemma find_holeat_end_ok:
  assumes inv: "mmap_inv s m xs" and lk: "mmap_locked me s m" and sz: "sz \<noteq> 0" and st: "\<forall>r\<in>set (vregs s xs). fst r \<noteq> 1"
  shows "\<exists>r. mmap_find_holeat me m addr sz True whence_end s = Some (hole_answer r) \<and> gap_answer (vregs s xs) (unat sz) r
    \<and> (addr = 0 \<longrightarrow> highest_gap (vregs s xs) (unat sz) (map_option unat r))"
proof -
  obtain mp where mp: "maps s m = Some mp" "m \<noteq> NULL" using mmap_inv_list [OF inv] by metis
  obtain near where near: "addr = 0 \<and> near = NULL \<or> addr \<noteq> 0 \<and> (\<exists>p. mmap_find_vmr_prev me m addr True s = Some (p, near))"
      "near = NULL \<or> near \<in> set xs" "addr = 0 \<longrightarrow> near = NULL"
    using near_ok(2) [OF inv lk, of addr] by (cases "addr = 0") auto
  obtain r where r: "holeat_down me m sz near s = Some r" "some_gap (vregs s xs) (unat sz) r"
      "near = NULL \<longrightarrow> r = None \<or> highest_gap (vregs s xs) (unat sz) (map_option unat r)"
    by (rule holeat_down_ok [OF inv lk sz near(2) st])
  obtain r2 where r2: "mmap_find_hole me m sz True whence_end s = Some (hole_answer r2)" "highest_gap (vregs s xs) (unat sz) (map_option unat r2)"
    using find_hole_end_ok [OF inv lk sz st] by blast
  have "whence_end \<noteq> whence_start" by (simp add: whence_end_def whence_start_def)
  then have ev: "mmap_find_holeat me m addr sz True whence_end s =
      (case r of Some a \<Rightarrow> Some (0, a) | None \<Rightarrow> mmap_find_hole me m sz True whence_end s)"
    using near(1) mp lk sz r(1) by (auto simp: mmap_find_holeat_def)
  show ?thesis
  proof (cases r)
    case None
    then show ?thesis using ev r2 gap_answer_highest by auto
  next
    case (Some a)
    then show ?thesis using ev r(2,3) near(3) by (intro exI [of _ r]) (auto simp: hole_answer_def gap_answer_def some_gap_def)
  qed
qed

end
