(* ===== verification/MmapOps.thy ===== *)
theory MmapOps
imports MmapSpace
begin

text \<open>The operations of \<open>mm/mmap.c\<close> that give a process memory: new regions placed in a gap or at a fixed
  address, regions that grow, and protection. For each one the set of mapped addresses and their flags before and
  after the call are compared.\<close>

section \<open>New regions\<close>

text \<open>The state after the region \<open>r\<close>, not in the list before, was mapped as the object \<open>w\<close>.\<close>

definition added :: "mm \<Rightarrow> ptr \<Rightarrow> ptr list \<Rightarrow> ptr \<Rightarrow> vmr \<Rightarrow> mm \<Rightarrow> ptr list \<Rightarrow> bool" where
  "added s m xs r w s' ys \<longleftrightarrow> mmap_inv s' m ys
     \<and> (\<exists>A B. xs = A @ B \<and> ys = A @ r # B \<and> vregs s' ys = vregs s A @ vreg w # vregs s B)
     \<and> (\<forall>y\<in>set xs. map_option vr.payload (vmrs s' y) = map_option vr.payload (vmrs s y))
     \<and> (\<exists>p n. vmrs s' r = Some (w\<lparr>v_prev := p, v_next := n, v_refs := 2 + v_refs w, v_mmap := m\<rparr>))
     \<and> (\<forall>y. y \<notin> set (r # xs) \<longrightarrow> vmrs s' y = vmrs s y)
     \<and> (\<exists>mp mp'. maps s m = Some mp \<and> maps s' = (maps s)(m \<mapsto> mp') \<and> same_space mp mp'
          \<and> m_used_space mp' = m_used_space mp + vmr_size w \<and> m_refs mp' = m_refs mp + 1)
     \<and> pg_log s' = pg_log s \<and> pg_ret s' = pg_ret s \<and> pg_dirs s' = pg_dirs s"

lemma mmap_inv_frame:
  assumes "mmap_inv s m xs" "r \<notin> set xs"
  shows "mmap_inv (s\<lparr>vmrs := (vmrs s)(r := w)\<rparr>) m xs" "vregs (s\<lparr>vmrs := (vmrs s)(r := w)\<rparr>) xs = vregs s xs"
proof -
  let ?s = "s\<lparr>vmrs := (vmrs s)(r := w)\<rparr>"
  show rg: "vregs ?s xs = vregs s xs" using assms(2) by (auto simp: vreg_at_def)
  have "mmap_list ?s m xs" using mmap_list_frame [OF _ assms(2)] assms(1) by (simp add: mmap_inv_def)
  moreover have "\<forall>x\<in>set xs. \<exists>v. vmrs ?s x = Some v \<and> vmr_in m v" using assms by (auto simp: mmap_inv_def)
  ultimately show "mmap_inv ?s m xs" unfolding mmap_inv_def rg using assms(1) by (simp add: mmap_inv_def)
qed

lemma mapin_added:
  assumes inv: "mmap_inv s m xs" and lk: "mmap_locked me s m" and r: "r \<noteq> NULL" "r \<notin> set xs" and w: "vmrs s r = Some w"
    and b: "v_start w \<le> v_end w" "v_end w \<le> mmap_limit" and c: "span (vreg w) \<inter> covered (vregs s xs) = {}"
  obtains s' ys where "mmap_mapin me m r s = Some (0, s')" "added s m xs r w s' ys" "mm_mem s' = mm_mem s" "mmap_locked me s' m"
proof -
  obtain s' A B where s': "mmap_mapin me m r s = Some (0, s')" "xs = A @ B" "mapped s m A r B s'"
    by (rule mmap_mapin_ok [OF inv lk w r b c])
  have pl: "map_option vr.payload (vmrs s' y) = map_option vr.payload (vmrs s y)" if "y \<in> set xs" for y
    using s'(3) r(2) that by (auto simp: mapped_def)
  obtain p n where vr: "vmrs s' r = Some (w\<lparr>v_prev := p, v_next := n, v_refs := 2 + v_refs w, v_mmap := m\<rparr>)"
    using s'(3) w by (auto simp: mapped_def)
  obtain mp h t where mp: "maps s m = Some mp" "maps s' = (maps s)(m \<mapsto> mp\<lparr>vmr_head := h, vmr_tail := t,
      m_refs := m_refs mp + 1, m_used_space := m_used_space mp + vmr_size w\<rparr>)"
    using s'(3) w by (auto simp: mapped_def)
  have "vregs s' (A @ r # B) = vregs s A @ vreg w # vregs s B"
  proof -
    have "vreg_at (vmrs s') y = vreg_at (vmrs s) y" if "y \<in> set (A @ B)" for y
      using payload_fields(1) [of "vmrs s'" y "vmrs s", OF pl] that s'(2) by simp
    moreover have "vreg_at (vmrs s') r = vreg w" using vr by (simp add: vreg_at_def vreg_def)
    ultimately show ?thesis by simp
  qed
  moreover have "\<exists>mp mp'. maps s m = Some mp \<and> maps s' = (maps s)(m \<mapsto> mp') \<and> same_space mp mp'
      \<and> m_used_space mp' = m_used_space mp + vmr_size w \<and> m_refs mp' = m_refs mp + 1"
    using mp by (intro exI [of _ mp] exI) (auto simp: same_space_def)
  moreover have "mmap_inv s' m (A @ r # B)" "\<forall>y. y \<notin> set (r # xs) \<longrightarrow> vmrs s' y = vmrs s y"
      "pg_log s' = pg_log s" "pg_ret s' = pg_ret s" "pg_dirs s' = pg_dirs s" "mm_mem s' = mm_mem s"
    using s'(2,3) by (auto simp: mapped_def)
  ultimately have "added s m xs r w s' (A @ r # B)" unfolding added_def using s'(2) pl vr by blast
  moreover have "mmap_locked me s' m" using lk mp by (auto simp: mmap_locked_def)
  ultimately show thesis using that s'(1,3) by (auto simp: mapped_def)
qed

text \<open>The object that \<open>mmap_map_region\<close> fills in before it maps it.\<close>

definition new_vmr :: "u64 \<Rightarrow> u64 \<Rightarrow> u32 \<Rightarrow> u32 \<Rightarrow> u32 \<Rightarrow> vmr" where
  "new_vmr a len prot flags mflags = vmr0\<lparr>v_start := a, v_end := a + len - 1, v_flags := vm_flags_of prot flags,
     v_vflags := pte_flags_of (vm_flags_of prot flags) mflags\<rparr>"

lemma new_vmr_sel [simp]:
  "v_start (new_vmr a len prot flags mf) = a" "v_end (new_vmr a len prot flags mf) = a + len - 1"
  "v_flags (new_vmr a len prot flags mf) = vm_flags_of prot flags"
  "v_vflags (new_vmr a len prot flags mf) = pte_flags_of (vm_flags_of prot flags) mf" "v_refs (new_vmr a len prot flags mf) = 0"
  by (simp_all add: new_vmr_def vmr0_def)

lemma vmr_alloc_cases:
  obtains ps where "vmr_alloc s = (- ENOMEM, NULL, s\<lparr>mm_mem := ps\<rparr>)" "fst (kmalloc (mm_used s) (mm_mem s)) = NULL"
  | r ps where "vmr_alloc s = (0, r, s\<lparr>mm_mem := ps, vmrs := (vmrs s)(r \<mapsto> vmr0)\<rparr>)" "r \<noteq> NULL" "vmrs s r = None" "maps s r = None"
      "kmalloc (mm_used s) (mm_mem s) = (r, ps)"
proof (cases "kmalloc (mm_used s) (mm_mem s)")
  case (Pair r ps)
  show thesis
  proof (cases "r = NULL")
    case True
    then show thesis using that(1) [of ps] Pair by (simp add: vmr_alloc_def)
  next
    case False
    then show thesis using that(2) [of r ps] Pair kmalloc_fresh [OF Pair] by (simp add: vmr_alloc_def mm_used_def)
  qed
qed

abbreviation region_len :: "mmap \<Rightarrow> u64 \<Rightarrow> u32 \<Rightarrow> u64" where
  "region_len mp len flags \<equiv> if has flags MAP_STACK then len + m_guard_len mp else len"

lemma map_region_hole:
  assumes "mmap_locked me s m" "m \<noteq> NULL" "maps s m = Some mp" "has flags MAP_FIXED \<or> pvmr" "len \<noteq> 0" "map_region_args addr len prot flags"
    and f: "(if has flags MAP_FIXED then Some (0, addr) else mmap_find_holeat me m addr (region_len mp len flags) True
          (if has flags MAP_STACK then whence_end else whence_start) s) = Some (0, a)"
    and al: "vmr_alloc s = (0, r, s\<lparr>mm_mem := ps, vmrs := (vmrs s)(r \<mapsto> vmr0)\<rparr>)" "r \<noteq> NULL"
  shows "mmap_map_region me m addr len prot flags pvmr s =
     do { (err, s) \<leftarrow> (if has flags MAP_FIXED then mmap_forced_mapin else mmap_mapin) me m r
            (s\<lparr>mm_mem := ps, vmrs := (vmrs s)(r \<mapsto> new_vmr a (region_len mp len flags) prot flags (m_flags mp))\<rparr>);
          if err \<noteq> 0 then do { s \<leftarrow> vmr_free r s; Some (err, NULL, s) } else Some (0, r, s) }"
proof -
  have v0: "vmr0\<lparr>v_start := a, v_end := a + l - 1, v_flags := v_flags vmr0 OR vm_flags_of prot flags,
      v_vflags := v_vflags vmr0 OR pte_flags_of (v_flags vmr0 OR vm_flags_of prot flags) mf\<rparr> = new_vmr a l prot flags mf" for l mf
    by (simp add: new_vmr_def vmr0_def)
  show ?thesis using assms v0 [simplified]
    by (cases "has flags MAP_FIXED")
      (simp_all add: mmap_map_region_def hget_nonNULL rupd_def hupd_def Let_def new_vmr_def vmr0_def)
qed

lemma map_region_no_hole:
  assumes "mmap_locked me s m" "m \<noteq> NULL" "maps s m = Some mp" "\<not> has flags MAP_FIXED" "len \<noteq> 0" "map_region_args addr len prot flags"
    and f: "mmap_find_holeat me m addr (region_len mp len flags) True
          (if has flags MAP_STACK then whence_end else whence_start) s = Some (hole_answer None)"
  shows "mmap_map_region me m addr len prot flags True s = Some (- ENOMEM, NULL, s)"
  using assms by (simp add: mmap_map_region_def hget_nonNULL Let_def hole_answer_def ENOMEM_def)

lemma map_region_no_memory:
  assumes "mmap_locked me s m" "m \<noteq> NULL" "maps s m = Some mp" "has flags MAP_FIXED \<or> pvmr" "len \<noteq> 0" "map_region_args addr len prot flags"
    and f: "(if has flags MAP_FIXED then Some (0, addr) else mmap_find_holeat me m addr (region_len mp len flags) True
          (if has flags MAP_STACK then whence_end else whence_start) s) = Some (0, a)"
    and al: "vmr_alloc s = (- ENOMEM, NULL, s\<lparr>mm_mem := ps\<rparr>)"
  shows "mmap_map_region me m addr len prot flags pvmr s = Some (- ENOMEM, NULL, s\<lparr>mm_mem := ps\<rparr>)"
  using assms by (auto simp: mmap_map_region_def hget_nonNULL Let_def ENOMEM_def)

lemma new_vmr_in:
  assumes "gap user_range rs (unat a) (unat l)" "l \<noteq> 0"
  shows "a \<le> a + l - 1" "a + l - 1 \<le> mmap_limit" "vreg (new_vmr a l prot flags mf) = (unat a, unat l)"
    "span (vreg (new_vmr a l prot flags mf)) \<inter> covered rs = {}"
proof -
  have l0: "0 < unat l" using assms(2) by (simp add: unat_gt_0)
  have g: "{unat a..<unat a + unat l} \<subseteq> user_range" "{unat a..<unat a + unat l} \<inter> covered rs = {}" using assms(1) by (auto simp: gap_def span_def)
  then have b: "unat a + unat l \<le> ulimit" using l0 by (auto simp: subset_iff) (metis Suc_leI Suc_pred add_gr_0 add_Suc_right le_add1 lessI less_Suc_eq_le)
  have e: "unat (a + l - 1) = unat a + unat l - 1" using range_end [of a l] assms(2) b by (simp add: ulimit_eq)
  then show "a \<le> a + l - 1" "a + l - 1 \<le> mmap_limit" using b l0 by (simp_all add: word_le_nat_alt ulimit_def)
  show "vreg (new_vmr a l prot flags mf) = (unat a, unat l)" using e l0 by (simp add: vreg_def)
  then show "span (vreg (new_vmr a l prot flags mf)) \<inter> covered rs = {}" using g(2) by (simp add: span_def)
qed

lemma added_frame:
  assumes a: "added s1 m xs r w s' ys" and r: "r \<notin> set xs" and v: "\<And>y. y \<noteq> r \<Longrightarrow> vmrs s1 y = vmrs s y"
    and f: "maps s1 = maps s" "pg_log s1 = pg_log s" "pg_ret s1 = pg_ret s" "pg_dirs s1 = pg_dirs s"
  shows "added s m xs r w s' ys"
proof -
  have v': "vmrs s1 y = vmrs s y" if "y \<in> set xs" for y using v r that by metis
  have e: "vregs s1 A = vregs s A" if "set A \<subseteq> set xs" for A using that v' by (auto simp: vreg_at_def)
  obtain A B where ab: "xs = A @ B" "ys = A @ r # B" "vregs s' ys = vregs s1 A @ vreg w # vregs s1 B" using a unfolding added_def by blast
  have "set A \<subseteq> set xs" "set B \<subseteq> set xs" using ab(1) by auto
  then have "vregs s' ys = vregs s A @ vreg w # vregs s B" using ab(3) by (simp only: e)
  moreover have "\<forall>y\<in>set xs. map_option vr.payload (vmrs s' y) = map_option vr.payload (vmrs s y)"
    using a v' by (simp add: added_def)
  moreover have "\<forall>y. y \<notin> set (r # xs) \<longrightarrow> vmrs s' y = vmrs s y" using a v by (simp add: added_def)
  ultimately show ?thesis using a ab(1,2) unfolding added_def f by blast
qed

lemma map_region_ok:
  assumes inv: "mmap_inv s m xs" and lk: "mmap_locked me s m" and mp: "maps s m = Some mp"
    and nf: "\<not> has flags MAP_FIXED" and args: "map_region_args addr len prot flags" and l: "len \<noteq> 0" "region_len mp len flags \<noteq> 0"
    and st: "has flags MAP_STACK \<longrightarrow> (\<forall>r\<in>set (vregs s xs). fst r \<noteq> 1)"
  obtains (placed) a r s' ys where "mmap_map_region me m addr len prot flags True s = Some (0, r, s')"
      "gap user_range (vregs s xs) (unat a) (unat (region_len mp len flags))"
      "added s m xs r (new_vmr a (region_len mp len flags) prot flags (m_flags mp)) s' ys" "r \<notin> set xs" "mmap_locked me s' m"
      "addr = 0 \<longrightarrow> (if has flags MAP_STACK then highest_gap else lowest_gap) (vregs s xs) (unat (region_len mp len flags)) (Some (unat a))"
  | (full) ps where "mmap_map_region me m addr len prot flags True s = Some (- ENOMEM, NULL, s\<lparr>mm_mem := ps\<rparr>)"
      "(\<forall>c. \<not> gap user_range (vregs s xs) c (unat (region_len mp len flags))) \<or> fst (kmalloc (mm_used s) (mm_mem s)) = NULL"
proof -
  have m0: "m \<noteq> NULL" using inv by (simp add: mmap_inv_def mmap_list_def)
  define l' where "l' = region_len mp len flags"
  have l0: "l' \<noteq> 0" using l(2) by (simp add: l'_def)
  obtain h where h: "mmap_find_holeat me m addr l' True (if has flags MAP_STACK then whence_end else whence_start) s = Some (hole_answer h)"
      "gap_answer (vregs s xs) (unat l') h"
      "addr = 0 \<longrightarrow> (if has flags MAP_STACK then highest_gap else lowest_gap) (vregs s xs) (unat l') (map_option unat h)"
  proof (cases "has flags MAP_STACK")
    case True
    then have "\<forall>r\<in>set (vregs s xs). fst r \<noteq> 1" using st by blast
    then obtain h where h: "mmap_find_holeat me m addr l' True whence_end s = Some (hole_answer h)" "gap_answer (vregs s xs) (unat l') h"
        "addr = 0 \<longrightarrow> highest_gap (vregs s xs) (unat l') (map_option unat h)"
      using find_holeat_end_ok [OF inv lk l0] by blast
    show thesis by (rule that [of h]; (unfold if_P [OF True])?; rule h)
  next
    case False
    obtain h where h: "mmap_find_holeat me m addr l' True whence_start s = Some (hole_answer h)" "gap_answer (vregs s xs) (unat l') h"
        "addr = 0 \<longrightarrow> lowest_gap (vregs s xs) (unat l') (map_option unat h)"
      using find_holeat_start_ok [OF inv lk l0] by blast
    show thesis by (rule that [of h]; (unfold if_not_P [OF False])?; rule h)
  qed
  show thesis
  proof (cases h)
    case None
    then show thesis using full [of "mm_mem s"] map_region_no_hole [OF lk m0 mp nf l(1) args] h unfolding l'_def by (simp add: gap_answer_def)
  next
    case (Some a)
    then have f: "(if has flags MAP_FIXED then Some (0, addr) else mmap_find_holeat me m addr (region_len mp len flags) True
          (if has flags MAP_STACK then whence_end else whence_start) s) = Some (0, a)"
      using h(1) nf unfolding l'_def by (simp add: hole_answer_def)
    have g: "gap user_range (vregs s xs) (unat a) (unat l')" using h(2) Some by (simp add: gap_answer_def)
    show thesis
    proof (cases rule: vmr_alloc_cases [of s])
      case (1 ps)
      show thesis by (rule full [OF map_region_no_memory [OF lk m0 mp _ l(1) args f 1(1)]]) (simp_all add: 1(2))
    next
      case (2 r ps)
      have rx: "r \<notin> set xs" using inv 2(3) by (auto simp: mmap_inv_def)
      let ?w = "new_vmr a l' prot flags (m_flags mp)"
      let ?s = "s\<lparr>mm_mem := ps, vmrs := (vmrs s)(r \<mapsto> ?w)\<rparr>"
      have inv1: "mmap_inv (s\<lparr>mm_mem := ps\<rparr>) m xs" using inv by (simp add: mmap_inv_def mmap_list_def)
      have fr: "mmap_inv ?s m xs" "vregs ?s xs = vregs s xs" using mmap_inv_frame [OF inv1 rx, of "Some ?w"] by simp_all
      obtain s' ys where s': "mmap_mapin me m r ?s = Some (0, s')" "added ?s m xs r ?w s' ys" "mmap_locked me s' m"
      proof (rule mapin_added [OF fr(1) _ 2(2) rx])
        show "mmap_locked me ?s m" "vmrs ?s r = Some ?w" using lk by (simp_all add: mmap_locked_def)
        show "v_start ?w \<le> v_end ?w" "v_end ?w \<le> mmap_limit" using new_vmr_in(1,2) [OF g l0] by simp_all
        show "span (vreg ?w) \<inter> covered (vregs ?s xs) = {}" unfolding fr(2) by (rule new_vmr_in(4) [OF g l0])
      qed
      have "mmap_map_region me m addr len prot flags True s = Some (0, r, s')"
        using map_region_hole [OF lk m0 mp _ l(1) args f 2(1,2)] nf s'(1) unfolding l'_def by simp
      moreover have "added s m xs r ?w s' ys" by (rule added_frame [OF s'(2) rx]) simp_all
      moreover have "addr = 0 \<longrightarrow> (if has flags MAP_STACK then highest_gap else lowest_gap) (vregs s xs) (unat l') (Some (unat a))"
        using h(3) unfolding Some option.map .
      ultimately show thesis by (rule placed [OF _ g [unfolded l'_def] _ rx s'(3), unfolded l'_def [symmetric]])
    qed
  qed
qed

lemma added_parts:
  assumes "added s m xs r w s' ys"
  shows "mmap_inv s' m ys" "set ys = insert r (set xs)" "covered (vregs s' ys) = covered (vregs s xs) \<union> span (vreg w)"
    "\<exists>v. vmrs s' r = Some v \<and> vreg v = vreg w \<and> v_flags v = v_flags w \<and> v_vflags v = v_vflags w"
    "y \<in> set xs \<Longrightarrow> map_option vattr (vmrs s' y) = map_option vattr (vmrs s y)"
    "y \<in> set xs \<Longrightarrow> vreg_at (vmrs s') y = vreg_at (vmrs s) y"
proof -
  obtain A B where ab: "xs = A @ B" "ys = A @ r # B" "vregs s' ys = vregs s A @ vreg w # vregs s B"
    using assms by (simp only: added_def) blast
  show "mmap_inv s' m ys" using assms by (simp add: added_def)
  show "set ys = insert r (set xs)" using ab(1,2) by auto
  show "covered (vregs s' ys) = covered (vregs s xs) \<union> span (vreg w)" unfolding ab(3) unfolding ab(1) by (auto simp: covered_def)
  show "\<exists>v. vmrs s' r = Some v \<and> vreg v = vreg w \<and> v_flags v = v_flags w \<and> v_vflags v = v_vflags w"
  proof -
    obtain p n where "vmrs s' r = Some (w\<lparr>v_prev := p, v_next := n, v_refs := 2 + v_refs w, v_mmap := m\<rparr>)" using assms unfolding added_def by blast
    then show ?thesis by (simp add: vreg_def)
  qed
  show "y \<in> set xs \<Longrightarrow> map_option vattr (vmrs s' y) = map_option vattr (vmrs s y)"
       "y \<in> set xs \<Longrightarrow> vreg_at (vmrs s') y = vreg_at (vmrs s) y"
  proof -
    assume "y \<in> set xs"
    then have p: "map_option vr.payload (vmrs s' y) = map_option vr.payload (vmrs s y)" using assms by (simp add: added_def)
    have "vattr v = vattr (vr.payload v)" for v by (simp add: vattr_def vcore_def vr.payload_def)
    then have e: "vattr v = vattr w" if "vr.payload v = vr.payload w" for v w using that by metis
    from p show "map_option vattr (vmrs s' y) = map_option vattr (vmrs s y)"
      by (cases "vmrs s' y"; cases "vmrs s y") (auto intro: e)
    show "vreg_at (vmrs s') y = vreg_at (vmrs s) y" using payload_fields(1) [of "vmrs s'" y "vmrs s"] p by blast
  qed
qed

text \<open>A fixed mapping first gives up whatever lies in its range.\<close>

lemma map_region_fixed_ok:
  assumes inv: "mmap_inv s m xs" and lk: "mmap_locked me s m" and mp: "maps s m = Some mp"
    and fx: "has flags MAP_FIXED" and args: "map_region_args addr len prot flags" and l: "len \<noteq> 0" "region_len mp len flags \<noteq> 0"
    and b: "unat addr + unat (region_len mp len flags) \<le> ulimit" and ni: "\<not> inside (vregs s xs) (unat addr)"
  obtains (placed) r s' zs where "mmap_map_region me m addr len prot flags pvmr s = Some (0, r, s')"
      "mmap_inv s' m zs" "r \<in> set zs" "r \<notin> set xs" "set zs \<subseteq> insert r (set xs)"
      "covered (vregs s' zs) = covered (vregs s xs) \<union> unmap_range addr (region_len mp len flags)"
      "\<exists>v. vmrs s' r = Some v \<and> vreg v = (unat addr, unat (region_len mp len flags)) \<and> v_flags v = vm_flags_of prot flags
         \<and> v_vflags v = pte_flags_of (vm_flags_of prot flags) (m_flags mp)"
      "\<forall>y\<in>set zs - {r}. map_option vattr (vmrs s' y) = map_option vattr (vmrs s y)" "mmap_locked me s' m"
  | (full) ps where "mmap_map_region me m addr len prot flags pvmr s = Some (- ENOMEM, NULL, s\<lparr>mm_mem := ps\<rparr>)"
      "fst (kmalloc (mm_used s) (mm_mem s)) = NULL"
proof -
  have m0: "m \<noteq> NULL" using inv by (simp add: mmap_inv_def mmap_list_def)
  define l' where "l' = region_len mp len flags"
  have l0: "l' \<noteq> 0" using l(2) by (simp add: l'_def)
  have f: "(if has flags MAP_FIXED then Some (0, addr) else mmap_find_holeat me m addr (region_len mp len flags) True
          (if has flags MAP_STACK then whence_end else whence_start) s) = Some (0, addr)" using fx by simp
  show thesis
  proof (cases rule: vmr_alloc_cases [of s])
    case (1 ps)
    show thesis by (rule full [OF map_region_no_memory [OF lk m0 mp _ l(1) args f 1(1)]]) (simp_all add: 1(2) fx)
  next
    case (2 r ps)
    have rx: "r \<notin> set xs" using inv 2(3) by (auto simp: mmap_inv_def)
    let ?w = "new_vmr addr l' prot flags (m_flags mp)"
    let ?s = "s\<lparr>mm_mem := ps, vmrs := (vmrs s)(r \<mapsto> ?w)\<rparr>"
    have inv1: "mmap_inv (s\<lparr>mm_mem := ps\<rparr>) m xs" using inv by (simp add: mmap_inv_def mmap_list_def)
    have fr: "mmap_inv ?s m xs" "vregs ?s xs = vregs s xs" using mmap_inv_frame [OF inv1 rx, of "Some ?w"] by simp_all
    have lk1: "mmap_locked me ?s m" using lk by (simp add: mmap_locked_def)
    obtain s1 ys where s1: "mmap_unmap me m addr l' ?s = Some (0, s1)" "shrunk ?s m xs s1 ys"
        "covered (vregs s1 ys) = covered (vregs ?s xs) - unmap_range addr l'"
      by (rule mmap_unmap_ok [OF fr(1) lk1 _ l0 b [folded l'_def]]) (use ni fr(2) in metis)
    have ys: "mmap_inv s1 m ys" "set ys \<subseteq> set xs" "vmrs s1 r = Some ?w" using s1(2) rx by (auto simp: shrunk_def)
    have g: "gap user_range (vregs s1 ys) (unat addr) (unat l')"
      unfolding gap_def s1(3) using b [folded l'_def] by (auto simp: unmap_range_def)
    obtain s' zs where s': "mmap_mapin me m r s1 = Some (0, s')" "added s1 m ys r ?w s' zs" "mmap_locked me s' m"
    proof (rule mapin_added [OF ys(1) shrunk_locked [OF s1(2) lk1] 2(2) _ ys(3)])
      show "r \<notin> set ys" using rx ys(2) by blast
      show "v_start ?w \<le> v_end ?w" "v_end ?w \<le> mmap_limit" using new_vmr_in(1,2) [OF g l0] by simp_all
      show "span (vreg ?w) \<inter> covered (vregs s1 ys) = {}" by (rule new_vmr_in(4) [OF g l0])
    qed
    note ap = added_parts [OF s'(2)] and nw = new_vmr_in(3) [OF g l0]
    have sz: "vmr_size ?w = l'" by (simp add: vmr_size_def)
    have ev: "mmap_map_region me m addr len prot flags pvmr s = Some (0, r, s')"
      using map_region_hole [OF lk m0 mp _ l(1) args f 2(1,2)] fx 2(2) m0 lk1 s1(1) s'(1) sz
      by (simp add: mmap_forced_mapin_def hget_nonNULL flip: l'_def)
    have c: "covered (vregs s' zs) = covered (vregs s xs) \<union> unmap_range addr l'"
      unfolding ap(3) s1(3) fr(2) nw by (auto simp: span_def unmap_range_def)
    have at: "\<forall>y\<in>set zs - {r}. map_option vattr (vmrs s' y) = map_option vattr (vmrs s y)"
      using ap(2,5) s1(2) by (simp add: shrunk_def)
    have nv: "\<exists>v. vmrs s' r = Some v \<and> vreg v = (unat addr, unat l') \<and> v_flags v = vm_flags_of prot flags
         \<and> v_vflags v = pte_flags_of (vm_flags_of prot flags) (m_flags mp)" using ap(4) nw by auto
    have zs: "r \<in> set zs" "set zs \<subseteq> insert r (set xs)" using ap(2) ys(2) by auto
    show thesis by (rule placed [OF ev ap(1) zs(1) rx zs(2) c [unfolded l'_def] nv [unfolded l'_def] at s'(3)])
  qed
qed

section \<open>Growing a region\<close>

lemma ordered_grow:
  assumes o: "ordered (A @ r # B)" and q: "fst q \<le> fst r" "fst r + snd r \<le> fst q + snd q"
    and c: "(span q - span r) \<inter> covered (A @ r # B) = {}"
  shows "ordered (A @ q # B)"
proof -
  have p: "0 < snd p" if "p \<in> set (A @ r # B)" for p using o that by (auto simp: ordered_def)
  have "fst p + snd p \<le> fst q" if "p \<in> set A" for p
  proof (rule ccontr)
    assume n: "\<not> fst p + snd p \<le> fst q"
    have "fst p + snd p \<le> fst r" "0 < snd p" using ordered_cut(1) [OF o] p that by auto
    then have "fst p + snd p - 1 \<in> span q - span r" "fst p + snd p - 1 \<in> span p" using n q(2) by (auto simp: span_def)
    then show False using c that by (auto simp: covered_def)
  qed
  moreover have "fst q + snd q \<le> fst p" if "p \<in> set B" for p
  proof (rule ccontr)
    assume n: "\<not> fst q + snd q \<le> fst p"
    have "fst r + snd r \<le> fst p" "0 < snd p" using ordered_cut(2) [OF o] p that by auto
    then have "fst p \<in> span q - span r" "fst p \<in> span p" using n q(1) by (auto simp: span_def)
    then show False using c that by (auto simp: covered_def)
  qed
  moreover have "0 < snd q" using p [of r] q by simp
  ultimately show ?thesis using o by (auto simp: ordered_append ordered_Cons upto_start_def)
qed

lemma small_sum:
  fixes a b :: u64
  assumes "unat a \<le> 2 ^ 62" "unat b < 2 ^ 62"
  shows "unat (a + b) = unat a + unat b" "b \<noteq> 0 \<Longrightarrow> sint a < sint (a + b)"
proof -
  have "unat a + unat b < 2 ^ 64" using assms by simp
  then show u: "unat (a + b) = unat a + unat b" by (simp add: unat_word_ariths)
  have s: "sint c = int (unat c)" if "unat c < 2 ^ 63" for c :: u64
  proof -
    have "int (unat c) < int (2 ^ 63)" using that by (simp only: of_nat_less_iff)
    then have c: "uint c < 2 ^ 63" by simp
    have "- (2 ^ 63) \<le> uint c" by (rule order.trans [OF _ uint_ge_0]) simp
    then have "signed_take_bit 63 (uint c) = uint c" using c by (rule signed_take_bit_int_eq_self)
    then show ?thesis by (simp add: sint_uint)
  qed
  assume "b \<noteq> 0"
  then have "0 < unat b" by (simp add: unat_gt_0)
  moreover have "unat a < 2 ^ 63" "unat (a + b) < 2 ^ 63" using assms unfolding u by simp_all
  ultimately show "sint a < sint (a + b)" unfolding s [OF \<open>unat a < 2 ^ 63\<close>] s [OF \<open>unat (a + b) < 2 ^ 63\<close>] u by linarith
qed

definition grow_at :: "vmr \<Rightarrow> u64 \<Rightarrow> u64" where
  "grow_at v incr = (if growsdown v then v_start v - incr else upper_bound v)"

lemma gap_user:
  assumes "gap user_range rs a n" "0 < n"
  shows "a + n \<le> ulimit"
proof -
  have "a + n - 1 \<in> {a..<a + n}" using assms(2) by auto
  then have "a + n - 1 < ulimit" using assms(1) unfolding gap_def by blast
  then show ?thesis by simp
qed

definition grown_vmr :: "vmr \<Rightarrow> u64 \<Rightarrow> vmr" where
  "grown_vmr v incr = (if growsdown v then v\<lparr>v_start := grow_at v incr\<rparr> else v\<lparr>v_end := v_start v + (vmr_size v + incr) - 1\<rparr>)"

lemma grown_bounds:
  assumes v: "vmr_in m v" and h: "unat (grow_at v incr) + unat incr \<le> ulimit" and i: "unat incr < 2 ^ 62"
  shows "vreg (grown_vmr v incr) = (if growsdown v then unat (v_start v) - unat incr else unat (v_start v), snd (vreg v) + unat incr)"
    "v_start (grown_vmr v incr) \<le> v_end (grown_vmr v incr)" "v_end (grown_vmr v incr) \<le> mmap_limit"
    "span (vreg (grown_vmr v incr)) - span (vreg v) = {unat (grow_at v incr)..<unat (grow_at v incr) + unat incr}"
proof -
  have le: "unat (v_start v) \<le> unat (v_end v)" "unat (v_end v) \<le> unat mmap_limit" using v by (simp_all add: vmr_in_def word_le_nat_alt)
  let ?w = "grown_vmr v incr"
  have "unat (v_start ?w) = (if growsdown v then unat (v_start v) - unat incr else unat (v_start v))
      \<and> unat (v_end ?w) = (if growsdown v then unat (v_end v) else unat (v_end v) + unat incr)
      \<and> unat (grow_at v incr) = (if growsdown v then unat (v_start v) - unat incr else Suc (unat (v_end v)))
      \<and> (growsdown v \<longrightarrow> unat incr \<le> unat (v_start v))"
  proof (cases "growsdown v")
    case True
    have "incr \<le> v_start v"
    proof (rule ccontr)
      assume "\<not> incr \<le> v_start v"
      then have "unat (v_start v) < unat incr" by (simp add: word_le_nat_alt)
      then have "unat (v_start v - incr) = 2 ^ 64 + unat (v_start v) - unat incr" by (simp add: unat_sub_if_size word_size)
      then show False using h i True by (simp add: grow_at_def ulimit_eq)
    qed
    then show ?thesis using True by (simp add: grown_vmr_def grow_at_def unat_sub word_le_nat_alt)
  next
    case False
    then have g: "unat (grow_at v incr) = Suc (unat (v_end v))" using vmr_in_bounds(1) [OF v] by (simp add: grow_at_def)
    have e: "v_start v + (vmr_size v + incr) - 1 = v_end v + incr" by (simp add: vmr_size_def)
    have "unat (v_end v + incr) = unat (v_end v) + unat incr"
      by (rule unat_add_lem [THEN iffD1]) (use h g in \<open>simp add: ulimit_eq\<close>)
    then show ?thesis using False g unfolding grown_vmr_def by (simp add: e)
  qed
  note b = this
  show "vreg ?w = (if growsdown v then unat (v_start v) - unat incr else unat (v_start v), snd (vreg v) + unat incr)"
    using b le by (auto simp: vreg_def)
  show "v_start ?w \<le> v_end ?w" "v_end ?w \<le> mmap_limit" using b le h by (auto simp: word_le_nat_alt ulimit_def)
  show "span (vreg ?w) - span (vreg v) = {unat (grow_at v incr)..<unat (grow_at v incr) + unat incr}"
    using b le by (auto simp: vreg_def span_def)
qed

lemma vmr_expand_ok:
  assumes inv: "mmap_inv s m (A @ x # B)" and lk: "mmap_locked me s m" and v: "vmrs s x = Some v" "\<not> has (v_flags v) VM_DONTEXPAND"
    and i: "incr \<noteq> 0" "unat incr < 2 ^ 62"
  obtains (grown) w where "gap user_range (vregs s (A @ x # B)) (unat (grow_at v incr)) (unat incr)"
      "mmap_vmr_expand me m x incr s = Some (0, s\<lparr>vmrs := (vmrs s)(x \<mapsto> w)\<rparr>)"
      "vreg w = (if growsdown v then unat (v_start v) - unat incr else unat (v_start v), snd (vreg v) + unat incr)"
      "vattr w = vattr v" "mmap_inv (s\<lparr>vmrs := (vmrs s)(x \<mapsto> w)\<rparr>) m (A @ x # B)"
      "vregs (s\<lparr>vmrs := (vmrs s)(x \<mapsto> w)\<rparr>) (A @ x # B) = vregs s A @ vreg w # vregs s B"
  | (refused) err where "\<not> gap user_range (vregs s (A @ x # B)) (unat (grow_at v incr)) (unat incr)"
      "mmap_vmr_expand me m x incr s = Some (err, s)" "err \<in> {- EINVAL, - ENOMEM}"
proof -
  have m0: "m \<noteq> NULL" "x \<noteq> NULL" using inv mmap_inv_at [OF inv, of x] by (auto simp: mmap_inv_def mmap_list_def)
  note oa = ordered_at [OF inv v(1)] and vb = vmr_in_bounds [OF oa(3)]
  define h where "h = grow_at v incr"
  obtain err n where n: "mmap_holesize me m h True s = Some (err, n)"
      "\<forall>k. gap user_range (vregs s (A @ x # B)) (unat h) k \<longleftrightarrow> k \<le> unat n" "err = (if n = 0 then - EINVAL else 0)"
    by (rule mmap_holesize_ok [OF inv lk, of h])
  have g: "gap user_range (vregs s (A @ x # B)) (unat h) (unat incr) \<longleftrightarrow> incr \<le> n" using n(2) by (simp add: word_le_nat_alt)
  have sz: "unat (vmr_size v) \<le> 2 ^ 62" using vb(2,3) vreg_end [of v] oa(3) by (auto simp: vmr_in_def ulimit_eq)
  have grow: "sint (vmr_size v) < sint (vmr_size v + incr)" using small_sum(2) [OF sz i(2,1)] .
  define w where "w = grown_vmr v incr"
  have w_eq: "w = (if growsdown v then v\<lparr>v_start := h\<rparr> else v\<lparr>v_end := v_start v + (vmr_size v + incr) - 1\<rparr>)"
    by (simp add: w_def grown_vmr_def h_def)
  have ev: "mmap_vmr_expand me m x incr s =
      (if n = 0 then Some (- EINVAL, s) else if incr \<le> n then Some (0, s\<lparr>vmrs := (vmrs s)(x \<mapsto> w)\<rparr>) else Some (- ENOMEM, s))"
    using m0 i(1) lk v n(1,3) grow
    by (simp add: mmap_vmr_expand_def hget_nonNULL Let_def h_def [unfolded grow_at_def, symmetric] w_eq rupd_def hupd_def EINVAL_def)
  show thesis
  proof (cases "incr \<le> n")
    case False
    then show thesis using refused ev g unfolding h_def by (cases "n = 0") auto
  next
    case True
    then have gp: "gap user_range (vregs s (A @ x # B)) (unat h) (unat incr)" and n0: "n \<noteq> 0" using g i(1) by auto
    have i0: "0 < unat incr" using i(1) by (simp add: unat_gt_0)
    have hl: "unat h + unat incr \<le> ulimit" by (rule gap_user [OF gp i0])
    have w: "vreg w = (if growsdown v then unat (v_start v) - unat incr else unat (v_start v), snd (vreg v) + unat incr)"
        "v_start w \<le> v_end w" "v_end w \<le> mmap_limit" "span (vreg w) - span (vreg v) = {unat h..<unat h + unat incr}"
      using grown_bounds [OF oa(3) hl [unfolded h_def] i(2)] unfolding w_def h_def by simp_all
    have o: "ordered (vregs s A @ vreg w # vregs s B)"
    proof (rule ordered_grow [OF oa(1)])
      show "fst (vreg w) \<le> fst (vreg v)" "fst (vreg v) + snd (vreg v) \<le> fst (vreg w) + snd (vreg w)"
        unfolding w(1) by (auto simp: vreg_def)
      show "(span (vreg w) - span (vreg v)) \<inter> covered (vregs s A @ vreg v # vregs s B) = {}"
        using gp unfolding w(4) gap_def by (simp add: oa(2))
    qed
    have "vmr_in m w" using w(2,3) oa(3) by (simp add: vmr_in_def w_def grown_vmr_def)
    moreover have "v_prev w = v_prev v" "v_next w = v_next v" "vattr w = vattr v" by (simp_all add: w_def grown_vmr_def vattr_def vcore_def)
    ultimately show thesis using grown [of w] ev True n0 gp w(1) resize_ok [OF inv v(1) _ _ _ o] unfolding h_def by simp
  qed
qed

section \<open>Protection\<close>

text \<open>What an address space says of its addresses: the flags of the region each one belongs to, and
  the page table flags.\<close>

definition vattrs :: "vmr \<Rightarrow> (nat \<times> u32 \<times> u32) set" where
  "vattrs v = span (vreg v) \<times> {(v_flags v, v_vflags v)}"

definition attr_map :: "mm \<Rightarrow> ptr list \<Rightarrow> (nat \<times> u32 \<times> u32) set" where
  "attr_map s xs = (\<Union>x\<in>set xs. case vmrs s x of None \<Rightarrow> {} | Some v \<Rightarrow> vattrs v)"

lemma attr_map_simps:
  "attr_map s (A @ B) = attr_map s A \<union> attr_map s B"
  "vmrs s x = Some v \<Longrightarrow> attr_map s (x # B) = vattrs v \<union> attr_map s B"
  "x \<notin> set A \<Longrightarrow> attr_map (s\<lparr>vmrs := (vmrs s)(x := w)\<rparr>) A = attr_map s A"
  "attr_map (s\<lparr>mm_mem := ps\<rparr>) A = attr_map s A"
  by (simp_all add: attr_map_def cong: SUP_cong_simp) (rule SUP_cong; auto)

lemma attr_map_cong: "(\<And>x. x \<in> set A \<Longrightarrow> vmrs s x = vmrs s' x) \<Longrightarrow> attr_map s A = attr_map s' A"
  by (simp add: attr_map_def)

lemma attr_map_added:
  assumes "added s m xs r w s' ys"
  shows "attr_map s' ys = attr_map s xs \<union> vattrs w"
proof -
  have "(case vmrs s' y of None \<Rightarrow> {} | Some v \<Rightarrow> vattrs v) = (case vmrs s y of None \<Rightarrow> {} | Some v \<Rightarrow> vattrs v)" if "y \<in> set xs" for y
  proof -
    have p: "map_option vr.payload (vmrs s' y) = map_option vr.payload (vmrs s y)" using assms that by (simp add: added_def)
    have k: "vattrs v = vattrs (vr.payload v)" for v by (simp add: vattrs_def vreg_def vr.payload_def)
    have e: "vattrs v = vattrs u" if "vr.payload v = vr.payload u" for v u unfolding k [of v] k [of u] that ..
    from p show ?thesis by (cases "vmrs s' y"; cases "vmrs s y") (simp_all, rule e)
  qed
  moreover obtain v where "vmrs s' r = Some v" "vattrs v = vattrs w" using added_parts(4) [OF assms] by (auto simp: vattrs_def)
  ultimately show ?thesis unfolding attr_map_def added_parts(2) [OF assms] by auto
qed

lemma attr_map_at:
  assumes "mmap_inv s m (A @ x # B)"
  shows "attr_map (s\<lparr>vmrs := (vmrs s)(x \<mapsto> w)\<rparr>) (A @ x # B) = attr_map s (A @ B) \<union> vattrs w"
proof -
  have "distinct (A @ x # B)" using assms by (auto simp: mmap_inv_def mmap_list_def dlist_def)
  then show ?thesis by (auto simp: attr_map_simps attr_map_simps(2) [of _ x w])
qed

lemma cut_mapin:
  assumes inv: "mmap_inv s m (A @ x # B)" and lk: "mmap_locked me s m" and v: "vmrs s x = Some v"
    and w: "w = v\<lparr>v_start := ws, v_end := we\<rparr>" "v_start v \<le> ws" "ws \<le> we" "we \<le> v_end v"
    and y: "y \<notin> set (A @ x # B)" "y \<noteq> NULL"
    and u: "v_start u \<le> v_end u" "span (vreg u) \<subseteq> span (vreg v) - span (vreg w)"
  obtains s' ys where "mmap_mapin me m y (s\<lparr>vmrs := (vmrs s)(x \<mapsto> w, y \<mapsto> u)\<rparr>) = Some (0, s')"
    "added (s\<lparr>vmrs := (vmrs s)(x \<mapsto> w, y \<mapsto> u)\<rparr>) m (A @ x # B) y u s' ys" "mmap_locked me s' m" "mm_mem s' = mm_mem s"
    "attr_map s' ys = attr_map s (A @ B) \<union> vattrs w \<union> vattrs u"
    "covered (vregs s' ys) = covered (vregs s A @ vregs s B) \<union> span (vreg w) \<union> span (vreg u)"
proof -
  note oa = ordered_at [OF inv v]
  let ?t = "s\<lparr>vmrs := (vmrs s)(x \<mapsto> w)\<rparr>" and ?s = "s\<lparr>vmrs := (vmrs s)(x \<mapsto> w, y \<mapsto> u)\<rparr>"
  have le: "unat (v_start v) \<le> unat ws" "unat ws \<le> unat we" "unat we \<le> unat (v_end v)" using w by (simp_all add: word_le_nat_alt)
  have wi: "vmr_in m w" using w oa(3) by (auto simp: vmr_in_def)
  have o: "ordered (vregs s A @ vreg w # vregs s B)"
    by (rule ordered_within [OF oa(1)]) (use w(1) le in \<open>auto simp: vreg_def\<close>)
  have inv0: "mmap_inv ?t m (A @ x # B)" "vregs ?t (A @ x # B) = vregs s A @ vreg w # vregs s B"
    using resize_ok [OF inv v _ _ wi o] w(1) by simp_all
  have e: "?t\<lparr>vmrs := (vmrs ?t)(y \<mapsto> u)\<rparr> = ?s" by simp
  note fr = mmap_inv_frame [OF inv0(1) y(1), of "Some u", unfolded e]
  have c: "covered (vregs ?s (A @ x # B)) = covered (vregs s A @ vregs s B) \<union> span (vreg w)"
    unfolding fr(2) inv0(2) by (auto simp: covered_def)
  have lim: "v_end u \<le> mmap_limit"
  proof -
    have "unat (v_end u) \<in> span (vreg u)" using u(1) by (auto simp: span_def vreg_def word_le_nat_alt)
    then have "unat (v_end u) \<in> span (vreg v)" using u(2) by blast
    then show ?thesis using oa(3) by (auto simp: span_vreg vmr_in_def)
  qed
  have d: "span (vreg u) \<inter> covered (vregs ?s (A @ x # B)) = {}" unfolding c using u(2) ordered_disjoint [OF oa(1)] by blast
  obtain s' ys where s': "mmap_mapin me m y ?s = Some (0, s')" "added ?s m (A @ x # B) y u s' ys" "mmap_locked me s' m" "mm_mem s' = mm_mem ?s"
    by (rule mapin_added [OF fr(1) _ y(2,1) _ u(1) lim d]) (use lk in \<open>auto simp: mmap_locked_def\<close>)
  moreover have "attr_map s' ys = attr_map s (A @ B) \<union> vattrs w \<union> vattrs u"
    unfolding attr_map_added [OF s'(2)] attr_map_simps(3) [OF y(1), of ?t "Some u", unfolded e] attr_map_at [OF inv] ..
  moreover have "covered (vregs s' ys) = covered (vregs s A @ vregs s B) \<union> span (vreg w) \<union> span (vreg u)"
    using added_parts(3) [OF s'(2)] unfolding c .
  ultimately show thesis using that by simp
qed

text \<open>\<open>protect_split\<close> leaves the range alone in its region; every address keeps its flags.\<close>

definition split_out :: "ctx \<Rightarrow> mm \<Rightarrow> ptr \<Rightarrow> ptr list \<Rightarrow> ptr \<Rightarrow> u64 \<Rightarrow> u64 \<Rightarrow> mm \<Rightarrow> bool" where
  "split_out me s m xs x a e s' \<longleftrightarrow> (\<exists>ys w. mmap_inv s' m ys \<and> mmap_locked me s' m \<and> x \<in> set ys \<and> vmrs s' x = Some w
     \<and> v_start w = a \<and> v_end w = e \<and> attr_map s' ys = attr_map s xs \<and> covered (vregs s' ys) = covered (vregs s xs)
     \<and> map_option m_flags (maps s' m) = map_option m_flags (maps s m) \<and> pg_ret s' = pg_ret s)"

lemma split_outI:
  assumes "mmap_inv s' m ys" "mmap_locked me s' m" "x \<in> set ys" "map_option vr.payload (vmrs s' x) = Some (vr.payload w)"
    "attr_map s' ys = attr_map s xs" "covered (vregs s' ys) = covered (vregs s xs)"
    "map_option m_flags (maps s' m) = map_option m_flags (maps s m)" "pg_ret s' = pg_ret s"
  shows "split_out me s m xs x (v_start w) (v_end w) s'"
proof -
  obtain w' where w': "vmrs s' x = Some w'" "vr.payload w' = vr.payload w" using assms(4) by auto
  have "v_start w' = v_start w" "v_end w' = v_end w"
    using arg_cong [OF w'(2), of v_start] arg_cong [OF w'(2), of v_end] by (simp_all add: vr.payload_def)
  then show ?thesis unfolding split_out_def using w'(1) assms by blast
qed

lemma attr_map_whole:
  assumes inv: "mmap_inv s m (A @ x # B)" and v: "vmrs s x = Some v"
  shows "attr_map s (A @ x # B) = attr_map s (A @ B) \<union> vattrs v"
    "covered (vregs s (A @ x # B)) = covered (vregs s A @ vregs s B) \<union> span (vreg v)"
  using v by (auto simp: attr_map_simps(1) attr_map_simps(2) [OF v] vreg_at_def)

lemma split_two:
  assumes inv: "mmap_inv s m (A @ x # B)" and lk: "mmap_locked me s m" and v: "vmrs s x = Some v"
    and w: "w = v\<lparr>v_start := ws, v_end := we\<rparr>" "v_start v \<le> ws" "ws \<le> we" "we \<le> v_end v"
    and y: "y \<noteq> NULL" "vmrs s y = None"
    and u: "v_start u \<le> v_end u" "span (vreg u) = span (vreg v) - span (vreg w)" "v_flags u = v_flags v" "v_vflags u = v_vflags v"
  obtains s' where "mmap_mapin me m y (s\<lparr>mm_mem := ps, vmrs := (vmrs s)(x \<mapsto> w, y \<mapsto> u)\<rparr>) = Some (0, s')"
    "split_out me s m (A @ x # B) x ws we s'"
proof -
  let ?t = "s\<lparr>mm_mem := ps\<rparr>"
  have yx: "y \<notin> set (A @ x # B)" using inv y(2) unfolding mmap_inv_def by (metis option.distinct(1))
  have inv1: "mmap_inv ?t m (A @ x # B)" "mmap_locked me ?t m" "vmrs ?t x = Some v"
    using inv lk v by (simp_all add: mmap_inv_def mmap_list_def mmap_locked_def)
  obtain s' ys where s': "mmap_mapin me m y (?t\<lparr>vmrs := (vmrs ?t)(x \<mapsto> w, y \<mapsto> u)\<rparr>) = Some (0, s')"
      "added (?t\<lparr>vmrs := (vmrs ?t)(x \<mapsto> w, y \<mapsto> u)\<rparr>) m (A @ x # B) y u s' ys" "mmap_locked me s' m"
      "attr_map s' ys = attr_map ?t (A @ B) \<union> vattrs w \<union> vattrs u"
      "covered (vregs s' ys) = covered (vregs ?t A @ vregs ?t B) \<union> span (vreg w) \<union> span (vreg u)"
    by (rule cut_mapin [OF inv1 w yx y(1) u(1) u(2) [THEN equalityD1]])
  have "unat (v_start v) \<le> unat ws" "unat ws \<le> unat we" "unat we \<le> unat (v_end v)" using w by (simp_all add: word_le_nat_alt)
  then have "span (vreg w) \<subseteq> span (vreg v)" unfolding w(1) by (auto simp: span_def vreg_def)
  then have sp: "span (vreg w) \<union> span (vreg u) = span (vreg v)" unfolding u(2) by blast
  then have "vattrs w \<union> vattrs u = vattrs v" using u(3,4) w(1) by (auto simp: vattrs_def)
  then have "attr_map s' ys = attr_map s (A @ x # B)" "covered (vregs s' ys) = covered (vregs s (A @ x # B))"
    unfolding s'(4,5) attr_map_whole [OF inv v] attr_map_simps(4) using sp by auto
  moreover have "map_option vr.payload (vmrs s' x) = Some (vr.payload w)" using s'(2) yx by (auto simp: added_def)
  moreover have "map_option m_flags (maps s' m) = map_option m_flags (maps s m)" "pg_ret s' = pg_ret s"
    using s'(2) by (auto simp: added_def same_space_def)
  moreover have "x \<in> set ys" using added_parts(2) [OF s'(2)] by simp
  ultimately have "split_out me s m (A @ x # B) x (v_start w) (v_end w) s'"
    by (intro split_outI [OF added_parts(1) [OF s'(2)] s'(3)])
  then show thesis using that s'(1) w(1) by simp
qed

lemma split_out_cong: "vmrs t = vmrs s \<Longrightarrow> maps t = maps s \<Longrightarrow> pg_ret t = pg_ret s \<Longrightarrow> split_out me t m xs x a e s' = split_out me s m xs x a e s'"
  by (simp add: split_out_def attr_map_def)

lemma split_three:
  assumes inv: "mmap_inv s m (A @ x # B)" and lk: "mmap_locked me s m" and v: "vmrs s x = Some v"
    and w: "w = v\<lparr>v_start := ws, v_end := we\<rparr>" "v_start v \<le> ws" "ws \<le> we" "we \<le> v_end v"
    and y: "y \<noteq> NULL" "vmrs s y = None" and z: "z \<noteq> NULL" "vmrs s z = None" "z \<noteq> y"
    and u: "v_start u \<le> v_end u" "v_flags u = v_flags v" "v_vflags u = v_vflags v"
    and t: "v_start t \<le> v_end t" "v_flags t = v_flags v" "v_vflags t = v_vflags v"
    and c: "span (vreg u) \<union> span (vreg t) = span (vreg v) - span (vreg w)" "span (vreg u) \<inter> span (vreg t) = {}"
  obtains s1 s' where "mmap_mapin me m y (s\<lparr>mm_mem := ps, vmrs := (vmrs s)(z \<mapsto> t, x \<mapsto> w, y \<mapsto> u)\<rparr>) = Some (0, s1)"
    "mmap_mapin me m z s1 = Some (0, s')" "split_out me s m (A @ x # B) x ws we s'"
proof -
  let ?r = "s\<lparr>mm_mem := ps, vmrs := (vmrs s)(z \<mapsto> t)\<rparr>"
  have yx: "y \<notin> set (A @ x # B)" "z \<notin> set (A @ x # B)" using inv y(2) z(2) unfolding mmap_inv_def by (metis option.distinct(1))+
  have i: "mmap_inv (s\<lparr>mm_mem := ps\<rparr>) m (A @ x # B)" using inv by (simp add: mmap_inv_def mmap_list_def)
  have rr: "vregs ?r A = vregs s A" "vregs ?r B = vregs s B" "attr_map ?r (A @ B) = attr_map s (A @ B)"
    using yx(2) by (auto simp: vreg_at_def intro!: attr_map_cong)
  have inv1: "mmap_inv ?r m (A @ x # B)" "mmap_locked me ?r m" "vmrs ?r x = Some v"
    using mmap_inv_frame(1) [OF i yx(2), of "Some t"] lk v yx(2) by (auto simp: mmap_locked_def)
  have "span (vreg u) \<subseteq> span (vreg v) - span (vreg w)" using c(1) by blast
  then obtain s1 ys where s1: "mmap_mapin me m y (?r\<lparr>vmrs := (vmrs ?r)(x \<mapsto> w, y \<mapsto> u)\<rparr>) = Some (0, s1)"
      "added (?r\<lparr>vmrs := (vmrs ?r)(x \<mapsto> w, y \<mapsto> u)\<rparr>) m (A @ x # B) y u s1 ys" "mmap_locked me s1 m"
      "attr_map s1 ys = attr_map ?r (A @ B) \<union> vattrs w \<union> vattrs u"
      "covered (vregs s1 ys) = covered (vregs ?r A @ vregs ?r B) \<union> span (vreg w) \<union> span (vreg u)"
    by (rule cut_mapin [OF inv1 w yx(1) y(1) u(1)])
  note ap = added_parts [OF s1(2)]
  have z1: "vmrs s1 z = Some t" "z \<notin> set ys" using s1(2) z(3) yx(2) ap(2) by (auto simp: added_def)
  have d: "span (vreg t) \<inter> covered (vregs s1 ys) = {}"
    unfolding s1(5) rr using c ordered_disjoint [OF ordered_at(1) [OF inv v]] by blast
  have lim: "v_end t \<le> mmap_limit"
  proof -
    have "unat (v_end t) \<in> span (vreg t)" using t(1) by (auto simp: span_def vreg_def word_le_nat_alt)
    then have "unat (v_end t) \<in> span (vreg v)" using c(1) by blast
    then show ?thesis using ordered_at(3) [OF inv v] by (auto simp: span_vreg vmr_in_def)
  qed
  obtain s' zs where s': "mmap_mapin me m z s1 = Some (0, s')" "added s1 m ys z t s' zs" "mmap_locked me s' m"
    by (rule mapin_added [OF ap(1) s1(3) z(1) z1(2,1) t(1) lim d])
  have "unat (v_start v) \<le> unat ws" "unat ws \<le> unat we" "unat we \<le> unat (v_end v)" using w by (simp_all add: word_le_nat_alt)
  then have "span (vreg w) \<subseteq> span (vreg v)" unfolding w(1) by (auto simp: span_def vreg_def)
  then have sp: "span (vreg w) \<union> span (vreg u) \<union> span (vreg t) = span (vreg v)" using c(1) by blast
  then have "vattrs w \<union> vattrs u \<union> vattrs t = vattrs v" using u(2,3) t(2,3) w(1) by (auto simp: vattrs_def)
  then have at: "attr_map s' zs = attr_map s (A @ x # B)"
    unfolding attr_map_added [OF s'(2)] s1(4) rr attr_map_whole [OF inv v] by blast
  have cov: "covered (vregs s' zs) = covered (vregs s (A @ x # B))"
    unfolding added_parts(3) [OF s'(2)] s1(5) rr attr_map_whole [OF inv v] using sp by blast
  have pl: "map_option vr.payload (vmrs s1 x) = Some (vr.payload w)" using s1(2) yx by (auto simp: added_def)
  moreover have "map_option vr.payload (vmrs s' x) = map_option vr.payload (vmrs s1 x)" using s'(2) ap(2) by (simp add: added_def)
  moreover have "map_option m_flags (maps s' m) = map_option m_flags (maps s1 m)" "pg_ret s' = pg_ret s1"
    using s'(2) by (auto simp: added_def same_space_def)
  moreover have "map_option m_flags (maps s1 m) = map_option m_flags (maps s m)" "pg_ret s1 = pg_ret s"
    using s1(2) by (auto simp: added_def same_space_def)
  ultimately have "split_out me s m (A @ x # B) x (v_start w) (v_end w) s'"
    by (intro split_outI [OF added_parts(1) [OF s'(2)] s'(3) _ _ at cov]) (simp_all add: ap(2) added_parts(2) [OF s'(2)])
  then show thesis using that [of s1 s'] s1(1) s'(1) w(1) by simp
qed

lemma protect_split_start:
  assumes inv: "mmap_inv s m (A @ x # B)" and lk: "mmap_locked me s m" and v: "vmrs s x = Some v"
    and e: "v_start v \<le> e" "e < v_end v" and al: "vmr_alloc s = (0, y, s\<lparr>mm_mem := ps, vmrs := (vmrs s)(y \<mapsto> vmr0)\<rparr>)" "y \<noteq> NULL" "vmrs s y = None"
  obtains s' where "protect_split me m x (v_start v) e s = Some (0, s')" "split_out me s m (A @ x # B) x (v_start v) e s'"
proof -
  let ?w = "v\<lparr>v_start := v_start v, v_end := e\<rparr>" and ?u = "v\<lparr>v_refs := 0, v_next := NULL, v_prev := NULL, v_start := e + 1\<rparr>"
  have x0: "x \<noteq> NULL" using mmap_inv_at [OF inv, of x] by auto
  have xy: "x \<noteq> y" using v al(3) by auto
  have le: "unat (v_start v) \<le> unat e" "unat e < unat (v_end v)" using e by (simp_all add: word_le_nat_alt word_less_nat_alt)
  have e1: "unat (e + 1) = Suc (unat e)" using le(2) vmr_in_bounds(3) [OF ordered_at(3) [OF inv v]] by (simp add: unat_word_ariths ulimit_eq)
  have u: "v_start ?u \<le> v_end ?u" "span (vreg ?u) = span (vreg v) - span (vreg ?w)" using le e1 by (auto simp: word_le_nat_alt span_def vreg_def)
  obtain s' where s': "mmap_mapin me m y (s\<lparr>mm_mem := ps, vmrs := (vmrs s)(x \<mapsto> ?w, y \<mapsto> ?u)\<rparr>) = Some (0, s')"
      "split_out me s m (A @ x # B) x (v_start v) e s'"
    by (rule split_two [OF inv lk v refl _ e(1) _ al(2,3) u]) (use e(2) in simp_all)
  have "protect_split me m x (v_start v) e s = Some (0, s')"
    using al v x0 xy s'(1) by (simp add: protect_split_def hget_nonNULL rupd_def hupd_def upper_bound_def)
  then show thesis using that s'(2) by blast
qed

lemma protect_split_end:
  assumes inv: "mmap_inv s m (A @ x # B)" and lk: "mmap_locked me s m" and v: "vmrs s x = Some v"
    and a: "v_start v < a" "a \<le> v_end v" and al: "vmr_alloc s = (0, y, s\<lparr>mm_mem := ps, vmrs := (vmrs s)(y \<mapsto> vmr0)\<rparr>)" "y \<noteq> NULL" "vmrs s y = None"
  obtains s' where "protect_split me m x a (v_end v) s = Some (0, s')" "split_out me s m (A @ x # B) x a (v_end v) s'"
proof -
  let ?w = "v\<lparr>v_start := a, v_end := v_end v\<rparr>" and ?u = "v\<lparr>v_refs := 0, v_next := NULL, v_prev := NULL, v_end := a - 1\<rparr>"
  have x0: "x \<noteq> NULL" using mmap_inv_at [OF inv, of x] by auto
  have xy: "x \<noteq> y" using v al(3) by auto
  have le: "unat (v_start v) < unat a" "unat a \<le> unat (v_end v)" using a by (simp_all add: word_le_nat_alt word_less_nat_alt)
  have a1: "unat (a - 1) = unat a - 1" using le(1) by (intro unat_minus_one) auto
  have u: "v_start ?u \<le> v_end ?u" "span (vreg ?u) = span (vreg v) - span (vreg ?w)" using le a1 by (auto simp: word_le_nat_alt span_def vreg_def)
  obtain s' where s': "mmap_mapin me m y (s\<lparr>mm_mem := ps, vmrs := (vmrs s)(x \<mapsto> ?w, y \<mapsto> ?u)\<rparr>) = Some (0, s')"
      "split_out me s m (A @ x # B) x a (v_end v) s'"
    by (rule split_two [OF inv lk v refl _ a(2) _ al(2,3) u]) (use a(1) in simp_all)
  have "v_start v \<noteq> a" using a(1) by simp
  then have "protect_split me m x a (v_end v) s = Some (0, s')"
    using al v x0 xy s'(1) by (simp add: protect_split_def hget_nonNULL rupd_def hupd_def lower_bound_def)
  then show thesis using that s'(2) by blast
qed

lemma protect_split_middle:
  assumes inv: "mmap_inv s m (A @ x # B)" and lk: "mmap_locked me s m" and v: "vmrs s x = Some v"
    and a: "v_start v < a" "a \<le> e" "e < v_end v"
    and al: "vmr_alloc s = (0, y, s\<lparr>mm_mem := ps, vmrs := (vmrs s)(y \<mapsto> vmr0)\<rparr>)" "y \<noteq> NULL" "vmrs s y = None"
    and u0: "u0 = v\<lparr>v_refs := 0, v_next := NULL, v_prev := NULL\<rparr>" and s1: "s1 = s\<lparr>mm_mem := ps, vmrs := (vmrs s)(y \<mapsto> u0)\<rparr>"
    and al2: "vmr_alloc s1 = (0, z, s1\<lparr>mm_mem := qs, vmrs := (vmrs s1)(z \<mapsto> vmr0)\<rparr>)" "z \<noteq> NULL" "vmrs s1 z = None"
  obtains s' where "protect_split me m x a e s = Some (0, s')" "split_out me s m (A @ x # B) x a e s'"
proof -
  let ?w = "v\<lparr>v_start := a, v_end := e\<rparr>" and ?u = "v\<lparr>v_next := NULL, v_prev := NULL, v_refs := 0, v_end := a - 1\<rparr>" and ?t = "v\<lparr>v_next := NULL, v_prev := NULL, v_start := e + 1\<rparr>"
  have z: "z \<noteq> y" "vmrs s z = None" using al2(3) s1 by (auto split: if_splits)
  have x0: "x \<noteq> NULL" using mmap_inv_at [OF inv, of x] by auto
  have xy: "x \<noteq> y" "x \<noteq> z" using v al(3) z(2) by auto
  have le: "unat (v_start v) < unat a" "unat a \<le> unat e" "unat e < unat (v_end v)" using a by (simp_all add: word_le_nat_alt word_less_nat_alt)
  have a1: "unat (a - 1) = unat a - 1" using le(1) by (intro unat_minus_one) auto
  have e1: "unat (e + 1) = Suc (unat e)" using le(3) vmr_in_bounds(3) [OF ordered_at(3) [OF inv v]] by (simp add: unat_word_ariths ulimit_eq)
  have u: "v_start ?u \<le> v_end ?u" "v_start ?t \<le> v_end ?t" using le a1 e1 u0 by (auto simp: word_le_nat_alt)
  have c: "span (vreg ?u) \<union> span (vreg ?t) = span (vreg v) - span (vreg ?w)" "span (vreg ?u) \<inter> span (vreg ?t) = {}"
    using le a1 e1 u0 by (auto simp: span_def vreg_def)
  obtain s2 s' where s': "mmap_mapin me m y (s\<lparr>mm_mem := qs, vmrs := (vmrs s)(z \<mapsto> ?t, x \<mapsto> ?w, y \<mapsto> ?u)\<rparr>) = Some (0, s2)"
      "mmap_mapin me m z s2 = Some (0, s')" "split_out me s m (A @ x # B) x a e s'"
    by (rule split_three [OF inv lk v refl _ a(2) _ al(2,3) al2(2) z(2,1) u(1) _ _ u(2) _ _ c]) (use a u0 in simp_all)
  have "(vmrs s)(z \<mapsto> ?t, x \<mapsto> ?w, y \<mapsto> ?u) = (vmrs s)(y \<mapsto> ?u, x \<mapsto> ?w, z \<mapsto> ?t)" using xy z(1) by auto
  note s1' = s'(1) [unfolded this]
  have ne: "v_start v \<noteq> a" "v_end v \<noteq> e" using a by auto
  have "protect_split me m x a e s = Some (0, s')"
    using al v x0 xy z ne al2 s1' s'(2) s1 u0 by (simp add: protect_split_def hget_nonNULL rupd_def hupd_def lower_bound_def upper_bound_def)
  then show thesis using that s'(3) by blast
qed

lemma split_out_refl:
  assumes "mmap_inv s m xs" "mmap_locked me s m" "x \<in> set xs" "vmrs s x = Some v"
  shows "split_out me s m xs x (v_start v) (v_end v) s"
  using assms by (auto simp: split_out_def)

text \<open>Cutting a range out of its region, on every branch.\<close>

lemma protect_split_ok:
  assumes inv: "mmap_inv s m (A @ x # B)" and lk: "mmap_locked me s m" and v: "vmrs s x = Some v"
    and a: "v_start v \<le> a" "a \<le> e" "e \<le> v_end v" "a \<noteq> v_start v \<or> e \<noteq> v_end v"
  obtains (cut) s' where "protect_split me m x a e s = Some (0, s')" "split_out me s m (A @ x # B) x a e s'"
  | (full) qs where "protect_split me m x a e s = Some (- ENOMEM, s\<lparr>mm_mem := qs\<rparr>)"
proof (cases rule: vmr_alloc_cases [of s])
  case (1 ps)
  then show thesis using full [of ps] by (simp add: protect_split_def ENOMEM_def)
next
  case (2 y ps)
  consider (st) "a = v_start v" "e < v_end v" | (en) "e = v_end v" "v_start v < a" | (mid) "v_start v < a" "e < v_end v"
    using a by (metis order_le_less)
  then show thesis
  proof cases
    case st
    then show thesis using protect_split_start [OF inv lk v _ _ 2(1-3), of e] a cut by metis
  next
    case en
    then show thesis using protect_split_end [OF inv lk v _ _ 2(1-3), of a] a cut by metis
  next
    case mid
    define u0 where "u0 = v\<lparr>v_refs := 0, v_next := NULL, v_prev := NULL\<rparr>"
    define s1 where "s1 = s\<lparr>mm_mem := ps, vmrs := (vmrs s)(y \<mapsto> u0)\<rparr>"
    show thesis
    proof (cases rule: vmr_alloc_cases [of s1])
      case (1 qs)
      have x0: "x \<noteq> NULL" using mmap_inv_at [OF inv, of x] by auto
      have xy: "x \<noteq> y" using v 2(3) by auto
      have ne: "v_start v \<noteq> a" "v_end v \<noteq> e" using mid by auto
      have "(vmrs s)(y := None) = vmrs s" using 2(3) by auto
      then have "protect_split me m x a e s = Some (- ENOMEM, s\<lparr>mm_mem := qs\<rparr>)"
        using 1(1) 2(1,2) v x0 xy ne unfolding s1_def u0_def
        by (simp add: protect_split_def hget_nonNULL rupd_def hupd_def vmr_free_def kfree_def ENOMEM_def)
      then show thesis by (rule full)
    next
      case al2: (2 z qs)
      obtain s' where "protect_split me m x a e s = Some (0, s')" "split_out me s m (A @ x # B) x a e s'"
        by (rule protect_split_middle [OF inv lk v mid(1) a(2) mid(2) 2(1-3) u0_def s1_def al2(1-3)])
      then show thesis by (rule cut)
    qed
  qed
qed

text \<open>A region's own flags exchanged.\<close>

definition set_prot :: "u32 \<Rightarrow> u32 \<Rightarrow> vmr \<Rightarrow> vmr" where
  "set_prot prot mflags v = v\<lparr>v_flags := vm_of_prot prot, v_vflags := pte_flags_of (vm_of_prot prot) mflags\<rparr>"

text \<open>What \<open>mmap_protect\<close> refuses: stacks, and pages that are writable and executable, now or after the change.\<close>

definition prot_denied :: "u32 \<Rightarrow> vmr \<Rightarrow> bool" where
  "prot_denied prot v \<longleftrightarrow> growsdown v \<or> has prot PROT_WRITE \<and> has prot PROT_EXEC
     \<or> has prot PROT_WRITE \<and> has (prot_of_vm (v_flags v)) PROT_EXEC \<or> has prot PROT_EXEC \<and> has (prot_of_vm (v_flags v)) PROT_WRITE"

lemma find_overlap_ok:
  assumes inv: "mmap_inv s m xs" and lk: "mmap_locked me s m"
  obtains (inside) A x B v where "xs = A @ x # B" "vmrs s x = Some v" "v_start v \<le> a" "a \<le> v_end v" "e \<le> v_end v"
      "mmap_find_vmr_overlap me m a e s = Some x" "x \<noteq> NULL"
  | (outside) "mmap_find_vmr_overlap me m a e s = Some NULL" "\<not> (\<exists>x\<in>set xs. {unat a..unat e} \<subseteq> span (vreg_at (vmrs s) x) \<and> a \<le> e)"
proof -
  have m0: "m \<noteq> NULL" using inv by (simp add: mmap_inv_def mmap_list_def)
  consider (f) A x B v where "xs = A @ x # B" "vmrs s x = Some v" "v_start v \<le> a" "a \<le> v_end v" "mmap_find me m a s = Some x" "x \<noteq> NULL"
    | (n) "unat a \<notin> covered (vregs s xs)" "mmap_find me m a s = Some NULL" using mmap_find_ok [OF inv lk, of a] by metis
  then show thesis
  proof cases
    case n
    have "\<not> (\<exists>x\<in>set xs. {unat a..unat e} \<subseteq> span (vreg_at (vmrs s) x) \<and> a \<le> e)"
      using n(1) by (auto simp: covered_def word_le_nat_alt)
    then show thesis using outside n(2) m0 lk by (simp add: mmap_find_vmr_overlap_def)
  next
    case f
    show thesis
    proof (cases "e \<le> v_end v")
      case True
      then show thesis using inside [OF f(1-4)] f m0 lk by (simp add: mmap_find_vmr_overlap_def hget_nonNULL)
    next
      case False
      note oa = ordered_at [OF inv [unfolded f(1)] f(2)]
      have "False" if y: "y \<in> set xs" "{unat a..unat e} \<subseteq> span (vreg_at (vmrs s) y)" "a \<le> e" for y
      proof -
        have i: "unat a \<in> span (vreg_at (vmrs s) y)" "unat e \<in> span (vreg_at (vmrs s) y)" using y(2,3) by (auto simp: word_le_nat_alt)
        have "unat a \<in> span (vreg v)" using f(3,4) oa(3) by (simp add: span_vreg vmr_in_def)
        then have "y = x" using i(1) y(1) ordered_disjoint [OF oa(1)] f(1) by (auto simp: covered_def)
        then have "unat e \<in> span (vreg v)" using i(2) oa(2) by simp
        then show False using False oa(3) by (simp add: span_vreg vmr_in_def)
      qed
      then show thesis using outside f False m0 lk by (auto simp: mmap_find_vmr_overlap_def hget_nonNULL)
    qed
  qed
qed

lemma attr_map_covered: "t \<in> attr_map s xs \<Longrightarrow> fst t \<in> covered (vregs s xs)"
proof -
  assume "t \<in> attr_map s xs"
  then obtain x v where "x \<in> set xs" "vmrs s x = Some v" "t \<in> vattrs v" by (auto simp: attr_map_def split: option.splits)
  then show ?thesis by (auto simp: vattrs_def covered_def intro!: bexI [of _ x] simp: vreg_at)
qed

lemma set_prot_ok:
  assumes inv: "mmap_inv s m ys" and x: "x \<in> set ys" "vmrs s x = Some w"
    and s'_def: "s' = s\<lparr>vmrs := (vmrs s)(x \<mapsto> set_prot prot mf w)\<rparr>"
  shows "mmap_inv s' m ys" "covered (vregs s' ys) = covered (vregs s ys)"
    "attr_map s' ys = {t \<in> attr_map s ys. fst t \<notin> span (vreg w)} \<union> span (vreg w) \<times> {(vm_of_prot prot, pte_flags_of (vm_of_prot prot) mf)}"
proof -
  obtain A B where ys: "ys = A @ x # B" using x(1) by (auto simp: in_set_conv_decomp)
  note inv = inv [unfolded ys]
  note oa = ordered_at [OF inv x(2)]
  let ?w = "set_prot prot mf w"
  have w: "vreg ?w = vreg w" "v_prev ?w = v_prev w" "v_next ?w = v_next w" "vmr_in m ?w" using oa(3) by (simp_all add: set_prot_def vreg_def vmr_in_def)
  have r: "mmap_inv s' m (A @ x # B)" "vregs s' (A @ x # B) = vregs s A @ vreg w # vregs s B"
    using resize_ok [OF inv x(2) w(2,3,4)] oa(1) unfolding w(1) s'_def by blast+
  show "mmap_inv s' m ys" using r(1) unfolding ys .
  show "covered (vregs s' ys) = covered (vregs s ys)" unfolding ys r(2) attr_map_whole(2) [OF inv x(2)] by (auto simp: covered_def)
  have d: "fst t \<notin> span (vreg w)" if "t \<in> attr_map s (A @ B)" for t
    using attr_map_covered [OF that] ordered_disjoint [OF oa(1)] by auto
  have va: "vattrs ?w = span (vreg w) \<times> {(vm_of_prot prot, pte_flags_of (vm_of_prot prot) mf)}"
    unfolding vattrs_def w(1) by (simp add: set_prot_def)
  have "{t \<in> attr_map s ys. fst t \<notin> span (vreg w)} = attr_map s (A @ B)"
    unfolding ys attr_map_whole(1) [OF inv x(2)] using d by (auto simp: vattrs_def)
  then show "attr_map s' ys = {t \<in> attr_map s ys. fst t \<notin> span (vreg w)} \<union> span (vreg w) \<times> {(vm_of_prot prot, pte_flags_of (vm_of_prot prot) mf)}"
    unfolding ys s'_def attr_map_at [OF inv] va by simp
qed

definition reprotected :: "mm \<Rightarrow> ptr \<Rightarrow> ptr list \<Rightarrow> nat set \<Rightarrow> u32 \<Rightarrow> mm \<Rightarrow> ptr list \<Rightarrow> bool" where
  "reprotected s m xs R prot s' ys \<longleftrightarrow> mmap_inv s' m ys \<and> covered (vregs s' ys) = covered (vregs s xs) \<and> (\<exists>mp. maps s m = Some mp
     \<and> attr_map s' ys = {t \<in> attr_map s xs. fst t \<notin> R} \<union> R \<times> {(vm_of_prot prot, pte_flags_of (vm_of_prot prot) (m_flags mp))})"

lemma protect_finish:
  assumes sp: "split_out me s m xs x a e s1" and ae: "a \<le> e" and mp: "maps s m = Some mp" and x: "x \<noteq> NULL" "m \<noteq> NULL"
  obtains err s' ys where "do { mp \<leftarrow> hget (maps s1) m;
      s \<leftarrow> rupd x (\<lambda>v. v\<lparr>v_flags := v_flags v AND NOT VM_EXEC AND NOT VM_WRITE AND NOT VM_READ\<rparr>) s1;
      s \<leftarrow> rupd x (v_flags_update (\<lambda>_. vm_of_prot prot)) s;
      v \<leftarrow> hget (vmrs s) x;
      s \<leftarrow> rupd x (v_vflags_update (\<lambda>_. pte_flags_of (v_flags v) (m_flags mp))) s;
      v \<leftarrow> hget (vmrs s) x;
      Some (pg_try (Pg_protect (v_start v) (vmr_size v) (v_vflags v)) s) } = Some (err, s')"
    "err = (case pg_ret s of [] \<Rightarrow> 0 | r # _ \<Rightarrow> r)" "mmap_locked me s' m" "reprotected s m xs {unat a..unat e} prot s' ys"
proof -
  obtain ys w where y: "mmap_inv s1 m ys" "mmap_locked me s1 m" "x \<in> set ys" "vmrs s1 x = Some w" "v_start w = a" "v_end w = e"
      "attr_map s1 ys = attr_map s xs" "covered (vregs s1 ys) = covered (vregs s xs)"
      "map_option m_flags (maps s1 m) = map_option m_flags (maps s m)" "pg_ret s1 = pg_ret s"
    using sp unfolding split_out_def by blast
  obtain mp1 where mp1: "maps s1 m = Some mp1" "m_flags mp1 = m_flags mp" using y(9) mp by auto
  let ?s = "s1\<lparr>vmrs := (vmrs s1)(x \<mapsto> set_prot prot (m_flags mp) w)\<rparr>"
  note r = set_prot_ok [OF y(1,3,4), of ?s prot "m_flags mp", OF refl]
  have R: "span (vreg w) = {unat a..unat e}" using ae y(5,6) by (auto simp: span_def vreg_def word_le_nat_alt)
  define t where "t = pg_try (Pg_protect (v_start w) (vmr_size w) (pte_flags_of (vm_of_prot prot) (m_flags mp))) ?s"
  obtain err s' where t: "t = (err, s')" by (cases t)
  have ts: "vmrs s' = vmrs ?s" "maps s' = maps ?s" "err = (case pg_ret s of [] \<Rightarrow> 0 | r # _ \<Rightarrow> r)"
    using t y(10) unfolding t_def pg_try_def pg_do_def by (auto split: list.splits)
  have "reprotected s m xs {unat a..unat e} prot s' ys"
    using r mp ts(1,2) y(7,8) unfolding reprotected_def R mmap_inv_def mmap_list_def attr_map_def by simp
  moreover have "mmap_locked me s' m" using y(2) ts(2) by (simp add: mmap_locked_def)
  ultimately show thesis using that [of err s' ys] x mp1 y(4) t ts(3) unfolding t_def
    by (simp add: hget_nonNULL rupd_def hupd_def set_prot_def vmr_size_def)
qed

lemma mmap_protect_ok:
  assumes inv: "mmap_inv s m xs" and lk: "mmap_locked me s m" and arg: "isaligned addr" "isaligned len" "valid_addr addr" "len \<noteq> 0"
    and nw: "unat addr + unat len \<le> 2 ^ 64"
  obtains (outside) "mmap_protect me m addr len prot s = Some (- ENOMEM, s)"
      "\<not> (\<exists>x\<in>set xs. unmap_range addr len \<subseteq> span (vreg_at (vmrs s) x))"
  | (refused) x v where "x \<in> set xs" "vmrs s x = Some v" "unmap_range addr len \<subseteq> span (vreg v)" "prot_denied prot v"
      "mmap_protect me m addr len prot s = Some (- EACCES, s)"
  | (same) x v where "x \<in> set xs" "vmrs s x = Some v" "unmap_range addr len \<subseteq> span (vreg v)" "prot_of_vm (v_flags v) = prot"
      "mmap_protect me m addr len prot s = Some (0, s)"
  | (full) qs where "mmap_protect me m addr len prot s = Some (- ENOMEM, s\<lparr>mm_mem := qs\<rparr>)"
  | (changed) x v err s' ys where "x \<in> set xs" "vmrs s x = Some v" "unmap_range addr len \<subseteq> span (vreg v)" "\<not> prot_denied prot v"
      "mmap_protect me m addr len prot s = Some (err, s')" "err = (case pg_ret s of [] \<Rightarrow> 0 | r # _ \<Rightarrow> r)"
      "mmap_locked me s' m" "reprotected s m xs (unmap_range addr len) prot s' ys"
proof -
  have m0: "m \<noteq> NULL" using inv by (simp add: mmap_inv_def mmap_list_def)
  obtain mp where mp: "maps s m = Some mp" using lk by (auto simp: mmap_locked_def)
  define e where "e = addr + len - 1"
  have l0: "0 < unat len" using arg(4) by (simp add: unat_gt_0)
  have e: "unat e = unat addr + unat len - 1" using range_end [OF nw arg(4)] by (simp add: e_def)
  have R: "{unat addr..unat e} = unmap_range addr len" using e l0 by (auto simp: unmap_range_def)
  have ae: "addr \<le> e" using e l0 by (simp add: word_le_nat_alt)
  show thesis
  proof (rule find_overlap_ok [OF inv lk, of addr e])
    assume n: "mmap_find_vmr_overlap me m addr e s = Some NULL" "\<not> (\<exists>x\<in>set xs. {unat addr..unat e} \<subseteq> span (vreg_at (vmrs s) x) \<and> addr \<le> e)"
    have "\<not> (\<exists>x\<in>set xs. unmap_range addr len \<subseteq> span (vreg_at (vmrs s) x))" using n(2) ae unfolding R by blast
    then show thesis using outside n(1) m0 lk arg unfolding e_def by (simp add: mmap_protect_def)
  next
    fix A x B v
    assume x: "xs = A @ x # B" "vmrs s x = Some v" "v_start v \<le> addr" "addr \<le> v_end v" "e \<le> v_end v"
      "mmap_find_vmr_overlap me m addr e s = Some x" "x \<noteq> NULL"
    have vi: "vmr_in m v" using ordered_at(3) [OF inv [unfolded x(1)] x(2)] .
    have le: "unat (v_start v) \<le> unat addr" "unat e \<le> unat (v_end v)" using x(3,5) by (simp_all add: word_le_nat_alt)
    then have sub: "unmap_range addr len \<subseteq> span (vreg v)" unfolding R [symmetric] by (auto simp: span_def vreg_def)
    have xx: "x \<in> set xs" using x(1) by simp
    have ov: "mmap_find_vmr_overlap me m addr (addr + len - 1) s = Some x" using x(6) by (simp add: e_def)
    note ev = m0 lk arg ov x(2,7) mmap_protect_def hget_nonNULL Let_def
    consider (a) "prot_denied prot v" "growsdown v \<or> prot_of_vm (v_flags v) \<noteq> prot" | (b) "\<not> growsdown v" "prot_of_vm (v_flags v) = prot"
      | (c) "\<not> prot_denied prot v" "prot_of_vm (v_flags v) \<noteq> prot" by (auto simp: prot_denied_def)
    then show thesis
    proof cases
      case a
      then have "mmap_protect me m addr len prot s = Some (- EACCES, s)" by (auto simp: ev prot_denied_def)
      then show thesis by (rule refused [OF xx x(2) sub a(1)])
    next
      case b
      then have "mmap_protect me m addr len prot s = Some (0, s)" by (simp add: ev)
      then show thesis by (rule same [OF xx x(2) sub b(2)])
    next
      case c
      define k where "k s = do { mp \<leftarrow> hget (maps s) m;
        s \<leftarrow> rupd x (\<lambda>v. v\<lparr>v_flags := v_flags v AND NOT VM_EXEC AND NOT VM_WRITE AND NOT VM_READ\<rparr>) s;
        s \<leftarrow> rupd x (v_flags_update (\<lambda>_. vm_of_prot prot)) s;
        v \<leftarrow> hget (vmrs s) x;
        s \<leftarrow> rupd x (v_vflags_update (\<lambda>_. pte_flags_of (v_flags v) (m_flags mp))) s;
        v \<leftarrow> hget (vmrs s) x;
        Some (pg_try (Pg_protect (v_start v) (vmr_size v) (v_vflags v)) s) }" for s
      have p: "mmap_protect me m addr len prot s = do { (err, s) \<leftarrow> (if len < vmr_size v then protect_split me m x addr e s else Some (0, s));
          if err \<noteq> 0 then Some (err, s) else k s }"
        using c unfolding prot_denied_def k_def
        by (cases "has prot PROT_WRITE"; cases "has prot PROT_EXEC") (simp_all add: ev e_def)
      have sz: "len < vmr_size v \<longleftrightarrow> addr \<noteq> v_start v \<or> e \<noteq> v_end v"
        using vmr_in_bounds(2) [OF vi] le e l0 by (auto simp: word_less_nat_alt word_unat_eq_iff vreg_def)
      have fin: thesis if sp: "split_out me s m xs x addr e s1" and q: "mmap_protect me m addr len prot s = k s1" for s1
        using protect_finish [OF sp ae mp x(7) m0, of prot, folded k_def] changed [OF xx x(2) sub c(1)] unfolding q R by metis
      show thesis
      proof (cases "len < vmr_size v")
        case True
        then have "addr \<noteq> v_start v \<or> e \<noteq> v_end v" using sz by simp
        then show thesis
          by (rule protect_split_ok [OF inv [unfolded x(1)] lk x(2,3) ae x(5)]) (use True p fin full x(1) in \<open>auto simp: ENOMEM_def\<close>)
      next
        case False
        then have "v_start v = addr" "v_end v = e" using sz by auto
        then show thesis using fin [of s] split_out_refl [OF inv lk xx x(2)] p False by simp
      qed
    qed
  qed
qed

section \<open>Whole address spaces\<close>

lemma mmap_clean_ok:
  assumes inv: "mmap_inv s m xs" and lk: "mmap_locked me s m"
  obtains s' where "mmap_clean me m s = Some (0, s')" "mmap_inv s' m []" "mmap_locked me s' m"
    "mm_mem s' = mm_mem s" "\<forall>y. y \<notin> set xs \<longrightarrow> vmrs s' y = vmrs s y" "\<forall>k. k \<noteq> m \<longrightarrow> maps s' k = maps s k"
proof -
  obtain mp where mp: "maps s m = Some mp" "m \<noteq> NULL" "m_limit mp = mmap_limit" using inv by (auto simp: mmap_inv_def mmap_list_def)
  have l: "unat (mmap_limit + 1) = ulimit" "mmap_limit + 1 \<noteq> 0" by (simp_all add: ulimit_eq mmap_limit_def)
  have ni: "\<not> inside (vregs s xs) (unat (0 :: u64))" by (simp add: inside_def)
  obtain s1 ys where s1: "mmap_unmap me m 0 (mmap_limit + 1) s = Some (0, s1)" "shrunk s m xs s1 ys"
    by (rule mmap_unmap_ok [OF inv lk ni l(2)]) (simp_all add: l)
  obtain mp1 where mp1: "maps s1 = (maps s)(m \<mapsto> mp1)" "same_space mp mp1" using s1(2) mp(1) by (auto simp: shrunk_def)
  let ?mp = "mp1\<lparr>m_refs := 0, m_used_space := 0, m_brk := 0, m_arg := NULL, m_env := NULL, m_heap := NULL, m_priv := NULL,
      vmr_head := NULL, vmr_tail := NULL, m_flags := MMAP_USER, m_guard_len := PAGESZ, m_limit := mmap_limit\<rparr>"
  let ?s = "(pg_do (Pg_fullvm_unmap (m_pgdir mp)) s1)\<lparr>maps := (maps s1)(m \<mapsto> ?mp)\<rparr>"
  have "mmap_clean me m s = Some (0, ?s)"
    using mp lk s1(1) mp1 by (simp add: mmap_clean_def hget_nonNULL mupd_def hupd_def pg_do_def)
  moreover have "mmap_inv ?s m []" using mp(2) by (simp add: mmap_inv_def mmap_list_def dlist_def)
  moreover have "mmap_locked me ?s m" using lk mp(1) mp1(2) by (auto simp: mmap_locked_def same_space_def)
  ultimately show thesis by (rule that) (use s1(2) mp1(1) in \<open>auto simp: shrunk_def pg_do_def\<close>)
qed

text \<open>A new address space holds one region, the first 16 MiB, and is returned locked.\<close>

lemma mmap_init_ok:
  assumes inv: "mmap_inv s m xs" and lk: "mmap_locked me s m"
  obtains (ready) s' r where "mmap_init me m s = Some (0, s')" "mmap_inv s' m [r]" "vregs s' [r] = [(0, 0x1000000)]" "mmap_locked me s' m"
  | (full) s' where "mmap_init me m s = Some (- ENOMEM, s')" "mmap_locked me s' m"
proof -
  have m0: "m \<noteq> NULL" using inv by (simp add: mmap_inv_def mmap_list_def)
  obtain s1 where s1: "mmap_clean me m s = Some (0, s1)" "mmap_inv s1 m []" "mmap_locked me s1 m" by (rule mmap_clean_ok [OF inv lk])
  obtain mp where mp: "maps s1 m = Some mp" using s1(3) by (auto simp: mmap_locked_def)
  let ?f = "MAP_FIXED OR MAP_PRIVATE OR MAP_DONTEXPAND"
  have fx: "has ?f MAP_FIXED" "\<not> has ?f MAP_STACK" "map_region_args 0 0x1000000 0 ?f"
    by (simp_all add: has_def map_region_args_def isaligned_def valid_addr_def MAP_FIXED_def MAP_PRIVATE_def MAP_DONTEXPAND_def MAP_STACK_def MAP_SHARED_def)
  have ev: "mmap_init me m s = do { (err, _, s') \<leftarrow> mmap_map_region me m 0 0x1000000 0 ?f False s1; Some (err, s') }"
    using m0 lk s1(1) by (simp add: mmap_init_def)
  show thesis
  proof (rule map_region_fixed_ok [OF s1(2,3) mp fx(1,3), of False])
    show "(0x1000000 :: u64) \<noteq> 0" "region_len mp 0x1000000 ?f \<noteq> 0" "unat (0 :: u64) + unat (region_len mp 0x1000000 ?f) \<le> ulimit"
        "\<not> inside (vregs s1 []) (unat (0 :: u64))" using fx(2) by (simp_all add: ulimit_eq inside_def)
  next
    fix r s' zs
    assume r: "mmap_map_region me m 0 0x1000000 0 ?f False s1 = Some (0, r, s')" "mmap_inv s' m zs" "r \<in> set zs" "r \<notin> set []" "set zs \<subseteq> insert r (set [])"
      "\<exists>v. vmrs s' r = Some v \<and> vreg v = (unat (0 :: u64), unat (region_len mp 0x1000000 ?f)) \<and> v_flags v = vm_flags_of 0 ?f
         \<and> v_vflags v = pte_flags_of (vm_flags_of 0 ?f) (m_flags mp)" "mmap_locked me s' m"
    have "distinct zs" using r(2) by (auto simp: mmap_inv_def mmap_list_def dlist_def)
    then have "zs = [r]" using r(3,5) by (cases zs) (auto simp: subset_singleton_iff)
    moreover have "vregs s' [r] = [(0, 0x1000000)]" using r(6) fx(2) by (auto simp: vreg_at)
    ultimately show thesis using ready [of s' r] r ev by simp
  next
    fix ps assume "mmap_map_region me m 0 0x1000000 0 ?f False s1 = Some (- ENOMEM, NULL, s1\<lparr>mm_mem := ps\<rparr>)"
    then show thesis using full [of "s1\<lparr>mm_mem := ps\<rparr>"] ev s1(3) by (simp add: mmap_locked_def)
  qed
qed

lemma mmap_alloc_ok:
  assumes "arch_getpgdir s = (0, d, s1)"
  obtains (ready) m r s' where "mmap_alloc me True s = Some (0, m, s')" "mmap_inv s' m [r]" "vregs s' [r] = [(0, 0x1000000)]" "mmap_locked me s' m"
  | (full) s' where "mmap_alloc me True s = Some (- ENOMEM, NULL, s')"
proof (cases "kmalloc (mm_used s1) (mm_mem s1)")
  case (Pair m ps)
  show thesis
  proof (cases "m = NULL")
    case True
    then show thesis using assms Pair full by (simp add: mmap_alloc_def)
  next
    case False
    define mp where "mp = mmap0\<lparr>m_pgdir := d, m_flags := MMAP_USER, m_guard_len := PAGESZ, m_lock := SPINLOCK_INIT, m_limit := mmap_limit\<rparr>"
    obtain lk where lk: "lk_acquire me SPINLOCK_INIT = Some lk" "lk_held me lk"
      using lk_acquire_free [of SPINLOCK_INIT me] by (auto simp: lk_free_def SPINLOCK_INIT_def)
    define t where "t = s1\<lparr>mm_mem := ps, maps := (maps s1)(m \<mapsto> mp\<lparr>m_lock := lk\<rparr>)\<rparr>"
    have l: "mmap_lock me m (s1\<lparr>mm_mem := ps, maps := (maps s1)(m \<mapsto> mp)\<rparr>) = Some t"
      using False lk(1) by (simp add: mmap_lock_def hget_nonNULL mupd_def hupd_def t_def mp_def)
    have ev: "mmap_alloc me True s = do { (err, s) \<leftarrow> mmap_init me m t;
        if err \<noteq> 0 then do { s \<leftarrow> mmap_unlock me m s; h \<leftarrow> kfree m (maps s); Some (err, NULL, pg_do (Pg_putpgdir d) (s\<lparr>maps := h\<rparr>)) }
        else Some (0, m, s) }"
      using assms Pair False l unfolding mp_def by (simp add: mmap_alloc_def Let_def)
    have t: "mmap_inv t m []" "mmap_locked me t m"
      using False lk(2) by (simp_all add: t_def mp_def mmap_inv_def mmap_list_def mmap_locked_def dlist_def mmap0_def)
    show thesis
    proof (cases rule: mmap_init_ok [OF t])
      case (1 s' r)
      then show thesis using ready [of m s' r] ev by simp
    next
      case (2 s')
      obtain q where q: "maps s' m = Some q" "lk_held me (m_lock q)" using 2(2) by (auto simp: mmap_locked_def)
      obtain lk2 where "lk_release me (m_lock q) = Some lk2" using lk_release_held [OF q(2)] by auto
      then show thesis using full ev 2(1) q(1) False
        by (simp add: mmap_unlock_def hget_nonNULL mupd_def hupd_def kfree_def ENOMEM_def)
    qed
  qed
qed

text \<open>\<open>mmap_alloc\<close> returns the new space locked, and \<open>mmap_clone\<close> locks it again.\<close>

lemma mmap_lock_again: "mmap_locked me s m \<Longrightarrow> mmap_lock me m s = None"
  by (auto simp: mmap_locked_def mmap_lock_def lk_acquire_def lk_held_def lk_free_def hget_def)

lemma mmap_clone_stuck:
  assumes "m \<noteq> NULL" "mmap_locked me s m"
  shows "mmap_clone me m True s = None \<or> (\<exists>err s'. err \<noteq> 0 \<and> mmap_clone me m True s = Some (err, NULL, s'))"
proof (cases "arch_getpgdir s")
  case (fields err d s1)
  show ?thesis
  proof (cases "err = 0")
    case False
    then show ?thesis using assms fields by (simp add: mmap_clone_def mmap_alloc_def)
  next
    case True
    then have "arch_getpgdir s = (0, d, s1)" using fields by simp
    then show ?thesis
    proof (cases rule: mmap_alloc_ok [of s d s1 me])
      case (ready c r s')
      then show ?thesis using assms by (simp add: mmap_clone_def mmap_lock_again)
    next
      case (full s')
      then show ?thesis using assms by (simp add: mmap_clone_def ENOMEM_def)
    qed
  qed
qed

end
