(* ===== verification/AddressSpace.thy ===== *)
theory AddressSpace
imports MmapOps
begin

text \<open>What \<open>mm/mmap.c\<close> guarantees of an address space: the properties of its calls, one by one and in
  sequence, with the cases in which the code does not do what it should.\<close>

section \<open>Sequences of requests\<close>

text \<open>The requests a process makes of its address space, and the calls they become.\<close>

datatype space_req =
    Map_any u64 u64 u32 u32
  | Map_fixed u64 u64 u32 u32
  | Unmap u64 u64
  | Protect u64 u64 u32
  | Expand ptr u64

fun space_do :: "ctx \<Rightarrow> ptr \<Rightarrow> space_req \<Rightarrow> mm \<Rightarrow> (int \<times> mm) option" where
  "space_do me m (Map_any addr len prot flags) s = do { (err, _, s) \<leftarrow> mmap_map_region me m addr len prot flags True s; Some (err, s) }"
| "space_do me m (Map_fixed addr len prot flags) s = do { (err, _, s) \<leftarrow> mmap_map_region me m addr len prot flags True s; Some (err, s) }"
| "space_do me m (Unmap addr len) s = mmap_unmap me m addr len s"
| "space_do me m (Protect addr len prot) s = mmap_protect me m addr len prot s"
| "space_do me m (Expand r incr) s = mmap_vmr_expand me m r incr s"

text \<open>When a request is covered: its range neither wraps around nor starts strictly inside a region that it
  would have to split, a stack is not asked for while a region starts at address 1, a region grows by less than 4 EiB.\<close>

fun space_ok :: "ptr \<Rightarrow> mm \<Rightarrow> ptr list \<Rightarrow> space_req \<Rightarrow> bool" where
  "space_ok m s xs (Map_any addr len prot flags) \<longleftrightarrow> \<not> has flags MAP_FIXED
     \<and> (has flags MAP_STACK \<longrightarrow> len + m_guard_len (the (maps s m)) \<noteq> 0 \<and> (\<forall>r\<in>set (vregs s xs). fst r \<noteq> 1))"
| "space_ok m s xs (Map_fixed addr len prot flags) \<longleftrightarrow> has flags MAP_FIXED \<and> region_len (the (maps s m)) len flags \<noteq> 0
     \<and> unat addr + unat (region_len (the (maps s m)) len flags) \<le> ulimit \<and> \<not> inside (vregs s xs) (unat addr)"
| "space_ok m s xs (Unmap addr len) \<longleftrightarrow> unat addr + unat len \<le> 2 ^ 64 \<and> \<not> inside (vregs s xs) (unat addr)"
| "space_ok m s xs (Protect addr len prot) \<longleftrightarrow> unat addr + unat len \<le> 2 ^ 64"
| "space_ok m s xs (Expand r incr) \<longleftrightarrow> r \<in> set xs \<and> unat incr < 2 ^ 62"

definition space_inv :: "ctx \<Rightarrow> ptr \<Rightarrow> mm \<Rightarrow> bool" where
  "space_inv me m s \<longleftrightarrow> (\<exists>xs. mmap_inv s m xs) \<and> mmap_locked me s m"

lemma map_region_invalid:
  assumes "mmap_locked me s m" "len = 0 \<or> \<not> map_region_args addr len prot flags"
  shows "mmap_map_region me m addr len prot flags True s = Some (- EINVAL, NULL, s)"
  using assms by (auto simp: mmap_map_region_def mmap_locked_def hget_def)

lemma space_mem: "space_inv me m s \<Longrightarrow> space_inv me m (s\<lparr>mm_mem := ps\<rparr>)"
  by (simp add: space_inv_def mmap_inv_def mmap_list_def mmap_locked_def)

lemma map_any_step:
  assumes inv: "mmap_inv s m xs" and lk: "mmap_locked me s m" and ok: "space_ok m s xs (Map_any addr len prot flags)"
  shows "\<exists>err r s'. mmap_map_region me m addr len prot flags True s = Some (err, r, s') \<and> space_inv me m s'
    \<and> (if err = 0 then r \<noteq> NULL \<and> vmrs s' r \<noteq> None else r = NULL)"
proof -
  have si: "space_inv me m s" using inv lk by (auto simp: space_inv_def)
  obtain mp where mp: "maps s m = Some mp" using lk by (auto simp: mmap_locked_def)
  show ?thesis
  proof (cases "len = 0 \<or> \<not> map_region_args addr len prot flags")
    case True
    then show ?thesis using map_region_invalid [OF lk] si by (auto simp: EINVAL_def)
  next
    case False
    then have a: "\<not> has flags MAP_FIXED" "map_region_args addr len prot flags" "len \<noteq> 0" "region_len mp len flags \<noteq> 0"
        "has flags MAP_STACK \<longrightarrow> (\<forall>r\<in>set (vregs s xs). fst r \<noteq> 1)" using ok mp by auto
    show ?thesis
    proof (cases rule: map_region_ok [OF inv lk mp a])
      case (1 b r s' ys)
      then show ?thesis using added_parts(1,2,4) [OF 1(3)] mmap_inv_at [OF added_parts(1) [OF 1(3)], of r] by (auto simp: space_inv_def)
    next
      case (2 ps)
      then show ?thesis using space_mem [OF si] by (auto simp: ENOMEM_def)
    qed
  qed
qed

lemma map_fixed_step:
  assumes inv: "mmap_inv s m xs" and lk: "mmap_locked me s m" and ok: "space_ok m s xs (Map_fixed addr len prot flags)"
  shows "\<exists>err r s'. mmap_map_region me m addr len prot flags True s = Some (err, r, s') \<and> space_inv me m s'
    \<and> (if err = 0 then r \<noteq> NULL \<and> vmrs s' r \<noteq> None else r = NULL)"
proof -
  have si: "space_inv me m s" using inv lk by (auto simp: space_inv_def)
  obtain mp where mp: "maps s m = Some mp" using lk by (auto simp: mmap_locked_def)
  show ?thesis
  proof (cases "len = 0 \<or> \<not> map_region_args addr len prot flags")
    case True
    then show ?thesis using map_region_invalid [OF lk] si by (auto simp: EINVAL_def)
  next
    case False
    then have a: "has flags MAP_FIXED" "map_region_args addr len prot flags" "len \<noteq> 0" "region_len mp len flags \<noteq> 0"
        "unat addr + unat (region_len mp len flags) \<le> ulimit" "\<not> inside (vregs s xs) (unat addr)" using ok unfolding space_ok.simps mp option.sel by blast+
    show ?thesis
    proof (cases rule: map_region_fixed_ok [OF inv lk mp a, of True])
      case (1 r s' zs)
      then show ?thesis using mmap_inv_at [OF 1(2,3)] by (auto simp: space_inv_def)
    next
      case (2 ps)
      then show ?thesis using space_mem [OF si] by (auto simp: ENOMEM_def)
    qed
  qed
qed

lemma unmap_step:
  assumes inv: "mmap_inv s m xs" and lk: "mmap_locked me s m" and ok: "space_ok m s xs (Unmap addr len)"
  shows "\<exists>err s'. mmap_unmap me m addr len s = Some (err, s') \<and> space_inv me m s'"
proof -
  have si: "space_inv me m s" using inv lk by (auto simp: space_inv_def)
  have m0: "m \<noteq> NULL" using inv by (simp add: mmap_inv_def mmap_list_def)
  consider "len = 0" | "len \<noteq> 0" "unat addr + unat len \<le> ulimit" | "len \<noteq> 0" "ulimit < unat addr + unat len" by fastforce
  then show ?thesis
  proof cases
    case 1
    then show ?thesis using si m0 by (simp add: mmap_unmap_def)
  next
    case 2
    have ni: "\<not> inside (vregs s xs) (unat addr)" using ok by simp
    obtain s' ys where s': "mmap_unmap me m addr len s = Some (0, s')" "shrunk s m xs s' ys"
      by (rule mmap_unmap_ok [OF inv lk ni 2])
    have "mmap_inv s' m ys" using s'(2) by (simp add: shrunk_def)
    then show ?thesis using s'(1) shrunk_locked [OF s'(2) lk] by (auto simp: space_inv_def)
  next
    case 3
    have "unat addr + unat len \<le> 2 ^ 64" using ok by simp
    then show ?thesis using mmap_unmap_outside [OF inv lk 3(1) _ 3(2)] si by blast
  qed
qed

lemma protect_step:
  assumes inv: "mmap_inv s m xs" and lk: "mmap_locked me s m" and ok: "space_ok m s xs (Protect addr len prot)"
  shows "\<exists>err s'. mmap_protect me m addr len prot s = Some (err, s') \<and> space_inv me m s'"
proof -
  have si: "space_inv me m s" using inv lk by (auto simp: space_inv_def)
  have m0: "m \<noteq> NULL" using inv by (simp add: mmap_inv_def mmap_list_def)
  have nw: "unat addr + unat len \<le> 2 ^ 64" using ok by simp
  show ?thesis
  proof (cases "isaligned addr \<and> isaligned len \<and> valid_addr addr \<and> len \<noteq> 0")
    case False
    then show ?thesis using si lk m0 by (auto simp: mmap_protect_def)
  next
    case True
    then have a: "isaligned addr" "isaligned len" "valid_addr addr" "len \<noteq> 0" by auto
    show ?thesis
    proof (cases rule: mmap_protect_ok [OF inv lk a nw, of prot])
      case (4 qs)
      then show ?thesis using space_mem [OF si] by blast
    next
      case (5 x v err s' ys)
      then show ?thesis by (auto simp: space_inv_def reprotected_def)
    qed (use si in blast)+
  qed
qed

lemma expand_step:
  assumes inv: "mmap_inv s m xs" and lk: "mmap_locked me s m" and ok: "space_ok m s xs (Expand r incr)"
  shows "\<exists>err s'. mmap_vmr_expand me m r incr s = Some (err, s') \<and> space_inv me m s'"
proof -
  have si: "space_inv me m s" using inv lk by (auto simp: space_inv_def)
  obtain A B where xs: "xs = A @ r # B" using ok by (auto simp: in_set_conv_decomp)
  obtain v where v: "vmrs s r = Some v" "r \<noteq> NULL" using mmap_inv_at [OF inv, of r] ok by auto
  have m0: "m \<noteq> NULL" using inv by (simp add: mmap_inv_def mmap_list_def)
  show ?thesis
  proof (cases "incr = 0 \<or> has (v_flags v) VM_DONTEXPAND")
    case True
    then show ?thesis using si v lk m0 by (auto simp: mmap_vmr_expand_def hget_nonNULL)
  next
    case False
    then have i: "\<not> has (v_flags v) VM_DONTEXPAND" "incr \<noteq> 0" "unat incr < 2 ^ 62" using ok by auto
    show ?thesis
    proof (cases rule: vmr_expand_ok [OF inv [unfolded xs] lk v(1) i])
      case (1 w)
      have "mmap_locked me (s\<lparr>vmrs := (vmrs s)(r \<mapsto> w)\<rparr>) m" using lk by (simp add: mmap_locked_def)
      then show ?thesis using 1(2,5) by (auto simp: space_inv_def)
    qed (use si in blast)
  qed
qed

lemma space_step:
  assumes inv: "mmap_inv s m xs" and lk: "mmap_locked me s m" and ok: "space_ok m s xs q"
  shows "\<exists>err s'. space_do me m q s = Some (err, s') \<and> space_inv me m s'"
proof (cases q)
  case (Map_any addr len prot flags)
  then show ?thesis using map_any_step [OF inv lk, of addr len prot flags] ok by auto
next
  case (Map_fixed addr len prot flags)
  then show ?thesis using map_fixed_step [OF inv lk, of addr len prot flags] ok by fastforce
qed (use unmap_step [OF inv lk] protect_step [OF inv lk] expand_step [OF inv lk] ok in auto)

inductive space_reach :: "ctx \<Rightarrow> ptr \<Rightarrow> mm \<Rightarrow> mm \<Rightarrow> bool" for me :: ctx and m :: ptr and s0 :: mm where
  start: "space_reach me m s0 s0"
| request: "space_reach me m s0 s \<Longrightarrow> mmap_inv s m xs \<Longrightarrow> space_ok m s xs q \<Longrightarrow> space_do me m q s = Some (err, s')
    \<Longrightarrow> space_reach me m s0 s'"

lemma space_reach_inv: "space_reach me m s0 s \<Longrightarrow> space_inv me m s0 \<Longrightarrow> space_inv me m s"
proof (induction rule: space_reach.induct)
  case (request s xs q err s')
  then have "mmap_locked me s m" by (simp add: space_inv_def)
  then show ?case using space_step [OF request(2) _ request(3), of me] request(4) by auto
qed

section \<open>An address space\<close>

text \<open>One region of four pages, and memory for three more.\<close>

definition me_ex :: ctx where "me_ex = \<lparr>self_tid = 1, self_cpu = 0\<rparr>"

definition space_ex :: mm where
  "space_ex = \<lparr>vmrs = [2 \<mapsto> vmr0\<lparr>v_mmap := 1, v_start := 0x1000, v_end := 0x4FFF, v_refs := 2, v_flags := VM_READ\<rparr>],
     maps = [1 \<mapsto> mmap0\<lparr>m_limit := mmap_limit, m_flags := MMAP_USER, m_guard_len := PAGESZ, vmr_head := 2, vmr_tail := 2,
       m_lock := the (lk_acquire me_ex SPINLOCK_INIT)\<rparr>],
     mm_mem = [3, 4, 5], pg_log = [], pg_ret = [], pg_dirs = [(0, 0x2000)]\<rparr>"

lemma space_ex_facts:
  "mmap_inv space_ex 1 [2]" "mmap_locked me_ex space_ex 1" "vregs space_ex [2] = [(0x1000, 0x4000)]"
  "maps space_ex 1 = Some (mmap0\<lparr>m_limit := mmap_limit, m_flags := MMAP_USER, m_guard_len := PAGESZ, vmr_head := 2, vmr_tail := 2,
       m_lock := the (lk_acquire me_ex SPINLOCK_INIT)\<rparr>)"
  "vmrs space_ex 2 = Some (vmr0\<lparr>v_mmap := 1, v_start := 0x1000, v_end := 0x4FFF, v_refs := 2, v_flags := VM_READ\<rparr>)"
  by (simp_all add: space_ex_def mmap_inv_def mmap_list_def dlist_def vmr_in_def mmap_limit_def vmr0_def ordered_def vreg_at_def vreg_def
      mmap_locked_def lk_acquire_def lk_held_def lk_free_def spin_self_def SPINLOCK_INIT_def me_ex_def)

lemma space_ex_gap: "gap user_range [(0x1000, 0x4000)] a n \<longleftrightarrow> n = 0 \<or> a + n \<le> 0x1000 \<or> 0x5000 \<le> a \<and> a + n \<le> ulimit"
proof
  assume g: "gap user_range [(0x1000, 0x4000)] a n"
  show "n = 0 \<or> a + n \<le> 0x1000 \<or> 0x5000 \<le> a \<and> a + n \<le> ulimit"
  proof (cases "n = 0")
    case False
    then have "a \<in> {a..<a + n}" "0x1000 \<in> {a..<a + n} \<longleftrightarrow> a \<le> 0x1000 \<and> 0x1000 < a + n" by auto
    moreover have "0x1000 \<in> span (0x1000, 0x4000)" by (simp add: span_def)
    ultimately show ?thesis using g gap_user [OF g] False by (auto simp: gap_def span_def)
  qed simp
qed (auto simp: gap_def span_def ulimit_eq)

section \<open>Properties\<close>

text \<open>C7: \<open>mmap_map_region\<close> without \<open>MAP_FIXED\<close> maps one new region of exactly the size asked for (plus the guard of a
  stack) in a gap of the address space, with the flags asked for, and leaves every other region alone; without an
  address hint it takes the lowest gap, for a stack the highest. Otherwise it changes nothing and returns \<open>-ENOMEM\<close>,
  and then no gap is large enough or there was no memory for the region's descriptor.\<close>

theorem mmap_map_region_places:
  assumes inv: "mmap_inv s m xs" and lk: "mmap_locked me s m" and mp: "maps s m = Some mp" and nf: "\<not> has flags MAP_FIXED"
    and args: "map_region_args addr len prot flags" "len \<noteq> 0"
    and n: "n = unat (if has flags MAP_STACK then len + m_guard_len mp else len)" "0 < n"
    and st: "has flags MAP_STACK \<longrightarrow> (\<forall>r\<in>set (vregs s xs). fst r \<noteq> 1)"
  shows "(\<exists>r s' ys a v. mmap_map_region me m addr len prot flags True s = Some (0, r, s') \<and> mmap_inv s' m ys \<and> set ys = insert r (set xs)
        \<and> r \<notin> set xs \<and> gap user_range (vregs s xs) a n \<and> vmrs s' r = Some v \<and> vreg v = (a, n)
        \<and> v_flags v = vm_flags_of prot flags \<and> v_vflags v = pte_flags_of (v_flags v) (m_flags mp)
        \<and> (\<forall>y\<in>set xs. vreg_at (vmrs s') y = vreg_at (vmrs s) y \<and> map_option vattr (vmrs s' y) = map_option vattr (vmrs s y))
        \<and> (addr = 0 \<longrightarrow> (\<forall>c. gap user_range (vregs s xs) c n \<longrightarrow> (if has flags MAP_STACK then c \<le> a else a \<le> c))))
      \<or> (\<exists>s'. mmap_map_region me m addr len prot flags True s = Some (- ENOMEM, NULL, s') \<and> vmrs s' = vmrs s \<and> maps s' = maps s
        \<and> ((\<forall>c. \<not> gap user_range (vregs s xs) c n) \<or> fst (kmalloc (mm_used s) (mm_mem s)) = NULL))"
proof -
  have l: "region_len mp len flags \<noteq> 0" using n by (auto simp: unat_gt_0)
  show ?thesis
  proof (cases rule: map_region_ok [OF inv lk mp nf args l st])
    case (1 a r s' ys)
    note ap = added_parts [OF 1(3)] and g = 1(2) [folded n(1)]
    have vw: "vreg (new_vmr a (region_len mp len flags) prot flags (m_flags mp)) = (unat a, n)"
      using new_vmr_in(3) [OF 1(2) l] n(1) by simp
    obtain v where v: "vmrs s' r = Some v" "vreg v = (unat a, n)" "v_flags v = vm_flags_of prot flags"
        "v_vflags v = pte_flags_of (v_flags v) (m_flags mp)" using ap(4) vw by auto
    have "addr = 0 \<longrightarrow> (\<forall>c. gap user_range (vregs s xs) c n \<longrightarrow> (if has flags MAP_STACK then c \<le> unat a else unat a \<le> c))"
      using 1(6) unfolding n(1) [symmetric] by (auto simp: lowest_gap_def highest_gap_def)
    then show ?thesis using 1(1,4) ap(1,2,5,6) g v by blast
  next
    case (2 ps)
    then show ?thesis using n(1) by auto
  qed
qed

theorem mmap_map_region_places_witness:
  "\<exists>r s' v. mmap_map_region me_ex 1 0 0x2000 PROT_READ MAP_PRIVATE True space_ex = Some (0, r, s') \<and> vmrs s' r = Some v
     \<and> vreg v = (0x5000, 0x2000) \<and> r \<noteq> 2"
proof -
  have a: "\<not> has MAP_PRIVATE MAP_FIXED" "\<not> has MAP_PRIVATE MAP_STACK" "map_region_args 0 0x2000 PROT_READ MAP_PRIVATE"
    by (simp_all add: map_region_args_def has_def isaligned_def MAP_PRIVATE_def MAP_FIXED_def MAP_STACK_def MAP_SHARED_def PROT_READ_def)
  have k: "fst (kmalloc (mm_used space_ex) (mm_mem space_ex)) = 3" by (simp add: kmalloc_def space_ex_def mm_used_def)
  have n: "(0x2000 :: nat) = unat (if has MAP_PRIVATE MAP_STACK then 0x2000 + m_guard_len mp else 0x2000)" for mp using a(2) by simp
  have g: "gap user_range [(0x1000, 0x4000)] 0x5000 0x2000" unfolding space_ex_gap by (simp add: ulimit_eq)
  note t = mmap_map_region_places [OF space_ex_facts(1,2,4) a(1,3) _ n, unfolded space_ex_facts(3) k]
  have "(\<exists>r s' ys a v. mmap_map_region me_ex 1 0 0x2000 PROT_READ MAP_PRIVATE True space_ex = Some (0, r, s')
      \<and> r \<notin> set [2] \<and> gap user_range [(0x1000, 0x4000)] a 0x2000 \<and> vmrs s' r = Some v \<and> vreg v = (a, 0x2000)
      \<and> (\<forall>c. gap user_range [(0x1000, 0x4000)] c 0x2000 \<longrightarrow> a \<le> c))"
    using t a(2) g by auto
  then show ?thesis using g unfolding space_ex_gap by auto
qed



text \<open>C8: \<open>mmap_unmap\<close> returns for every range of user addresses that does not begin strictly inside a region, and
  afterwards exactly the addresses of the range are gone: the loop that removes, trims and skips regions ends, the
  list stays sorted and disjoint, and what remains keeps its flags.\<close>

theorem mmap_unmap_exact:
  assumes "mmap_inv s m xs" "mmap_locked me s m" "\<not> inside (vregs s xs) (unat start)" "len \<noteq> 0" "unat start + unat len \<le> ulimit"
  shows "\<exists>s' ys. mmap_unmap me m start len s = Some (0, s') \<and> mmap_inv s' m ys \<and> set ys \<subseteq> set xs
    \<and> covered (vregs s' ys) = covered (vregs s xs) - {unat start..<unat start + unat len}
    \<and> (\<forall>y\<in>set ys. map_option vattr (vmrs s' y) = map_option vattr (vmrs s y))"
proof -
  obtain s' ys where "mmap_unmap me m start len s = Some (0, s')" "shrunk s m xs s' ys"
      "covered (vregs s' ys) = covered (vregs s xs) - unmap_range start len" by (rule mmap_unmap_ok [OF assms])
  then show ?thesis unfolding shrunk_def unmap_range_def by blast
qed

theorem mmap_unmap_exact_witness:
  "\<exists>s' ys. mmap_unmap me_ex 1 0 0x2000 space_ex = Some (0, s') \<and> mmap_inv s' 1 ys \<and> covered (vregs s' ys) = {0x2000..<0x5000}"
proof -
  have c: "covered (vregs space_ex [2]) = {0x1000..<0x5000}" unfolding space_ex_facts(3) by (simp add: covered_def span_def)
  have u: "{0x1000..<0x5000} - {unat (0 :: u64)..<unat (0 :: u64) + unat (0x2000 :: u64)} = {0x2000..<0x5000}" by auto
  have "\<not> inside (vregs space_ex [2]) (unat (0 :: u64))" "(0x2000 :: u64) \<noteq> 0" "unat (0 :: u64) + unat (0x2000 :: u64) \<le> ulimit"
    unfolding space_ex_facts(3) by (simp_all add: ulimit_eq inside_def)
  from mmap_unmap_exact [OF space_ex_facts(1,2) this, unfolded c u] show ?thesis by blast
qed

text \<open>A range that begins strictly inside a region is never unmapped: \<open>mmap_unmap\<close> asks \<open>vmr_split\<close> to split the
  region and passes NULL for the result, \<open>vmr_split\<close> stores through it, and the kernel faults.\<close>

theorem mmap_unmap_inside_faults:
  assumes "mmap_inv s m xs" "mmap_locked me s m" "inside (vregs s xs) (unat start)" "len \<noteq> 0" "unat start + unat len \<le> ulimit"
  shows "mmap_unmap me m start len s = None"
  by (rule mmap_unmap_inside [OF assms])

theorem mmap_unmap_inside_faults_witness: "mmap_unmap me_ex 1 0x2000 0x1000 space_ex = None"
proof (rule mmap_unmap_inside_faults [OF space_ex_facts(1,2)])
  show "inside (vregs space_ex [2]) (unat (0x2000 :: u64))" unfolding space_ex_facts(3) by (simp add: inside_def)
qed (simp_all add: ulimit_eq)

lemma region_unique:
  assumes inv: "mmap_inv s m xs" and x: "x \<in> set xs" "vmrs s x = Some v" "a \<in> span (vreg v)"
    and y: "y \<in> set xs" "vmrs s y = Some w" "a \<in> span (vreg w)"
  shows "w = v"
proof (rule ccontr)
  assume "w \<noteq> v"
  then have "y \<noteq> x" using x(2) y(2) by auto
  obtain A B where ab: "xs = A @ x # B" using x(1) by (auto simp: in_set_conv_decomp)
  then have "y \<in> set (A @ B)" using y(1) \<open>y \<noteq> x\<close> by auto
  then have "span (vreg_at (vmrs s) y) \<subseteq> covered (vregs s A @ vregs s B)" by (auto simp: covered_def)
  moreover have "vreg_at (vmrs s) y = vreg w" using y(2) by (rule vreg_at)
  ultimately show False using ordered_disjoint [OF ordered_at(1) [OF inv [unfolded ab] x(2)]] x(3) y(3) by auto
qed


lemmas flag_defs = has_def flag_if_def PROT_READ_def PROT_WRITE_def PROT_EXEC_def VM_READ_def VM_WRITE_def VM_EXEC_def
  VM_GROWSDOWN_def PTE_P_def PTE_R_def PTE_W_def PTE_X_def PTE_U_def MMAP_USER_def


definition wx_apart :: "(nat \<times> u32 \<times> u32) set \<Rightarrow> bool" where
  "wx_apart am \<longleftrightarrow> (\<forall>t\<in>am. \<not> (has (fst (snd t)) VM_WRITE \<and> has (fst (snd t)) VM_EXEC))"

lemma vm_of_prot_has: "has (vm_of_prot prot) VM_WRITE \<longleftrightarrow> has prot PROT_WRITE" "has (vm_of_prot prot) VM_EXEC \<longleftrightarrow> has prot PROT_EXEC"
  by (cases "has prot PROT_READ"; cases "has prot PROT_WRITE"; cases "has prot PROT_EXEC"; simp add: vm_of_prot_def flag_if_def; simp add: flag_defs)+

lemma protect_wx:
  assumes inv: "mmap_inv s m xs" and lk: "mmap_locked me s m" and nw: "unat addr + unat len \<le> 2 ^ 64" and wx: "wx_apart (attr_map s xs)"
  shows "\<exists>err s' ys. mmap_protect me m addr len prot s = Some (err, s') \<and> mmap_inv s' m ys \<and> wx_apart (attr_map s' ys)"
proof (cases "isaligned addr \<and> isaligned len \<and> valid_addr addr \<and> len \<noteq> 0")
  case False
  have "m \<noteq> NULL" using inv by (simp add: mmap_inv_def mmap_list_def)
  then show ?thesis using False inv lk wx by (auto simp: mmap_protect_def)
next
  case True
  then have a: "isaligned addr" "isaligned len" "valid_addr addr" "len \<noteq> 0" by auto
  show ?thesis
  proof (cases rule: mmap_protect_ok [OF inv lk a nw, of prot])
    case (4 qs)
    have "mmap_inv (s\<lparr>mm_mem := qs\<rparr>) m xs" using inv by (simp add: mmap_inv_def mmap_list_def)
    moreover have "wx_apart (attr_map (s\<lparr>mm_mem := qs\<rparr>) xs)" using wx by (simp add: attr_map_simps(4))
    ultimately show ?thesis using 4 by blast
  next
    case (5 x v err s' ys)
    from 5(8) obtain mp :: mmap where r: "mmap_inv s' m ys" "attr_map s' ys = {t \<in> attr_map s xs. fst t \<notin> unmap_range addr len}
        \<union> unmap_range addr len \<times> {(vm_of_prot prot, pte_flags_of (vm_of_prot prot) (m_flags mp))}" unfolding reprotected_def by blast
    have "wx_apart (attr_map s' ys)" unfolding r(2) using wx 5(4) by (auto simp: wx_apart_def prot_denied_def vm_of_prot_has)
    then show ?thesis using 5(5) r(1) by blast
  qed (use inv wx in blast)+
qed

text \<open>C28: \<open>mmap_protect\<close> keeps writing and executing apart: if no mapped address is both writable and executable, none is
  after any call with a range that does not wrap around, whatever it returns.\<close>

theorem mmap_protect_keeps_wx:
  assumes "mmap_inv s m xs" "mmap_locked me s m" "unat addr + unat len \<le> 2 ^ 64" "wx_apart (attr_map s xs)"
  shows "\<exists>err s' ys. mmap_protect me m addr len prot s = Some (err, s') \<and> mmap_inv s' m ys \<and> wx_apart (attr_map s' ys)"
  by (rule protect_wx [OF assms])

theorem mmap_protect_keeps_wx_witness:
  "\<exists>err s' ys. mmap_protect me_ex 1 0x1000 0x1000 PROT_EXEC space_ex = Some (err, s') \<and> mmap_inv s' 1 ys \<and> wx_apart (attr_map s' ys)"
proof (rule mmap_protect_keeps_wx [OF space_ex_facts(1,2)])
  show "wx_apart (attr_map space_ex [2])"
    using space_ex_facts(5) by (simp add: wx_apart_def attr_map_def vattrs_def vmr0_def flag_defs)
qed simp

text \<open>C29: \<open>mmap_vmr_expand\<close> grows a region by exactly the bytes asked for, upwards, or downwards for a stack, if and only if
  they are free and inside the user's half of the address space; otherwise it changes nothing and returns an error.\<close>

theorem mmap_expand_grows:
  assumes inv: "mmap_inv s m xs" and lk: "mmap_locked me s m" and x: "x \<in> set xs" "vmrs s x = Some v" "\<not> has (v_flags v) VM_DONTEXPAND"
    and i: "incr \<noteq> 0" "unat incr < 2 ^ 62"
  shows "if gap user_range (vregs s xs) (unat (if growsdown v then v_start v - incr else v_end v + 1)) (unat incr)
    then \<exists>w. mmap_vmr_expand me m x incr s = Some (0, s\<lparr>vmrs := (vmrs s)(x \<mapsto> w)\<rparr>) \<and> mmap_inv (s\<lparr>vmrs := (vmrs s)(x \<mapsto> w)\<rparr>) m xs
      \<and> vattr w = vattr v \<and> vreg w = (if growsdown v then unat (v_start v) - unat incr else unat (v_start v), snd (vreg v) + unat incr)
    else \<exists>err. mmap_vmr_expand me m x incr s = Some (err, s) \<and> err \<in> {- EINVAL, - ENOMEM}"
proof -
  obtain A B where xs: "xs = A @ x # B" using x(1) by (auto simp: in_set_conv_decomp)
  show ?thesis
  proof (cases rule: vmr_expand_ok [OF inv [unfolded xs] lk x(2,3) i])
    case (1 w)
    then show ?thesis unfolding xs grow_at_def upper_bound_def by (simp only: if_True) blast
  next
    case (2 err)
    then show ?thesis unfolding xs grow_at_def upper_bound_def by (simp only: if_False) blast
  qed
qed

theorem mmap_expand_grows_witness:
  "\<exists>w. mmap_vmr_expand me_ex 1 2 0x1000 space_ex = Some (0, space_ex\<lparr>vmrs := (vmrs space_ex)(2 \<mapsto> w)\<rparr>) \<and> vreg w = (0x1000, 0x5000)"
proof -
  let ?v = "vmr0\<lparr>v_mmap := 1, v_start := 0x1000, v_end := 0x4FFF, v_refs := 2, v_flags := VM_READ\<rparr>"
  have d: "\<not> has (v_flags ?v) VM_DONTEXPAND" "\<not> growsdown ?v" by (simp_all add: growsdown_def flag_defs VM_DONTEXPAND_def)
  have g: "gap user_range [(0x1000, 0x4000)] (unat (v_end ?v + 1)) (unat (0x1000 :: u64))" unfolding space_ex_gap by (simp add: ulimit_eq)
  have "(2 :: ptr) \<in> set [2]" "(0x1000 :: u64) \<noteq> 0" "unat (0x1000 :: u64) < 2 ^ 62" by simp_all
  from mmap_expand_grows [OF space_ex_facts(1,2) this(1) space_ex_facts(5) d(1) this(2,3), unfolded space_ex_facts(3) if_not_P [OF d(2)] if_P [OF g]]
  show ?thesis by (auto simp: vreg_def)
qed

text \<open>C30: \<open>mmap_clone\<close> never succeeds on the space it is given: either no space could be allocated and
  it returns an error, or it locks the new space, which \<open>mmap_alloc\<close> returned locked, a second time and the kernel panics.\<close>

theorem mmap_clone_never_succeeds:
  assumes "m \<noteq> NULL" "mmap_locked me s m"
  shows "mmap_clone me m True s = None \<or> (\<exists>err s'. err \<noteq> 0 \<and> mmap_clone me m True s = Some (err, NULL, s'))"
  by (rule mmap_clone_stuck [OF assms])

theorem mmap_clone_never_succeeds_witness:
  "mmap_clone me_ex 1 True space_ex = None \<or> (\<exists>err s'. err \<noteq> 0 \<and> mmap_clone me_ex 1 True space_ex = Some (err, NULL, s'))"
  by (rule mmap_clone_never_succeeds [OF _ space_ex_facts(2)]) simp



end
