(* ===== verification/Pmm.thy ===== *)
theory Pmm
imports Spinlock Regions
begin

text \<open>
  The physical memory manager of \<open>mm/pmm\<close>: zones of page frames with a descriptor and a reference count for each
  frame (\<open>mm_zone.c\<close>), and the routines that hand out and take back runs of frames (\<open>zone_page.c\<close>).

  A \<open>page_t *\<close> is a number that counts descriptors: \<open>&zone->pages[i]\<close> is \<open>z_pages z + i\<close>, and reading where there
  is no descriptor faults. A zone is named by its index in the array \<open>zones\<close>. The frames that are zeroed are recorded
  in \<open>zeroed\<close>; \<open>arch_mount\<close>, which maps a frame of the high zone, takes its answers from \<open>mounts\<close> (\<open>None\<close> is an
  error, which leaves the pointer as it is), and \<open>has_thread\<close> tells whether there is a current thread. The
  orders are below 64, where the shift of \<open>BS(order)\<close> is defined.
\<close>

section \<open>Frames and zones\<close>

unbundle bit_operations_syntax

record page =
  pg_mapping :: ptr
  pg_refcnt :: u64
  pg_map_count :: u64
  pg_virtual :: u64
  pg_flags :: u32
  pg_mmzone :: u32

record mm_zone =
  z_start :: u64
  z_flags :: u32
  z_pages :: ptr
  nrpages :: u64
  free_pages :: u64
  z_size :: u64
  z_lock :: spinlock

text \<open>The calls the boot code makes into the paging layer.\<close>

datatype pm_call = Pm_unmap_n u64 u64 | Pm_map_i u64 u64 u64 u32

record pmm =
  zones :: "mm_zone list"
  frames :: "page heap"
  zeroed :: "u64 list"
  mounts :: "u64 option list"
  has_thread :: bool
  pm_log :: "pm_call list"

definition NZONE :: nat where "NZONE = 4"
definition MM_ZONE_DMA :: int where "MM_ZONE_DMA = 0"
definition MM_ZONE_NORM :: int where "MM_ZONE_NORM = 1"
definition MM_ZONE_HIGH :: int where "MM_ZONE_HIGH = 3"
definition MM_ZONE_VALID :: u32 where "MM_ZONE_VALID = 0x0010"

definition GFP_NORMAL :: u32 where "GFP_NORMAL = 0x00002"
definition GFP_WAIT :: u32 where "GFP_WAIT = 0x00010"
definition GFP_RETRY :: u32 where "GFP_RETRY = 0x00080"
definition GFP_ZERO :: u32 where "GFP_ZERO = 0x00100"

definition PG_SWAPPABLE :: u32 where "PG_SWAPPABLE = 0x0100"

definition EADDRNOTAVAIL :: int where "EADDRNOTAVAIL = 99"

definition VMA2HI :: "u64 \<Rightarrow> u64" where "VMA2HI p = 0xFFFFFF8000000000 + p"

text \<open>\<open>zones[i]\<close>; reading or writing past the end of the array is a fault.\<close>

definition zone_at :: "nat \<Rightarrow> pmm \<Rightarrow> mm_zone option" where
  "zone_at i s = (if i < length (zones s) then Some (zones s ! i) else None)"

definition zone_upd :: "nat \<Rightarrow> (mm_zone \<Rightarrow> mm_zone) \<Rightarrow> pmm \<Rightarrow> pmm option" where
  "zone_upd i f s = (if i < length (zones s) then Some (s\<lparr>zones := (zones s)[i := f (zones s ! i)]\<rparr>) else None)"

definition page_upd :: "ptr \<Rightarrow> (page \<Rightarrow> page) \<Rightarrow> pmm \<Rightarrow> pmm option" where
  "page_upd p f s = do { h \<leftarrow> hupd p f (frames s); Some (s\<lparr>frames := h\<rparr>) }"

definition mm_zone_lock :: "ctx \<Rightarrow> nat \<Rightarrow> pmm \<Rightarrow> pmm option" where
  "mm_zone_lock me i s = do {
     z \<leftarrow> zone_at i s;
     lk \<leftarrow> lk_acquire me (z_lock z);
     zone_upd i (z_lock_update (\<lambda>_. lk)) s
   }"

definition mm_zone_unlock :: "ctx \<Rightarrow> nat \<Rightarrow> pmm \<Rightarrow> pmm option" where
  "mm_zone_unlock me i s = do {
     z \<leftarrow> zone_at i s;
     lk \<leftarrow> lk_release me (z_lock z);
     zone_upd i (z_lock_update (\<lambda>_. lk)) s
   }"

definition mm_zone_isvalid :: "ctx \<Rightarrow> nat \<Rightarrow> pmm \<Rightarrow> bool option" where
  "mm_zone_isvalid me i s = do {
     z \<leftarrow> zone_at i s;
     lk_assert me (z_lock z);
     Some (z_flags z AND MM_ZONE_VALID \<noteq> 0)
   }"

text \<open>The zone of a range of addresses, locked: the loop over the \<open>k\<close> zones from \<open>i\<close>.\<close>

fun get_mmzone_loop :: "ctx \<Rightarrow> u64 \<Rightarrow> u64 \<Rightarrow> nat \<Rightarrow> nat \<Rightarrow> pmm \<Rightarrow> (nat option \<times> pmm) option" where
  "get_mmzone_loop me addr sz i 0 s = Some (None, s)"
| "get_mmzone_loop me addr sz i (Suc k) s = do {
     z \<leftarrow> zone_at i s;
     if z_start z \<le> addr \<and> addr + (sz - 1) < z_start z + nrpages z * PAGESZ then do {
       s \<leftarrow> mm_zone_lock me i s;
       valid \<leftarrow> mm_zone_isvalid me i s;
       if valid then Some (Some i, s)
       else do { s \<leftarrow> mm_zone_unlock me i s; Some (None, s) }
     }
     else get_mmzone_loop me addr sz (Suc i) k s
   }"

definition get_mmzone :: "ctx \<Rightarrow> u64 \<Rightarrow> u64 \<Rightarrow> pmm \<Rightarrow> (nat option \<times> pmm) option" where
  "get_mmzone me addr sz s = get_mmzone_loop me addr sz 0 NZONE s"

text \<open>The code lets \<open>z = NELEM(zones)\<close> pass.\<close>

definition mm_zone_get :: "ctx \<Rightarrow> int \<Rightarrow> pmm \<Rightarrow> (nat option \<times> pmm) option" where
  "mm_zone_get me z s =
     (if z < 0 \<or> int NZONE < z then Some (None, s)
      else do {
        let i = nat z;
        s \<leftarrow> mm_zone_lock me i s;
        valid \<leftarrow> mm_zone_isvalid me i s;
        if valid then Some (Some i, s)
        else do { s \<leftarrow> mm_zone_unlock me i s; Some (None, s) }
      })"

definition mm_zone_contains :: "ctx \<Rightarrow> int \<Rightarrow> u64 \<Rightarrow> u64 \<Rightarrow> pmm \<Rightarrow> (int \<times> pmm) option" where
  "mm_zone_contains me z addr sz s =
     (if z < MM_ZONE_DMA \<or> MM_ZONE_HIGH < z then Some (- EINVAL, s)
      else do {
        (zone, s) \<leftarrow> get_mmzone me addr sz s;
        case zone of None \<Rightarrow> Some (- EINVAL, s)
        | Some i \<Rightarrow> do {
            s \<leftarrow> mm_zone_unlock me i s;
            Some (if int i \<noteq> z then - EINVAL else 0, s)
          }
      })"

section \<open>Handing out frames\<close>

text \<open>One pass of \<open>alloc_pages\<close> over the frames of a zone, \<open>k\<close> of them from \<open>index\<close>: whether a run was found, where
  the last run starts, and how long it is.\<close>

fun alloc_scan :: "page heap \<Rightarrow> ptr \<Rightarrow> nat \<Rightarrow> nat \<Rightarrow> nat \<Rightarrow> nat \<Rightarrow> nat \<Rightarrow> (bool \<times> nat \<times> nat) option" where
  "alloc_scan h base npages index 0 start alloced = Some (False, start, alloced)"
| "alloc_scan h base npages index (Suc k) start alloced = do {
     pg \<leftarrow> hget h (base + index);
     if pg_refcnt pg \<noteq> 0 then alloc_scan h base npages (Suc index) k (Suc index) 0
     else if Suc alloced = npages then Some (True, start, Suc alloced)
     else alloc_scan h base npages (Suc index) k start (Suc alloced)
   }"

text \<open>The passes: a caller that may wait makes the code try again, with \<open>alloced\<close> as the last pass left it.\<close>

partial_function (option) alloc_find :: "page heap \<Rightarrow> ptr \<Rightarrow> nat \<Rightarrow> nat \<Rightarrow> bool \<Rightarrow> nat \<Rightarrow> nat option option" where
  "alloc_find h base npages nr retry alloced = do {
     (found, start, alloced) \<leftarrow> alloc_scan h base npages 0 nr 0 alloced;
     if found then Some (Some start)
     else if \<not> retry then Some None
     else alloc_find h base npages nr retry alloced
   }"

fun alloc_mark :: "nat \<Rightarrow> ptr \<Rightarrow> nat \<Rightarrow> pmm \<Rightarrow> pmm option" where
  "alloc_mark i p 0 s = Some s"
| "alloc_mark i p (Suc k) s = do {
     s \<leftarrow> page_upd p (\<lambda>pg. pg\<lparr>pg_mmzone := of_nat i, pg_refcnt := pg_refcnt pg + 1\<rparr>) s;
     s \<leftarrow> zone_upd i (\<lambda>z. z\<lparr>free_pages := free_pages z - 1\<rparr>) s;
     alloc_mark i (Suc p) k s
   }"

text \<open>Zeroing the frames \<open>paddr\<close>, \<open>paddr + PAGESZ\<close>, ...: frames of the high zone are mapped first, into the address
  \<open>vaddr\<close> that keeps its value when that fails; with a current thread the code jumps back forever.\<close>

fun alloc_zero :: "bool \<Rightarrow> u64 \<Rightarrow> u64 \<Rightarrow> nat \<Rightarrow> pmm \<Rightarrow> pmm option" where
  "alloc_zero high paddr vaddr 0 s = Some s"
| "alloc_zero high paddr vaddr (Suc k) s =
     (if high then
        if has_thread s then None
        else do {
          let (ans, ms) = (case mounts s of [] \<Rightarrow> (None, []) | a # ms \<Rightarrow> (a, ms));
          let s = s\<lparr>mounts := ms\<rparr>;
          let vaddr = (case ans of None \<Rightarrow> vaddr | Some v \<Rightarrow> v);
          alloc_zero high (paddr + PAGESZ) vaddr k (if vaddr = 0 then s else s\<lparr>zeroed := zeroed s @ [vaddr]\<rparr>)
        }
      else alloc_zero high (paddr + PAGESZ) vaddr k (s\<lparr>zeroed := zeroed s @ [VMA2HI paddr]\<rparr>))"

definition alloc_where :: "u32 \<Rightarrow> int" where
  "alloc_where gf = (if gf AND 0x0F = 0 then MM_ZONE_NORM else uint (gf AND 0x0F) - 1)"

definition alloc_pages :: "ctx \<Rightarrow> u32 \<Rightarrow> nat \<Rightarrow> pmm \<Rightarrow> (ptr \<times> pmm) option" where
  "alloc_pages me gf order s = do {
     let npages = 2 ^ order;
     (zone, s) \<leftarrow> mm_zone_get me (alloc_where gf) s;
     case zone of None \<Rightarrow> Some (NULL, s)
     | Some i \<Rightarrow> do {
         z \<leftarrow> zone_at i s;
         found \<leftarrow> alloc_find (frames s) (z_pages z) npages (unat (nrpages z))
                    (gf AND GFP_WAIT \<noteq> 0 \<or> gf AND GFP_RETRY \<noteq> 0) 0;
         case found of None \<Rightarrow> do { s \<leftarrow> mm_zone_unlock me i s; Some (NULL, s) }
         | Some start \<Rightarrow> do {
             s \<leftarrow> alloc_mark i (z_pages z + start) npages s;
             s \<leftarrow> (if gf AND GFP_ZERO \<noteq> 0
                  then alloc_zero (alloc_where gf = MM_ZONE_HIGH) (z_start z + of_nat start * PAGESZ) 0 npages s
                  else Some s);
             s \<leftarrow> mm_zone_unlock me i s;
             Some (z_pages z + start, s)
           }
       }
   }"

definition alloc_page :: "ctx \<Rightarrow> u32 \<Rightarrow> pmm \<Rightarrow> (ptr \<times> pmm) option" where
  "alloc_page me gf s = alloc_pages me gf 0 s"

text \<open>The address of a frame; the code lets an index one past the end pass.\<close>

definition page_address :: "ctx \<Rightarrow> ptr \<Rightarrow> pmm \<Rightarrow> (u64 \<times> pmm) option" where
  "page_address me p s =
     (if p = NULL then Some (0, s)
      else do {
        pg \<leftarrow> hget (frames s) p;
        (zone, s) \<leftarrow> mm_zone_get me (sint (pg_mmzone pg)) s;
        case zone of None \<Rightarrow> Some (0, s)
        | Some i \<Rightarrow> do {
            z \<leftarrow> zone_at i s;
            let index = int p - int (z_pages z);
            if index < 0 \<or> int (unat (nrpages z)) < index
            then do { s \<leftarrow> mm_zone_unlock me i s; Some (0, s) }
            else do {
              s \<leftarrow> mm_zone_unlock me i s;
              Some (z_start z + of_int index * PAGESZ, s)
            }
          }
      })"

definition get_free_pages :: "ctx \<Rightarrow> u32 \<Rightarrow> nat \<Rightarrow> pmm \<Rightarrow> (u64 \<times> pmm) option" where
  "get_free_pages me gf order s = do { (p, s) \<leftarrow> alloc_pages me gf order s; page_address me p s }"

definition get_free_page :: "ctx \<Rightarrow> u32 \<Rightarrow> pmm \<Rightarrow> (u64 \<times> pmm) option" where
  "get_free_page me gf s = get_free_pages me gf 0 s"

section \<open>References\<close>

text \<open>The descriptor of the frame at an address of the zone \<open>z\<close>.\<close>

definition page_of :: "mm_zone \<Rightarrow> u64 \<Rightarrow> ptr" where
  "page_of z addr = z_pages z + unat ((addr - z_start z) div PAGESZ)"

definition page_incr_addr :: "ctx \<Rightarrow> u64 \<Rightarrow> pmm \<Rightarrow> (u64 \<times> pmm) option" where
  "page_incr_addr me addr s = do {
     kassert (addr \<noteq> 0);
     (zone, s) \<leftarrow> get_mmzone me addr PAGESZ s;
     case zone of None \<Rightarrow> Some (of_int (- EADDRNOTAVAIL), s)
     | Some i \<Rightarrow> do {
         z \<leftarrow> zone_at i s;
         pg \<leftarrow> hget (frames s) (page_of z addr);
         s \<leftarrow> page_upd (page_of z addr) (\<lambda>pg. pg\<lparr>pg_refcnt := pg_refcnt pg + 1\<rparr>) s;
         s \<leftarrow> mm_zone_unlock me i s;
         Some (pg_refcnt pg, s)
       }
   }"

definition page_incr :: "ctx \<Rightarrow> ptr \<Rightarrow> pmm \<Rightarrow> (u64 \<times> pmm) option" where
  "page_incr me p s = do { (a, s) \<leftarrow> page_address me p s; page_incr_addr me a s }"

definition page_count_addr :: "ctx \<Rightarrow> u64 \<Rightarrow> pmm \<Rightarrow> (u64 \<times> pmm) option" where
  "page_count_addr me addr s = do {
     kassert (addr \<noteq> 0);
     (zone, s) \<leftarrow> get_mmzone me addr PAGESZ s;
     case zone of None \<Rightarrow> Some (of_int (- EADDRNOTAVAIL), s)
     | Some i \<Rightarrow> do {
         z \<leftarrow> zone_at i s;
         pg \<leftarrow> hget (frames s) (page_of z addr);
         s \<leftarrow> mm_zone_unlock me i s;
         Some (pg_refcnt pg, s)
       }
   }"

text \<open>The code negates the address.\<close>

definition page_count :: "ctx \<Rightarrow> ptr \<Rightarrow> pmm \<Rightarrow> (u64 \<times> pmm) option" where
  "page_count me p s = do { (a, s) \<leftarrow> page_address me p s; page_count_addr me (- a) s }"

fun pages_put_loop :: "nat \<Rightarrow> ptr \<Rightarrow> nat \<Rightarrow> pmm \<Rightarrow> pmm option" where
  "pages_put_loop i p 0 s = Some s"
| "pages_put_loop i p (Suc k) s = do {
     pg \<leftarrow> hget (frames s) p;
     if pg_refcnt pg = 0 then pages_put_loop i (Suc p) k s
     else do {
       s \<leftarrow> page_upd p (\<lambda>pg. pg\<lparr>pg_refcnt := pg_refcnt pg - 1\<rparr>) s;
       if pg_refcnt pg - 1 = 0 then do {
         s \<leftarrow> page_upd p (\<lambda>pg. pg\<lparr>pg_virtual := 0, pg_flags := PG_SWAPPABLE, pg_mapping := NULL, pg_refcnt := 0\<rparr>) s;
         s \<leftarrow> zone_upd i (\<lambda>z. z\<lparr>free_pages := free_pages z + 1\<rparr>) s;
         pages_put_loop i (Suc p) k s
       }
       else pages_put_loop i (Suc p) k s
     }
   }"

definition pages_put_addr :: "ctx \<Rightarrow> u64 \<Rightarrow> nat \<Rightarrow> pmm \<Rightarrow> pmm option" where
  "pages_put_addr me addr order s = do {
     kassert (addr \<noteq> 0);
     (zone, s) \<leftarrow> get_mmzone me addr (2 ^ order * PAGESZ) s;
     case zone of None \<Rightarrow> Some s
     | Some i \<Rightarrow> do {
         z \<leftarrow> zone_at i s;
         s \<leftarrow> pages_put_loop i (page_of z addr) (2 ^ order) s;
         mm_zone_unlock me i s
       }
   }"

definition pages_put :: "ctx \<Rightarrow> ptr \<Rightarrow> nat \<Rightarrow> pmm \<Rightarrow> pmm option" where
  "pages_put me p order s = do { (a, s) \<leftarrow> page_address me p s; pages_put_addr me a order s }"

definition page_put :: "ctx \<Rightarrow> ptr \<Rightarrow> pmm \<Rightarrow> pmm option" where
  "page_put me p s = pages_put me p 0 s"

definition page_put_addr :: "ctx \<Rightarrow> u64 \<Rightarrow> pmm \<Rightarrow> pmm option" where
  "page_put_addr me addr s = pages_put_addr me addr 0 s"

definition mm_alloc :: "ctx \<Rightarrow> pmm \<Rightarrow> (u64 \<times> pmm) option" where
  "mm_alloc me s = get_free_page me GFP_NORMAL s"

definition mm_free :: "ctx \<Rightarrow> u64 \<Rightarrow> pmm \<Rightarrow> pmm option" where
  "mm_free me addr s = page_put_addr me addr s"

text \<open>\<open>mem_free\<close> and \<open>mem_used\<close>: what a function of each valid zone sums up to, in kibibytes.\<close>

fun mem_sum :: "ctx \<Rightarrow> (mm_zone \<Rightarrow> u64) \<Rightarrow> nat \<Rightarrow> nat \<Rightarrow> u64 \<Rightarrow> pmm \<Rightarrow> (u64 \<times> pmm) option" where
  "mem_sum me f i 0 sz s = Some (sz, s)"
| "mem_sum me f i (Suc k) sz s = do {
     s \<leftarrow> mm_zone_lock me i s;
     valid \<leftarrow> mm_zone_isvalid me i s;
     z \<leftarrow> zone_at i s;
     s \<leftarrow> mm_zone_unlock me i s;
     mem_sum me f (Suc i) k (if valid then sz + f z * PAGESZ else sz) s
   }"

definition mem_free :: "ctx \<Rightarrow> pmm \<Rightarrow> (u64 \<times> pmm) option" where
  "mem_free me s = do { (sz, s) \<leftarrow> mem_sum me free_pages 0 NZONE 0 s; Some (sz div 1024, s) }"

definition mem_used :: "ctx \<Rightarrow> pmm \<Rightarrow> (u64 \<times> pmm) option" where
  "mem_used me s = do { (sz, s) \<leftarrow> mem_sum me (\<lambda>z. nrpages z - free_pages z) 0 NZONE 0 s; Some (sz div 1024, s) }"

section \<open>Boot\<close>

text \<open>What the boot loader reports: sizes in kibibytes, the memory map (address, size and type of each
  range), the modules, the kernel's own range and the frame buffer. \<open>descr\<close> gives the number of the descriptor at an
  address: the descriptors lie behind the last module.\<close>

record bootinfo =
  memsize :: u64
  memhigh :: u64
  mmap_ents :: "(u64 \<times> u64 \<times> int) list"
  mods :: "(u64 \<times> u64) list"
  descr :: "u64 \<Rightarrow> ptr"
  kernel_start :: u64
  kernel_end :: u64
  fb_addr :: u64
  fb_size :: u64

definition VMA2LO :: "u64 \<Rightarrow> u64" where "VMA2LO x = x - 0xFFFFFF8000000000"
definition PGROUND :: "u64 \<Rightarrow> u64" where "PGROUND p = p AND NOT PAGEMASK"
definition PGROUNDUP :: "u64 \<Rightarrow> u64" where "PGROUNDUP p = (if p AND PAGEMASK \<noteq> 0 then PGROUND (p + PAGESZ) else p)"
definition NPAGE :: "u64 \<Rightarrow> u64" where "NPAGE p = p div PAGESZ + (if p AND PAGEMASK \<noteq> 0 then 1 else 0)"
definition KiB :: "u64 \<Rightarrow> u64" where "KiB x = 1024 * x"
definition MiB :: "u64 \<Rightarrow> u64" where "MiB x = KiB 1024 * x"
definition GiB :: "u64 \<Rightarrow> u64" where "GiB x = MiB 1024 * x"

definition MULTIBOOT_MEMORY_AVAILABLE :: int where "MULTIBOOT_MEMORY_AVAILABLE = 1"
definition PTE_KRW :: u32 where "PTE_KRW = 0x03"
definition PTE_PCDWT :: u32 where "PTE_PCDWT = 0x18"
definition PG_RWX :: u32 where "PG_RWX = 0x7"

definition zone_new :: "ptr \<Rightarrow> u64 \<Rightarrow> u64 \<Rightarrow> mm_zone" where
  "zone_new pages start sz = \<lparr>z_start = PGROUNDUP start, z_flags = MM_ZONE_VALID, z_pages = pages,
     nrpages = sz div PAGESZ, free_pages = sz div PAGESZ, z_size = sz, z_lock = SPINLOCK_INIT\<rparr>"

text \<open>The \<open>memset\<close> at the end clears as many descriptors as the last zone has, from the first zone's on.\<close>

fun clear_pages :: "ptr \<Rightarrow> nat \<Rightarrow> pmm \<Rightarrow> pmm option" where
  "clear_pages p 0 s = Some s"
| "clear_pages p (Suc k) s = do {
     s \<leftarrow> page_upd p (\<lambda>_. \<lparr>pg_mapping = NULL, pg_refcnt = 0, pg_map_count = 0, pg_virtual = 0, pg_flags = 0,
                        pg_mmzone = 0\<rparr>) s;
     clear_pages (Suc p) k s
   }"

text \<open>The zones and the size of the last one, the descriptors starting at \<open>pages0\<close>. Each zone's descriptors are
  placed behind the start of the zone before it by the number of its own pages.\<close>

definition enumerate_table :: "bootinfo \<Rightarrow> ptr \<Rightarrow> mm_zone list \<Rightarrow> mm_zone list \<times> u64" where
  "enumerate_table b pages0 zs =
     (let zs = zs[0 := zone_new pages0 0 (MiB 16)];
          mem = KiB (memsize b) - MiB 16;
          sz = min mem (GiB 2 - MiB 16);
          mem = mem - sz;
          pages = pages0 + unat (NPAGE sz);
          zs = zs[1 := zone_new pages (MiB 16) sz]
      in if mem = 0 \<or> memhigh b = 0 then (zs, sz)
         else let sz = min mem ((KiB (memhigh b) + MiB 1) - GiB 2);
                  mem = mem - sz;
                  pages = pages + unat (NPAGE sz);
                  zs = zs[2 := zone_new pages (GiB 2) sz]
              in if mem = 0 then (zs, sz)
                 else (zs[3 := zone_new (pages + unat (NPAGE mem)) (GiB 4) mem], mem))"

text \<open>With no module there is no \<open>mods[modcnt - 1]\<close> to read.\<close>

definition enumerate_zones :: "bootinfo \<Rightarrow> pmm \<Rightarrow> (int \<times> pmm) option" where
  "enumerate_zones b s = do {
     kassert (mods b \<noteq> []);
     let (a, sz) = last (mods b);
     let pages = descr b (PGROUNDUP (a + sz));
     let (zs, sz) = enumerate_table b pages (zones s);
     s \<leftarrow> clear_pages pages (unat (NPAGE sz)) (s\<lparr>zones := zs\<rparr>);
     Some (0, s)
   }"

text \<open>Reserving \<open>k\<close> frames from a descriptor on.\<close>

fun reserve :: "nat \<Rightarrow> ptr \<Rightarrow> nat \<Rightarrow> pmm \<Rightarrow> pmm option" where
  "reserve i p 0 s = Some s"
| "reserve i p (Suc k) s = do {
     s \<leftarrow> page_upd p (\<lambda>pg. pg\<lparr>pg_refcnt := 1, pg_mmzone := of_nat i, pg_flags := pg_flags pg OR PG_RWX\<rparr>) s;
     reserve i (Suc p) k s
   }"

fun reserve_map :: "ctx \<Rightarrow> (u64 \<times> u64 \<times> int) list \<Rightarrow> pmm \<Rightarrow> pmm option" where
  "reserve_map me [] s = Some s"
| "reserve_map me ((a, sz, ty) # ms) s = do {
     let addr = VMA2LO (PGROUND a);
     let sz = PGROUNDUP sz;
     s \<leftarrow> (if ty = MULTIBOOT_MEMORY_AVAILABLE then Some s
          else do {
            (zone, s) \<leftarrow> get_mmzone me addr sz s;
            case zone of None \<Rightarrow> Some s
            | Some i \<Rightarrow> do {
                z \<leftarrow> zone_at i s;
                s \<leftarrow> reserve i (page_of z addr) (unat (NPAGE sz)) s;
                s \<leftarrow> zone_upd i (\<lambda>z. z\<lparr>free_pages := free_pages z - NPAGE sz\<rparr>) s;
                mm_zone_unlock me i s
              }
          });
     reserve_map me ms s
   }"

definition reserve_kernel :: "ctx \<Rightarrow> bootinfo \<Rightarrow> pmm \<Rightarrow> pmm option" where
  "reserve_kernel me b s = do {
     let addr = PGROUND (VMA2LO (kernel_start b));
     let sz = PGROUNDUP (VMA2LO (kernel_end b) - VMA2LO (kernel_start b));
     (zone, s) \<leftarrow> get_mmzone me addr sz s;
     i \<leftarrow> zone;
     z \<leftarrow> zone_at i s;
     kassert (addr + sz < z_size z - (addr + sz));
     s \<leftarrow> reserve i (page_of z addr) (unat (NPAGE sz)) s;
     s \<leftarrow> zone_upd i (\<lambda>z. z\<lparr>free_pages := free_pages z - NPAGE sz\<rparr>) s;
     mm_zone_unlock me i s
   }"

text \<open>The pages of the modules, one by one; a page outside every zone is a fault.\<close>

fun reserve_module :: "ctx \<Rightarrow> u64 \<Rightarrow> nat \<Rightarrow> pmm \<Rightarrow> pmm option" where
  "reserve_module me addr 0 s = Some s"
| "reserve_module me addr (Suc k) s = do {
     (zone, s) \<leftarrow> get_mmzone me addr PAGESZ s;
     i \<leftarrow> zone;
     s \<leftarrow> zone_upd i (\<lambda>z. z\<lparr>free_pages := free_pages z - 1\<rparr>) s;
     z \<leftarrow> zone_at i s;
     s \<leftarrow> reserve i (page_of z addr) 1 s;
     s \<leftarrow> mm_zone_unlock me i s;
     reserve_module me (addr + PAGESZ) k s
   }"

fun reserve_modules :: "ctx \<Rightarrow> (u64 \<times> u64) list \<Rightarrow> pmm \<Rightarrow> pmm option" where
  "reserve_modules me [] s = Some s"
| "reserve_modules me ((a, sz) # ms) s = do {
     s \<leftarrow> reserve_module me (PGROUND (VMA2LO a)) (unat (NPAGE (PGROUNDUP sz))) s;
     reserve_modules me ms s
   }"

fun map_reserved :: "(u64 \<times> u64 \<times> int) list \<Rightarrow> pm_call list" where
  "map_reserved [] = []"
| "map_reserved ((a, sz, ty) # ms) =
     (if ty \<noteq> MULTIBOOT_MEMORY_AVAILABLE \<and> VMA2LO a < GiB 4
      then [Pm_map_i (PGROUND a) (VMA2LO (PGROUND a)) (PGROUNDUP sz) (PTE_KRW OR PTE_PCDWT)] else []) @ map_reserved ms"

definition physical_memory_init :: "ctx \<Rightarrow> bootinfo \<Rightarrow> pmm \<Rightarrow> (int \<times> pmm) option" where
  "physical_memory_init me b s = do {
     kassert (64 < memsize b div 1024);
     (err, s) \<leftarrow> enumerate_zones b s;
     if err \<noteq> 0 then Some (err, s)
     else do {
       s \<leftarrow> reserve_map me (mmap_ents b) s;
       s \<leftarrow> reserve_kernel me b s;
       s \<leftarrow> reserve_modules me (mods b) s;
       norm \<leftarrow> zone_at 1 s;
       let sz = GiB 2 - PGROUNDUP (z_size norm);
       let calls = (if 0 < sint sz then [Pm_unmap_n (VMA2HI (PGROUNDUP (z_size norm))) sz] else []);
       let calls = calls @ map_reserved (mmap_ents b) @ 
         [Pm_map_i (fb_addr b) (VMA2LO (fb_addr b)) (fb_size b) (PTE_KRW OR PTE_PCDWT)];
       Some (0, s\<lparr>pm_log := pm_log s @ calls\<rparr>)
     }
   }"

section \<open>The invariant\<close>

definition idle :: "page heap \<Rightarrow> ptr \<Rightarrow> bool" where
  "idle h p \<longleftrightarrow> (\<exists>pg. h p = Some pg \<and> pg_refcnt pg = 0)"

text \<open>A run of \<open>n\<close> idle frames from the \<open>k\<close>-th of a zone whose descriptors start at \<open>base\<close>.\<close>

definition run_at :: "page heap \<Rightarrow> ptr \<Rightarrow> nat \<Rightarrow> nat \<Rightarrow> bool" where
  "run_at h base k n \<longleftrightarrow> (\<forall>j<n. idle h (base + k + j))"

definition zone_valid :: "mm_zone \<Rightarrow> bool" where
  "zone_valid z \<longleftrightarrow> z_flags z AND MM_ZONE_VALID \<noteq> 0"

definition zone_desc :: "mm_zone \<Rightarrow> ptr set" where
  "zone_desc z = {z_pages z..<z_pages z + unat (nrpages z)}"

definition zone_reg :: "mm_zone \<Rightarrow> region" where
  "zone_reg z = (unat (z_start z), unat (nrpages z) * 4096)"

definition zone_ok :: "page heap \<Rightarrow> mm_zone \<Rightarrow> bool" where
  "zone_ok h z \<longleftrightarrow> z_pages z \<noteq> NULL \<and> (\<forall>p\<in>zone_desc z. h p \<noteq> None) \<and> unat (free_pages z) = card {p \<in> zone_desc z. idle h p}
     \<and> unat (z_start z) + unat (nrpages z) * 4096 < 2 ^ 64"

definition pmm_inv :: "pmm \<Rightarrow> bool" where
  "pmm_inv s \<longleftrightarrow> length (zones s) = NZONE
     \<and> (\<forall>z\<in>set (zones s). lk_free (z_lock z) \<and> (if zone_valid z then zone_ok (frames s) z else nrpages z = 0 \<and> z_start z = 0))
     \<and> (\<forall>i j. i < j \<and> j < NZONE \<longrightarrow> zone_desc (zones s ! i) \<inter> zone_desc (zones s ! j) = {}
          \<and> span (zone_reg (zones s ! i)) \<inter> span (zone_reg (zones s ! j)) = {})"

section \<open>The search for a run\<close>

lemma alloc_scan_ok:
  assumes "base \<noteq> NULL" "\<forall>k<nr. h (base + k) \<noteq> None" "index + k = nr" "start \<le> index" "alloced = index - start" "alloced < n"
    "\<forall>j. start \<le> j \<and> j < index \<longrightarrow> idle h (base + j)" "\<forall>b < start. \<not> run_at h base b n"
  shows "(\<exists>st. alloc_scan h base n index k start alloced = Some (True, st, n) \<and> run_at h base st n \<and> st + n \<le> nr \<and> (\<forall>b < st. \<not> run_at h base b n))
    \<or> (\<exists>st a. alloc_scan h base n index k start alloced = Some (False, st, a) \<and> (\<forall>b. b + n \<le> nr \<longrightarrow> \<not> run_at h base b n))"
  using assms
proof (induction k arbitrary: index start alloced)
  case 0
  have "\<not> run_at h base b n" if "b + n \<le> nr" for b
  proof (cases "b < start")
    case False
    then show ?thesis using 0 that by linarith
  qed (use 0 in blast)
  then show ?case by simp
next
  case (Suc k)
  obtain pg where pg: "h (base + index) = Some pg" using Suc.prems(2,3) by fastforce
  have g: "hget h (base + index) = Some pg" using pg Suc.prems(1) by (simp add: hget_def)
  show ?case
  proof (cases "pg_refcnt pg = 0")
    case False
    have busy: "\<not> idle h (base + index)" using pg False by (simp add: idle_def)
    have nr: "\<not> run_at h base b n" if "b < Suc index" for b
    proof
      assume r: "run_at h base b n"
      then have "\<not> b < start" using Suc.prems(8) by blast
      then have "index - b < n" using Suc.prems(4,5,6) that by linarith
      then have "idle h (base + b + (index - b))" using r by (simp add: run_at_def)
      then show False using busy that by simp
    qed
    then have "\<forall>b<Suc index. \<not> run_at h base b n" by blast
    with Suc.IH [of "Suc index" "Suc index" 0] Suc.prems False g show ?thesis by simp
  next
    case True
    have id: "idle h (base + index)" using pg True by (simp add: idle_def)
    show ?thesis
    proof (cases "Suc alloced = n")
      case t: True
      have "run_at h base start n" unfolding run_at_def
      proof (intro allI impI)
        fix j assume "j < n"
        then have "start + j < index \<or> start + j = index" using t Suc.prems(4,5) by linarith
        then show "idle h (base + start + j)" using Suc.prems(7) id by (auto simp: add.assoc)
      qed
      moreover have "start + n \<le> nr" using t Suc.prems(3,4,5) by linarith
      ultimately show ?thesis using t True g Suc.prems(8) by simp
    next
      case f: False
      have "\<forall>j. start \<le> j \<and> j < Suc index \<longrightarrow> idle h (base + j)" using Suc.prems(7) id by (auto simp: less_Suc_eq)
      with Suc.IH [of "Suc index" start "Suc alloced"] Suc.prems True f g show ?thesis by (simp add: Suc_diff_le)
    qed
  qed
qed

lemma alloc_find_ok:
  assumes "base \<noteq> NULL" "\<forall>k<nr. h (base + k) \<noteq> None" "0 < n"
  obtains (found) st where "alloc_find h base n nr False 0 = Some (Some st)" "run_at h base st n" "st + n \<le> nr" "\<forall>b < st. \<not> run_at h base b n"
  | (none) "alloc_find h base n nr False 0 = Some None" "\<forall>b. b + n \<le> nr \<longrightarrow> \<not> run_at h base b n"
proof -
  have "(\<exists>st. alloc_scan h base n 0 nr 0 0 = Some (True, st, n) \<and> run_at h base st n \<and> st + n \<le> nr \<and> (\<forall>b < st. \<not> run_at h base b n))
    \<or> (\<exists>st a. alloc_scan h base n 0 nr 0 0 = Some (False, st, a) \<and> (\<forall>b. b + n \<le> nr \<longrightarrow> \<not> run_at h base b n))"
    by (rule alloc_scan_ok [OF assms(1,2)]) (use assms(3) in simp_all)
  then show thesis
  proof (elim disjE exE conjE)
    fix st assume "alloc_scan h base n 0 nr 0 0 = Some (True, st, n)" "run_at h base st n" "st + n \<le> nr" "\<forall>b < st. \<not> run_at h base b n"
    then show thesis using found [of st] by (simp add: alloc_find.simps [of h base n nr False 0])
  next
    fix st a assume "alloc_scan h base n 0 nr 0 0 = Some (False, st, a)" "\<forall>b. b + n \<le> nr \<longrightarrow> \<not> run_at h base b n"
    then show thesis using none by (simp add: alloc_find.simps [of h base n nr False 0])
  qed
qed

section \<open>Marking and releasing a run\<close>

definition taken :: "nat \<Rightarrow> page \<Rightarrow> page" where
  "taken i pg = pg\<lparr>pg_mmzone := of_nat i, pg_refcnt := pg_refcnt pg + 1\<rparr>"

lemma alloc_mark_ok:
  assumes "i < length (zones s)" "p \<noteq> NULL" "\<forall>x\<in>{p..<p + k}. frames s x \<noteq> None"
  shows "alloc_mark i p k s = Some (s\<lparr>frames := (\<lambda>x. if x \<in> {p..<p + k} then map_option (taken i) (frames s x) else frames s x),
      zones := (zones s)[i := (zones s ! i)\<lparr>free_pages := free_pages (zones s ! i) - of_nat k\<rparr>]\<rparr>)"
  using assms
proof (induction k arbitrary: p s)
  case (Suc k)
  obtain pg where pg: "frames s p = Some pg" using Suc.prems(3) by fastforce
  let ?s = "s\<lparr>frames := (frames s)(p \<mapsto> taken i pg), zones := (zones s)[i := (zones s ! i)\<lparr>free_pages := free_pages (zones s ! i) - 1\<rparr>]\<rparr>"
  have "alloc_mark i p (Suc k) s = alloc_mark i (Suc p) k ?s"
    using pg Suc.prems(1,2) by (simp add: page_upd_def hupd_def hget_def zone_upd_def taken_def)
  also have "... = Some (?s\<lparr>frames := (\<lambda>x. if x \<in> {Suc p..<Suc p + k} then map_option (taken i) (frames ?s x) else frames ?s x),
      zones := (zones ?s)[i := (zones ?s ! i)\<lparr>free_pages := free_pages (zones ?s ! i) - of_nat k\<rparr>]\<rparr>)"
    by (rule Suc.IH) (use Suc.prems in auto)
  also have "(\<lambda>x. if x \<in> {Suc p..<Suc p + k} then map_option (taken i) (frames ?s x) else frames ?s x)
      = (\<lambda>x. if x \<in> {p..<p + Suc k} then map_option (taken i) (frames s x) else frames s x)" using pg by (auto simp: fun_eq_iff)
  also have "(zones ?s)[i := (zones ?s ! i)\<lparr>free_pages := free_pages (zones ?s ! i) - of_nat k\<rparr>]
      = (zones s)[i := (zones s ! i)\<lparr>free_pages := free_pages (zones s ! i) - of_nat (Suc k)\<rparr>]" using Suc.prems(1) by (simp add: algebra_simps)
  finally show ?case by simp
qed simp

definition put_page :: "page \<Rightarrow> page" where
  "put_page pg = (if pg_refcnt pg = 0 then pg
     else if pg_refcnt pg = 1 then pg\<lparr>pg_virtual := 0, pg_flags := PG_SWAPPABLE, pg_mapping := NULL, pg_refcnt := 0\<rparr>
     else pg\<lparr>pg_refcnt := pg_refcnt pg - 1\<rparr>)"

text \<open>The frames of a range with a single reference.\<close>

definition last_refs :: "page heap \<Rightarrow> ptr \<Rightarrow> nat \<Rightarrow> ptr set" where
  "last_refs h p k = {x \<in> {p..<p + k}. \<exists>pg. h x = Some pg \<and> pg_refcnt pg = 1}"

lemma last_refs_Suc:
  assumes "h p = Some pg"
  shows "card (last_refs h p (Suc k)) = (if pg_refcnt pg = 1 then 1 else 0) + card (last_refs h (Suc p) k)"
proof -
  have "last_refs h p (Suc k) = (if pg_refcnt pg = 1 then insert p (last_refs h (Suc p) k) else last_refs h (Suc p) k)"
    unfolding last_refs_def using assms by (auto simp: le_eq_less_or_eq)
  moreover have "finite (last_refs h (Suc p) k)" "p \<notin> last_refs h (Suc p) k" by (auto simp: last_refs_def)
  ultimately show ?thesis by simp
qed

lemma pages_put_loop_ok:
  assumes "i < length (zones s)" "p \<noteq> NULL" "\<forall>x\<in>{p..<p + k}. frames s x \<noteq> None"
  shows "pages_put_loop i p k s = Some (s\<lparr>frames := (\<lambda>x. if x \<in> {p..<p + k} then map_option put_page (frames s x) else frames s x),
      zones := (zones s)[i := (zones s ! i)\<lparr>free_pages := free_pages (zones s ! i) + of_nat (card (last_refs (frames s) p k))\<rparr>]\<rparr>)"
  using assms
proof (induction k arbitrary: p s)
  case 0
  then show ?case by (simp add: last_refs_def)
next
  case (Suc k)
  obtain pg where pg: "frames s p = Some pg" using Suc.prems(3) by fastforce
  define d :: nat where "d = (if pg_refcnt pg = 1 then 1 else 0)"
  let ?s = "s\<lparr>frames := (frames s)(p \<mapsto> put_page pg), zones := (zones s)[i := (zones s ! i)\<lparr>free_pages := free_pages (zones s ! i) + of_nat d\<rparr>]\<rparr>"
  have c: "last_refs (frames ?s) (Suc p) k = last_refs (frames s) (Suc p) k" by (auto simp: last_refs_def)
  have id: "(zones s)[i := (zones s ! i)\<lparr>free_pages := free_pages (zones s ! i)\<rparr>] = zones s" "(frames s)(p \<mapsto> pg) = frames s" using pg by auto
  have r1: "pg_refcnt pg - 1 = 0 \<longleftrightarrow> pg_refcnt pg = 1" by auto
  have "pages_put_loop i p (Suc k) s = pages_put_loop i (Suc p) k ?s"
  proof (cases "pg_refcnt pg = 0")
    case True
    then show ?thesis using pg Suc.prems(2) id by (simp add: hget_def put_page_def d_def)
  next
    case f: False
    show ?thesis
    proof (cases "pg_refcnt pg = 1")
      case True
      then show ?thesis using pg Suc.prems(1,2) by (simp add: hget_def page_upd_def hupd_def put_page_def d_def zone_upd_def)
    next
      case False
      then show ?thesis using f pg Suc.prems(1,2) id r1 by (simp add: hget_def page_upd_def hupd_def put_page_def d_def)
    qed
  qed
  also have "... = Some (?s\<lparr>frames := (\<lambda>x. if x \<in> {Suc p..<Suc p + k} then map_option put_page (frames ?s x) else frames ?s x),
      zones := (zones ?s)[i := (zones ?s ! i)\<lparr>free_pages := free_pages (zones ?s ! i) + of_nat (card (last_refs (frames ?s) (Suc p) k))\<rparr>]\<rparr>)"
    by (rule Suc.IH) (use Suc.prems in auto)
  also have "(\<lambda>x. if x \<in> {Suc p..<Suc p + k} then map_option put_page (frames ?s x) else frames ?s x)
      = (\<lambda>x. if x \<in> {p..<p + Suc k} then map_option put_page (frames s x) else frames s x)" using pg by (auto simp: fun_eq_iff)
  also have "(zones ?s)[i := (zones ?s ! i)\<lparr>free_pages := free_pages (zones ?s ! i) + of_nat (card (last_refs (frames ?s) (Suc p) k))\<rparr>]
      = (zones s)[i := (zones s ! i)\<lparr>free_pages := free_pages (zones s ! i) + of_nat (card (last_refs (frames s) p (Suc k)))\<rparr>]"
    unfolding c last_refs_Suc [of "frames s" p pg, OF pg] using Suc.prems(1) by (simp add: d_def add.assoc)
  finally show ?case by simp
qed

section \<open>Zones\<close>

lemma pmm_inv_zone:
  assumes "pmm_inv s" "i < NZONE"
  shows "length (zones s) = NZONE" "lk_free (z_lock (zones s ! i))" "zone_valid (zones s ! i) \<Longrightarrow> zone_ok (frames s) (zones s ! i)"
    "\<not> zone_valid (zones s ! i) \<Longrightarrow> nrpages (zones s ! i) = 0 \<and> z_start (zones s ! i) = 0"
proof -
  show l: "length (zones s) = NZONE" using assms(1) by (simp add: pmm_inv_def)
  then have "zones s ! i \<in> set (zones s)" using assms(2) by simp
  then show "lk_free (z_lock (zones s ! i))" "zone_valid (zones s ! i) \<Longrightarrow> zone_ok (frames s) (zones s ! i)"
      "\<not> zone_valid (zones s ! i) \<Longrightarrow> nrpages (zones s ! i) = 0 \<and> z_start (zones s ! i) = 0"
    using assms(1) unfolding pmm_inv_def by auto
qed

text \<open>Taking the lock of a zone: the state and the lock.\<close>

definition with_lock :: "nat \<Rightarrow> spinlock \<Rightarrow> pmm \<Rightarrow> pmm" where
  "with_lock i lk s = s\<lparr>zones := (zones s)[i := (zones s ! i)\<lparr>z_lock := lk\<rparr>]\<rparr>"

lemma mm_zone_lock_ok:
  assumes "i < length (zones s)" "lk_free (z_lock (zones s ! i))"
  obtains lk where "mm_zone_lock me i s = Some (with_lock i lk s)" "lk_held me lk"
  using lk_acquire_free [OF assms(2), of me] assms(1) by (auto simp: mm_zone_lock_def zone_at_def zone_upd_def with_lock_def)

lemma mm_zone_unlock_ok:
  assumes "i < length (zones s)" "lk_held me (z_lock (zones s ! i))"
  obtains lk where "mm_zone_unlock me i s = Some (with_lock i lk s)" "lk_free lk"
  using lk_release_held [OF assms(2)] assms(1) by (auto simp: mm_zone_unlock_def zone_at_def zone_upd_def with_lock_def)

lemma mm_zone_get_ok:
  assumes inv: "pmm_inv s" and i: "i < NZONE" "zone_valid (zones s ! i)"
  obtains lk where "mm_zone_get me (int i) s = Some (Some i, with_lock i lk s)" "lk_held me lk"
proof -
  note z = pmm_inv_zone [OF inv i(1)]
  obtain lk where lk: "mm_zone_lock me i s = Some (with_lock i lk s)" "lk_held me lk"
    using mm_zone_lock_ok [of i s me] z(1,2) i(1) by auto
  have "mm_zone_isvalid me i (with_lock i lk s) = Some True"
    using lk(2) z(1) i by (simp add: mm_zone_isvalid_def zone_at_def with_lock_def zone_valid_def)
  then show thesis using that lk i(1) by (simp add: mm_zone_get_def)
qed

lemma zone_end:
  assumes "zone_ok h z"
  shows "unat (nrpages z * PAGESZ) = unat (nrpages z) * 4096" "unat (z_start z + nrpages z * PAGESZ) = unat (z_start z) + unat (nrpages z) * 4096"
proof -
  have b: "unat (z_start z) + unat (nrpages z) * 4096 < 2 ^ 64" using assms by (simp add: zone_ok_def)
  then show n: "unat (nrpages z * PAGESZ) = unat (nrpages z) * 4096" by (simp add: PAGESZ_def unat_word_ariths)
  show "unat (z_start z + nrpages z * PAGESZ) = unat (z_start z) + unat (nrpages z) * 4096"
    using b by (simp add: unat_word_ariths(1) [of "z_start z"] n)
qed

lemma zone_span:
  assumes "zone_ok h z" "z_start z \<le> addr" "addr < z_start z + nrpages z * PAGESZ"
  shows "unat addr \<in> span (zone_reg z)"
  using assms(2,3) zone_end(2) [OF assms(1)] by (simp add: span_def zone_reg_def word_le_nat_alt word_less_nat_alt)

lemma get_mmzone_loop_ok:
  assumes inv: "pmm_inv s" and i: "i < NZONE" "zone_valid (zones s ! i)" and j: "j \<le> i" "j + k = NZONE"
    and a: "z_start (zones s ! i) \<le> addr" "addr + (sz - 1) < z_start (zones s ! i) + nrpages (zones s ! i) * PAGESZ" "addr \<le> addr + (sz - 1)"
  obtains lk where "get_mmzone_loop me addr sz j k s = Some (Some i, with_lock i lk s)" "lk_held me lk"
  using j
proof (induction k arbitrary: j thesis)
  case 0
  then show ?case using i(1) by simp
next
  case (Suc k)
  note zj = pmm_inv_zone [OF inv, of j]
  have jl: "j < NZONE" using Suc.prems i(1) by simp
  show ?case
  proof (cases "j = i")
    case True
    obtain lk where lk: "mm_zone_lock me i s = Some (with_lock i lk s)" "lk_held me lk"
      using mm_zone_lock_ok [of i s me] pmm_inv_zone(1,2) [OF inv i(1)] i(1) by auto
    have "mm_zone_isvalid me i (with_lock i lk s) = Some True"
      using lk(2) zj(1) jl i by (simp add: mm_zone_isvalid_def zone_at_def with_lock_def zone_valid_def)
    then show ?thesis using Suc.prems(1) lk a(1,2) True zj(1) jl by (simp add: zone_at_def)
  next
    case False
    have "\<not> (z_start (zones s ! j) \<le> addr \<and> addr + (sz - 1) < z_start (zones s ! j) + nrpages (zones s ! j) * PAGESZ)"
    proof
      assume c: "z_start (zones s ! j) \<le> addr \<and> addr + (sz - 1) < z_start (zones s ! j) + nrpages (zones s ! j) * PAGESZ"
      then have vj: "zone_valid (zones s ! j)" using zj(4) jl by fastforce
      have "addr < z_start (zones s ! j) + nrpages (zones s ! j) * PAGESZ" using order.strict_trans1 [OF a(3)] c by blast
      then have "unat addr \<in> span (zone_reg (zones s ! j))" using zone_span [OF zj(3) [OF jl vj]] c by blast
      moreover have "unat addr \<in> span (zone_reg (zones s ! i))"
        using zone_span [OF pmm_inv_zone(3) [OF inv i] a(1) order.strict_trans1 [OF a(3,2)]] .
      moreover have "span (zone_reg (zones s ! j)) \<inter> span (zone_reg (zones s ! i)) = {}"
        using inv i(1) False Suc.prems(2) unfolding pmm_inv_def by simp
      ultimately show False by blast
    qed
    then have ev: "get_mmzone_loop me addr sz j (Suc k) s = get_mmzone_loop me addr sz (Suc j) k s"
      using zj(1) jl unfolding get_mmzone_loop.simps zone_at_def by (simp only: if_True bind.bind_lunit if_False)
    have "Suc j \<le> i" "Suc j + k = NZONE" using Suc.prems(2,3) False by simp_all
    then show ?thesis by (rule Suc.IH [rotated]) (use Suc.prems(1) ev in metis)
  qed
qed

lemma get_mmzone_ok:
  assumes inv: "pmm_inv s" and i: "i < NZONE" "zone_valid (zones s ! i)"
    and a: "z_start (zones s ! i) \<le> addr" "unat addr + n \<le> unat (z_start (zones s ! i)) + unat (nrpages (zones s ! i)) * 4096"
    and n: "0 < n" "unat sz = n"
  obtains lk where "get_mmzone me addr sz s = Some (Some i, with_lock i lk s)" "lk_held me lk"
proof -
  note z = pmm_inv_zone(3) [OF inv i]
  have lt: "unat addr + n < 2 ^ 64" using a(2) z by (simp add: zone_ok_def)
  have s1: "unat (sz - 1) = n - 1" using n by (metis unat_minus_one unat_eq_zero less_numeral_extra(3))
  then have e: "unat (addr + (sz - 1)) = unat addr + (n - 1)" using lt by (simp add: unat_word_ariths)
  have "addr + (sz - 1) < z_start (zones s ! i) + nrpages (zones s ! i) * PAGESZ" "addr \<le> addr + (sz - 1)"
    using e zone_end(2) [OF z] a(2) n(1) by (simp_all add: word_less_nat_alt word_le_nat_alt)
  then show thesis using get_mmzone_loop_ok [OF inv i, of 0 NZONE addr sz me] a(1) that by (auto simp: get_mmzone_def)
qed

text \<open>Changing one zone and its frames keeps the invariant of the others.\<close>

definition same_zone :: "mm_zone \<Rightarrow> mm_zone \<Rightarrow> bool" where
  "same_zone z z' \<longleftrightarrow> z_start z' = z_start z \<and> z_flags z' = z_flags z \<and> z_pages z' = z_pages z \<and> nrpages z' = nrpages z"

lemma same_zone_sets: "same_zone z z' \<Longrightarrow> zone_desc z' = zone_desc z \<and> zone_reg z' = zone_reg z \<and> zone_valid z' = zone_valid z"
  by (simp add: same_zone_def zone_desc_def zone_reg_def zone_valid_def)

lemma zone_ok_frame:
  assumes "zone_ok h z" "\<And>p. p \<in> zone_desc z \<Longrightarrow> h' p = h p"
  shows "zone_ok h' z"
proof -
  have "{p \<in> zone_desc z. idle h' p} = {p \<in> zone_desc z. idle h p}" using assms(2) by (auto simp: idle_def)
  then show ?thesis using assms unfolding zone_ok_def by auto
qed

lemma pmm_inv_update:
  assumes inv: "pmm_inv s" and i: "i < NZONE" "zone_valid (zones s ! i)"
    and z': "same_zone (zones s ! i) z'" "lk_free (z_lock z')" "zone_ok (frames s') z'"
    and s': "zones s' = (zones s)[i := z']" "\<And>p. p \<notin> zone_desc (zones s ! i) \<Longrightarrow> frames s' p = frames s p"
  shows "pmm_inv s'"
proof -
  have l: "length (zones s) = NZONE" using inv by (simp add: pmm_inv_def)
  have sets: "zone_desc (zones s' ! j) = zone_desc (zones s ! j) \<and> zone_reg (zones s' ! j) = zone_reg (zones s ! j)" if "j < NZONE" for j
    using same_zone_sets [OF z'(1)] that l s'(1) by (cases "j = i") simp_all
  have "lk_free (z_lock z) \<and> (if zone_valid z then zone_ok (frames s') z else nrpages z = 0 \<and> z_start z = 0)" if zin: "z \<in> set (zones s')" for z
  proof -
    obtain j where j: "j < NZONE" "z = zones s' ! j" using zin l s'(1) by (auto simp: in_set_conv_nth)
    show ?thesis
    proof (cases "j = i")
      case True
      then show ?thesis using j z' s'(1) l i same_zone_sets [OF z'(1)] by simp
    next
      case False
      then have zj: "z = zones s ! j" using j s'(1) by simp
      have d: "zone_desc (zones s ! j) \<inter> zone_desc (zones s ! i) = {}"
        using inv i(1) j(1) False unfolding pmm_inv_def by (cases "j < i") (auto simp: Int_commute not_less le_eq_less_or_eq)
      have "zone_ok (frames s') z" if "zone_valid z"
        by (rule zone_ok_frame [OF pmm_inv_zone(3) [OF inv j(1), folded zj, OF that]]) (use d zj s'(2) in blast)
      then show ?thesis using pmm_inv_zone(2,4) [OF inv j(1), folded zj] by auto
    qed
  qed
  then show ?thesis using inv sets l s'(1) unfolding pmm_inv_def by simp
qed

lemma with_lock_inv:
  assumes "pmm_inv s" "i < NZONE" "zone_valid (zones s ! i)" "lk_free lk"
  shows "pmm_inv (with_lock i lk s)"
proof (rule pmm_inv_update [OF assms(1-3), of "(zones s ! i)\<lparr>z_lock := lk\<rparr>"])
  show "same_zone (zones s ! i) ((zones s ! i)\<lparr>z_lock := lk\<rparr>)" by (simp add: same_zone_def)
  show "zone_ok (frames (with_lock i lk s)) ((zones s ! i)\<lparr>z_lock := lk\<rparr>)"
    using pmm_inv_zone(3) [OF assms(1-3)] by (simp add: with_lock_def zone_ok_def zone_desc_def)
qed (simp_all add: with_lock_def assms(4))

definition marked :: "nat \<Rightarrow> ptr \<Rightarrow> nat \<Rightarrow> page heap \<Rightarrow> page heap" where
  "marked i p n h = (\<lambda>x. if x \<in> {p..<p + n} then map_option (taken i) (h x) else h x)"

lemma alloc_zero_low:
  "alloc_zero False paddr v k s = Some (s\<lparr>zeroed := zeroed s @ map (\<lambda>j. VMA2HI (paddr + of_nat j * PAGESZ)) [0..<k]\<rparr>)"
proof (induction k arbitrary: paddr s)
  case (Suc k)
  have "map (\<lambda>j. VMA2HI (paddr + of_nat j * PAGESZ)) [0..<Suc k]
      = VMA2HI paddr # map (\<lambda>j. VMA2HI (paddr + PAGESZ + of_nat j * PAGESZ)) [0..<k]"
    by (simp add: upt_conv_Cons map_Suc_upt [symmetric] comp_def algebra_simps del: upt_Suc)
  then show ?case using Suc.IH by simp
qed simp

lemma alloc_pages_ok:
  assumes inv: "pmm_inv s" and i: "i < NZONE" "zone_valid (zones s ! i)" "alloc_where gf = int i"
    and g: "gf AND GFP_WAIT = 0" "gf AND GFP_RETRY = 0" "gf AND GFP_ZERO \<noteq> 0 \<longrightarrow> int i \<noteq> MM_ZONE_HIGH"
  defines "z \<equiv> zones s ! i"
  obtains (found) st s' lk where "alloc_pages me gf order s = Some (z_pages z + st, s')" "run_at (frames s) (z_pages z) st (2 ^ order)"
      "st + 2 ^ order \<le> unat (nrpages z)" "\<forall>b < st. \<not> run_at (frames s) (z_pages z) b (2 ^ order)"
      "frames s' = marked i (z_pages z + st) (2 ^ order) (frames s)" "lk_free lk"
      "zones s' = (zones s)[i := z\<lparr>free_pages := free_pages z - of_nat (2 ^ order), z_lock := lk\<rparr>]"
      "zeroed s' = zeroed s @ (if gf AND GFP_ZERO = 0 then [] else map (\<lambda>j. VMA2HI (z_start z + of_nat (st + j) * PAGESZ)) [0..<2 ^ order])"
  | (none) lk where "alloc_pages me gf order s = Some (NULL, with_lock i lk s)" "lk_free lk"
      "\<forall>b. b + 2 ^ order \<le> unat (nrpages z) \<longrightarrow> \<not> run_at (frames s) (z_pages z) b (2 ^ order)"
proof -
  have l: "length (zones s) = NZONE" using inv by (simp add: pmm_inv_def)
  have ok: "zone_ok (frames s) z" using pmm_inv_zone(3) [OF inv i(1,2)] by (simp add: z_def)
  obtain lk where lk: "mm_zone_get me (int i) s = Some (Some i, with_lock i lk s)" "lk_held me lk"
    by (rule mm_zone_get_ok [OF inv i(1,2)])
  let ?t = "with_lock i lk s" and ?z = "z\<lparr>z_lock := lk\<rparr>"
  have t: "frames ?t = frames s" "zones ?t = (zones s)[i := ?z]" "zeroed ?t = zeroed s" "zone_at i ?t = Some ?z"
    using l i(1) by (simp_all add: with_lock_def z_def zone_at_def)
  have d: "z_pages z \<noteq> NULL" "\<forall>k<unat (nrpages z). frames s (z_pages z + k) \<noteq> None" using ok by (auto simp: zone_ok_def zone_desc_def)
  have ev: "alloc_pages me gf order s = do { found \<leftarrow> alloc_find (frames s) (z_pages z) (2 ^ order) (unat (nrpages z)) False 0;
      case found of None \<Rightarrow> do { s \<leftarrow> mm_zone_unlock me i ?t; Some (NULL, s) }
      | Some start \<Rightarrow> do { s \<leftarrow> alloc_mark i (z_pages z + start) (2 ^ order) ?t;
          s \<leftarrow> (if gf AND GFP_ZERO \<noteq> 0 then alloc_zero False (z_start z + of_nat start * PAGESZ) 0 (2 ^ order) s else Some s);
          s \<leftarrow> mm_zone_unlock me i s; Some (z_pages z + start, s) } }"
    using lk(1) t i(3) g by (simp add: alloc_pages_def Let_def cong: option.case_cong if_cong)
  have n0: "(0 :: nat) < 2 ^ order" by simp
  show thesis
  proof (cases rule: alloc_find_ok [OF d n0])
    case (1 st)
    let ?p = "z_pages z + st" and ?n = "2 ^ order :: nat"
    define u where "u = ?t\<lparr>frames := marked i ?p ?n (frames s),
      zones := (zones s)[i := ?z\<lparr>free_pages := free_pages z - of_nat ?n\<rparr>],
      zeroed := zeroed s @ (if gf AND GFP_ZERO = 0 then [] else map (\<lambda>j. VMA2HI (z_start z + of_nat (st + j) * PAGESZ)) [0..<?n])\<rparr>"
    have fr: "\<forall>x\<in>{?p..<?p + ?n}. frames ?t x \<noteq> None"
    proof
      fix x assume "x \<in> {?p..<?p + ?n}"
      then have "x - z_pages z < unat (nrpages z)" "x = z_pages z + (x - z_pages z)" using 1(3) by auto
      then show "frames ?t x \<noteq> None" unfolding t(1) using d(2) by metis
    qed
    have "alloc_mark i ?p ?n ?t = Some (?t\<lparr>frames := marked i ?p ?n (frames s), zones := (zones s)[i := ?z\<lparr>free_pages := free_pages z - of_nat ?n\<rparr>]\<rparr>)"
      using alloc_mark_ok [of i ?t ?p ?n, OF _ _ fr] t(2) l i(1) d(1) unfolding t(1) by (simp add: marked_def t(1))
    then have mk: "do { s \<leftarrow> alloc_mark i ?p ?n ?t;
        (if gf AND GFP_ZERO \<noteq> 0 then alloc_zero False (z_start z + of_nat st * PAGESZ) 0 ?n s else Some s) } = Some u"
      unfolding u_def by (simp add: alloc_zero_low t(3) algebra_simps)
    have "lk_held me (z_lock (zones u ! i))" "i < length (zones u)" using lk(2) l i(1) by (simp_all add: u_def)
    then obtain lk' where lk': "mm_zone_unlock me i u = Some (with_lock i lk' u)" "lk_free lk'"
      using mm_zone_unlock_ok [of i u me] by metis
    have "alloc_pages me gf order s = do { s \<leftarrow> (do { s \<leftarrow> alloc_mark i ?p ?n ?t;
        (if gf AND GFP_ZERO \<noteq> 0 then alloc_zero False (z_start z + of_nat st * PAGESZ) 0 ?n s else Some s) });
        s \<leftarrow> mm_zone_unlock me i s; Some (?p, s) }"
      unfolding ev 1(1) by simp
    then have "alloc_pages me gf order s = Some (?p, with_lock i lk' u)" unfolding mk using lk'(1) by simp
    then show thesis by (rule found [OF _ 1(2-4) _ lk'(2)]) (use l i(1) in \<open>simp_all add: with_lock_def u_def\<close>)
  next
    case 2
    obtain lk' where lk': "mm_zone_unlock me i ?t = Some (with_lock i lk' ?t)" "lk_free lk'"
      using mm_zone_unlock_ok [of i ?t me] lk(2) t(2) l i(1) by auto
    have "with_lock i lk' ?t = with_lock i lk' s" using l i(1) by (simp add: with_lock_def)
    then show thesis using none [of lk'] ev 2 lk' by simp
  qed
qed

lemma marked_inv:
  assumes inv: "pmm_inv s" and i: "i < NZONE" "zone_valid (zones s ! i)"
    and r: "run_at (frames s) (z_pages (zones s ! i)) st n" "st + n \<le> unat (nrpages (zones s ! i))"
    and s': "frames s' = marked i (z_pages (zones s ! i) + st) n (frames s)" "lk_free lk"
      "zones s' = (zones s)[i := (zones s ! i)\<lparr>free_pages := free_pages (zones s ! i) - of_nat n, z_lock := lk\<rparr>]"
  shows "pmm_inv s'" "n \<le> unat (free_pages (zones s ! i))"
proof -
  define z where "z = zones s ! i"
  define R where "R = {z_pages z + st..<z_pages z + st + n}"
  note ok = pmm_inv_zone(3) [OF inv i, folded z_def]
  let ?I = "{p \<in> zone_desc z. idle (frames s) p}"
  have "R \<subseteq> zone_desc z" using r(2) by (auto simp: R_def zone_desc_def z_def)
  moreover have "idle (frames s) p" if "p \<in> R" for p
  proof -
    have "p - (z_pages z + st) < n" "z_pages z + st + (p - (z_pages z + st)) = p" using that by (auto simp: R_def)
    then show ?thesis using r(1) unfolding run_at_def z_def by metis
  qed
  ultimately have RI: "R \<subseteq> ?I" by blast
  have fin: "finite ?I" by (simp add: zone_desc_def)
  have c: "card R = n" by (simp add: R_def)
  have n: "n \<le> unat (free_pages z)" using card_mono [OF fin RI] ok c by (simp add: zone_ok_def)
  then show "n \<le> unat (free_pages (zones s ! i))" by (simp add: z_def)
  have un: "unat (of_nat n :: u64) = n" using n by (metis le_unat_uoi)
  have "idle (frames s') p \<longleftrightarrow> idle (frames s) p \<and> p \<notin> R" if "p \<in> zone_desc z" for p
  proof (cases "p \<in> R")
    case True
    then obtain pg where "frames s p = Some pg" "pg_refcnt pg = 0" using RI by (auto simp: idle_def)
    then show ?thesis using True unfolding s'(1) by (simp add: marked_def idle_def taken_def R_def z_def)
  next
    case False
    then show ?thesis unfolding s'(1) by (auto simp: marked_def idle_def R_def z_def)
  qed
  then have "{p \<in> zone_desc z. idle (frames s') p} = ?I - R" by blast
  then have "card {p \<in> zone_desc z. idle (frames s') p} = unat (free_pages z) - n"
    using card_Diff_subset [OF finite_subset [OF RI fin] RI] ok c by (simp add: zone_ok_def)
  moreover have "unat (free_pages z - of_nat n) = unat (free_pages z) - n" using n un by (simp add: unat_sub word_le_nat_alt)
  moreover have "frames s' p \<noteq> None" if "p \<in> zone_desc z" for p using ok that unfolding s'(1) by (auto simp: marked_def zone_ok_def)
  ultimately have zk: "zone_ok (frames s') (z\<lparr>free_pages := free_pages z - of_nat n, z_lock := lk\<rparr>)"
    using ok by (simp add: zone_ok_def zone_desc_def)
  show "pmm_inv s'"
    by (rule pmm_inv_update [OF inv i _ _ zk s'(3) [folded z_def]])
      (use s'(1,2) \<open>R \<subseteq> zone_desc z\<close> in \<open>auto simp: same_zone_def z_def R_def marked_def\<close>)
qed

lemma page_address_ok:
  assumes inv: "pmm_inv s" and i: "i < NZONE" "zone_valid (zones s ! i)" and k: "k < unat (nrpages (zones s ! i))"
    and p: "frames s (z_pages (zones s ! i) + k) = Some pg" "pg_mmzone pg = of_nat i"
  obtains lk where "page_address me (z_pages (zones s ! i) + k) s = Some (z_start (zones s ! i) + of_nat k * PAGESZ, with_lock i lk s)" "lk_free lk"
proof -
  have l: "length (zones s) = NZONE" using inv by (simp add: pmm_inv_def)
  obtain lk where lk: "mm_zone_get me (int i) s = Some (Some i, with_lock i lk s)" "lk_held me lk" by (rule mm_zone_get_ok [OF inv i])
  have "i = 0 \<or> i = 1 \<or> i = 2 \<or> i = 3" using i(1) by (auto simp: NZONE_def)
  then have si: "sint (pg_mmzone pg) = int i" unfolding p(2) by auto
  have z0: "z_pages (zones s ! i) \<noteq> NULL" using pmm_inv_zone(3) [OF inv i] by (simp add: zone_ok_def)
  have za: "zone_at i (with_lock i lk s) = Some ((zones s ! i)\<lparr>z_lock := lk\<rparr>)" using l i(1) by (simp add: zone_at_def with_lock_def)
  obtain lk' where lk': "mm_zone_unlock me i (with_lock i lk s) = Some (with_lock i lk' (with_lock i lk s))" "lk_free lk'"
    using mm_zone_unlock_ok [of i "with_lock i lk s" me] lk(2) l i(1) by (auto simp: with_lock_def)
  have "with_lock i lk' (with_lock i lk s) = with_lock i lk' s" using l i(1) by (simp add: with_lock_def)
  moreover have "int k < int (unat (nrpages (zones s ! i)))" using k by (simp only: of_nat_less_iff)
  then have "\<not> uint (nrpages (zones s ! i)) < int k" by simp
  ultimately have "page_address me (z_pages (zones s ! i) + k) s = Some (z_start (zones s ! i) + of_nat k * PAGESZ, with_lock i lk' s)"
    using lk lk' si z0 za p(1) by (simp add: page_address_def hget_def Let_def)
  then show thesis using that lk'(2) by blast
qed

definition released :: "ptr \<Rightarrow> nat \<Rightarrow> page heap \<Rightarrow> page heap" where
  "released p n h = (\<lambda>x. if x \<in> {p..<p + n} then map_option put_page (h x) else h x)"

lemma put_page_refcnt: "pg_refcnt (put_page pg) = 0 \<longleftrightarrow> pg_refcnt pg = 0 \<or> pg_refcnt pg = 1"
  by (simp add: put_page_def)

lemma idle_put: "idle (\<lambda>x. map_option put_page (h x)) p \<longleftrightarrow> idle h p \<or> (\<exists>pg. h p = Some pg \<and> pg_refcnt pg = 1)"
  by (cases "h p") (auto simp: idle_def put_page_refcnt)

lemma released_inv:
  assumes inv: "pmm_inv s" and i: "i < NZONE" "zone_valid (zones s ! i)"
    and r: "p \<ge> z_pages (zones s ! i)" "p + n \<le> z_pages (zones s ! i) + unat (nrpages (zones s ! i))"
    and s': "frames s' = released p n (frames s)" "lk_free lk"
      "zones s' = (zones s)[i := (zones s ! i)\<lparr>free_pages := free_pages (zones s ! i) + of_nat (card (last_refs (frames s) p n)), z_lock := lk\<rparr>]"
  shows "pmm_inv s'"
proof -
  define z where "z = zones s ! i"
  define L where "L = last_refs (frames s) p n"
  note ok = pmm_inv_zone(3) [OF inv i, folded z_def]
  let ?I = "{x \<in> zone_desc z. idle (frames s) x}"
  have L: "L \<subseteq> zone_desc z" "L \<inter> ?I = {}" "finite L" using r by (auto simp: L_def last_refs_def zone_desc_def z_def idle_def)
  have fin: "finite ?I" "finite (zone_desc z)" by (simp_all add: zone_desc_def)
  have "idle (frames s') x \<longleftrightarrow> idle (frames s) x \<or> x \<in> L" if "x \<in> zone_desc z" for x
  proof (cases "x \<in> {p..<p + n}")
    case True
    then have "idle (frames s') x \<longleftrightarrow> idle (\<lambda>x. map_option put_page (frames s x)) x" unfolding s'(1) by (simp add: released_def idle_def)
    then show ?thesis using True idle_put [of "frames s" x] by (auto simp: L_def last_refs_def)
  next
    case False
    then show ?thesis unfolding s'(1) by (auto simp: released_def idle_def L_def last_refs_def)
  qed
  then have e: "{x \<in> zone_desc z. idle (frames s') x} = ?I \<union> L" using L(1) by blast
  have c: "card {x \<in> zone_desc z. idle (frames s') x} = unat (free_pages z) + card L"
    unfolding e using card_Un_disjoint [OF fin(1) L(3)] L(2) ok by (simp add: zone_ok_def Int_commute)
  have "?I \<union> L \<subseteq> zone_desc z" using L(1) by blast
  then have "card (?I \<union> L) \<le> card (zone_desc z)" by (rule card_mono [OF fin(2)])
  also have "card (zone_desc z) = unat (nrpages z)" by (simp add: zone_desc_def)
  finally have "card (?I \<union> L) \<le> unat (nrpages z)" .
  then have b: "unat (free_pages z) + card L \<le> unat (nrpages z)" using c e by simp
  then have "unat (of_nat (card L) :: u64) = card L" by (metis le_unat_uoi add_leD2)
  moreover have "unat (free_pages z) + card L < 2 ^ 64" using b ok by (simp add: zone_ok_def)
  ultimately have "unat (free_pages z + of_nat (card L)) = unat (free_pages z) + card L" by (simp add: unat_word_ariths)
  moreover have "frames s' x \<noteq> None" if "x \<in> zone_desc z" for x using ok that unfolding s'(1) by (auto simp: released_def zone_ok_def)
  ultimately have zk: "zone_ok (frames s') (z\<lparr>free_pages := free_pages z + of_nat (card L), z_lock := lk\<rparr>)"
    using ok c by (simp add: zone_ok_def zone_desc_def)
  show ?thesis
    by (rule pmm_inv_update [OF inv i _ _ zk s'(3) [folded z_def L_def]])
      (use s'(1,2) r in \<open>auto simp: same_zone_def z_def released_def zone_desc_def\<close>)
qed

lemma unat_pages:
  assumes "k * 4096 < 2 ^ 64"
  shows "unat (of_nat k * PAGESZ :: u64) = k * 4096"
proof -
  have "unat (of_nat k :: u64) = k mod 2 ^ 64" by (simp add: unat_of_nat)
  also have "... = k" using assms by simp
  finally show ?thesis using assms by (simp add: PAGESZ_def unat_word_ariths)
qed

lemma frame_of_address:
  assumes ok: "zone_ok h z" and k: "k \<le> unat (nrpages z)"
  shows "unat (z_start z + of_nat k * PAGESZ) = unat (z_start z) + k * 4096" "k < unat (nrpages z) \<Longrightarrow> page_of z (z_start z + of_nat k * PAGESZ) = z_pages z + k"
    "z_start z \<le> z_start z + of_nat k * PAGESZ"
proof -
  have b: "unat (z_start z) + unat (nrpages z) * 4096 < 2 ^ 64" using ok by (simp add: zone_ok_def)
  have k1: "k * 4096 < 2 ^ 64" using b k by linarith
  have u: "unat (of_nat k * PAGESZ :: u64) = k * 4096" by (rule unat_pages [OF k1])
  show a: "unat (z_start z + of_nat k * PAGESZ) = unat (z_start z) + k * 4096" using b k u by (simp add: unat_word_ariths(1) [of "z_start z"])
  then show "z_start z \<le> z_start z + of_nat k * PAGESZ" by (simp add: word_le_nat_alt)
  have "unat ((of_nat k * PAGESZ :: u64) div PAGESZ) = k" using u by (simp add: unat_div PAGESZ_def)
  then show "page_of z (z_start z + of_nat k * PAGESZ) = z_pages z + k" by (simp add: page_of_def)
qed

lemma pages_put_ok:
  assumes inv: "pmm_inv s" and i: "i < NZONE" "zone_valid (zones s ! i)"
    and k: "k + 2 ^ order \<le> unat (nrpages (zones s ! i))" and a: "a = z_start (zones s ! i) + of_nat k * PAGESZ" "a \<noteq> 0"
  obtains s' lk where "pages_put_addr me a order s = Some s'" "pmm_inv s'" "frames s' = released (z_pages (zones s ! i) + k) (2 ^ order) (frames s)" "lk_free lk"
    "zones s' = (zones s)[i := (zones s ! i)\<lparr>free_pages := free_pages (zones s ! i)
        + of_nat (card (last_refs (frames s) (z_pages (zones s ! i) + k) (2 ^ order))), z_lock := lk\<rparr>]"
proof -
  define z where "z = zones s ! i"
  let ?n = "2 ^ order :: nat" and ?p = "z_pages z + k"
  note ok = pmm_inv_zone(3) [OF inv i, folded z_def]
  have l: "length (zones s) = NZONE" using inv by (simp add: pmm_inv_def)
  have k': "k \<le> unat (nrpages z)" "k < unat (nrpages z)" using k unfolding z_def by (metis add_leD1, metis less_add_same_cancel1 less_le_trans zero_less_numeral zero_less_power)
  note fa = frame_of_address [OF ok k'(1)]
  have b: "unat (z_start z) + unat (nrpages z) * 4096 < 2 ^ 64" using ok by (simp add: zone_ok_def)
  have nb: "?n * 4096 < 2 ^ 64" using b k unfolding z_def by linarith
  have usz: "unat (2 ^ order * PAGESZ :: u64) = ?n * 4096"
  proof -
    have e: "(2 ^ order :: u64) = of_nat ?n" by simp
    show ?thesis unfolding e by (rule unat_pages [OF nb])
  qed
  obtain lk where lk: "get_mmzone me a (2 ^ order * PAGESZ) s = Some (Some i, with_lock i lk s)" "lk_held me lk"
    by (rule get_mmzone_ok [OF inv i _ _ _ usz, of a me]) (use fa a(1) k in \<open>auto simp: z_def\<close>)
  define t where "t = with_lock i lk s"
  have t: "frames t = frames s" "zones t = (zones s)[i := z\<lparr>z_lock := lk\<rparr>]" "zone_at i t = Some (z\<lparr>z_lock := lk\<rparr>)"
    using l i(1) by (simp_all add: t_def with_lock_def z_def zone_at_def)
  define u where "u = t\<lparr>frames := released ?p ?n (frames s),
    zones := (zones s)[i := z\<lparr>z_lock := lk, free_pages := free_pages z + of_nat (card (last_refs (frames s) ?p ?n))\<rparr>]\<rparr>"
  have fr: "\<forall>x\<in>{?p..<?p + ?n}. frames t x \<noteq> None" using ok k unfolding t(1) by (auto simp: zone_ok_def zone_desc_def z_def)
  have "z_pages z \<noteq> NULL" using ok by (simp add: zone_ok_def)
  then have lp: "pages_put_loop i ?p ?n t = Some u"
    using pages_put_loop_ok [of i t ?p ?n, OF _ _ fr] t(2) l i(1) unfolding t(1) by (simp add: u_def released_def t(1))
  have po: "page_of (z\<lparr>z_lock := lk\<rparr>) a = ?p" using fa(2) [OF k'(2)] a(1) by (simp add: page_of_def z_def)
  have "lk_held me (z_lock (zones u ! i))" "i < length (zones u)" using lk(2) l i(1) by (simp_all add: u_def)
  then obtain lk' where lk': "mm_zone_unlock me i u = Some (with_lock i lk' u)" "lk_free lk'" using mm_zone_unlock_ok [of i u me] by metis
  have "pages_put_addr me a order s = Some (with_lock i lk' u)"
    using a(2) lk(1) [folded t_def] t(3) po lp lk'(1) by (simp add: pages_put_addr_def)
  moreover have zs: "zones (with_lock i lk' u) = (zones s)[i := z\<lparr>free_pages := free_pages z + of_nat (card (last_refs (frames s) ?p ?n)), z_lock := lk'\<rparr>]"
      "frames (with_lock i lk' u) = released ?p ?n (frames s)" using l i(1) by (simp_all add: with_lock_def u_def)
  moreover have "pmm_inv (with_lock i lk' u)"
    by (rule released_inv [OF inv i _ _ zs(2) [unfolded z_def] lk'(2) zs(1) [unfolded z_def]]) (use k in \<open>simp_all add: z_def\<close>)
  ultimately show thesis using that [of "with_lock i lk' u" lk'] lk'(2) unfolding z_def by blast
qed

section \<open>Properties\<close>

text \<open>C12: For a caller that may not wait, \<open>alloc_pages\<close> hands out the lowest run of \<open>2 ^ order\<close> free frames of the zone, gives
  each of them one reference and takes them off the count of free frames; if the zone has no such run it returns NULL
  and changes no frame. The zones stay well formed: in each, the count of free frames is the number of frames without
  references.\<close>

theorem alloc_pages_first_fit:
  assumes "pmm_inv s" "i < NZONE" "zone_valid (zones s ! i)" "alloc_where gf = int i" "gf AND GFP_WAIT = 0" "gf AND GFP_RETRY = 0"
    "gf AND GFP_ZERO \<noteq> 0 \<longrightarrow> int i \<noteq> MM_ZONE_HIGH"
  shows "\<exists>p s'. alloc_pages me gf order s = Some (p, s') \<and> pmm_inv s'
    \<and> (if \<exists>k. k + 2 ^ order \<le> unat (nrpages (zones s ! i)) \<and> run_at (frames s) (z_pages (zones s ! i)) k (2 ^ order)
       then \<exists>st. p = z_pages (zones s ! i) + st \<and> st + 2 ^ order \<le> unat (nrpages (zones s ! i))
         \<and> run_at (frames s) (z_pages (zones s ! i)) st (2 ^ order) \<and> (\<forall>b < st. \<not> run_at (frames s) (z_pages (zones s ! i)) b (2 ^ order))
         \<and> (\<forall>x. frames s' x = (if x \<in> {p..<p + 2 ^ order} then map_option (\<lambda>pg. pg\<lparr>pg_mmzone := of_nat i, pg_refcnt := 1\<rparr>) (frames s x) else frames s x))
         \<and> unat (free_pages (zones s' ! i)) + 2 ^ order = unat (free_pages (zones s ! i))
       else p = NULL \<and> frames s' = frames s)"
proof (cases rule: alloc_pages_ok [OF assms(1-4) assms(5-7), of me order])
  case (1 st s' lk)
  let ?n = "2 ^ order :: nat" and ?z = "zones s ! i"
  note m = marked_inv [OF assms(1-3) 1(2,3,5,6,7)]
  have l: "length (zones s) = NZONE" using assms(1) by (simp add: pmm_inv_def)
  have "unat (of_nat ?n :: u64) = ?n" using m(2) by (metis le_unat_uoi)
  then have f: "unat (free_pages (zones s' ! i)) + ?n = unat (free_pages ?z)"
    using m(2) l assms(2) unfolding 1(7) by (simp add: unat_sub word_le_nat_alt)
  have "frames s' x = (if x \<in> {z_pages ?z + st..<z_pages ?z + st + ?n}
      then map_option (\<lambda>pg. pg\<lparr>pg_mmzone := of_nat i, pg_refcnt := 1\<rparr>) (frames s x) else frames s x)" for x
  proof (cases "x \<in> {z_pages ?z + st..<z_pages ?z + st + ?n}")
    case True
    then have "x - (z_pages ?z + st) < ?n" "z_pages ?z + st + (x - (z_pages ?z + st)) = x" by auto
    then have "idle (frames s) x" using 1(2) unfolding run_at_def by metis
    then show ?thesis using True unfolding 1(5) by (auto simp: marked_def taken_def idle_def)
  next
    case False
    then show ?thesis unfolding 1(5) by (auto simp: marked_def)
  qed
  then show ?thesis using 1(1-4) m(1) f by auto
next
  case (2 lk)
  have "pmm_inv (with_lock i lk s)" by (rule with_lock_inv [OF assms(1-3) 2(2)])
  then show ?thesis using 2(1,3) by (auto simp: with_lock_def)
qed

definition page_ex :: "u64 \<Rightarrow> page" where
  "page_ex r = \<lparr>pg_mapping = NULL, pg_refcnt = r, pg_map_count = 0, pg_virtual = 0, pg_flags = 0, pg_mmzone = 1\<rparr>"

text \<open>A zone of three frames, the middle one in use.\<close>

definition pmm_ex :: pmm where
  "pmm_ex = (let z0 = \<lparr>z_start = 0, z_flags = 0, z_pages = NULL, nrpages = 0, free_pages = 0, z_size = 0, z_lock = SPINLOCK_INIT\<rparr> in
     \<lparr>zones = [z0, \<lparr>z_start = 0x1000000, z_flags = MM_ZONE_VALID, z_pages = 1, nrpages = 3, free_pages = 2, z_size = 0x3000, z_lock = SPINLOCK_INIT\<rparr>, z0, z0],
      frames = [1 \<mapsto> page_ex 0, 2 \<mapsto> page_ex 1, 3 \<mapsto> page_ex 0], zeroed = [], mounts = [], has_thread = True, pm_log = []\<rparr>)"

lemma pmm_ex_facts: "pmm_inv pmm_ex" "1 < NZONE" "zone_valid (zones pmm_ex ! 1)"
proof -
  have e: "{p. Suc 0 \<le> p \<and> p < 4 \<and> idle [Suc 0 \<mapsto> page_ex 0, 2 \<mapsto> page_ex 1, 3 \<mapsto> page_ex 0] p} = {1, 3}"
    by (auto simp: idle_def page_ex_def split: if_splits)
  have ok: "zone_ok (frames pmm_ex) (zones pmm_ex ! 1)"
    unfolding zone_ok_def zone_desc_def by (simp add: pmm_ex_def Let_def e)
  show "1 < NZONE" "zone_valid (zones pmm_ex ! 1)" by (simp_all add: NZONE_def zone_valid_def pmm_ex_def Let_def MM_ZONE_VALID_def)
  have d: "zone_desc (zones pmm_ex ! i) = {} \<and> span (zone_reg (zones pmm_ex ! i)) = {}" if "i < NZONE" "i \<noteq> 1" for i
  proof -
    have "i = 0 \<or> i = 2 \<or> i = 3" using that by (auto simp: NZONE_def)
    then show ?thesis by (auto simp: zone_desc_def zone_reg_def span_def pmm_ex_def Let_def)
  qed
  have "zone_desc (zones pmm_ex ! i) \<inter> zone_desc (zones pmm_ex ! j) = {} \<and> span (zone_reg (zones pmm_ex ! i)) \<inter> span (zone_reg (zones pmm_ex ! j)) = {}"
    if "i < j" "j < NZONE" for i j using d [of i] d [of j] that by (cases "i = 1") auto
  moreover have "\<forall>z\<in>set (zones pmm_ex). lk_free (z_lock z) \<and> (if zone_valid z then zone_ok (frames pmm_ex) z else nrpages z = 0 \<and> z_start z = 0)"
    using ok by (simp add: pmm_ex_def Let_def zone_valid_def MM_ZONE_VALID_def)
  moreover have "length (zones pmm_ex) = NZONE" by (simp add: pmm_ex_def Let_def NZONE_def)
  ultimately show "pmm_inv pmm_ex" unfolding pmm_inv_def by blast
qed

theorem alloc_pages_first_fit_witness:
  "\<exists>s'. alloc_pages \<lparr>self_tid = 1, self_cpu = 0\<rparr> GFP_NORMAL 0 pmm_ex = Some (1, s') \<and> pmm_inv s' \<and> unat (free_pages (zones s' ! 1)) = 1"
proof -
  have g: "alloc_where GFP_NORMAL = int 1" "GFP_NORMAL AND GFP_WAIT = 0" "GFP_NORMAL AND GFP_RETRY = 0" "GFP_NORMAL AND GFP_ZERO \<noteq> 0 \<longrightarrow> int 1 \<noteq> MM_ZONE_HIGH"
    by (simp_all add: alloc_where_def GFP_NORMAL_def GFP_WAIT_def GFP_RETRY_def GFP_ZERO_def)
  have r: "run_at (frames pmm_ex) 1 0 1" by (simp add: run_at_def idle_def pmm_ex_def Let_def page_ex_def)
  have z: "z_pages (zones pmm_ex ! 1) = 1" "nrpages (zones pmm_ex ! 1) = 3" "free_pages (zones pmm_ex ! 1) = 2" by (simp_all add: pmm_ex_def Let_def)
  have c: "\<exists>k. k + 2 ^ 0 \<le> unat (3 :: u64) \<and> run_at (frames pmm_ex) 1 k (2 ^ 0)" using r by (intro exI [of _ 0]) simp
  have st: "st = 0" if "\<forall>b < st. \<not> run_at (frames pmm_ex) 1 b (2 ^ 0)" for st using that r by (cases st) auto
  obtain p s' where t: "alloc_pages \<lparr>self_tid = 1, self_cpu = 0\<rparr> GFP_NORMAL 0 pmm_ex = Some (p, s')" "pmm_inv s'"
      "\<exists>st. p = 1 + st \<and> (\<forall>b < st. \<not> run_at (frames pmm_ex) 1 b (2 ^ 0)) \<and> unat (free_pages (zones s' ! 1)) + 2 ^ 0 = unat (2 :: u64)"
    using alloc_pages_first_fit [OF pmm_ex_facts g, of "\<lparr>self_tid = 1, self_cpu = 0\<rparr>" 0, unfolded z if_P [OF c]] by blast
  then show ?thesis using st by auto
qed

text \<open>Frames that are taken when idle and given back are idle again, and each of them gave up its last reference.\<close>

lemma released_marked:
  assumes run: "\<And>x. x \<in> {p..<p + n} \<Longrightarrow> idle h x"
  shows "last_refs (marked i p n h) p n = {p..<p + n}" "idle (released p n (marked i p n h)) x = idle h x"
    "x \<notin> {p..<p + n} \<Longrightarrow> released p n (marked i p n h) x = h x"
proof -
  have one: "\<exists>q. marked i p n h x = Some q \<and> pg_refcnt q = 1 \<and> released p n (marked i p n h) x = Some (put_page q)" if x: "x \<in> {p..<p + n}" for x
  proof -
    obtain q where "h x = Some q" "pg_refcnt q = 0" using run [OF x] by (auto simp: idle_def)
    then show ?thesis using x by (simp add: released_def marked_def taken_def)
  qed
  have out: "released p n (marked i p n h) x = h x" if "x \<notin> {p..<p + n}" for x using that by (auto simp: released_def marked_def)
  show "last_refs (marked i p n h) p n = {p..<p + n}" unfolding last_refs_def using one by blast
  show "idle (released p n (marked i p n h)) x = idle h x"
  proof (cases "x \<in> {p..<p + n}")
    case True
    then show ?thesis using one [OF True] run [OF True] by (auto simp: idle_def put_page_refcnt)
  next
    case False
    then show ?thesis using out by (simp add: idle_def)
  qed
  show "x \<notin> {p..<p + n} \<Longrightarrow> released p n (marked i p n h) x = h x" by (rule out)
qed




section \<open>The zone table\<close>

lemmas zone_size_defs = KiB_def MiB_def GiB_def

lemma zones_update:
  "[a, c, d, e][Suc 0 := x] = [a, x, d, e]" "[a, c, d, e][2 := x] = [a, c, x, e]" "[a, c, d, e][3 := x] = [a, c, d, x]"
  "replicate 4 a = [a, a, a, a]"
  by (simp_all add: numeral_eq_Suc)

lemma PGROUNDUP_aligned: "p AND PAGEMASK = 0 \<Longrightarrow> PGROUNDUP p = p"
  by (simp add: PGROUNDUP_def)

lemma NPAGE_mono_bound: "4096 \<le> unat (NPAGE p)" if "MiB 16 \<le> p"
proof -
  have "(MiB 16) div PAGESZ \<le> p div PAGESZ"
    using that by (simp add: word_le_nat_alt unat_div div_le_mono)
  then have q: "4096 \<le> unat (p div PAGESZ)"
    by (simp add: word_le_nat_alt zone_size_defs PAGESZ_def)
  have "p div PAGESZ < 2 ^ 60"
    unfolding word_less_nat_alt unat_div
    using unsigned_less [of p, where ?'a = nat] by (simp add: PAGESZ_def)
  then have "p div PAGESZ \<le> NPAGE p"
    unfolding NPAGE_def by (auto simp: word_le_nat_alt word_less_nat_alt unat_word_ariths)
  with q show ?thesis by (simp add: word_le_nat_alt)
qed

text \<open>C32: On a machine with 32 MiB to 2 GiB of memory the table has the DMA zone below 16 MiB and the normal zone from
  there to the end of memory, every frame of both free, their descriptor arrays do not overlap, and the two other
  zones stay as they were.\<close>

theorem enumerate_two_zones:
  assumes "length zs = NZONE" "KiB (memsize b) = m" "MiB 32 \<le> m" "m \<le> GiB 2" "enumerate_table b p zs = (zs', sz)"
  shows "sz = m - MiB 16 \<and> zs' = [zone_new p 0 (MiB 16), zone_new (p + unat (NPAGE sz)) (MiB 16) sz, zs ! 2, zs ! 3]
    \<and> z_start (zs' ! 1) + z_size (zs' ! 1) = m
    \<and> p + unat (nrpages (zs' ! 0)) \<le> z_pages (zs' ! 1)"
proof -
  obtain a c d e where zs: "zs = [a, c, d, e]"
    using assms(1) by (auto simp: NZONE_def length_Suc_conv numeral_eq_Suc)
  have le: "m - MiB 16 \<le> GiB 2 - MiB 16" "MiB 16 \<le> m - MiB 16"
    using assms(3,4) by (auto simp: zone_size_defs word_le_nat_alt unat_sub)
  then have mn: "min (m - MiB 16) (GiB 2 - MiB 16) = m - MiB 16" by simp
  have up: "PGROUNDUP (MiB 16) = MiB 16"
    by (rule PGROUNDUP_aligned) (simp add: zone_size_defs PAGEMASK_def PAGESZ_def)
  have sz: "sz = m - MiB 16"
    and zs': "zs' = [zone_new p 0 (MiB 16), zone_new (p + unat (NPAGE sz)) (MiB 16) sz, d, e]"
    using assms(5) by (auto simp: enumerate_table_def zs assms(2) mn zones_update Let_def)
  have "unat (MiB 16 div PAGESZ) = 4096" by (simp add: zone_size_defs PAGESZ_def)
  then show ?thesis
    using NPAGE_mono_bound [OF le(2)] by (simp add: sz zs' zs zone_new_def up)
qed

definition boot_ex :: "u64 \<Rightarrow> u64 \<Rightarrow> bootinfo" where
  "boot_ex mem high = \<lparr>memsize = mem, memhigh = high, mmap_ents = [], mods = [], descr = (\<lambda>_. 0), kernel_start = 0,
     kernel_end = 0, fb_addr = 0, fb_size = 0\<rparr>"

theorem enumerate_two_zones_witness:
  "snd (enumerate_table (boot_ex 0x20000 0) 7 (replicate 4 (zone_new 0 0 0))) = MiB 112"
  using enumerate_two_zones [of "replicate 4 (zone_new 0 0 0)" "boot_ex 0x20000 0" "MiB 128" 7
    "fst (enumerate_table (boot_ex 0x20000 0) 7 (replicate 4 (zone_new 0 0 0)))"
    "snd (enumerate_table (boot_ex 0x20000 0) 7 (replicate 4 (zone_new 0 0 0)))"]
  by (simp add: NZONE_def boot_ex_def zone_size_defs)


end
