(* ===== verification/SysMmap.thy ===== *)
theory SysMmap
imports AddressSpace Pmm
begin

text \<open>
  The memory system calls of \<open>sys/syscall/mmap.c\<close>: \<open>mmap\<close> (named \<open>sys_mmap\<close> here, where \<open>mmap\<close> is the
  type of address spaces), \<open>munmap\<close> and \<open>mprotect\<close>. They take the lock of the current process's address space \<open>m\<close>, call the
  operations of \<open>mm/mmap.c\<close> and release it. The file layer is a parameter of \<open>sys_mmap\<close>: \<open>file_get\<close> answers with an
  error and a file, \<open>fmmap\<close> is the driver's part of a mapping and may change the region; the file's own lock is
  not part of the state.
\<close>

section \<open>System calls\<close>

definition MAP_ANON :: u32 where "MAP_ANON = 0x0008"
definition VM_FILE :: u32 where "VM_FILE = 0x0020"

definition mmap_islocked :: "ctx \<Rightarrow> ptr \<Rightarrow> mm \<Rightarrow> bool option" where
  "mmap_islocked me m s = do { mp \<leftarrow> hget (maps s) m; Some (lk_held me (m_lock mp)) }"

text \<open>The end of \<open>mmap\<close> when something failed: the region is taken out again.\<close>

definition sys_mmap_error :: "ctx \<Rightarrow> ptr \<Rightarrow> int \<Rightarrow> ptr \<Rightarrow> mm \<Rightarrow> (u64 \<times> mm) option" where
  "sys_mmap_error me m err r s = do {
     (_, s) \<leftarrow> (if r \<noteq> NULL then mmap_remove me m r s else Some (0, s));
     locked \<leftarrow> mmap_islocked me m s;
     s \<leftarrow> (if locked then mmap_unlock me m s else Some s);
     Some (of_int err, s)
   }"

text \<open>The system call \<open>mmap\<close> on the address space \<open>m\<close> of the current process.\<close>

definition sys_mmap ::
  "(int \<Rightarrow> int \<times> ptr) \<Rightarrow> (ptr \<Rightarrow> ptr \<Rightarrow> mm \<Rightarrow> (int \<times> mm) option) \<Rightarrow> ctx \<Rightarrow> ptr
     \<Rightarrow> u64 \<Rightarrow> u64 \<Rightarrow> u32 \<Rightarrow> u32 \<Rightarrow> int \<Rightarrow> u64 \<Rightarrow> mm \<Rightarrow> (u64 \<times> mm) option" where
  "sys_mmap file_get fmmap me m addr len prot flags fd off s =
     (if has flags MAP_ANON \<and> fd \<noteq> -1 then Some (of_int (- EINVAL), s)
      else do {
        s \<leftarrow> mmap_lock me m s;
        (err, r, s) \<leftarrow> mmap_map_region me m addr len prot flags True s;
        if err \<noteq> 0 then sys_mmap_error me m err r s
        else do {
          v \<leftarrow> hget (vmrs s) r;
          let addr = v_start v;
          if has flags MAP_ANON then do { s \<leftarrow> mmap_unlock me m s; Some (addr, s) }
          else case file_get fd of (err, file) \<Rightarrow>
            if err \<noteq> 0 then sys_mmap_error me m err r s
            else do {
              s \<leftarrow> rupd r (\<lambda>v. v\<lparr>v_filesz := len, v_file_pos := off, v_flags := v_flags v OR VM_FILE, v_memsz := vmr_size v\<rparr>) s;
              (err, s) \<leftarrow> fmmap file r s;
              if err \<noteq> 0 then sys_mmap_error me m err r s
              else do { s \<leftarrow> mmap_unlock me m s; Some (addr, s) }
            }
        }
      })"

definition munmap :: "ctx \<Rightarrow> ptr \<Rightarrow> u64 \<Rightarrow> u64 \<Rightarrow> mm \<Rightarrow> (int \<times> mm) option" where
  "munmap me m addr len s =
     (if m = NULL \<or> \<not> isaligned addr then Some (- EINVAL, s)
      else do {
        s \<leftarrow> mmap_lock me m s;
        r \<leftarrow> mmap_find me m addr s;
        if r = NULL then do { s \<leftarrow> mmap_unlock me m s; Some (- EINVAL, s) }
        else do {
          (_, s) \<leftarrow> mmap_unmap me m addr (PGROUND len) s;
          s \<leftarrow> mmap_unlock me m s;
          Some (0, s)
        }
      })"

definition mprotect :: "ctx \<Rightarrow> ptr \<Rightarrow> u64 \<Rightarrow> u64 \<Rightarrow> u32 \<Rightarrow> mm \<Rightarrow> (int \<times> mm) option" where
  "mprotect me m addr len prot s =
     (if m = NULL then Some (- EINVAL, s)
      else do {
        s \<leftarrow> mmap_lock me m s;
        (err, s) \<leftarrow> mmap_protect me m addr len prot s;
        s \<leftarrow> mmap_unlock me m s;
        Some (err, s)
      })"

section \<open>Between system calls\<close>

text \<open>Between calls the address space is well formed and nobody holds its lock.\<close>

definition space_idle :: "ptr \<Rightarrow> mm \<Rightarrow> ptr list \<Rightarrow> bool" where
  "space_idle m s xs \<longleftrightarrow> mmap_inv s m xs \<and> lk_free (m_lock (the (maps s m)))"

definition relock :: "ptr \<Rightarrow> spinlock \<Rightarrow> mm \<Rightarrow> mm" where
  "relock m lk s = s\<lparr>maps := (maps s)(m \<mapsto> (the (maps s m))\<lparr>m_lock := lk\<rparr>)\<rparr>"

lemma relock_simps [simp]:
  "vmrs (relock m lk s) = vmrs s" "mm_mem (relock m lk s) = mm_mem s" "the (maps (relock m lk s) m) = (the (maps s m))\<lparr>m_lock := lk\<rparr>"
  "mm_used (relock m lk s) p = (vmrs s p \<noteq> None \<or> maps s p \<noteq> None \<or> p = m)"
  by (simp_all add: relock_def mm_used_def)

lemma relock_inv: "mmap_inv s m xs \<Longrightarrow> mmap_inv (relock m lk s) m xs"
  by (auto simp: mmap_inv_def mmap_list_def relock_def)

lemma relock_ok: "space_ok m (relock m lk s) xs q = space_ok m s xs q"
  by (cases q) simp_all

lemma mmap_inv_map: "mmap_inv s m xs \<Longrightarrow> m \<noteq> NULL \<and> maps s m = Some (the (maps s m))"
  by (auto simp: mmap_inv_def mmap_list_def)

lemma mmap_lock_ok:
  assumes "space_idle m s xs"
  obtains lk where "mmap_lock me m s = Some (relock m lk s)" "mmap_inv (relock m lk s) m xs" "mmap_locked me (relock m lk s) m"
proof -
  have inv: "mmap_inv s m xs" and fr: "lk_free (m_lock (the (maps s m)))" using assms by (simp_all add: space_idle_def)
  obtain lk where lk: "lk_acquire me (m_lock (the (maps s m))) = Some lk" "lk_held me lk" using lk_acquire_free [OF fr] by blast
  obtain mp where mp: "m \<noteq> NULL" "maps s m = Some mp" using mmap_inv_map [OF inv] by blast
  have "mmap_lock me m s = Some (relock m lk s)"
    using lk(1) mp by (simp add: mmap_lock_def mupd_def hupd_def hget_nonNULL relock_def)
  moreover have "mmap_locked me (relock m lk s) m" using lk(2) by (simp add: mmap_locked_def relock_def)
  ultimately show thesis using that relock_inv [OF inv] by blast
qed

lemma mmap_unlock_ok:
  assumes "mmap_inv s m xs" "mmap_locked me s m"
  obtains lk where "mmap_unlock me m s = Some (relock m lk s)" "space_idle m (relock m lk s) xs"
proof -
  obtain mp where mp: "m \<noteq> NULL" "maps s m = Some mp" "lk_held me (m_lock mp)"
    using assms mmap_inv_map [OF assms(1)] by (auto simp: mmap_locked_def)
  obtain lk where lk: "lk_release me (m_lock mp) = Some lk" "lk_free lk" using lk_release_held [OF mp(3)] by blast
  have "mmap_unlock me m s = Some (relock m lk s)"
    using lk(1) mp by (simp add: mmap_unlock_def mupd_def hupd_def hget_nonNULL relock_def)
  moreover have "space_idle m (relock m lk s) xs" using relock_inv [OF assms(1)] lk(2) by (simp add: space_idle_def)
  ultimately show thesis using that by blast
qed

lemma mmap_unlock_inv:
  assumes "space_inv me m s"
  shows "\<exists>s' xs. mmap_unlock me m s = Some s' \<and> space_idle m s' xs \<and> vmrs s' = vmrs s"
proof -
  obtain xs where "mmap_inv s m xs" "mmap_locked me s m" using assms by (auto simp: space_inv_def)
  then show ?thesis by (rule mmap_unlock_ok) (metis relock_simps(1))
qed

section \<open>Sequences of calls\<close>

text \<open>The calls of a program with anonymous mappings, and when they are covered: where the operation below is.\<close>

datatype mem_call =
    Call_mmap u64 u64 u32 u32
  | Call_munmap u64 u64
  | Call_mprotect u64 u64 u32

fun call_do ::
  "(int \<Rightarrow> int \<times> ptr) \<Rightarrow> (ptr \<Rightarrow> ptr \<Rightarrow> mm \<Rightarrow> (int \<times> mm) option) \<Rightarrow> ctx \<Rightarrow> ptr \<Rightarrow> mem_call \<Rightarrow> mm \<Rightarrow> (u64 \<times> mm) option" where
  "call_do fg fm me m (Call_mmap addr len prot flags) s = sys_mmap fg fm me m addr len prot flags (-1) 0 s"
| "call_do fg fm me m (Call_munmap addr len) s = do { (err, s) \<leftarrow> munmap me m addr len s; Some (of_int err, s) }"
| "call_do fg fm me m (Call_mprotect addr len prot) s = do { (err, s) \<leftarrow> mprotect me m addr len prot s; Some (of_int err, s) }"

fun call_ok :: "ptr \<Rightarrow> mm \<Rightarrow> ptr list \<Rightarrow> mem_call \<Rightarrow> bool" where
  "call_ok m s xs (Call_mmap addr len prot flags) \<longleftrightarrow> has flags MAP_ANON
     \<and> space_ok m s xs (if has flags MAP_FIXED then Map_fixed addr len prot flags else Map_any addr len prot flags)"
| "call_ok m s xs (Call_munmap addr len) \<longleftrightarrow> space_ok m s xs (Unmap addr (PGROUND len))"
| "call_ok m s xs (Call_mprotect addr len prot) \<longleftrightarrow> space_ok m s xs (Protect addr len prot)"

lemma sys_mmap_step:
  assumes "space_idle m s xs" "call_ok m s xs (Call_mmap addr len prot flags)"
  shows "\<exists>r s' ys. sys_mmap fg fm me m addr len prot flags (-1) off s = Some (r, s') \<and> space_idle m s' ys"
proof -
  obtain lk where lk: "mmap_lock me m s = Some (relock m lk s)" "mmap_inv (relock m lk s) m xs" "mmap_locked me (relock m lk s) m"
    by (rule mmap_lock_ok [OF assms(1)])
  let ?q = "if has flags MAP_FIXED then Map_fixed addr len prot flags else Map_any addr len prot flags"
  have an: "has flags MAP_ANON" and ok: "space_ok m (relock m lk s) xs ?q" using assms(2) by (simp_all only: call_ok.simps relock_ok)
  obtain err r t where t: "mmap_map_region me m addr len prot flags True (relock m lk s) = Some (err, r, t)" "space_inv me m t"
      "if err = 0 then r \<noteq> NULL \<and> vmrs t r \<noteq> None else r = NULL"
    using map_any_step [OF lk(2,3), of addr len prot flags] map_fixed_step [OF lk(2,3), of addr len prot flags] ok
    by (cases "has flags MAP_FIXED") (simp_all only: if_True if_False, blast+)
  obtain u ys where u: "mmap_unlock me m t = Some u" "space_idle m u ys" using mmap_unlock_inv [OF t(2)] by blast
  have il: "mmap_islocked me m t = Some True" "m \<noteq> NULL"
    using t(2) by (auto simp: space_inv_def mmap_locked_def mmap_islocked_def mmap_inv_def mmap_list_def hget_nonNULL)
  show ?thesis
  proof (cases "err = 0")
    case True
    then show ?thesis using t(3) an u by (auto simp: sys_mmap_def lk(1) t(1) hget_nonNULL Let_def)
  next
    case False
    then show ?thesis using t(3) an u il by (auto simp: sys_mmap_def lk(1) t(1) sys_mmap_error_def)
  qed
qed

lemma munmap_step:
  assumes "space_idle m s xs" "call_ok m s xs (Call_munmap addr len)"
  shows "\<exists>r s' ys. munmap me m addr len s = Some (r, s') \<and> space_idle m s' ys"
proof -
  obtain lk where lk: "mmap_lock me m s = Some (relock m lk s)" "mmap_inv (relock m lk s) m xs" "mmap_locked me (relock m lk s) m"
    by (rule mmap_lock_ok [OF assms(1)])
  obtain r where r: "mmap_find me m addr (relock m lk s) = Some r" using mmap_find_ok [OF lk(2,3), of addr] by blast
  obtain u where u: "mmap_unlock me m (relock m lk s) = Some u" "\<exists>ys. space_idle m u ys"
    using mmap_unlock_ok [OF lk(2,3)] by metis
  have ok: "space_ok m (relock m lk s) xs (Unmap addr (PGROUND len))" using assms(2) by (simp only: call_ok.simps relock_ok)
  obtain err t where t: "mmap_unmap me m addr (PGROUND len) (relock m lk s) = Some (err, t)" "space_inv me m t"
    using unmap_step [OF lk(2,3) ok] by blast
  obtain w ys where w: "mmap_unlock me m t = Some w" "space_idle m w ys" using mmap_unlock_inv [OF t(2)] by blast
  show ?thesis using assms(1) u w by (auto simp: munmap_def lk(1) r t(1))
qed

lemma mprotect_step:
  assumes "space_idle m s xs" "call_ok m s xs (Call_mprotect addr len prot)"
  shows "\<exists>r s' ys. mprotect me m addr len prot s = Some (r, s') \<and> space_idle m s' ys"
proof -
  obtain lk where lk: "mmap_lock me m s = Some (relock m lk s)" "mmap_inv (relock m lk s) m xs" "mmap_locked me (relock m lk s) m"
    by (rule mmap_lock_ok [OF assms(1)])
  have ok: "space_ok m (relock m lk s) xs (Protect addr len prot)" using assms(2) by (simp only: call_ok.simps relock_ok)
  obtain err t where t: "mmap_protect me m addr len prot (relock m lk s) = Some (err, t)" "space_inv me m t"
    using protect_step [OF lk(2,3) ok] by blast
  obtain w ys where w: "mmap_unlock me m t = Some w" "space_idle m w ys" using mmap_unlock_inv [OF t(2)] by blast
  show ?thesis using assms(1) w by (auto simp: mprotect_def lk(1) t(1))
qed

lemma call_step:
  assumes "space_idle m s xs" "call_ok m s xs c"
  shows "\<exists>r s' ys. call_do fg fm me m c s = Some (r, s') \<and> space_idle m s' ys"
proof (cases c)
  case (Call_mmap addr len prot flags)
  then show ?thesis using sys_mmap_step [OF assms(1), of addr len prot flags fg fm me 0] assms(2) by simp
next
  case (Call_munmap addr len)
  then show ?thesis using munmap_step [OF assms(1), of addr len me] assms(2) by auto
next
  case (Call_mprotect addr len prot)
  then show ?thesis using mprotect_step [OF assms(1), of addr len prot me] assms(2) by auto
qed

inductive call_reach ::
  "(int \<Rightarrow> int \<times> ptr) \<Rightarrow> (ptr \<Rightarrow> ptr \<Rightarrow> mm \<Rightarrow> (int \<times> mm) option) \<Rightarrow> ptr \<Rightarrow> mm \<Rightarrow> mm \<Rightarrow> bool"
  for fg :: "int \<Rightarrow> int \<times> ptr" and fm :: "ptr \<Rightarrow> ptr \<Rightarrow> mm \<Rightarrow> (int \<times> mm) option" and m :: ptr and s0 :: mm where
  boot: "call_reach fg fm m s0 s0"
| call: "call_reach fg fm m s0 s \<Longrightarrow> space_idle m s xs \<Longrightarrow> call_ok m s xs c \<Longrightarrow> call_do fg fm me m c s = Some (r, s')
    \<Longrightarrow> call_reach fg fm m s0 s'"

lemma call_reach_idle: "call_reach fg fm m s0 s \<Longrightarrow> space_idle m s0 xs0 \<Longrightarrow> \<exists>xs. space_idle m s xs"
proof (induction rule: call_reach.induct)
  case (call s xs c me r s')
  then show ?case using call_step [OF call(2,3), of fg fm me] by auto
qed blast

section \<open>Properties\<close>

text \<open>The address space of the example with its lock free.\<close>

definition idle_ex :: mm where "idle_ex = relock 1 SPINLOCK_INIT space_ex"

lemma idle_ex_facts:
  "space_idle 1 idle_ex [2]" "vregs idle_ex [2] = [(0x1000, 0x4000)]" "isaligned 0x2000" "PGROUND 0x2000 = 0x2000" "PGROUND 0x800 = 0"
  using relock_inv [OF space_ex_facts(1), of SPINLOCK_INIT] space_ex_facts(3)
  by (simp_all add: space_idle_def idle_ex_def isaligned_def PGROUND_def PAGEMASK_def PAGESZ_def)

text \<open>C11: In whatever order threads of a process call \<open>mmap\<close> for anonymous memory, \<open>munmap\<close> and \<open>mprotect\<close>, every covered
  call returns, leaves the address space a sorted list of disjoint regions, and releases the lock.\<close>

theorem memory_calls_safe:
  assumes "space_idle m s0 xs0" "call_reach fg fm m s0 s"
  shows "\<exists>xs. mmap_inv s m xs \<and> lk_free (m_lock (the (maps s m))) \<and> ordered (vregs s xs)
    \<and> (\<forall>me c. call_ok m s xs c \<longrightarrow> (\<exists>r s' ys. call_do fg fm me m c s = Some (r, s') \<and> mmap_inv s' m ys \<and> lk_free (m_lock (the (maps s' m)))))"
proof -
  obtain xs where xs: "space_idle m s xs" using call_reach_idle [OF assms(2,1)] by blast
  have "\<forall>me c. call_ok m s xs c \<longrightarrow> (\<exists>r s' ys. call_do fg fm me m c s = Some (r, s') \<and> mmap_inv s' m ys \<and> lk_free (m_lock (the (maps s' m))))"
    using call_step [OF xs] unfolding space_idle_def by blast
  then show ?thesis using xs unfolding space_idle_def mmap_inv_def by blast
qed

theorem memory_calls_safe_witness:
  "\<exists>r s. call_do (\<lambda>_. (0, 1)) (\<lambda>f r s. Some (0, s)) me_ex 1 (Call_munmap 0x1000 0x2000) idle_ex = Some (r, s)
     \<and> (\<exists>xs. mmap_inv s 1 xs \<and> lk_free (m_lock (the (maps s 1))) \<and> ordered (vregs s xs))"
proof -
  let ?fg = "\<lambda>_. (0, 1)" and ?fm = "\<lambda>f r s. Some (0, s)" and ?c = "Call_munmap 0x1000 0x2000"
  have ok: "call_ok 1 idle_ex [2] ?c" using idle_ex_facts(2,4) by (simp add: inside_def)
  obtain r s where s: "call_do ?fg ?fm me_ex 1 ?c idle_ex = Some (r, s)" using call_step [OF idle_ex_facts(1) ok] by blast
  have "call_reach ?fg ?fm 1 idle_ex s" by (rule call [OF boot idle_ex_facts(1) ok s])
  from memory_calls_safe [OF idle_ex_facts(1) this] s show ?thesis by blast
qed

text \<open>C34: A program can bring the kernel down: \<open>munmap\<close> of at least a page that begins strictly inside one of its regions
  passes every check of the system call and faults in \<open>vmr_split\<close>.\<close>

theorem munmap_inside_faults:
  assumes "space_idle m s xs" "isaligned addr" "inside (vregs s xs) (unat addr)" "PGROUND len \<noteq> 0" "unat addr + unat (PGROUND len) \<le> ulimit"
  shows "munmap me m addr len s = None"
proof -
  obtain lk where lk: "mmap_lock me m s = Some (relock m lk s)" "mmap_inv (relock m lk s) m xs" "mmap_locked me (relock m lk s) m"
    by (rule mmap_lock_ok [OF assms(1)])
  have i: "inside (vregs (relock m lk s) xs) (unat addr)" using assms(3) by simp
  obtain r where r: "mmap_find me m addr (relock m lk s) = Some r" "r \<noteq> NULL"
    using mmap_find_ok [OF lk(2,3), of addr] inside_covered [OF i] by blast
  have "m \<noteq> NULL" using mmap_inv_map [OF lk(2)] by blast
  then show ?thesis using assms(2) mmap_unmap_inside [OF lk(2,3) i assms(4,5)] r by (simp add: munmap_def lk(1))
qed

theorem munmap_inside_faults_witness: "munmap me_ex 1 0x2000 0x2000 idle_ex = None"
proof (rule munmap_inside_faults [OF idle_ex_facts(1,3)])
  show "inside (vregs idle_ex [2]) (unat (0x2000 :: u64))" unfolding idle_ex_facts(2) by (simp add: inside_def)
qed (simp_all add: idle_ex_facts(4) ulimit_eq)

text \<open>C35: \<open>munmap\<close> of less than a page reports success and unmaps nothing: the length is rounded down to 0 and the error of
  \<open>mmap_unmap\<close> is dropped.\<close>

theorem munmap_short_does_nothing:
  assumes "space_idle m s xs" "isaligned addr" "unat addr \<in> covered (vregs s xs)" "PGROUND len = 0"
  shows "\<exists>s'. munmap me m addr len s = Some (0, s') \<and> vmrs s' = vmrs s \<and> space_idle m s' xs \<and> pg_log s' = pg_log s"
proof -
  obtain lk where lk: "mmap_lock me m s = Some (relock m lk s)" "mmap_inv (relock m lk s) m xs" "mmap_locked me (relock m lk s) m"
    by (rule mmap_lock_ok [OF assms(1)])
  obtain r where r: "mmap_find me m addr (relock m lk s) = Some r" "r \<noteq> NULL"
    using mmap_find_ok [OF lk(2,3), of addr] assms(3) by auto
  obtain lk' where u: "mmap_unlock me m (relock m lk s) = Some (relock m lk' (relock m lk s))" "space_idle m (relock m lk' (relock m lk s)) xs"
    by (rule mmap_unlock_ok [OF lk(2,3)])
  have "m \<noteq> NULL" using mmap_inv_map [OF lk(2)] by blast
  then have "munmap me m addr len s = Some (0, relock m lk' (relock m lk s))"
    using assms(2,4) r u(1) by (simp add: munmap_def lk(1) mmap_unmap_def)
  then show ?thesis using u(2) by (auto simp: relock_def)
qed

theorem munmap_short_does_nothing_witness:
  "\<exists>s'. munmap me_ex 1 0x2000 0x800 idle_ex = Some (0, s') \<and> vmrs s' 2 = vmrs space_ex 2"
proof -
  have "unat (0x2000 :: u64) \<in> covered (vregs idle_ex [2])" unfolding idle_ex_facts(2) by (simp add: covered_def span_def)
  from munmap_short_does_nothing [OF idle_ex_facts(1,3) this idle_ex_facts(5), of me_ex] show ?thesis by (auto simp: idle_ex_def)
qed

end
