(* ===== verification/Spec2Isabelle.thy ===== *)
theory Spec2Isabelle
  imports Spinlock Queue Stack Ringbuf Btree Hash CString Vmm SysMmap
begin

text \<open>
  A verification development for the gingerOs kernel (\<open>src/kernel\<close>), a small x86-64 kernel in C.

  \<^bold>\<open>The program.\<close> The kernel is built in layers. Spin locks, which also nest the disabling of interrupts, protect
  every shared object. On them rest the containers of \<open>ds/\<close> (queues, stacks, byte rings, search trees, hash tables),
  which the scheduler, the pipes, the page cache and the file systems use. Memory has three managers: \<open>mm/pmm\<close> hands out page frames from zones,
  \<open>mm/vmm\<close> hands out page-aligned regions of the kernel's address range, and \<open>mm/mmap.c\<close> keeps the address space of a
  process as a sorted list of regions, which the system calls \<open>mmap\<close>, \<open>munmap\<close> and \<open>mprotect\<close> change. \<open>lib/\<close> has the
  string and character routines. Threads, files, devices and paging are built on these.

  \<^bold>\<open>How code becomes definitions.\<close> A C function is a HOL function of the same name that takes the state and returns
  its result with the new state, in the option monad. \<open>None\<close> stands for everything after which the C function does
  not return normally: a failed assertion, a panic, an access through NULL or to a freed object, taking a lock
  twice, a loop that does not end. An error the code reports is a value, a negative error number as in the source.
  A structure is a record, and its objects live in a typed heap from pointers (numbers, NULL is 0) to records. Machine
  integers are words of their width and wrap around. A loop over a counter is structural recursion on the iterations left; a loop that
  follows pointers is a \<open>partial_function (option)\<close>, so no fuel is chosen anywhere and a claim that such a loop returns is
  proved. The allocator's answers (\<open>kmalloc\<close>) are a list in the state, any of which may be NULL. Calls into the paging layer
  are recorded in the state, which also holds the answers they give.

  \<^bold>\<open>Theories.\<close>
  \<^item> \<open>Prelude\<close>: pointers, heaps, error numbers, allocation, doubly linked chains (locale \<open>dll_node\<close>, interpreted for the
    nodes of queues, of hash tables, of the virtual memory manager and of address spaces).
  \<^item> \<open>Containers\<close>: the contracts \<open>container\<close>, \<open>fifo\<close>, \<open>lifo\<close> and \<open>key_map\<close>, with the consequences clients rely on.
  \<^item> \<open>Spinlock\<close> (\<open>include/sync/spinlock.h\<close>, \<open>atomic.h\<close>, \<open>preempt.h\<close>): the lock macros as one context executes them and as
    steps of any number of contexts. Mutual exclusion holds in every interleaving; \<open>pushcli\<close> and \<open>popcli\<close> nest.
  \<^item> \<open>Queue\<close> (\<open>ds/queue.c\<close>), \<open>Stack\<close> (\<open>ds/stack.c\<close>), \<open>Ringbuf\<close> (\<open>ds/ringbuf.c\<close>), \<open>Btree\<close> (\<open>ds/btree.c\<close>): every routine, its behaviour on every
    branch with what it leaves unchanged, and the refinement of \<open>fifo\<close>, \<open>lifo\<close>, \<open>fifo\<close> and \<open>key_map\<close> by interpretation.
  \<^item> \<open>Hash\<close> (\<open>ds/hash.c\<close>): chains of nodes behind a search tree, with the client's functions as fields of the context; what
    insertion, search and deletion do to the data of each hash value, and the two ways in which the code goes wrong.
  \<^item> \<open>Bytes\<close>, \<open>Ctype\<close>, \<open>CString\<close> (\<open>lib/string.c\<close>, \<open>lib/ctype.c\<close>): byte-addressed memory; the routines that work by words agree
    with their byte-wise meaning at every alignment.
  \<^item> \<open>Regions\<close>: lists of address regions, gaps, and the contract \<open>region_allocator\<close>.
  \<^item> \<open>Vmm\<close> (\<open>mm/vmm/vmm.c\<close>): the free, used and spare lists over the static array of nodes; first fit, exact release, and that no
    sequence of page-aligned requests from boot on panics (interpretation of \<open>region_allocator\<close>).
  \<^item> \<open>Pmm\<close> (\<open>mm/pmm/mm_zone.c\<close>, \<open>mm/pmm/zone_page.c\<close>): zones, frames and their reference counts; first fit in one pass, the
    round trip of taking and giving back frames, the table of zones made at boot.
  \<^item> \<open>Mmap\<close> (\<open>mm/mmap.c\<close>, \<open>include/mm/mmap.h\<close>): the definitions of address spaces and the invariant; \<open>MmapList\<close>: insertion and
    removal; \<open>MmapSpace\<close>: unmapping and the search for holes; \<open>MmapOps\<close>: new regions, growth, protection, creation and
    copying; \<open>AddressSpace\<close>: the properties of the calls and of sequences of them.
  \<^item> \<open>SysMmap\<close> (\<open>sys/syscall/mmap.c\<close>): the system calls over \<open>AddressSpace\<close>, with the lock taken and released.

  \<^bold>\<open>What the properties cover.\<close> The container, string and kernel region properties hold for all inputs that satisfy the
  representation invariant they name; a byte ring needs a size that is a power of two. The address space properties
  need requests whose range does not wrap around and, for unmapping and fixed mappings, does not begin strictly inside a
  region; the theorems named \<open>_faults\<close>, \<open>_never_succeeds\<close>, \<open>_does_nothing\<close>, \<open>_shares\<close>, \<open>_overlap\<close>,
  \<open>_loses\<close> and \<open>_panics\<close> state what the code does outside
  those conditions or against its purpose. The frame properties need a caller that does not retry; orders are below 64. Apart
  from \<open>Spinlock\<close>, a routine runs as one context that holds the locks it needs.

  \<^bold>\<open>Not modelled.\<close> Threads, the scheduler, signals and condition variables switch contexts in the middle of routines. Paging,
  interrupts, devices and boot code work on machine state. Files and file systems dispatch through tables of functions over
  shared objects; where \<open>mmap\<close> calls them they are parameters. The heap \<open>liballoc\<close> appears as its contract only.
  Formatted output, \<open>strstr\<close>, \<open>tokenize\<close>, \<open>mmap_argenvcpy\<close>, routines that only print, and the user programs are left out.
\<close>

end
